(* ===== verification/Prelude.thy ===== *)
theory Prelude
  imports Main "HOL-Library.Word"
begin

text \<open>
  The shared layer of the development: the machine-integer types of the C code, the lemma
  collection \<open>word_nat\<close> that turns an equation on machine words into one on natural
  numbers, the bit lemmas (lowest set bit, carries) that several components use, and the
  contract of an invariant of a step relation.
\<close>

unbundle bit_operations_syntax

section \<open>Types\<close>

text \<open>
  The C types with a fixed width. The width of \<open>unsigned long\<close> depends on the build
  (32 for the shipped \<^verbatim>\<open>.config\<close>, 64 for the spike and qemu configurations), so
  definitions over \<open>unsigned long\<close> are written for an arbitrary word type
  \<^typ>\<open>'w::len word\<close> unless the code fixes the width.
\<close>

type_synonym u8 = "8 word"
type_synonym u16 = "16 word"
type_synonym u32 = "32 word"
type_synonym u64 = "64 word"

section \<open>Words as natural numbers\<close>

named_theorems word_nat \<open>rules that read machine words as natural numbers\<close>

lemma unat_ucast_word [word_nat]:
  "unat (ucast (x :: 'a::len word) :: 'b::len word) = unat x mod 2 ^ LENGTH('b)"
  by (simp add: unsigned_ucast_eq take_bit_eq_mod)

lemma unat_drop_bit_word [word_nat]:
  "unat (drop_bit n (x :: 'a::len word)) = unat x div 2 ^ n"
  by (subst unat_drop_bit_eq) (simp add: drop_bit_eq_div)

lemma unat_take_bit_word [word_nat]:
  "unat (take_bit n (x :: 'a::len word)) = unat x mod 2 ^ n"
proof -
  have "unat (take_bit n x) = take_bit n (unat x)"
    by (rule unsigned_take_bit_eq)
  then show ?thesis by (simp add: take_bit_eq_mod)
qed

lemma unat_push_bit_word [word_nat]:
  "unat (push_bit n (x :: 'a::len word)) = unat x * 2 ^ n mod 2 ^ LENGTH('a)"
  by (subst unsigned_push_bit_eq) (simp add: take_bit_eq_mod push_bit_eq_mult)

lemma unat_add_word [word_nat]:
  "unat (x + y :: 'a::len word) = (unat x + unat y) mod 2 ^ LENGTH('a)"
  by (rule unat_word_ariths)

lemma unat_mult_word [word_nat]:
  "unat (x * y :: 'a::len word) = (unat x * unat y) mod 2 ^ LENGTH('a)"
  by (rule unat_word_ariths)

lemma unat_div_word [word_nat]:
  "unat (x div y :: 'a::len word) = unat x div unat y"
  by (rule unat_div)

lemma unat_mod_word [word_nat]:
  "unat (x mod y :: 'a::len word) = unat x mod unat y"
  by (rule unat_mod)

lemma unat_less_word [word_nat]: "(x < y) = (unat x < unat (y :: 'a::len word))"
  by (rule word_less_nat_alt)

lemma unat_le_word [word_nat]: "(x \<le> y) = (unat x \<le> unat (y :: 'a::len word))"
  by (rule word_le_nat_alt)

lemma unat_eq_word [word_nat]: "(x = y) = (unat x = unat (y :: 'a::len word))"
  by (rule word_unat_eq_iff)

lemma unat_and_mask_word:
  "unat (x AND mask n :: 'a::len word) = unat x mod 2 ^ n"
  by (simp add: unat_take_bit_word flip: take_bit_eq_mask)

lemma unat_bound: "unat (x :: 'a::len word) < 2 ^ LENGTH('a)"
  by (rule unsigned_less)

lemma unat_max_word: "unat (- 1 :: 'a::len word) = 2 ^ LENGTH('a) - 1"
  by (simp add: unsigned_minus_1_eq_mask mask_eq_exp_minus_1)

lemma unat_widen32: "unat (ucast (b :: u32) :: u64) = unat b"
  using unat_bound [of b] by (simp add: unat_ucast_word)

text \<open>
  The carry out of an addition, as the C code detects it (\<open>sum < operand\<close>), restores the
  bits a 64-bit addition loses.
\<close>

lemma carry_shift:
  fixes a b :: u64
  shows "unat (drop_bit 32 (a + b) + (if a + b < a then push_bit 32 1 else 0))
    = (unat a + unat b) div 2 ^ 32"
proof -
  have bounds: "unat a < 2 ^ 64" "unat b < 2 ^ 64"
    using unat_bound [of a] unat_bound [of b] by simp_all
  show ?thesis
  proof (cases "unat a + unat b < 2 ^ 64")
    case True
    then have "\<not> a + b < a"
      by (simp add: word_nat)
    with True bounds show ?thesis
      by (simp add: word_nat)
  next
    case False
    then have sum: "unat (a + b) = unat a + unat b - 2 ^ 64"
      using bounds by (simp add: word_nat mod_if)
    then have less: "a + b < a"
      using bounds False unfolding word_less_nat_alt by linarith
    have "unat (a + b) div 2 ^ 32 + 2 ^ 32 = (unat (a + b) + 2 ^ 64) div 2 ^ 32"
      by simp
    also have "\<dots> = (unat a + unat b) div 2 ^ 32"
      using False by (simp add: sum)
    finally have eq: "unat (a + b) div 2 ^ 32 + 2 ^ 32 = (unat a + unat b) div 2 ^ 32" .
    have "(unat a + unat b) div 2 ^ 32 < 2 ^ 64"
      using bounds by simp
    with less eq show ?thesis
      by (simp add: unat_add_word [where x = "drop_bit 32 (a + b)"] unat_drop_bit_word)
  qed
qed

section \<open>Bits\<close>

lemma even_unat [simp]: "even (unat (m :: 'a::len word)) \<longleftrightarrow> even m"
proof -
  have "bit (unat m) 0 = bit m 0" by (simp add: bit_unsigned_iff)
  then show ?thesis by (simp add: bit_0)
qed

lemma bit_word_unat: "bit (m :: 'a::len word) i \<longleftrightarrow> odd (unat m div 2 ^ i)"
  by (simp add: bit_iff_odd_drop_bit flip: unat_drop_bit_word)

lemma odd_and_minus: "odd q \<Longrightarrow> q AND - q = (1 :: 'a::len word)"
proof -
  assume "odd q"
  then have "q - 1 = unset_bit 0 q"
    by (simp add: unset_bit_eq bit_0)
  then have "q AND - q = q AND NOT (unset_bit 0 q)"
    by (simp add: minus_eq_not_minus_1)
  also have "\<dots> = 1"
    using \<open>odd q\<close>
    by (intro bit_word_eqI) (auto simp: bit_and_iff bit_not_iff bit_unset_bit_iff bit_1_iff bit_0)
  finally show ?thesis .
qed

lemma unat_exp_word:
  assumes "j < LENGTH('a)"
  shows "unat (2 ^ j :: 'a::len word) = 2 ^ j"
proof -
  have "unat (push_bit j 1 :: 'a word) = 2 ^ j mod 2 ^ LENGTH('a)"
    by (simp only: unat_push_bit_word unsigned_1 mult_1)
  also have "\<dots> = 2 ^ j"
    using assms by (intro mod_less power_strict_increasing) simp_all
  finally show ?thesis by (simp add: push_bit_eq_mult)
qed

text \<open>\<open>m & -m\<close> is the largest power of two that divides \<open>m\<close>.\<close>

lemma lowbit_word:
  fixes m :: "'a::len word"
  assumes "m \<noteq> 0"
  obtains j where "j < LENGTH('a)" "m AND - m = 2 ^ j" "2 ^ j dvd unat m"
    "odd (unat m div 2 ^ j)"
proof -
  define j where "j = (LEAST i. bit m i)"
  have "\<exists>i. bit m i"
    using assms by (auto intro: ccontr bit_word_eqI)
  then have bj: "bit m j"
    unfolding j_def by (rule LeastI_ex)
  have low: "\<not> bit m i" if "i < j" for i
    using that not_less_Least unfolding j_def by blast
  have len: "j < LENGTH('a)"
    using bj by (rule bit_imp_le_length)
  have z: "take_bit j m = 0"
    by (rule bit_word_eqI) (auto simp: bit_take_bit_iff low)
  define q where "q = drop_bit j m"
  have m: "m = push_bit j q"
    using bits_ident [of j m] z by (simp add: q_def)
  have "odd q"
    using bj by (simp add: q_def bit_iff_odd_drop_bit)
  have "m AND - m = push_bit j (q AND - q)"
    by (simp add: m flip: push_bit_minus push_bit_and)
  then have e: "m AND - m = 2 ^ j"
    using odd_and_minus [OF \<open>odd q\<close>] by (simp add: push_bit_eq_mult)
  have "take_bit j (unat m) = 0"
    using z by (metis unsigned_take_bit_eq unat_0)
  then have d: "2 ^ j dvd unat m"
    by (simp add: take_bit_eq_0_iff)
  have "odd (unat q)"
    using \<open>odd q\<close> by simp
  then have o: "odd (unat m div 2 ^ j)"
    by (simp add: q_def unat_drop_bit_word)
  show thesis
    using len e d o that by blast
qed

text \<open>Clearing the low bits rounds down.\<close>

lemma and_not_mask: "x AND NOT (mask n) = (push_bit n (drop_bit n x) :: 'a::len word)"
  by (rule bit_word_eqI) (auto simp: bit_simps)

lemma unat_round_down: "unat (x AND NOT (mask n) :: 'a::len word) = unat x div 2 ^ n * 2 ^ n"
proof -
  have "unat x div 2 ^ n * 2 ^ n \<le> unat x" by simp
  then have "unat x div 2 ^ n * 2 ^ n < 2 ^ LENGTH('a)" using unat_bound [of x] by (rule order_le_less_trans)
  then show ?thesis by (simp add: and_not_mask unat_push_bit_word unat_drop_bit_word)
qed

section \<open>Invariants of step relations\<close>

locale stepping =
  fixes init :: "'s \<Rightarrow> bool" and step :: "'s \<Rightarrow> 's \<Rightarrow> bool" and inv :: "'s \<Rightarrow> bool"
  assumes init_inv: "init s \<Longrightarrow> inv s"
    and step_inv: "step s t \<Longrightarrow> inv s \<Longrightarrow> inv t"
begin

lemma run_inv: "step\<^sup>*\<^sup>* s t \<Longrightarrow> inv s \<Longrightarrow> inv t"
  by (induction rule: rtranclp_induct) (auto intro: step_inv)

lemma reachable_inv: "init s \<Longrightarrow> step\<^sup>*\<^sup>* s t \<Longrightarrow> inv t"
  by (rule run_inv [OF _ init_inv])

end

end
