(* ===== verification/Reciprocal.thy ===== *)
theory Reciprocal
  imports Prelude
begin

text \<open>
  The number theory behind division by a constant with a multiplication: for a divisor \<open>B\<close>
  with \<open>P = 2 ^ k < B < 2 P\<close> and \<open>W = 2 ^ 64\<close>, when \<open>M N / (W P)\<close> with a rounded
  reciprocal \<open>M\<close> of \<open>B / (W P)\<close> is the quotient \<open>N / B\<close> for every
  \<open>N < W\<close>. All statements are on natural numbers; the theory \<^verbatim>\<open>Div64\<close> reads the
  words of \<^verbatim>\<open>asm/div64.h\<close> with them.
\<close>

section \<open>Powers of two and binary logarithms\<close>

lemma pow2_unique:
  assumes "(2::nat) ^ j \<le> 2 ^ k" "(2::nat) ^ k < 2 * 2 ^ j"
  shows "j = k"
proof (rule ccontr)
  assume "j \<noteq> k"
  with assms(1) have "Suc j \<le> k" by simp
  then have "(2::nat) ^ Suc j \<le> 2 ^ k" by (rule power_increasing) simp
  with assms(2) show False by simp
qed

lemma pow2_dvd_pow2:
  fixes B :: nat
  shows "B dvd 2 ^ n \<Longrightarrow> \<exists>j. B = 2 ^ j"
proof (induction n arbitrary: B)
  case 0
  then show ?case by (intro exI [of _ 0]) simp
next
  case (Suc n)
  show ?case
  proof (cases "even B")
    case True
    then obtain c where "B = 2 * c" by blast
    with Suc obtain j where "c = 2 ^ j" by auto
    with \<open>B = 2 * c\<close> show ?thesis by (intro exI [of _ "Suc j"]) simp
  next
    case False
    then have "coprime B (2 ^ Suc n)" by simp
    from this dvd_refl Suc.prems have "is_unit B" by (rule coprime_common_divisor)
    then show ?thesis by (intro exI [of _ 0]) simp
  qed
qed

fun log2_nat :: "nat \<Rightarrow> nat" where
  "log2_nat n = (if n < 2 then 0 else Suc (log2_nat (n div 2)))"

declare log2_nat.simps [simp del]

lemma log2_nat_bounds: "0 < n \<Longrightarrow> 2 ^ log2_nat n \<le> n \<and> n < 2 * 2 ^ log2_nat n"
proof (induction n rule: log2_nat.induct)
  case (1 n)
  show ?case
  proof (cases "n < 2")
    case False
    then have "2 ^ log2_nat (n div 2) \<le> n div 2 \<and> n div 2 < 2 * 2 ^ log2_nat (n div 2)"
      by (intro 1) simp_all
    moreover have "log2_nat n = Suc (log2_nat (n div 2))"
      using False by (simp add: log2_nat.simps [of n])
    ultimately show ?thesis by simp linarith
  qed (use 1 in \<open>simp add: log2_nat.simps\<close>)
qed

lemma log2_nat_exp: "log2_nat (2 ^ k) = k"
  using log2_nat_bounds [of "2 ^ k"] by (intro pow2_unique) simp_all

section \<open>Division by multiplication with a rounded reciprocal\<close>

lemma div_eqI_nat:
  fixes a b q :: nat
  assumes "q * b \<le> a" "a < (q + 1) * b"
  shows "a div b = q"
  using assms by (intro div_nat_eqI) (simp_all add: algebra_simps)

lemma div_eqI_scaled:
  fixes a b q k :: nat
  assumes "q * b * k \<le> a * k" "a * k < (q + 1) * b * k"
  shows "a div b = q"
proof (rule div_eqI_nat)
  have "0 < k" using assms by (cases k) simp_all
  then show "q * b \<le> a" "a < (q + 1) * b"
    using assms by (simp_all only: mult_le_cancel2 mult_less_cancel2)
qed

text \<open>Rounding the reciprocal up (\<open>M B = W P + e\<close>) is exact while the error stays small.\<close>

lemma recip_up:
  fixes M B W P N e :: nat
  assumes M: "M * B = W * P + e" and B: "0 < B" and e: "e < 2 * P"
    and err: "N mod B = B - 1 \<Longrightarrow> N * e < W * P" and N: "N < W"
  shows "M * N div W div P = N div B"
proof -
  define a c V where "a = N div B" and "c = N mod B" and "V = W * P"
  have Nac: "N = a * B + c" and c: "c < B" using B by (simp_all add: a_def c_def)
  have MN: "M * N * B = N * V + N * e"
    using M unfolding V_def by (metis add_mult_distrib mult.assoc mult.commute)
  have gap: "N * e < (B - c) * V"
  proof (cases "c = B - 1")
    case True
    then show ?thesis using err B by (simp add: c_def V_def)
  next
    case False
    then have "2 * V \<le> (B - c) * V" using c by (intro mult_right_mono) simp_all
    moreover have "N * e \<le> W * e" using N by (intro mult_right_mono) simp_all
    moreover have "W * e < W * (2 * P)" using e N by simp
    moreover have "W * (2 * P) = 2 * V" by (simp add: V_def)
    ultimately show ?thesis by linarith
  qed
  have "a * V * B = (a * B) * V" by (simp only: ac_simps)
  also have "\<dots> \<le> N * V" by (rule mult_right_mono) (simp_all add: Nac)
  also have "\<dots> \<le> M * N * B" by (simp add: MN)
  finally have lower: "a * V * B \<le> M * N * B" .
  have "M * N * B < N * V + (B - c) * V"
    unfolding MN using gap by simp
  also have "\<dots> = (N + (B - c)) * V" by (simp only: add_mult_distrib)
  also have "N + (B - c) = (a + 1) * B" using c by (simp add: Nac)
  also have "(a + 1) * B * V = (a + 1) * V * B" by (simp only: ac_simps)
  finally have "M * N div V = a" using lower by (intro div_eqI_scaled)
  then show ?thesis by (simp add: a_def V_def div_mult2_eq)
qed

text \<open>Rounding it down needs the bias: \<open>M (N + 1)\<close> in place of \<open>M N\<close>.\<close>

lemma recip_down:
  fixes M B W P N e :: nat
  assumes M: "M * B + e = W * P" and B: "0 < B" and e: "0 < e" "e \<le> P" and N: "N < W"
  shows "M * (N + 1) div W div P = N div B"
proof -
  define a c V where "a = N div B" and "c = N mod B" and "V = W * P"
  have Nac: "N = a * B + c" and c: "c < B" using B by (simp_all add: a_def c_def)
  have MN: "M * (N + 1) * B + (N + 1) * e = (N + 1) * V"
    using M unfolding V_def by (metis add_mult_distrib2 mult.assoc mult.commute)
  have "(N + 1) * e \<le> V" unfolding V_def using N e by (intro mult_mono) auto
  moreover have "(N + 1) * V = a * V * B + c * V + V"
    by (simp add: Nac algebra_simps)
  ultimately have lower: "a * V * B \<le> M * (N + 1) * B" using MN by linarith
  have "0 < (N + 1) * e" using e by simp
  then have "M * (N + 1) * B < (N + 1) * V" using MN by linarith
  also have "\<dots> \<le> (a + 1) * B * V"
    using c by (intro mult_right_mono) (simp_all add: Nac)
  also have "\<dots> = (a + 1) * V * B" by (simp only: ac_simps)
  finally have "M * (N + 1) div V = a" using lower by (intro div_eqI_scaled)
  then show ?thesis by (simp add: a_def V_def div_mult2_eq)
qed

text \<open>The code's test at the worst dividend \<open>X\<close> decides whether rounding up is exact.\<close>

lemma recip_test:
  fixes M B W P X e :: nat
  assumes M: "M * B = W * P + e" and B: "0 < B" and WP: "0 < W * P" and X: "X mod B = B - 1"
  shows "M * X div W div P = X div B \<longleftrightarrow> X * e < W * P"
proof -
  define a V where "a = X div B" and "V = W * P"
  have "X + 1 = a * B + (X mod B + 1)" by (simp add: a_def)
  then have XB: "X + 1 = (a + 1) * B" using B by (simp add: X)
  have MX: "M * X * B = X * V + X * e"
    using M unfolding V_def by (metis add_mult_distrib mult.assoc mult.commute)
  have eq: "(a + 1) * V * B = X * V + V"
  proof -
    have "(a + 1) * V * B = (a + 1) * B * V" by (simp only: ac_simps)
    also have "\<dots> = (X + 1) * V" by (simp only: XB)
    finally show ?thesis by simp
  qed
  have "a * V * B = (a * B) * V" by (simp only: ac_simps)
  also have "\<dots> \<le> X * V" by (rule mult_right_mono) (simp_all add: a_def)
  also have "\<dots> \<le> M * X * B" by (simp add: MX)
  finally have lower: "a * V * B \<le> M * X * B" .
  have V: "0 < V" using WP by (simp add: V_def)
  have "M * X div V = a \<longleftrightarrow> X * e < V"
  proof
    assume "M * X div V = a"
    then have "M * X < (a + 1) * V"
      using V dividend_less_div_times [of V "M * X"] by simp
    then have "M * X * B < (a + 1) * V * B" using B by (simp only: mult_less_cancel2)
    then show "X * e < V" unfolding MX eq by simp
  next
    assume "X * e < V"
    then have "M * X * B < (a + 1) * V * B" unfolding MX eq by simp
    with lower show "M * X div V = a" by (rule div_eqI_scaled)
  qed
  then show ?thesis by (simp add: a_def V_def div_mult2_eq)
qed

text \<open>An odd divisor of \<open>W - 1\<close>: the reciprocal is exact up to the bias.\<close>

lemma recip_exact:
  fixes d N W :: nat
  assumes d: "d dvd W - 1" "0 < d" and N: "N < W"
  shows "(W - 1) div d * (N + 1) div W = N div d"
proof -
  obtain k where k: "W - 1 = d * k" using d by blast
  have W: "W = d * k + 1" using k N by simp
  define a c where "a = N div d" and "c = N mod d"
  have Nac: "N = a * d + c" and c: "c < d" using d by (simp_all add: a_def c_def)
  have dk: "(W - 1) div d = k" using k d by simp
  have "a * d \<le> N" by (simp add: Nac)
  also have "N \<le> k * d" using N by (simp add: W mult.commute)
  finally have ak: "a \<le> k" using d by (simp only: mult_le_cancel2)
  have lower: "a * W \<le> k * (N + 1)"
  proof -
    have "a * W = a * d * k + a" by (simp add: W algebra_simps)
    also have "\<dots> \<le> a * d * k + k * (c + 1)" using ak by simp
    also have "\<dots> = k * (N + 1)" by (simp add: Nac algebra_simps)
    finally show ?thesis .
  qed
  have upper: "k * (N + 1) < (a + 1) * W"
  proof -
    have "k * (N + 1) \<le> k * ((a + 1) * d)" using c by (intro mult_left_mono) (simp_all add: Nac)
    also have "\<dots> < (a + 1) * W" by (simp add: W algebra_simps)
    finally show ?thesis .
  qed
  show ?thesis unfolding dk a_def [symmetric] using lower upper by (rule div_eqI_nat)
qed

lemma recip_split:
  fixes W P B c :: nat
  assumes "0 < W" "0 < B"
  shows "(W - 1) div B * P + (((W - 1) mod B + 1) * P + c) div B = (W * P + c) div B"
proof -
  have "W = (W - 1) div B * B + (W - 1) mod B + 1"
    using assms by simp
  then have "W * P = (W - 1) div B * P * B + ((W - 1) mod B + 1) * P"
    by (metis add.assoc add_mult_distrib mult.assoc mult.commute)
  then have eq: "W * P + c = ((W - 1) mod B + 1) * P + c + (W - 1) div B * P * B"
    by simp
  have "B \<noteq> 0" using assms by simp
  then show ?thesis unfolding eq by (subst div_mult_self1) simp_all
qed

lemma reduce_exact:
  fixes M N P W s :: nat
  assumes M: "2 ^ s dvd M" and P: "2 ^ s dvd P"
  shows "M div 2 ^ s * N div W div (P div 2 ^ s) = M * N div W div P"
proof -
  obtain M' P' where M': "M = 2 ^ s * M'" and P': "P = 2 ^ s * P'"
    using M P by (metis dvdE)
  have "M * N div W div P = 2 ^ s * (M' * N) div (2 ^ s * (W * P'))"
    by (simp add: M' P' div_mult2_eq [symmetric] mult.assoc mult.left_commute)
  also have "\<dots> = M' * N div (W * P')" by simp
  finally show ?thesis by (simp add: M' P' div_mult2_eq)
qed

text \<open>
  The divisor on the naturals: \<open>B\<close> with \<open>2 ^ k < B < 2 ^ (k + 1)\<close>, its reciprocal
  \<open>M\<close> rounded up and \<open>M2\<close> rounded down, and the worst dividend \<open>X\<close>.
\<close>

lemma not_dvd_pow2:
  fixes B :: nat
  assumes "2 ^ k < B" "B < 2 * 2 ^ k"
  shows "\<not> B dvd 2 ^ n"
proof
  assume "B dvd 2 ^ n"
  then obtain j where j: "B = 2 ^ j" using pow2_dvd_pow2 by blast
  with assms have "(2::nat) ^ k < 2 ^ j" "(2::nat) ^ j < 2 ^ (k + 1)" by simp_all
  then have "k < j \<and> j < k + 1"
    by (simp only: power_strict_increasing_iff one_less_numeral_iff semiring_norm(76))
  then show False by linarith
qed

lemma ceil_recip:
  fixes B V :: nat
  assumes B: "0 < B" and nd: "\<not> B dvd V"
  obtains e where "(V + (B - 1)) div B * B = V + e" "V div B * B + (B - e) = V" "0 < e" "e < B"
proof -
  define s where "s = V mod B"
  have s: "0 < s" "s < B" using B nd by (simp_all add: s_def mod_greater_zero_iff_not_dvd)
  have V: "V = V div B * B + s" by (simp add: s_def)
  have "(V + (B - 1)) div B = V div B + 1"
  proof (rule div_eqI_nat)
    show "(V div B + 1) * B \<le> V + (B - 1)" using s by (subst (2) V) simp
    show "V + (B - 1) < (V div B + 1 + 1) * B" using s by (subst (1) V) simp
  qed
  then have "(V + (B - 1)) div B * B = V + (B - s)"
    using s V by simp
  then show thesis using that [of "B - s"] s V by simp
qed

lemma worst_dividend:
  fixes B N :: nat
  assumes B: "1 < B" and nd: "\<not> B dvd W" and W: "B < W"
  defines "X \<equiv> (W - 1) div B * B - 1"
  shows "X mod B = B - 1" "X < W" "N < W \<Longrightarrow> N mod B = B - 1 \<Longrightarrow> N \<le> X"
proof -
  define q where "q = (W - 1) div B"
  have q: "0 < q" using B W by (simp add: q_def div_greater_zero_iff)
  have X: "X = (q - 1) * B + (B - 1)"
    unfolding X_def q_def [symmetric] using q B by (cases q) simp_all
  then show "X mod B = B - 1" using B by (simp only: mod_mult_self3) simp
  have "q * B \<le> W - 1" by (simp add: q_def)
  then show "X < W" unfolding X_def q_def [symmetric] using W by linarith
  assume N: "N < W" "N mod B = B - 1"
  define a where "a = N div B"
  have "N + 1 = a * B + (N mod B + 1)" by (simp add: a_def)
  then have N1: "N + 1 = (a + 1) * B" using B N by simp
  moreover have "(a + 1) * B \<noteq> W" using nd by (metis dvd_triv_right)
  ultimately have "(a + 1) * B \<le> W - 1" using N by simp
  then have "a + 1 \<le> q" using B by (simp add: q_def less_eq_div_iff_mult_less_eq)
  then have "(a + 1) * B \<le> q * B" by (rule mult_right_mono) simp
  then show "N \<le> X" unfolding X_def q_def [symmetric] using N1 by linarith
qed

lemma recip_ok:
  fixes B P k N :: nat
  defines "P \<equiv> 2 ^ k" and "W \<equiv> 2 ^ 64"
  assumes PB: "P < B" "B < 2 * P" "B < W" and N: "N < W"
  defines "M \<equiv> (W * P + (B - 1)) div B" and "M2 \<equiv> W * P div B" and "X \<equiv> (W - 1) div B * B - 1"
  shows "M * X div W div P = X div B \<Longrightarrow> M * N div W div P = N div B" (is "?t \<Longrightarrow> _")
    and "M * X div W div P \<noteq> X div B \<Longrightarrow> M2 * (N + 1) div W div P = N div B"
    and "\<And>j. j < 64 \<Longrightarrow> 2 ^ j dvd M \<Longrightarrow> j \<le> k"
proof -
  have W: "0 < W" "0 < P" by (simp_all add: W_def P_def)
  have B: "1 < B" using PB W by linarith
  have "\<not> B dvd 2 ^ (64 + k)" "\<not> B dvd 2 ^ 64"
    using not_dvd_pow2 PB unfolding P_def by blast+
  then have nd: "\<not> B dvd W * P" "\<not> B dvd W" by (simp_all add: W_def P_def power_add)
  obtain e where e: "M * B = W * P + e" "M2 * B + (B - e) = W * P" "0 < e" "e < B"
    unfolding M_def M2_def using ceil_recip [OF _ nd(1)] B by auto
  note X = worst_dividend [OF B nd(2) PB(3), folded X_def]
  have B0: "0 < B" and WP: "0 < W * P" using B W by simp_all
  have test: "?t \<longleftrightarrow> X * e < W * P" by (rule recip_test [OF e(1) B0 WP X(1)])
  show "M * N div W div P = N div B" if ?t
  proof (rule recip_up [OF e(1) B0 _ _ N])
    show "e < 2 * P" using e PB by simp
    assume "N mod B = B - 1"
    then have "N * e \<le> X * e" using X(3) N by simp
    also have "X * e < W * P" using test that by simp
    finally show "N * e < W * P" .
  qed
  show "M2 * (N + 1) div W div P = N div B" if "\<not> ?t"
  proof (rule recip_down [OF e(2) B0 _ _ N])
    have "W * P \<le> X * e" using test that by simp
    also have "\<dots> \<le> W * e" using X(2) by simp
    finally have "P \<le> e" using W by simp
    then show "B - e \<le> P" "0 < B - e" using PB e by simp_all
  qed
  show "j \<le> k" if "j < 64" "2 ^ j dvd M" for j
  proof (rule ccontr)
    assume "\<not> j \<le> k"
    have "2 ^ j dvd W" unfolding W_def using that by (intro le_imp_power_dvd) simp
    then have "2 ^ j dvd W * P" "2 ^ j dvd W * P + e"
      using that(2) unfolding e(1) [symmetric] by simp_all
    then have "2 ^ j dvd e" using dvd_add_right_iff by blast
    then have "2 ^ j \<le> e" using e(3) by (rule dvd_imp_le)
    moreover have "2 * P \<le> 2 ^ j" unfolding P_def using \<open>\<not> j \<le> k\<close>
      by (metis Suc_leI linorder_not_le one_le_numeral power_Suc power_increasing)
    ultimately show False using PB e by simp
  qed
qed

end
