(* ===== verification/Div64.thy ===== *)
theory Div64
  imports Reciprocal
begin

text \<open>
  \<^verbatim>\<open>arch/riscv/include/asm/div64.h\<close>: 64-bit by 32-bit division on a 32-bit kernel.
  \<^verbatim>\<open>arch_xprod_64\<close> is the inline function \<^verbatim>\<open>__arch_xprod_64\<close>,
  \<^verbatim>\<open>div64_const32\<close> the macro \<^verbatim>\<open>__div64_const32\<close> and
  \<^verbatim>\<open>do_div\<close> the macro of that name, which updates its first argument and returns the
  remainder: here the pair of the quotient and the remainder. What the header takes from
  \<^verbatim>\<open>linux/log2.h\<close> and \<^verbatim>\<open>lib/div64.c\<close> (not part of this tree) is the record
  \<^verbatim>\<open>math_env\<close>, with the documented behaviour \<^verbatim>\<open>math_env_ok\<close>; the flag
  \<open>const\<close> is \<^verbatim>\<open>__builtin_constant_p\<close>.
\<close>

section \<open>The code\<close>

text \<open>\<^verbatim>\<open>__arch_xprod_64\<close>: \<open>((bias ? m : 0) + m * n) >> 64\<close> from 32-bit halves.\<close>

definition arch_xprod_64 :: "u64 \<Rightarrow> u64 \<Rightarrow> bool \<Rightarrow> u64" where
  "arch_xprod_64 m n bias =
    (let m_lo = (ucast m :: u32); m_hi = (ucast (drop_bit 32 m) :: u32);
         n_lo = (ucast n :: u32); n_hi = (ucast (drop_bit 32 n) :: u32);
         no_ovf = (m AND (push_bit 63 1 OR push_bit 31 1) = 0);
         res =
           (if \<not> bias then drop_bit 32 (ucast m_lo * ucast n_lo)
            else if no_ovf then drop_bit 32 (m + ucast m_lo * ucast n_lo)
            else (let res = m + ucast m_lo * ucast n_lo;
                      tmp = (if res < m then push_bit 32 1 else 0)
                  in drop_bit 32 res + tmp));
         res =
           (if no_ovf then
              drop_bit 32 (res + ucast m_lo * ucast n_hi + ucast m_hi * ucast n_lo)
            else (let tmp = res + ucast m_lo * ucast n_hi;
                      res = tmp + ucast m_hi * ucast n_lo;
                      tmp = (if res < tmp then push_bit 32 1 else 0)
                  in drop_bit 32 res + tmp))
     in res + ucast m_hi * ucast n_hi)"

text \<open>\<^verbatim>\<open>__div64_const32\<close>: the rounded reciprocal, its test, the reduction and the product.\<close>

definition div64_const32 :: "(u32 \<Rightarrow> nat) \<Rightarrow> u64 \<Rightarrow> u32 \<Rightarrow> u64" where
  "div64_const32 ilog2 n b =
    (let ones = - 1 :: u64;
         p = push_bit (ilog2 b) 1 :: u32;
         m = (ones div ucast b) * ucast p;
         m = m + ((ones mod ucast b + 1) * ucast p + ucast b - 1) div ucast b;
         x = ones div ucast b * ucast b - 1;
         res = drop_bit 32 ((m AND 0xffffffff) * (x AND 0xffffffff));
         t = res + (m AND 0xffffffff) * drop_bit 32 x;
         res = t + (x AND 0xffffffff) * drop_bit 32 m;
         t = (if res < t then push_bit 32 1 else 0);
         res = drop_bit 32 res + t;
         res = res + drop_bit 32 m * drop_bit 32 x;
         res = res div ucast p;
         (n, m, p, bias) =
           (if ones mod ucast (b div (b AND - b)) = 0 then
              (n div ucast (b AND - b), ones div ucast (b div (b AND - b)), 1, True)
            else if res \<noteq> x div ucast b then
              (n, (ones div ucast b) * ucast p + ((ones mod ucast b + 1) * ucast p) div ucast b,
               p, True)
            else
              (let bits = ucast (- (m AND - m)) :: u32;
                   bits = bits OR ucast (drop_bit 32 m);
                   bits = push_bit 1 (NOT bits)
               in if bits = 0 then
                    (n, m div (m AND - m), ucast (ucast p div (m AND - m)), False)
                  else (n, drop_bit (ilog2 bits) m, drop_bit (ilog2 bits) p, False)))
     in arch_xprod_64 m n bias div ucast p)"

text \<open>What the header uses of \<^verbatim>\<open>linux/log2.h\<close> and \<^verbatim>\<open>lib/div64.c\<close>.\<close>

definition is_ilog2 :: "(u32 \<Rightarrow> nat) \<Rightarrow> bool" where
  "is_ilog2 ilog2 \<longleftrightarrow> (\<forall>x. x \<noteq> 0 \<longrightarrow> 2 ^ ilog2 x \<le> unat x \<and> unat x < 2 ^ (ilog2 x + 1))"

record math_env =
  ilog2 :: "u32 \<Rightarrow> nat"
  is_power_of_2 :: "u32 \<Rightarrow> bool"
  div64_32 :: "u64 \<Rightarrow> u32 \<Rightarrow> u64 \<times> u32"

definition math_env_ok :: "math_env \<Rightarrow> bool" where
  "math_env_ok E \<longleftrightarrow> is_ilog2 (ilog2 E)
     \<and> (\<forall>x. is_power_of_2 E x \<longleftrightarrow> (\<exists>k. unat x = 2 ^ k))
     \<and> (\<forall>n b. b \<noteq> 0 \<longrightarrow> unat (fst (div64_32 E n b)) = unat n div unat b
          \<and> unat (snd (div64_32 E n b)) = unat n mod unat b)"

text \<open>The macro \<^verbatim>\<open>do_div\<close>.\<close>

definition do_div :: "math_env \<Rightarrow> bool \<Rightarrow> u64 \<Rightarrow> u32 \<Rightarrow> u64 \<times> u32" where
  "do_div E const n base =
    (if const \<and> is_power_of_2 E base then
       (drop_bit (ilog2 E base) n, ucast (n AND ucast (base - 1)))
     else if const \<and> base \<noteq> 0 then
       (let n_lo = ucast n :: u32; q = div64_const32 (ilog2 E) n base; res_lo = ucast q :: u32
        in (q, n_lo - res_lo * base))
     else if drop_bit 32 n = 0 then
       (ucast ((ucast n :: u32) div base), ucast n mod base)
     else div64_32 E n base)"

text \<open>An instance of the environment, for evaluation on concrete inputs.\<close>

definition ref_env :: math_env where
  "ref_env = \<lparr> ilog2 = \<lambda>x. log2_nat (unat x),
     is_power_of_2 = \<lambda>x. unat x \<noteq> 0 \<and> unat x = 2 ^ log2_nat (unat x),
     div64_32 = \<lambda>n b. (n div ucast b, ucast (n mod ucast b)) \<rparr>"

section \<open>The 128-bit product\<close>

lemma small_halves:
  fixes m :: u64
  assumes "m AND (push_bit 63 1 OR push_bit 31 1) = 0"
  shows "unat m div 2 ^ 32 < 2 ^ 31" "unat m mod 2 ^ 32 < 2 ^ 31"
proof -
  have b: "\<not> bit m 63" "\<not> bit m 31"
    using assms by (auto simp: bit_eq_iff [of "m AND _"] bit_simps dest: spec [of _ 63] spec [of _ 31])
  have "unat m < 2 * 2 ^ 63" using unat_bound [of m] by simp
  then have "unat m div 2 ^ 63 < 2" by (simp add: less_mult_imp_div_less)
  moreover have "even (unat m div 2 ^ 63)" using b(1) by (simp add: bit_word_unat)
  ultimately have "unat m div 2 ^ 63 = 0"
    by (metis dvd_imp_le less_le_not_le not_gr_zero)
  then show "unat m div 2 ^ 32 < 2 ^ 31"
    by (simp add: div_eq_0_iff less_mult_imp_div_less)
  have "even (unat m div 2 ^ 31)" using b(2) by (simp add: bit_word_unat)
  moreover have "unat m mod (2 ^ 31 * 2) = 2 ^ 31 * (unat m div 2 ^ 31 mod 2) + unat m mod 2 ^ 31"
    by (rule mod_mult2_eq)
  ultimately show "unat m mod 2 ^ 32 < 2 ^ 31"
    by (simp add: even_iff_mod_2_eq_zero)
qed

text \<open>The schoolbook product of two 64-bit numbers from 32-bit halves, shifted by 64.\<close>

lemma xprod_halves:
  fixes ml mh nl nh c :: nat
  shows "((mh * 2 ^ 32 + ml) * (nh * 2 ^ 32 + nl) + c) div 2 ^ 64
    = mh * nh + ((ml * nl + c) div 2 ^ 32 + ml * nh + mh * nl) div 2 ^ 32"
proof -
  have "(mh * 2 ^ 32 + ml) * (nh * 2 ^ 32 + nl) + c
    = (ml * nl + c) + 2 ^ 32 * (ml * nh + mh * nl + 2 ^ 32 * (mh * nh))"
    by (simp add: algebra_simps)
  then have "((mh * 2 ^ 32 + ml) * (nh * 2 ^ 32 + nl) + c) div 2 ^ 32
    = (ml * nl + c) div 2 ^ 32 + ml * nh + mh * nl + 2 ^ 32 * (mh * nh)"
    by (simp add: algebra_simps)
  then have "((mh * 2 ^ 32 + ml) * (nh * 2 ^ 32 + nl) + c) div 2 ^ 32 div 2 ^ 32
    = mh * nh + ((ml * nl + c) div 2 ^ 32 + ml * nh + mh * nl) div 2 ^ 32"
    by (simp add: algebra_simps)
  then show ?thesis by (simp flip: div_mult2_eq)
qed

lemma mult_half_bound:
  fixes a b :: nat
  assumes "a < 2 ^ 32" "b < 2 ^ 32"
  shows "a * b \<le> 18446744065119617025"
proof -
  have "a * b \<le> 4294967295 * 4294967295"
    using assms by (intro mult_mono) auto
  then show ?thesis by simp
qed

lemma mult_small_half_bound:
  fixes a b :: nat
  assumes "a < 2 ^ 31" "b < 2 ^ 32"
  shows "a * b \<le> 9223372030412324865"
proof -
  have "a * b \<le> 2147483647 * 4294967295"
    using assms by (intro mult_mono) auto
  then show ?thesis by simp
qed

text \<open>The first step: the low product plus the bias, shifted by 32, in each of its three forms.\<close>

lemma xprod_step1:
  fixes m a c :: u64
  assumes a: "unat a = unat m mod 2 ^ 32" and c: "unat c < 2 ^ 32"
  defines "no_ovf \<equiv> m AND (push_bit 63 1 OR push_bit 31 1) = 0"
  shows "unat (if \<not> bias then drop_bit 32 (a * c)
      else if no_ovf then drop_bit 32 (m + a * c)
      else drop_bit 32 (m + a * c) + (if m + a * c < m then push_bit 32 1 else 0))
    = (unat a * unat c + (if bias then unat m else 0)) div 2 ^ 32"
proof -
  have a32: "unat a < 2 ^ 32" using a by simp
  have ac: "unat a * unat c \<le> 18446744065119617025"
    using a32 c by (rule mult_half_bound)
  then have uac: "unat (a * c) = unat a * unat c"
    by (simp add: unat_mult_word)
  show ?thesis
  proof (cases "bias \<and> no_ovf")
    case True
    then have "unat m div 2 ^ 32 < 2 ^ 31" "unat a < 2 ^ 31"
      using small_halves [of m] by (auto simp: no_ovf_def a)
    then have "unat m < 2 ^ 63" "unat a * unat c \<le> 9223372030412324865"
      using mult_small_half_bound [of "unat a" "unat c"] c
      by (simp_all add: div_less_iff_less_mult)
    then have "unat (m + a * c) = unat m + unat a * unat c"
      by (simp add: unat_add_word uac)
    with True show ?thesis
      by (simp add: unat_drop_bit_word add.commute)
  next
    case False
    then show ?thesis
      by (cases bias) (simp_all add: unat_drop_bit_word uac carry_shift add.commute)
  qed
qed

text \<open>The second step: the two cross products, shifted by 32, with and without the carry.\<close>

lemma xprod_cross_carry:
  fixes r a b c d :: u64
  assumes a: "unat a < 2 ^ 32" and b: "unat b < 2 ^ 32" and c: "unat c < 2 ^ 32"
    and d: "unat d < 2 ^ 32" and r: "unat r \<le> 8589934590"
  shows "unat (drop_bit 32 (r + a * d + b * c)
        + (if r + a * d + b * c < r + a * d then push_bit 32 1 else 0))
    = (unat r + unat a * unat d + unat b * unat c) div 2 ^ 32"
proof -
  have ad: "unat a * unat d \<le> 18446744065119617025" and bc: "unat b * unat c \<le> 18446744065119617025"
    using a b c d by (simp_all only: mult_half_bound)
  then have uad: "unat (a * d) = unat a * unat d" and ubc: "unat (b * c) = unat b * unat c"
    by (simp_all add: unat_mult_word)
  have "unat (r + a * d) = unat r + unat a * unat d"
    using ad r by (simp add: unat_add_word uad)
  then show ?thesis by (simp add: carry_shift ubc)
qed

lemma xprod_cross_small:
  fixes r a b c d :: u64
  assumes a: "unat a < 2 ^ 31" and b: "unat b < 2 ^ 31" and c: "unat c < 2 ^ 32"
    and d: "unat d < 2 ^ 32" and r: "unat r < 2 ^ 32"
  shows "unat (drop_bit 32 (r + a * d + b * c))
    = (unat r + unat a * unat d + unat b * unat c) div 2 ^ 32"
proof -
  have ad: "unat a * unat d \<le> 9223372030412324865" and bc: "unat b * unat c \<le> 9223372030412324865"
    using a b c d by (simp_all only: mult_small_half_bound)
  then have uad: "unat (a * d) = unat a * unat d" and ubc: "unat (b * c) = unat b * unat c"
    by (simp_all add: unat_mult_word)
  have "unat (r + a * d) = unat r + unat a * unat d"
    using ad r by (simp add: unat_add_word uad)
  then have "unat (r + a * d + b * c) = unat r + unat a * unat d + unat b * unat c"
    using ad bc r by (simp add: unat_add_word [of "r + a * d"] ubc)
  then show ?thesis by (simp add: unat_drop_bit_word)
qed

text \<open>The third step: the high product is added, and the sum cannot overflow.\<close>

lemma len64: "LENGTH(64) = 64"
  by simp

lemma xprod_step3:
  fixes m n r2 b d :: u64
  assumes b: "unat b = unat m div 2 ^ 32" and d: "unat d = unat n div 2 ^ 32"
    and r2: "unat r2 = ((unat m mod 2 ^ 32 * (unat n mod 2 ^ 32) + s) div 2 ^ 32
      + unat m mod 2 ^ 32 * unat d + unat b * (unat n mod 2 ^ 32)) div 2 ^ 32"
    and s: "s \<le> unat m"
  shows "unat (r2 + b * d) = (unat m * unat n + s) div 2 ^ 64"
proof -
  define a c where "a = unat m mod 2 ^ 32" and "c = unat n mod 2 ^ 32"
  have mn: "unat m = unat b * 2 ^ 32 + a" "unat n = unat d * 2 ^ 32 + c"
    by (simp_all only: a_def c_def b d div_mult_mod_eq)
  have r2': "unat r2 = ((a * c + s) div 2 ^ 32 + a * unat d + unat b * c) div 2 ^ 32"
    using r2 by (simp only: a_def c_def)
  have total: "unat b * unat d + unat r2 = (unat m * unat n + s) div 2 ^ 64"
    unfolding mn(1) mn(2) r2' xprod_halves by (simp add: mult.commute add.commute)
  have "unat m * unat n + s \<le> unat m * (2 ^ 64 - 1) + unat m"
    using unat_bound [of n] s by (intro add_mono mult_left_mono) auto
  also have "\<dots> = unat m * 2 ^ 64" by simp
  also have "\<dots> < 2 ^ 64 * 2 ^ 64" using unat_bound [of m] by simp
  finally have "unat b * unat d + unat r2 < 2 ^ 64"
    unfolding total by (simp add: less_mult_imp_div_less)
  moreover have "unat b < 2 ^ 32" "unat d < 2 ^ 32"
    using unat_bound [of m] unat_bound [of n] by (simp_all add: b d less_mult_imp_div_less)
  then have "unat b * unat d \<le> 18446744065119617025" by (rule mult_half_bound)
  then have bd: "unat (b * d) = unat b * unat d" by (simp add: unat_mult_word)
  ultimately have lt: "unat (b * d) + unat r2 < 2 ^ LENGTH(64)"
    by (simp only: len64)
  have "unat (b * d + r2) = unat (b * d) + unat r2"
    unfolding unat_add_word using lt by (rule mod_less)
  then show ?thesis unfolding total [symmetric] bd add.commute [of r2] .
qed

lemma ucast_halves:
  fixes m :: u64
  shows "unat (ucast (ucast m :: u32) :: u64) = unat m mod 2 ^ 32"
    and "unat (ucast (ucast (drop_bit 32 m) :: u32) :: u64) = unat m div 2 ^ 32"
  using unat_bound [of m] by (simp_all add: word_nat less_mult_imp_div_less)

lemma halves_bound:
  fixes m :: u64
  shows "unat m mod 2 ^ 32 < 2 ^ 32" and "unat m div 2 ^ 32 < 2 ^ 32"
  using unat_bound [of m] by (simp_all add: less_mult_imp_div_less)

lemma xprod_low_bound:
  fixes m n :: u64
  assumes "s \<le> unat m"
  shows "(unat m mod 2 ^ 32 * (unat n mod 2 ^ 32) + s) div 2 ^ 32 \<le> 8589934590"
proof -
  have "unat m mod 2 ^ 32 * (unat n mod 2 ^ 32) \<le> 18446744065119617025"
    by (rule mult_half_bound) (rule halves_bound)+
  then show ?thesis using assms unat_bound [of m] by simp
qed

lemma unat_arch_xprod_64:
  "unat (arch_xprod_64 m n bias)
    = (unat m * unat n + (if bias then unat m else 0)) div 2 ^ 64"
proof -
  define a b c d :: u64 where "a = ucast (ucast m :: u32)" and "b = ucast (ucast (drop_bit 32 m) :: u32)"
    and "c = ucast (ucast n :: u32)" and "d = ucast (ucast (drop_bit 32 n) :: u32)"
  define no_ovf where "no_ovf \<longleftrightarrow> m AND (push_bit 63 1 OR push_bit 31 1) = 0"
  define s where "s = (if bias then unat m else 0)"
  define r where "r = (if \<not> bias then drop_bit 32 (a * c)
      else if no_ovf then drop_bit 32 (m + a * c)
      else drop_bit 32 (m + a * c) + (if m + a * c < m then push_bit 32 1 else 0))"
  define r2 where "r2 = (if no_ovf then drop_bit 32 (r + a * d + b * c)
      else drop_bit 32 (r + a * d + b * c)
        + (if r + a * d + b * c < r + a * d then push_bit 32 1 else 0))"
  have x: "arch_xprod_64 m n bias = r2 + b * d"
    unfolding arch_xprod_64_def Let_def r2_def r_def no_ovf_def a_def b_def c_def d_def by simp
  have abcd: "unat a = unat m mod 2 ^ 32" "unat b = unat m div 2 ^ 32"
    "unat c = unat n mod 2 ^ 32" "unat d = unat n div 2 ^ 32"
    unfolding a_def b_def c_def d_def by (rule ucast_halves)+
  have bounds: "unat a < 2 ^ 32" "unat b < 2 ^ 32" "unat c < 2 ^ 32" "unat d < 2 ^ 32"
    unfolding abcd by (rule halves_bound)+
  have s: "s \<le> unat m" by (simp add: s_def)
  have r: "unat r = (unat a * unat c + s) div 2 ^ 32"
    unfolding r_def s_def no_ovf_def using bounds by (intro xprod_step1 abcd)
  have r_le: "unat r \<le> 8589934590"
    unfolding r abcd using s by (rule xprod_low_bound)
  have "unat r2 = (unat r + unat a * unat d + unat b * unat c) div 2 ^ 32"
  proof (cases no_ovf)
    case True
    then have sm: "unat b < 2 ^ 31" "unat a < 2 ^ 31" and "s < 2 ^ 63"
      using small_halves [of m] s by (simp_all add: no_ovf_def abcd div_less_iff_less_mult)
    moreover have "unat a * unat c \<le> 9223372030412324865"
      using sm(2) bounds(3) by (rule mult_small_half_bound)
    ultimately have "unat r < 2 ^ 32" by (simp add: r)
    with True show ?thesis unfolding r2_def
      by (simp add: xprod_cross_small [OF sm(2) sm(1) bounds(3,4)])
  next
    case False
    then show ?thesis unfolding r2_def
      by (simp add: xprod_cross_carry [OF bounds r_le])
  qed
  then have "unat r2 = ((unat m mod 2 ^ 32 * (unat n mod 2 ^ 32) + s) div 2 ^ 32
      + unat m mod 2 ^ 32 * unat d + unat b * (unat n mod 2 ^ 32)) div 2 ^ 32"
    by (simp only: r abcd(1,3))
  then show ?thesis
    unfolding x s_def [symmetric] using s by (rule xprod_step3 [OF abcd(2,4)])
qed

section \<open>The reciprocal in machine words\<close>

lemma is_ilog2D:
  assumes "is_ilog2 lg" "x \<noteq> 0"
  shows "2 ^ lg x \<le> unat x" "unat x < 2 * 2 ^ lg x" "lg x < 32"
proof -
  show le: "2 ^ lg x \<le> unat x" and "unat x < 2 * 2 ^ lg x"
    using assms by (auto simp: is_ilog2_def)
  have "(2::nat) ^ lg x < 2 ^ 32"
    using le unat_bound [of x] by simp
  then show "lg x < 32" by (rule power_less_imp_less_exp [rotated]) simp
qed

lemma recip_words:
  fixes b p :: u32
  assumes k: "k < 32" and p: "unat p = 2 ^ k" and lo: "2 ^ k < unat b" and hi: "unat b < 2 * 2 ^ k"
  defines "q \<equiv> (- 1 :: u64) div ucast b * ucast p" and "r \<equiv> ((- 1 :: u64) mod ucast b + 1) * ucast p"
  shows "unat (q + (r + ucast b - 1) div ucast b) = (2 ^ 64 * 2 ^ k + (unat b - 1)) div unat b" (is ?up)
    and "unat (q + r div ucast b) = 2 ^ 64 * 2 ^ k div unat b" (is ?down)
proof -
  define B P W where "B = unat b" and "P = (2::nat) ^ k" and "W = (2::nat) ^ 64"
  have B: "0 < B" "B < 2 ^ 32" and PB: "P < B"
    using lo unat_bound [of b] by (auto simp: B_def P_def)
  have P: "P \<le> 2 ^ 31"
    unfolding P_def by (rule power_increasing) (use k in simp_all)
  have ub: "unat (ucast b :: u64) = B" and up: "unat (ucast p :: u64) = P"
    using B p P by (simp_all add: unat_ucast_word B_def P_def)
  have ones: "unat (- 1 :: u64) = W - 1" by (simp add: unat_max_word W_def)
  have "(W - 1) div B * P \<le> (W - 1) div B * B" using PB by simp
  also have "\<dots> \<le> W - 1" by simp
  finally have qb: "(W - 1) div B * P < 2 ^ 64" by (simp add: W_def)
  have uq: "unat q = (W - 1) div B * P"
    using qb by (simp add: q_def unat_mult_word unat_div_word ones ub up)
  have r1: "(W - 1) mod B + 1 \<le> B" using B by (simp add: Suc_leI)
  then have "((W - 1) mod B + 1) * P \<le> 2 ^ 32 * 2 ^ 31" using B P by (intro mult_mono) auto
  then have rP: "((W - 1) mod B + 1) * P \<le> 2 ^ 63" by simp
  have "unat ((- 1 :: u64) mod ucast b + 1) = (W - 1) mod B + 1"
    using r1 B by (simp add: unat_add_word unat_mod_word ones ub)
  then have ur: "unat r = ((W - 1) mod B + 1) * P"
    using rP by (simp add: r_def unat_mult_word up)
  have e1: "unat (r + ucast b) = ((W - 1) mod B + 1) * P + B"
    using rP B by (simp add: unat_add_word ur ub)
  then have "r + ucast b \<noteq> 0" using B by (auto simp: unat_eq_word)
  then have e2: "unat (r + ucast b - 1) = ((W - 1) mod B + 1) * P + (B - 1)"
    using B by (simp add: unat_minus_one e1)
  have WPB: "W * P + (B - 1) < W * B"
  proof -
    have "W * P + W \<le> W * B" using PB by (metis Suc_leI add.commute mult_Suc_right mult_le_mono2)
    moreover have "B - 1 < W" using B by (simp add: W_def)
    ultimately show ?thesis by linarith
  qed
  have bound: "(W * P + c) div B < 2 ^ 64" if "c \<le> B - 1" for c
    using that WPB B by (simp add: less_mult_imp_div_less W_def)
  have "unat q + unat ((r + ucast b - 1) div ucast b) = (W * P + (B - 1)) div B"
    using recip_split [of W B P "B - 1"] B by (simp add: uq unat_div_word e2 ub W_def)
  then have "unat (q + (r + ucast b - 1) div ucast b) = (W * P + (B - 1)) div B"
    using bound [of "B - 1"] by (simp add: unat_add_word [of q])
  then show ?up by (simp add: B_def W_def P_def)
  have "unat q + unat (r div ucast b) = (W * P) div B"
    using recip_split [of W B P 0] B by (simp add: uq unat_div_word ur ub W_def)
  then have "unat (q + r div ucast b) = (W * P) div B"
    using bound [of 0] by (simp add: unat_add_word [of q])
  then show ?down by (simp add: B_def W_def P_def)
qed


lemma test_words:
  fixes b p :: u32 and m x :: u64
  assumes p: "unat p = 2 ^ k" "k < 32"
  defines "t \<equiv> drop_bit 32 ((m AND 0xffffffff) * (x AND 0xffffffff)) + (m AND 0xffffffff) * drop_bit 32 x"
  defines "res \<equiv> t + (x AND 0xffffffff) * drop_bit 32 m"
  shows "unat ((drop_bit 32 res + (if res < t then push_bit 32 1 else 0)
      + drop_bit 32 m * drop_bit 32 x) div ucast p) = unat m * unat x div 2 ^ 64 div 2 ^ k"
proof -
  define a b' c d where "a = m AND 0xffffffff" and "b' = drop_bit 32 m"
    and "c = x AND 0xffffffff" and "d = drop_bit 32 x"
  have mask: "(0xffffffff :: u64) = mask 32" by (simp add: mask_eq_exp_minus_1)
  have abcd: "unat a = unat m mod 2 ^ 32" "unat b' = unat m div 2 ^ 32"
    "unat c = unat x mod 2 ^ 32" "unat d = unat x div 2 ^ 32"
    unfolding a_def b'_def c_def d_def mask
    by (rule unat_and_mask_word unat_drop_bit_word)+
  have bounds: "unat a < 2 ^ 32" "unat b' < 2 ^ 32" "unat c < 2 ^ 32" "unat d < 2 ^ 32"
    unfolding abcd by (rule halves_bound)+
  have "unat a * unat c \<le> 18446744065119617025"
    using bounds by (simp only: mult_half_bound)
  then have "unat (a * c) = unat a * unat c" by (simp add: unat_mult_word)
  then have r: "unat (drop_bit 32 (a * c)) = (unat a * unat c + 0) div 2 ^ 32"
    by (simp add: unat_drop_bit_word)
  have r_le: "unat (drop_bit 32 (a * c)) \<le> 8589934590"
    unfolding r abcd by (rule xprod_low_bound) simp
  have "unat (drop_bit 32 res + (if res < t then push_bit 32 1 else 0)) =
    ((unat m mod 2 ^ 32 * (unat x mod 2 ^ 32) + 0) div 2 ^ 32
      + unat m mod 2 ^ 32 * unat d + unat b' * (unat x mod 2 ^ 32)) div 2 ^ 32"
    using xprod_cross_carry [OF bounds r_le]
    unfolding res_def t_def a_def [symmetric] b'_def [symmetric] c_def [symmetric] d_def [symmetric]
    by (simp only: r abcd(1,3) mult.commute [of c])
  then have "unat (drop_bit 32 res + (if res < t then push_bit 32 1 else 0) + b' * d)
    = (unat m * unat x + 0) div 2 ^ 64"
    by (rule xprod_step3 [OF abcd(2,4)]) simp
  moreover have "unat (ucast p :: u64) = 2 ^ k"
  proof -
    have "unat p < 2 ^ 32" using unat_bound [of p] by simp
    then show ?thesis using p by (simp add: unat_ucast_word)
  qed
  ultimately show ?thesis by (simp add: unat_div_word b'_def d_def)
qed

lemma lowbit32_widened:
  fixes m :: u64
  assumes lm: "m AND - m = 2 ^ j" and j: "j < 64" and i: "i < 32"
  shows "bit (ucast (- (m AND - m)) :: u32) i \<longleftrightarrow> j \<le> i"
  unfolding lm using i by (simp add: bit_ucast_iff bit_minus_exp_iff)


text \<open>
  The reduction of \<open>m / p\<close> by a common power of two: the shift the code computes with
  \<open>ilog2\<close> never exceeds the trailing zeros of \<open>m\<close>.
\<close>

lemma reduce_shift:
  fixes m :: u64
  assumes il: "is_ilog2 lg" and lm: "m AND - m = 2 ^ j" and j: "j < 64"
    and bits: "bits = push_bit 1 (NOT (ucast (- (m AND - m)) OR ucast (drop_bit 32 m) :: u32))"
    and nz: "bits \<noteq> 0"
  shows "lg bits \<le> j"
proof -
  define i where "i = lg bits"
  have i: "2 ^ i \<le> unat bits" "unat bits < 2 * 2 ^ i" "i < 32"
    unfolding i_def using is_ilog2D [OF il nz] by blast+
  then have "unat bits div 2 ^ i = 1"
    by (intro div_nat_eqI) simp_all
  then have "bit bits i" by (simp add: bit_word_unat)
  then have "1 \<le> i \<and> bit (NOT (ucast (- (m AND - m)) OR ucast (drop_bit 32 m)) :: u32) (i - 1)"
    unfolding bits by (simp only: bit_push_bit_iff)
  then have "0 < i" "\<not> bit (ucast (- (m AND - m)) :: u32) (i - 1)"
    by (auto simp only: bit_not_iff bit_or_iff)
  then have "\<not> j \<le> i - 1"
    using lowbit32_widened [OF lm j] i(3) by simp
  then show ?thesis unfolding i_def by simp
qed

lemma one_ucast: "unat (ucast (1 :: u32) :: u64) = 1"
  by simp

lemma low_part_u32:
  fixes b :: u32
  assumes b: "b \<noteq> 0"
  obtains j where "j < 32" "unat (b AND - b) = 2 ^ j" "2 ^ j dvd unat b"
proof -
  obtain j where "j < 32" "b AND - b = 2 ^ j" "2 ^ j dvd unat b"
    using lowbit_word [OF b] by auto
  then show thesis using that by (simp add: unat_exp_word)
qed

section \<open>The three forms of the reciprocal\<close>

text \<open>The three forms the code chooses between, each exact under its guard.\<close>

lemma const32_special:
  fixes b :: u32 and n :: u64
  assumes b: "b \<noteq> 0" and special: "(- 1 :: u64) mod ucast (b div (b AND - b)) = 0"
  shows "unat (arch_xprod_64 (- 1 div ucast (b div (b AND - b))) (n div ucast (b AND - b)) True
    div ucast (1 :: u32)) = unat n div unat b"
proof -
  obtain j where j: "j < 32" "unat (b AND - b) = 2 ^ j" "2 ^ j dvd unat b"
    using low_part_u32 [OF b] .
  define d l where "d = unat b div 2 ^ j" and "l = (2::nat) ^ j"
  have b32: "unat b < 2 ^ 32" using unat_bound [of b] by simp
  have "d \<le> unat b" by (simp add: d_def)
  then have d64: "d < 2 ^ 64" using b32 by simp
  have "unat (b div (b AND - b)) = d"
    by (simp add: unat_div_word j d_def)
  then have ud: "unat (ucast (b div (b AND - b)) :: u64) = d"
    using d64 by (simp add: unat_ucast_word)
  have "l < 2 ^ 32" unfolding l_def using j(1) by (rule power_strict_increasing) simp
  then have ul: "unat (ucast (b AND - b) :: u64) = l"
    by (simp add: unat_ucast_word j l_def)
  have "unat b \<noteq> 0" using b by (simp add: unat_eq_0)
  then have d: "0 < d" using j(3) by (simp add: d_def dvd_imp_le div_greater_zero_iff)
  have ones: "unat (- 1 :: u64) = 2 ^ 64 - 1" by (simp add: unat_max_word)
  have dvd: "d dvd 2 ^ 64 - 1"
    using special by (simp add: unat_eq_word unat_mod_word ud ones dvd_eq_mod_eq_0)
  have "unat n div l < 2 ^ 64"
    using unat_bound [of n] by (simp add: le_less_trans [OF div_le_dividend])
  then have "(2 ^ 64 - 1) div d * (unat n div l + 1) div 2 ^ 64 = unat n div l div d"
    by (rule recip_exact [OF dvd d])
  moreover have "unat n div l div d = unat n div unat b"
    unfolding d_def l_def using j(3) by (simp flip: div_mult2_eq)
  ultimately show ?thesis
    by (simp add: unat_div_word unat_arch_xprod_64 ud ul ones one_ucast)
qed

lemma const32_reduced:
  fixes m :: u64 and p :: u32
  assumes il: "is_ilog2 lg" and m0: "m \<noteq> 0" and p: "unat p = 2 ^ k" "k < 32"
    and low: "\<And>j. j < 64 \<Longrightarrow> 2 ^ j dvd unat m \<Longrightarrow> j \<le> k"
    and bits: "bits = push_bit 1 (NOT (ucast (- (m AND - m)) OR ucast (drop_bit 32 m) :: u32))"
  shows "unat (case (if bits = 0 then (n, m div (m AND - m), ucast (ucast p div (m AND - m)), False)
            else (n, drop_bit (lg bits) m, drop_bit (lg bits) p, False))
     of (n, m, p, bias) \<Rightarrow> arch_xprod_64 m n bias div ucast (p :: u32))
    = unat m * unat n div 2 ^ 64 div 2 ^ k"
proof -
  obtain j where j: "j < 64" "m AND - m = 2 ^ j" "2 ^ j dvd unat m"
    using lowbit_word [OF m0] by auto
  then have jk: "j \<le> k" using low by blast
  define s where "s = (if bits = 0 then j else lg bits)"
  have sj: "s \<le> j"
    using reduce_shift [OF il j(2,1) bits] by (simp add: s_def)
  have k32: "(2::nat) ^ k < 2 ^ 32" by (rule power_strict_increasing) (use p in simp_all)
  then have pk: "(2::nat) ^ k div 2 ^ i < 2 ^ 32" for i
    by (rule le_less_trans [OF div_le_dividend])
  have dvd: "2 ^ s dvd unat m" "2 ^ s dvd (2::nat) ^ k"
    using sj jk j(3) power_le_dvd by (auto simp: le_imp_power_dvd)
  have "unat (if bits = 0 then m div (m AND - m) else drop_bit (lg bits) m) = unat m div 2 ^ s"
    using j by (simp add: s_def unat_div_word unat_drop_bit_word unat_exp_word)
  moreover have "unat (ucast (if bits = 0 then ucast (ucast p div (m AND - m)) else drop_bit (lg bits) p) :: u64)
    = 2 ^ k div 2 ^ s"
    using j p pk [of s] pk [of j] k32
    by (auto simp: s_def unat_div_word unat_drop_bit_word unat_ucast_word unat_exp_word)
  ultimately have "unat (arch_xprod_64 (if bits = 0 then m div (m AND - m) else drop_bit (lg bits) m) n False
      div ucast (if bits = 0 then ucast (ucast p div (m AND - m)) else drop_bit (lg bits) p))
    = unat m div 2 ^ s * unat n div 2 ^ 64 div (2 ^ k div 2 ^ s)"
    by (simp only: unat_div_word unat_arch_xprod_64) simp
  then show ?thesis using reduce_exact [OF dvd] by (simp split: if_splits)
qed

section \<open>Division by a constant\<close>

lemma unat_div64_const32:
  fixes n :: u64 and b :: u32
  assumes il: "is_ilog2 lg" and b0: "b \<noteq> 0" and np: "\<nexists>k. unat b = 2 ^ k"
  shows "unat (div64_const32 lg n b) = unat n div unat b"
proof -
  define k B where "k = lg b" and "B = unat b"
  define p where "p = (push_bit (lg b) 1 :: u32)"
  define q where "q = (- 1 :: u64) div ucast b * ucast p"
  define r where "r = ((- 1 :: u64) mod ucast b + 1) * ucast p"
  define m m2 where "m = q + (r + ucast b - 1) div ucast b" and "m2 = q + r div ucast b"
  define x where "x = (- 1 :: u64) div ucast b * ucast b - 1"
  define t where "t = drop_bit 32 ((m AND 0xffffffff) * (x AND 0xffffffff)) + (m AND 0xffffffff) * drop_bit 32 x"
  define res where "res = t + (x AND 0xffffffff) * drop_bit 32 m"
  define test where "test = (drop_bit 32 res + (if res < t then push_bit 32 1 else 0)
      + drop_bit 32 m * drop_bit 32 x) div ucast p"
  define bits where "bits = push_bit 1 (NOT (ucast (- (m AND - m)) OR ucast (drop_bit 32 m) :: u32))"
  define special where "special \<longleftrightarrow> (- 1 :: u64) mod ucast (b div (b AND - b)) = 0"
  have unfold: "div64_const32 lg n b =
    (case (if special then (n div ucast (b AND - b), - 1 div ucast (b div (b AND - b)), 1, True)
           else if test \<noteq> x div ucast b then (n, m2, p, True)
           else if bits = 0 then (n, m div (m AND - m), ucast (ucast p div (m AND - m)), False)
           else (n, drop_bit (lg bits) m, drop_bit (lg bits) p, False))
     of (n, m, p, bias) \<Rightarrow> arch_xprod_64 m n bias div ucast p)"
    unfolding div64_const32_def Let_def special_def test_def res_def t_def x_def bits_def m_def m2_def q_def r_def p_def
    by (rule refl)
  have k: "2 ^ k \<le> B" "B < 2 * 2 ^ k" "k < 32"
    unfolding k_def B_def using is_ilog2D [OF il b0] by blast+
  then have PB: "2 ^ k < B" using np by (metis B_def le_neq_implies_less)
  have p: "unat p = 2 ^ k"
    using k(3) by (simp add: p_def k_def [symmetric] push_bit_eq_mult unat_exp_word)
  have B64: "B < 2 ^ 64" using unat_bound [of b] by (simp add: B_def)
  have ub: "unat (ucast b :: u64) = B" using B64 by (simp add: unat_ucast_word B_def)
  have um: "unat m = (2 ^ 64 * 2 ^ k + (B - 1)) div B" and um2: "unat m2 = 2 ^ 64 * 2 ^ k div B"
    unfolding m_def m2_def q_def r_def B_def
    using recip_words [OF k(3) p PB [unfolded B_def] k(2) [unfolded B_def]] by blast+
  define Q where "Q = (2 ^ 64 - 1) div B * B"
  have "0 < (2 ^ 64 - 1) div B" using B64 PB by (simp add: div_greater_zero_iff)
  then have Q0: "Q \<noteq> 0" using PB by (simp add: Q_def)
  have "Q \<le> 2 ^ 64 - 1" unfolding Q_def by (rule div_times_less_eq_dividend)
  moreover have "unat ((- 1 :: u64) div ucast b * ucast b) = Q mod 2 ^ 64"
    by (simp add: unat_mult_word unat_div_word unat_max_word ub Q_def)
  ultimately have xb: "unat ((- 1 :: u64) div ucast b * ucast b) = Q" by simp
  with Q0 have "(- 1 :: u64) div ucast b * ucast b \<noteq> 0" by auto
  from unat_minus_one [OF this] have ux: "unat x = (2 ^ 64 - 1) div B * B - 1"
    by (simp only: x_def xb Q_def)
  have "unat n < 2 ^ 64" using unat_bound [of n] by simp
  note ok = recip_ok [OF PB k(2) B64 this, folded um um2 ux]
  have "unat test = unat m * unat x div 2 ^ 64 div 2 ^ k"
    unfolding test_def res_def t_def by (rule test_words [OF p k(3)])
  then have test: "test = x div ucast b \<longleftrightarrow> unat m * unat x div 2 ^ 64 div 2 ^ k = unat x div B"
    by (simp add: unat_eq_word unat_div_word ub)
  have "1 \<le> (2::nat) ^ 64 * 2 ^ k" by simp
  then have "B \<le> 2 ^ 64 * 2 ^ k + (B - 1)" by linarith
  then have "(2 ^ 64 * 2 ^ k + (B - 1)) div B \<noteq> 0"
    using PB by (simp only: div_eq_0_iff not_less [symmetric]) simp
  then have m0: "m \<noteq> 0" unfolding um [symmetric] by auto
  consider special | "\<not> special" "test \<noteq> x div ucast b" | "\<not> special" "test = x div ucast b"
    by blast
  then show ?thesis
  proof cases
    case 1
    then show ?thesis
      using const32_special [OF b0] unfolding special_def unfold by simp
  next
    case 2
    then have "unat m2 * (unat n + 1) div 2 ^ 64 div 2 ^ k = unat n div B"
      using ok(2) test by simp
    moreover have "unat (ucast p :: u64) = 2 ^ k"
      using p PB B64 by (simp add: unat_ucast_word)
    ultimately show ?thesis
      using 2 by (simp add: unfold unat_div_word unat_arch_xprod_64 B_def add.commute)
  next
    case 3
    then have "unat m * unat n div 2 ^ 64 div 2 ^ k = unat n div B"
      using ok(1) test by simp
    then show ?thesis
      using 3 const32_reduced [OF il m0 p k(3) ok(3) bits_def, where n = n]
      unfolding unfold B_def by (simp split del: if_split)
  qed
qed

section \<open>The division macro\<close>

lemma ref_env_ok: "math_env_ok ref_env"
  unfolding math_env_ok_def
proof (intro conjI allI impI)
  show "is_ilog2 (ilog2 ref_env)"
    using log2_nat_bounds by (auto simp: is_ilog2_def ref_env_def unat_gt_0)
  show "is_power_of_2 ref_env x \<longleftrightarrow> (\<exists>k. unat x = 2 ^ k)" for x
    by (auto simp: ref_env_def log2_nat_exp)
  fix n b assume "(b :: u32) \<noteq> 0"
  then show "unat (fst (div64_32 ref_env n b)) = unat n div unat b"
    by (simp add: ref_env_def unat_div_word unat_widen32)
  have "unat b \<noteq> 0" using \<open>b \<noteq> 0\<close> by (simp add: unat_eq_0)
  then have "unat n mod unat b < unat b" by simp
  then have "unat n mod unat b < 2 ^ 32" using unat_bound [of b] by simp
  then show "unat (snd (div64_32 ref_env n b)) = unat n mod unat b"
    by (simp add: ref_env_def unat_mod_word unat_widen32 unat_ucast_word)
qed

lemma narrow_remainder:
  fixes n q :: u64 and b :: u32
  assumes b: "b \<noteq> 0" and q: "unat q = unat n div unat b"
  shows "unat (ucast n - ucast q * b :: u32) = unat n mod unat b"
proof -
  define r where "r = (of_nat (unat n mod unat b) :: u32)"
  have ub: "unat b \<noteq> 0" using b by (simp add: unat_eq_0)
  have r: "unat r = unat n mod unat b"
  proof -
    have "unat n mod unat b < 2 ^ LENGTH(32)"
      using ub unat_bound [of b] by (intro less_trans [OF mod_less_divisor]) simp_all
    then show ?thesis unfolding r_def by (simp only: of_nat_inverse)
  qed
  have "(ucast n :: u32) = ucast q * b + r"
  proof (rule unat_eq_word [THEN iffD2])
    have "unat (ucast q * b + r) = (unat q * unat b + unat n mod unat b) mod 2 ^ 32"
      by (simp add: unat_add_word unat_mult_word unat_ucast_word r mod_simps)
    also have "unat q * unat b + unat n mod unat b = unat n"
      by (simp only: q div_mult_mod_eq)
    finally show "unat (ucast n :: u32) = unat (ucast q * b + r)"
      by (simp add: unat_ucast_word)
  qed
  then show ?thesis by (simp add: r)
qed

lemma do_div_shift:
  fixes n :: u64
  assumes k: "unat (b :: u32) = 2 ^ k"
  shows "unat (ucast (n AND ucast (b - 1)) :: u32) = unat n mod 2 ^ k"
proof -
  have k32: "(2::nat) ^ k < 2 ^ 32" using unat_bound [of b] k by simp
  then have "k < 32" by (rule power_less_imp_less_exp [rotated]) simp
  have "b = 2 ^ k" using k \<open>k < 32\<close> by (simp add: unat_eq_word unat_exp_word)
  then have "(ucast (b - 1) :: u64) = mask k"
    using \<open>k < 32\<close>
    by (intro bit_word_eqI) (auto simp: bit_ucast_iff bit_mask_iff simp flip: mask_eq_exp_minus_1)
  then have "unat (n AND ucast (b - 1)) = unat n mod 2 ^ k"
    by (simp only: unat_and_mask_word)
  moreover have "unat n mod 2 ^ k < 2 ^ 32"
    using k32 by (rule less_trans [OF mod_less_divisor, rotated]) simp
  ultimately show ?thesis by (simp add: unat_ucast_word)
qed

lemma do_div_spec:
  assumes E: "math_env_ok E" and b: "base \<noteq> 0"
  shows "unat (fst (do_div E c n base)) = unat n div unat base"
    and "unat (snd (do_div E c n base)) = unat n mod unat base"
proof -
  note E' = E [unfolded math_env_ok_def]
  consider (shift) k where "c" "unat base = 2 ^ k" | (recip) "c" "\<nexists>k. unat base = 2 ^ k"
    | (low) "\<not> c" "drop_bit 32 n = 0" | (full) "\<not> c" "drop_bit 32 n \<noteq> 0" by blast
  then have "unat (fst (do_div E c n base)) = unat n div unat base
    \<and> unat (snd (do_div E c n base)) = unat n mod unat base"
  proof cases
    case (shift k)
    then have p: "is_power_of_2 E base" using E' by blast
    have il: "2 ^ ilog2 E base \<le> unat base" "unat base < 2 * 2 ^ ilog2 E base"
      using is_ilog2D [OF _ b] E' by blast+
    have "ilog2 E base = k"
      using il shift by (intro pow2_unique) simp_all
    with p shift show ?thesis by (simp add: do_div_def unat_drop_bit_word do_div_shift)
  next
    case recip
    then have "\<not> is_power_of_2 E base" using E' by blast
    moreover have q: "unat (div64_const32 (ilog2 E) n base) = unat n div unat base"
      using recip E' b by (intro unat_div64_const32) auto
    ultimately show ?thesis using recip b
      by (simp add: do_div_def Let_def narrow_remainder)
  next
    case low
    then have "unat n div 2 ^ 32 = 0" by (simp add: unat_eq_word unat_drop_bit_word)
    then have "unat (ucast n :: u32) = unat n" by (simp add: unat_ucast_word div_eq_0_iff)
    with low show ?thesis
      by (simp add: do_div_def unat_widen32 unat_div_word unat_mod_word)
  next
    case full
    then show ?thesis using E' b by (simp add: do_div_def)
  qed
  then show "unat (fst (do_div E c n base)) = unat n div unat base"
    and "unat (snd (do_div E c n base)) = unat n mod unat base" by blast+
qed

section \<open>Properties\<close>

text \<open>
  C2: \<^verbatim>\<open>__div64_const32\<close> divides: for every 64-bit dividend and every non-zero divisor
  that is not a power of two (the case \<^verbatim>\<open>do_div\<close> keeps from it), the multiplication by
  the reciprocal returns the exact quotient, whichever of the four reductions was selected.
\<close>

theorem div64_const32_exact:
  assumes "is_ilog2 il" and "b \<noteq> 0" and "\<nexists>k. unat b = 2 ^ k"
  shows "unat (div64_const32 il n b) = unat n div unat b"
  using assms by (rule unat_div64_const32)

theorem div64_const32_exact_witness:
  "unat (div64_const32 (ilog2 ref_env) 1000000007 (10 :: u32)) = 100000000"
proof -
  have np: "\<nexists>k. unat (10 :: u32) = 2 ^ k"
  proof
    assume "\<exists>k. unat (10 :: u32) = 2 ^ k"
    then obtain k where "(2::nat) ^ k = 10" by force
    then have "(2::nat) ^ 3 < 2 ^ k" "(2::nat) ^ k < 2 ^ 4" by simp_all
    then have "3 < k \<and> k < 4" by (simp only: power_strict_increasing_iff one_less_numeral_iff semiring_norm)
    then show False by linarith
  qed
  have "is_ilog2 (ilog2 ref_env)" using ref_env_ok unfolding math_env_ok_def by blast
  then have "unat (div64_const32 (ilog2 ref_env) 1000000007 (10 :: u32))
    = unat (1000000007 :: u64) div unat (10 :: u32)"
    by (rule div64_const32_exact [OF _ _ np]) simp
  then show ?thesis by simp
qed

text \<open>
  C29: \<^verbatim>\<open>do_div\<close> leaves the quotient in its argument and returns the remainder, on each of
  its four paths (shift, reciprocal, 32-bit division, call).
\<close>

theorem do_div_correct:
  assumes "math_env_ok E" and "base \<noteq> 0" and "do_div E const n base = (q, r)"
  shows "unat n = unat q * unat base + unat r \<and> unat r < unat base"
proof -
  have "unat q = unat n div unat base" "unat r = unat n mod unat base"
    using do_div_spec [OF assms(1,2), where c = const and n = n] assms(3) by simp_all
  moreover have "0 < unat base" using assms(2) by (simp add: unat_gt_0)
  ultimately show ?thesis by simp
qed

theorem do_div_correct_witness:
  "\<exists>q r. do_div ref_env False 1000000007 (10 :: u32) = (q, r) \<and> unat q = 100000000 \<and> unat r = 7"
proof -
  obtain q r where qr: "do_div ref_env False 1000000007 (10 :: u32) = (q, r)" by fastforce
  have "unat (1000000007 :: u64) = unat q * unat (10 :: u32) + unat r \<and> unat r < unat (10 :: u32)"
    by (rule do_div_correct [OF ref_env_ok _ qr]) simp
  then have "1000000007 = unat q * 10 + unat r" "unat r < 10" by simp_all
  then show ?thesis using qr by (intro exI [of _ q] exI [of _ r]) (simp, presburger)
qed

text \<open>
  \<^verbatim>\<open>__arch_xprod_64\<close> is the high half of the 128-bit \<open>m n\<close> (plus \<open>m\<close>
  with the bias): no carry is lost on any of its paths.
\<close>

theorem arch_xprod_64_exact:
  "unat (arch_xprod_64 m n bias)
    = (unat m * unat n + (if bias then unat m else 0)) div 2 ^ 64"
  by (rule unat_arch_xprod_64)

end
