(* ===== verification/ConfigLex.thy ===== *)
theory ConfigLex
  imports Div64 "HOL-Library.Sublist"
begin

text \<open>
  The lexical layer of \<^verbatim>\<open>arch/riscv/drivers/config.c\<close> (lines 44 to 205): skipping, the
  number scanners and the string decoders of the config string. A C pointer into the config ROM
  is the list of the bytes from it to the end of the mapped region; behind the last byte lies the
  terminator, so \<open>*str\<close> is \<open>deref str\<close> and \<open>str[i]\<close> is \<open>at str i\<close>.
  A RISC-V \<^verbatim>\<open>char\<close> is unsigned, so comparisons are on \<open>of_char\<close>.
\<close>

section \<open>The code\<close>

abbreviation NUL :: char where "NUL \<equiv> CHR 0x00"
abbreviation code :: "char \<Rightarrow> nat" where "code \<equiv> of_char"

definition at :: "string \<Rightarrow> nat \<Rightarrow> char" where
  "at s i = (if i < length s then s ! i else NUL)"

definition deref :: "string \<Rightarrow> char" where
  "deref s = at s 0"

fun skip_whitespace :: "string \<Rightarrow> string" where
  "skip_whitespace [] = []"
| "skip_whitespace (c # s) =
    (if c \<noteq> NUL \<and> code c \<le> 32 then skip_whitespace s else c # s)"

fun skip_newline :: "string \<Rightarrow> string" where
  "skip_newline [] = []"
| "skip_newline (c # s) =
    (if c \<noteq> NUL \<and> code c \<le> 32
     then (if c = CHR 0x0A then s else skip_newline s) else c # s)"

fun skip_string :: "string \<Rightarrow> string" where
  "skip_string [] = []"
| "skip_string (c # s) =
    (if c \<noteq> NUL then (if c \<noteq> CHR 0x22 then skip_string s else s) else c # s)"

definition key_char :: "char \<Rightarrow> bool" where
  "key_char c \<longleftrightarrow> 35 \<le> code c \<and> code c \<le> 122 \<and> c \<noteq> CHR '';''"

fun skip_key :: "string \<Rightarrow> string" where
  "skip_key [] = []"
| "skip_key (c # s) = (if key_char c then skip_key s else c # s)"

definition is_hex :: "char \<Rightarrow> bool" where
  "is_hex c \<longleftrightarrow> (code CHR ''0'' \<le> code c \<and> code c \<le> code CHR ''9'')
     \<or> (code CHR ''a'' \<le> code c \<and> code c \<le> code CHR ''f'')
     \<or> (code CHR ''A'' \<le> code c \<and> code c \<le> code CHR ''F'')"

definition parse_hex :: "char \<Rightarrow> nat" where
  "parse_hex c =
    (if code CHR ''0'' \<le> code c \<and> code c \<le> code CHR ''9'' then code c - code CHR ''0''
     else if code CHR ''a'' \<le> code c \<and> code c \<le> code CHR ''f'' then code c - code CHR ''a'' + 10
     else code c - code CHR ''A'' + 10)"

text \<open>The loop of \<^verbatim>\<open>parse_u64_hex\<close>, from a pointer and the value so far.\<close>

fun hex_loop :: "string \<Rightarrow> u64 \<Rightarrow> string \<times> u64" where
  "hex_loop [] res = ([], res)"
| "hex_loop (c # s) res =
    (if c = NUL then (c # s, res)
     else if is_hex c then
       (if drop_bit 4 (push_bit 4 res) \<noteq> res then (c # s, res)
        else hex_loop s (push_bit 4 res + of_nat (parse_hex c)))
     else if c \<noteq> CHR ''_'' then (c # s, res)
     else hex_loop s res)"

definition parse_u64_hex :: "string \<Rightarrow> string \<times> u64" where
  "parse_u64_hex s = hex_loop s 0"

definition is_dec :: "char \<Rightarrow> bool" where
  "is_dec c \<longleftrightarrow> code CHR ''0'' \<le> code c \<and> code c \<le> code CHR ''9''"

definition parse_dec :: "char \<Rightarrow> nat" where
  "parse_dec c = code c - code CHR ''0''"

text \<open>
  The loop of \<^verbatim>\<open>parse_u64_dec\<close>. The overflow test compares what \<^verbatim>\<open>do_div\<close>
  returns, which is the remainder, with the value so far.
\<close>

fun dec_loop :: "math_env \<Rightarrow> string \<Rightarrow> u64 \<Rightarrow> string \<times> u64" where
  "dec_loop E [] res = ([], res)"
| "dec_loop E (c # s) res =
    (if c = NUL then (c # s, res)
     else if is_dec c then
       (let res10 = res * 10
        in if ucast (snd (do_div E True res10 10)) \<noteq> res then (c # s, res)
           else dec_loop E s (res * 10 + of_nat (parse_dec c)))
     else if c \<noteq> CHR ''_'' then (c # s, res)
     else dec_loop E s res)"

definition parse_u64_dec :: "math_env \<Rightarrow> string \<Rightarrow> string \<times> u64" where
  "parse_u64_dec E s = dec_loop E s 0"

definition parse_u64 :: "math_env \<Rightarrow> string \<Rightarrow> string \<times> u64" where
  "parse_u64 E s0 =
    (let (s, neg) = (if at s0 0 = CHR ''-'' then (tl s0, True) else (s0, False));
         (s, res) = (if at s 0 = CHR ''0'' \<and> at s 1 = CHR ''x'' then parse_u64_hex (drop 2 s)
                     else parse_u64_dec E s)
     in (s, if neg then - res else res))"

text \<open>
  The string decoders return the number of bytes of the decoded string with its terminator; the
  bytes stored through \<^verbatim>\<open>output\<close> are the second component. \<open>maxlen\<close> is a C
  \<^verbatim>\<open>int\<close> that the code only tests for zero and counts down.
\<close>

definition store :: "int \<Rightarrow> char \<Rightarrow> string \<Rightarrow> string" where
  "store maxlen ch out = (if maxlen \<noteq> 0 then out @ [ch] else out)"

definition count_down :: "int \<Rightarrow> int" where
  "count_down maxlen = (if maxlen \<noteq> 0 then maxlen - 1 else 0)"

text \<open>One character of a quoted string: its byte and the pointer behind it.\<close>

definition unescape :: "string \<Rightarrow> char \<times> string" where
  "unescape s =
    (if at s 0 = CHR 0x5C \<and> at s 1 = CHR ''x'' \<and> is_hex (at s 2) then
       (if is_hex (at s 3)
        then (char_of (parse_hex (at s 2) * 16 + parse_hex (at s 3)), drop 4 s)
        else (char_of (parse_hex (at s 2)), drop 3 s))
     else (at s 0, drop 1 s))"

function quoted_loop :: "string \<Rightarrow> int \<Rightarrow> nat \<Rightarrow> string \<Rightarrow> nat \<times> string" where
  "quoted_loop s maxlen out written =
    (if at s 0 = NUL \<or> at s 0 = CHR 0x22
     then (out + 1, store maxlen NUL written)
     else (let (ch, s') = unescape s
           in quoted_loop s' (count_down maxlen) (out + 1) (store maxlen ch written)))"
  by pat_completeness auto
termination
  by (relation "measure (\<lambda>(s, _). length s)")
    (auto simp: unescape_def at_def split: if_splits)

declare quoted_loop.simps [simp del]

definition parse_quoted_string :: "string \<Rightarrow> int \<Rightarrow> nat \<times> string" where
  "parse_quoted_string s maxlen = quoted_loop s maxlen 0 []"

fun plain_loop :: "string \<Rightarrow> int \<Rightarrow> nat \<Rightarrow> string \<Rightarrow> nat \<times> string" where
  "plain_loop [] maxlen out written = (out + 1, store maxlen NUL written)"
| "plain_loop (c # s) maxlen out written =
    (if key_char c then plain_loop s (count_down maxlen) (out + 1) (store maxlen c written)
     else (out + 1, store maxlen NUL written))"

definition parse_string :: "string \<Rightarrow> int \<Rightarrow> nat \<times> string" where
  "parse_string s maxlen =
    (if at s 0 = CHR 0x22 then parse_quoted_string (tl s) maxlen else plain_loop s maxlen 0 [])"

section \<open>Skipping\<close>

text \<open>What the parser needs of a skip function: it moves the pointer forward.\<close>

locale skipper =
  fixes skip :: "string \<Rightarrow> string"
  assumes skip_suffix: "suffix (skip s) s"
begin

lemma skip_length: "length (skip s) \<le> length s"
  using skip_suffix by (rule suffix_length_le)

lemma skip_tl_suffix: "suffix (skip (tl s)) s"
  using skip_suffix suffix_tl by (rule suffix_order.order_trans)

lemma skip_tl_length: "s \<noteq> [] \<Longrightarrow> length (skip (tl s)) < length s"
  using skip_length [of "tl s"] by (cases s) auto

lemma skip_trans: "suffix s t \<Longrightarrow> suffix (skip s) t"
  using skip_suffix by (rule suffix_order.order_trans)

end

text \<open>A skip function that runs over the characters of a class and stops at the next one.\<close>

locale class_skipper =
  fixes skip :: "string \<Rightarrow> string" and over :: "char \<Rightarrow> bool"
  assumes skip_dropWhile: "skip s = dropWhile over s" and over_NUL: "\<not> over NUL"
begin

lemma skip_stops: "\<not> over (deref (skip s))"
proof (cases "skip s")
  case Nil
  then show ?thesis using over_NUL by (simp add: deref_def at_def)
next
  case (Cons c t)
  then show ?thesis
    using hd_dropWhile [of over s] by (auto simp: skip_dropWhile deref_def at_def)
qed

lemma skip_append: "\<forall>c \<in> set pre. over c \<Longrightarrow> skip (pre @ s) = skip s"
  by (simp add: skip_dropWhile dropWhile_append2)

lemma skip_id: "\<not> over (deref s) \<Longrightarrow> skip s = s"
  by (cases s) (simp_all add: skip_dropWhile deref_def at_def)

lemma skip_skip: "skip (skip s) = skip s"
  using skip_id skip_stops by blast

end

sublocale class_skipper \<subseteq> skipper skip
  by unfold_locales (simp add: skip_dropWhile suffix_dropWhile)

definition blank :: "char \<Rightarrow> bool" where
  "blank c \<longleftrightarrow> c \<noteq> NUL \<and> code c \<le> 32"

interpretation ws: class_skipper skip_whitespace blank
proof
  show "skip_whitespace s = dropWhile blank s" for s
    by (induction s) (auto simp: blank_def)
qed (simp add: blank_def)

interpretation key: class_skipper skip_key key_char
proof
  show "skip_key s = dropWhile key_char s" for s
    by (induction s) auto
qed (simp add: key_char_def)

interpretation nl: skipper skip_newline
proof
  show "suffix (skip_newline s) s" for s
    by (induction s) (auto simp: suffix_Cons)
qed

interpretation str: skipper skip_string
proof
  show "suffix (skip_string s) s" for s
    by (induction s) (auto simp: suffix_Cons)
qed

lemmas skip_lengths = ws.skip_length key.skip_length nl.skip_length str.skip_length
lemmas skip_suffixes = ws.skip_suffix key.skip_suffix nl.skip_suffix str.skip_suffix

section \<open>Numbers\<close>

text \<open>The value of a run of digits and underscores, in front of which the value is \<open>acc\<close>.\<close>

fun horner :: "nat \<Rightarrow> (char \<Rightarrow> nat) \<Rightarrow> nat \<Rightarrow> string \<Rightarrow> nat" where
  "horner base dv acc [] = acc"
| "horner base dv acc (c # cs) = horner base dv (if c = CHR ''_'' then acc else acc * base + dv c) cs"

lemma horner_append: "horner base dv acc (xs @ ys) = horner base dv (horner base dv acc xs) ys"
  by (induction xs arbitrary: acc) simp_all

lemma horner_mono: "0 < base \<Longrightarrow> acc \<le> horner base dv acc cs"
proof (induction cs arbitrary: acc)
  case (Cons c cs)
  have "acc \<le> (if c = CHR ''_'' then acc else acc * base + dv c)"
    using Cons.prems by (cases base) simp_all
  also have "\<dots> \<le> horner base dv (if c = CHR ''_'' then acc else acc * base + dv c) cs"
    using Cons by blast
  finally show ?case by simp
qed simp

text \<open>A number loop: \<open>room r\<close> is the overflow test the code makes before it takes a digit.\<close>

locale digit_loop =
  fixes loop :: "string \<Rightarrow> u64 \<Rightarrow> string \<times> u64"
    and digit :: "char \<Rightarrow> bool" and dval :: "char \<Rightarrow> nat" and base :: nat
    and room :: "u64 \<Rightarrow> bool"
  assumes loop_Nil: "loop [] r = ([], r)"
    and loop_Cons: "loop (c # s) r =
      (if c = NUL then (c # s, r)
       else if digit c then
         (if room r then loop s (r * of_nat base + of_nat (dval c)) else (c # s, r))
       else if c = CHR ''_'' then loop s r else (c # s, r))"
    and room_fits: "digit c \<Longrightarrow> room r \<Longrightarrow> unat r * base + dval c < 2 ^ 64"
    and digit_char: "\<not> digit NUL" "\<not> digit CHR ''_''"
begin

definition num_char :: "char \<Rightarrow> bool" where
  "num_char c \<longleftrightarrow> digit c \<or> c = CHR ''_''"

lemma step_value:
  assumes "unat r * base + dval c < 2 ^ 64"
  shows "unat (r * of_nat base + of_nat (dval c) :: u64) = unat r * base + dval c"
proof -
  have "r * of_nat base + of_nat (dval c) = of_nat (unat r * base + dval c)"
    by simp
  then show ?thesis using assms by (simp only: unat_of_nat) simp
qed

text \<open>The loop consumes a run of number characters and never wraps.\<close>

lemma loop_value:
  "\<exists>pre. s = pre @ fst (loop s r) \<and> (\<forall>c \<in> set pre. num_char c)
    \<and> unat (snd (loop s r)) = horner base dval (unat r) pre"
proof (induction s arbitrary: r)
  case (Cons c s)
  show ?case
  proof (cases "digit c \<and> room r")
    case True
    let ?r = "r * of_nat base + of_nat (dval c) :: u64"
    from True have "loop (c # s) r = loop s ?r" "unat ?r = unat r * base + dval c"
      using digit_char room_fits by (auto simp: loop_Cons intro!: step_value)
    moreover from Cons.IH obtain pre where "s = pre @ fst (loop s ?r)" "\<forall>c \<in> set pre. num_char c"
      "unat (snd (loop s ?r)) = horner base dval (unat ?r) pre" by blast
    ultimately show ?thesis
      using True digit_char by (intro exI [of _ "c # pre"]) (auto simp: num_char_def)
  next
    case nodigit: False
    show ?thesis
    proof (cases "c = CHR ''_''")
      case True
      then have "loop (c # s) r = loop s r" using digit_char by (simp add: loop_Cons)
      with Cons.IH [of r] show ?thesis using True
        by (elim exE) (rule_tac x = "c # pre" in exI, simp add: num_char_def)
    next
      case False
      with nodigit have "loop (c # s) r = (c # s, r)" by (auto simp: loop_Cons)
      then show ?thesis by simp
    qed
  qed
qed (simp add: loop_Nil)

lemma loop_suffix: "suffix (fst (loop s r)) s"
  using loop_value [of s r] by (metis suffixI)

lemma loop_stop: "\<not> num_char (deref s) \<Longrightarrow> loop s r = (s, r)"
  by (cases s) (auto simp: num_char_def deref_def at_def loop_Nil loop_Cons)

end

text \<open>A number loop whose overflow test is exact reads every number that fits.\<close>

locale exact_digit_loop = digit_loop +
  assumes room_exact: "digit c \<Longrightarrow> unat r * base + dval c < 2 ^ 64 \<Longrightarrow> room r"
    and base_pos: "0 < base"
begin

lemma loop_complete:
  assumes "\<forall>c \<in> set pre. num_char c" and "horner base dval (unat r) pre < 2 ^ 64"
    and "\<not> num_char (deref s)"
  shows "loop (pre @ s) r = (s, of_nat (horner base dval (unat r) pre))"
  using assms
proof (induction pre arbitrary: r)
  case Nil
  then show ?case by (simp add: loop_stop)
next
  case (Cons c pre)
  show ?case
  proof (cases "c = CHR ''_''")
    case True
    then show ?thesis using Cons digit_char by (simp add: loop_Cons)
  next
    case False
    then have d: "digit c" using Cons.prems by (simp add: num_char_def)
    have "unat r * base + dval c \<le> horner base dval (unat r) (c # pre)"
      using False horner_mono [OF base_pos] by simp
    then have fits: "unat r * base + dval c < 2 ^ 64" using Cons.prems by simp
    then have "room r" using d room_exact by blast
    moreover have "c \<noteq> NUL" using d digit_char by blast
    ultimately show ?thesis
      using Cons False d step_value [OF fits] by (simp add: loop_Cons)
  qed
qed

end

lemma parse_hex_bound: "is_hex c \<Longrightarrow> parse_hex c < 16"
  by (auto simp: is_hex_def parse_hex_def)

lemma hex_room:
  "drop_bit 4 (push_bit 4 (r :: u64)) = r \<longleftrightarrow> unat r < 2 ^ 60"
proof -
  have "unat (drop_bit 4 (push_bit 4 r)) = unat r mod 2 ^ 60"
    using mod_mult_mult1 [of 16 "unat r" "2 ^ 60"]
    by (simp add: unat_drop_bit_word unat_push_bit_word mult.commute)
  then show ?thesis by (simp add: unat_eq_word mod_eq_self_iff_div_eq_0 div_eq_0_iff)
qed

interpretation hex: exact_digit_loop hex_loop is_hex parse_hex 16
  "\<lambda>r. drop_bit 4 (push_bit 4 r) = r"
proof
  fix c :: char and r :: u64 and s
  show "hex_loop (c # s) r =
      (if c = NUL then (c # s, r)
       else if is_hex c then
         (if drop_bit 4 (push_bit 4 r) = r
          then hex_loop s (r * of_nat 16 + of_nat (parse_hex c)) else (c # s, r))
       else if c = CHR ''_'' then hex_loop s r else (c # s, r))"
    by (simp add: push_bit_eq_mult)
  assume c: "is_hex c"
  note b = parse_hex_bound [OF c]
  show "unat r * 16 + parse_hex c < 2 ^ 64" if "drop_bit 4 (push_bit 4 r) = r"
    using that b by (simp add: hex_room)
  show "drop_bit 4 (push_bit 4 r) = r" if "unat r * 16 + parse_hex c < 2 ^ 64"
    using that by (simp add: hex_room)
qed (simp_all add: is_hex_def)

text \<open>
  The decimal loop: the test takes the remainder of \<open>res * 10\<close> by 10 for the quotient, so
  it leaves room for a digit only while the value is 0.
\<close>

lemma dec_room:
  assumes "math_env_ok E"
  shows "ucast (snd (do_div E True (r * 10) 10)) = (r :: u64) \<longleftrightarrow> r = 0"
proof -
  have "(10 :: u32) \<noteq> 0" by simp
  note rem = do_div_spec(2) [OF assms this, where c = True and n = "r * 10"]
  then have u: "unat (ucast (snd (do_div E True (r * 10) 10)) :: u64) = unat r * 10 mod 2 ^ 64 mod 10"
    by (simp add: unat_widen32 unat_mult_word)
  have "unat r * 10 mod 2 ^ 64 mod 10 = unat r \<longleftrightarrow> unat r = 0"
  proof
    assume a: "unat r * 10 mod 2 ^ 64 mod 10 = unat r"
    then have "unat r < 10" by (metis mod_less_divisor zero_less_numeral)
    with a show "unat r = 0" by simp
  qed simp
  then show ?thesis unfolding unat_eq_word u by simp
qed

lemma parse_dec_bound: "is_dec c \<Longrightarrow> parse_dec c \<le> 9"
  by (auto simp: is_dec_def parse_dec_def)

locale dec_reader =
  fixes E :: math_env
  assumes E_ok: "math_env_ok E"

sublocale dec_reader \<subseteq> digit_loop "dec_loop E" is_dec parse_dec 10
  "\<lambda>r. ucast (snd (do_div E True (r * 10) 10)) = r"
proof
  fix c :: char and r :: u64
  assume "is_dec c" "ucast (snd (do_div E True (r * 10) 10)) = r"
  then show "unat r * 10 + parse_dec c < 2 ^ 64"
    using parse_dec_bound [of c] by (simp add: dec_room [OF E_ok])
qed (simp_all add: is_dec_def Let_def)

context dec_reader
begin

lemma value_bound: "unat r \<le> 9 \<Longrightarrow> unat (snd (dec_loop E s r)) \<le> 9"
proof (induction s arbitrary: r)
  case (Cons c s)
  show ?case using Cons parse_dec_bound [of c]
    by (auto simp: dec_room [OF E_ok] unat_of_nat)
qed simp

lemma second_digit:
  assumes "is_dec c" "c \<noteq> CHR ''0''" "is_dec d"
  shows "dec_loop E (c # d # rest) 0 = (d # rest, of_nat (parse_dec c))"
proof -
  have "code c \<noteq> code CHR ''0''" using assms(2) by (simp only: of_char_eq_iff not_False_eq_True)
  then have "0 < parse_dec c" "parse_dec c \<le> 9"
    using assms(1) parse_dec_bound by (auto simp: is_dec_def parse_dec_def)
  then have "unat (of_nat (parse_dec c) :: u64) \<noteq> 0" by (simp add: unat_of_nat)
  then have "(of_nat (parse_dec c) :: u64) \<noteq> 0" by auto
  moreover have "c \<noteq> NUL" "d \<noteq> NUL" using assms digit_char by auto
  ultimately show ?thesis
    using assms dec_room [OF E_ok, of 0] dec_room [OF E_ok, of "of_nat (parse_dec c)"]
    by (simp add: Let_def)
qed

end

interpretation ref_dec: dec_reader ref_env
  by unfold_locales (rule ref_env_ok)

text \<open>A printer for hexadecimal numbers, to state what the scanner reads.\<close>

definition hex_digit :: "nat \<Rightarrow> char" where
  "hex_digit n = (if n < 10 then char_of (48 + n) else char_of (87 + n))"

fun hex_digits :: "nat \<Rightarrow> string" where
  "hex_digits n = (if n < 16 then [] else hex_digits (n div 16)) @ [hex_digit (n mod 16)]"

declare hex_digits.simps [simp del]

lemma hex_digit:
  assumes "n < 16"
  shows "is_hex (hex_digit n)" "parse_hex (hex_digit n) = n" "hex_digit n \<noteq> CHR ''_''"
    "hex_digit n \<noteq> NUL"
proof -
  have c: "code (hex_digit n) = (if n < 10 then 48 + n else 87 + n)"
    using assms by (simp add: hex_digit_def)
  show h: "is_hex (hex_digit n)" using assms by (simp add: is_hex_def c)
  show "parse_hex (hex_digit n) = n" using assms by (simp add: parse_hex_def c)
  show "hex_digit n \<noteq> CHR ''_''" "hex_digit n \<noteq> NUL"
    using h hex.digit_char by auto
qed

lemma hex_digits_value: "horner 16 parse_hex 0 (hex_digits n) = n"
proof (induction n rule: hex_digits.induct)
  case (1 n)
  show ?case
  proof (cases "n < 16")
    case False
    then have "horner 16 parse_hex 0 (hex_digits (n div 16)) = n div 16" by (rule 1)
    with False show ?thesis
      by (subst hex_digits.simps) (simp add: horner_append hex_digit)
  qed (subst hex_digits.simps, simp add: hex_digit)
qed

lemma hex_digits_chars: "c \<in> set (hex_digits n) \<Longrightarrow> hex.num_char c \<and> is_hex c"
proof (induction n rule: hex_digits.induct)
  case (1 n)
  then show ?case
    by (subst (asm) hex_digits.simps) (auto simp: hex.num_char_def hex_digit split: if_splits)
qed

lemma parse_u64_hex_digits:
  assumes "\<not> hex.num_char (deref rest)"
  shows "parse_u64_hex (hex_digits (unat v) @ rest) = (rest, v)"
proof -
  have "unat v < 2 ^ 64" using unat_bound [of v] by simp
  then show ?thesis
    unfolding parse_u64_hex_def using assms hex_digits_chars hex_digits_value [of "unat v"]
    by (subst hex.loop_complete) auto
qed

section \<open>Strings\<close>

text \<open>The bytes a string of the config denotes, up to its end.\<close>

function quoted_chars :: "string \<Rightarrow> string" where
  "quoted_chars s =
    (if at s 0 = NUL \<or> at s 0 = CHR 0x22 then []
     else fst (unescape s) # quoted_chars (snd (unescape s)))"
  by pat_completeness auto
termination
  by (relation "measure length") (auto simp: unescape_def at_def split: if_splits)

declare quoted_chars.simps [simp del]

definition string_value :: "string \<Rightarrow> string" where
  "string_value s =
    (if at s 0 = CHR 0x22 then quoted_chars (tl s) else takeWhile key_char s)"

lemma store_take: "store (int n) ch w @ take (n - 1) t = w @ take n (ch # t)"
  by (cases n) (simp_all add: store_def)

lemma count_down_int [simp]: "count_down (int n) = int (n - 1)"
  by (cases n) (simp_all add: count_down_def)

lemma quoted_loop_eq:
  "quoted_loop s (int n) out w
    = (out + length (quoted_chars s) + 1, w @ take n (quoted_chars s @ [NUL]))"
proof (induction s arbitrary: n out w rule: quoted_chars.induct)
  case (1 s)
  show ?case
  proof (cases "at s 0 = NUL \<or> at s 0 = CHR 0x22")
    case True
    then have "quoted_loop s (int n) out w = (out + 1, store (int n) NUL w)" "quoted_chars s = []"
      by (subst quoted_loop.simps quoted_chars.simps, simp)+
    then show ?thesis using store_take [of n NUL w "[]"] by simp
  next
    case False
    obtain ch s' where u: "unescape s = (ch, s')" by fastforce
    from False u have "quoted_loop s (int n) out w
        = quoted_loop s' (count_down (int n)) (out + 1) (store (int n) ch w)"
      and q: "quoted_chars s = ch # quoted_chars s'"
      by (subst quoted_loop.simps quoted_chars.simps, simp)+
    then show ?thesis
      using "1.IH" [OF False, unfolded u, of "n - 1" "out + 1" "store (int n) ch w"]
        store_take [of n ch w "quoted_chars s' @ [NUL]"]
      by (simp del: take_append)
  qed
qed

lemma plain_loop_eq:
  "plain_loop s (int n) out w
    = (out + length (takeWhile key_char s) + 1, w @ take n (takeWhile key_char s @ [NUL]))"
proof (induction s arbitrary: n out w)
  case Nil
  then show ?case using store_take [of n NUL w "[]"] by simp
next
  case (Cons c s)
  then show ?case
    using store_take [of n NUL w "[]"] store_take [of n c w "takeWhile key_char s @ [NUL]"]
    by (simp del: take_append)
qed

lemma parse_string_eq:
  "parse_string s (int n) = (length (string_value s) + 1, take n (string_value s @ [NUL]))"
  by (simp add: parse_string_def parse_quoted_string_def string_value_def quoted_loop_eq plain_loop_eq)

text \<open>A printer for quoted strings: the two delimiters and the terminator are escaped.\<close>

definition escape_char :: "char \<Rightarrow> string" where
  "escape_char c =
    (if c \<in> {NUL, CHR 0x22, CHR 0x5C}
     then [CHR 0x5C, CHR ''x'', hex_digit (code c div 16), hex_digit (code c mod 16)] else [c])"

definition quote :: "string \<Rightarrow> string" where
  "quote t = concat (map escape_char t)"

lemma unescape_escape:
  "unescape (escape_char c @ s) = (c, s)" "at (escape_char c @ s) 0 \<noteq> NUL"
  "at (escape_char c @ s) 0 \<noteq> CHR 0x22"
proof -
  have c: "code c div 16 < 16" "code c mod 16 < 16"
    by (rule less_mult_imp_div_less) simp_all
  then show "unescape (escape_char c @ s) = (c, s)"
    by (auto simp: unescape_def escape_char_def at_def hex_digit)
  show "at (escape_char c @ s) 0 \<noteq> NUL" "at (escape_char c @ s) 0 \<noteq> CHR 0x22"
    by (auto simp: escape_char_def at_def)
qed

lemma quoted_chars_quote: "quoted_chars (quote t @ CHR 0x22 # s) = t"
proof (induction t)
  case Nil
  then show ?case by (subst quoted_chars.simps) (simp add: quote_def at_def)
next
  case (Cons c t)
  then show ?case
    using unescape_escape [of c "quote t @ CHR 0x22 # s"]
    by (subst quoted_chars.simps) (simp add: quote_def)
qed

section \<open>The scanners move forward\<close>

lemma dec_loop_suffix: "suffix (fst (dec_loop E s r)) s"
  by (induction s arbitrary: r) (auto simp: Let_def suffix_Cons)

lemma parse_u64_suffix: "suffix (fst (parse_u64 E s)) s"
proof -
  have "suffix (fst (hex_loop u r)) s" "suffix (fst (dec_loop E u r)) s" if "suffix u s" for u r
    using that hex.loop_suffix dec_loop_suffix suffix_order.order_trans by blast+
  moreover have "suffix (drop 2 (tl s)) s" "suffix (drop 2 s) s" "suffix (tl s) s"
    using suffix_drop suffix_tl suffix_order.order_trans by blast+
  ultimately show ?thesis
    by (simp add: parse_u64_def parse_u64_hex_def parse_u64_dec_def Let_def case_prod_beta)
qed

section \<open>Properties\<close>

text \<open>
  Every 64-bit number printed in hexadecimal, with or without a sign, is read back by
  \<^verbatim>\<open>parse_u64\<close>, and the pointer it returns is just behind the number.
\<close>

theorem parse_u64_hex_roundtrip:
  assumes "\<not> is_hex (deref rest)" and "deref rest \<noteq> CHR ''_''"
  shows "parse_u64 E (''0x'' @ hex_digits (unat v) @ rest) = (rest, v)
    \<and> parse_u64 E (''-0x'' @ hex_digits (unat v) @ rest) = (rest, - v)"
  using parse_u64_hex_digits [of rest v] assms
  by (simp add: parse_u64_def at_def hex.num_char_def)

theorem parse_u64_hex_roundtrip_witness:
  "parse_u64 ref_env (''0x'' @ hex_digits (unat (48879 :: u64)) @ '';'') = ('';'', 48879)"
  using parse_u64_hex_roundtrip [of "'';''" ref_env 48879]
  by (simp add: is_hex_def deref_def at_def)

text \<open>
  Whatever the input, \<^verbatim>\<open>parse_u64_hex\<close> returns the value of exactly the characters it
  consumed: the overflow test stops it before the 64-bit value would wrap.
\<close>

theorem parse_u64_hex_no_wrap:
  "\<exists>digits. s = digits @ fst (parse_u64_hex s)
    \<and> (\<forall>c \<in> set digits. is_hex c \<or> c = CHR ''_'')
    \<and> unat (snd (parse_u64_hex s)) = horner 16 parse_hex 0 digits"
  using hex.loop_value [of s 0] by (simp add: parse_u64_hex_def hex.num_char_def)

theorem parse_u64_hex_no_wrap_witness:
  "\<exists>digits. ''1_fz'' = digits @ fst (parse_u64_hex ''1_fz'')
    \<and> unat (snd (parse_u64_hex ''1_fz'')) = horner 16 parse_hex 0 digits"
  using parse_u64_hex_no_wrap [of "''1_fz''"] by blast

text \<open>
  \<^verbatim>\<open>parse_u64_dec\<close> stops in front of every digit that follows a non-zero value: its
  overflow test reads the remainder that \<^verbatim>\<open>do_div\<close> returns as the quotient, so no
  decimal number with two significant digits is ever read, and its value is at most 9.
\<close>

theorem parse_u64_dec_one_digit:
  assumes "math_env_ok E"
  shows "unat (snd (parse_u64_dec E s)) \<le> 9
    \<and> (is_dec c \<and> c \<noteq> CHR ''0'' \<and> is_dec d
        \<longrightarrow> parse_u64_dec E (c # d # rest) = (d # rest, of_nat (parse_dec c)))"
  using dec_reader.value_bound [OF dec_reader.intro [OF assms], of 0 s]
    dec_reader.second_digit [OF dec_reader.intro [OF assms], of c d rest]
  by (simp add: parse_u64_dec_def)

theorem parse_u64_dec_one_digit_witness:
  "parse_u64_dec ref_env ''16;'' = (''6;'', 1)"
  using parse_u64_dec_one_digit [OF ref_env_ok, of "[]" "CHR ''1''" "CHR ''6''" "'';''"]
  by (simp add: is_dec_def parse_dec_def)

text \<open>
  \<^verbatim>\<open>parse_string\<close> returns the size of the decoded string with its terminator, whatever
  room it has, and stores the first \<open>n\<close> bytes of the terminated string: the size measured
  without a buffer is the size that a large enough buffer is filled with.
\<close>

theorem parse_string_measure_write:
  "fst (parse_string s 0) = length (string_value s) + 1
    \<and> fst (parse_string s (int n)) = fst (parse_string s 0)
    \<and> snd (parse_string s (int n)) = take n (string_value s @ [NUL])"
  using parse_string_eq [of s 0] parse_string_eq [of s n] by simp

text \<open>
  C36: every byte string, escaped and quoted, is decoded to itself with a terminator when the
  buffer has room for it.
\<close>

theorem parse_string_roundtrip:
  assumes "length t < n"
  shows "parse_string (CHR 0x22 # quote t @ CHR 0x22 # rest) (int n) = (length t + 1, t @ [NUL])"
  using assms parse_string_eq [of "CHR 0x22 # quote t @ CHR 0x22 # rest" n]
  by (simp add: string_value_def quoted_chars_quote at_def)

theorem parse_string_roundtrip_witness:
  "parse_string (CHR 0x22 # quote ''a b'' @ CHR 0x22 # '';'') 8 = (4, ''a b'' @ [NUL])"
  using parse_string_roundtrip [of "''a b''" 8 "'';''"] by simp

end
