(* ===== verification/ConfigFind.thy ===== *)
theory ConfigFind
  imports ConfigLex
begin

text \<open>
  The lookup of \<^verbatim>\<open>arch/riscv/drivers/config.c\<close> (lines 207 to 299):
  \<^verbatim>\<open>find_key\<close>, \<^verbatim>\<open>config_string_u64\<close> and
  \<^verbatim>\<open>config_string_str\<close>. The \<^verbatim>\<open>end\<close> pointer is the number \<open>e\<close> of bytes
  behind it, so \<open>end - start > 0\<close> is \<open>e < length start\<close>. The two nested loops of
  \<^verbatim>\<open>find_key\<close> are \<open>key_loop\<close> and \<open>value_loop\<close>; a \<open>return\<close> inside the inner
  loop is \<open>Inl\<close>, its normal end \<open>Inr\<close>. The recursion carries fuel; the first lemmas
  show that \<open>3 * length start + 3\<close> always suffices.
\<close>

section \<open>The code\<close>

definition substr_match :: "string \<Rightarrow> string \<Rightarrow> nat \<Rightarrow> bool" where
  "substr_match name key_start key_len =
    (let min_len = (if key_len < length name then key_len else length name)
     in take min_len name = take min_len key_start)"

definition full_match :: "string \<Rightarrow> string \<Rightarrow> nat \<Rightarrow> bool" where
  "full_match name key_start key_len =
    (substr_match name key_start key_len \<and> key_len = length name)"

definition prefix_match :: "string \<Rightarrow> string \<Rightarrow> nat \<Rightarrow> bool" where
  "prefix_match name key_start key_len =
    (substr_match name key_start key_len \<and> key_len < length name \<and> name ! key_len = CHR ''.'')"

function (sequential) find_key_fuel :: "nat \<Rightarrow> string \<Rightarrow> nat \<Rightarrow> string \<Rightarrow> bool \<Rightarrow> string option"
  and key_loop :: "nat \<Rightarrow> string \<Rightarrow> nat \<Rightarrow> string \<Rightarrow> bool \<Rightarrow> string option"
  and value_loop :: "nat \<Rightarrow> string \<Rightarrow> nat \<Rightarrow> string \<Rightarrow> bool \<Rightarrow> bool \<Rightarrow> bool \<Rightarrow> nat
    \<Rightarrow> (string + string) option" where
  "find_key_fuel 0 start e name take' = None"
| "find_key_fuel (Suc f) start e name take' = key_loop f (skip_whitespace start) e name take'"
| "key_loop 0 start e name take' = None"
| "key_loop (Suc f) start e name take' =
    (if e < length start \<and> deref start \<noteq> CHR ''}'' then
       (let key_start = start; start = skip_key start;
            key_len = length key_start - length start;
            start = skip_whitespace start
        in case value_loop f start e name take'
               (full_match name key_start key_len) (prefix_match name key_start key_len) key_len of
             None \<Rightarrow> None
           | Some (Inl r) \<Rightarrow> Some r
           | Some (Inr start) \<Rightarrow>
               (let start = (if deref start = CHR '';'' then tl start else start)
                in key_loop f (skip_whitespace start) e name take'))
     else Some start)"
| "value_loop 0 start e name take' full pref key_len = None"
| "value_loop (Suc f) start e name take' full pref key_len =
    (if e < length start \<and> deref start \<noteq> CHR '';'' then
       if deref start = CHR 0x22 then
         if take' \<and> full then Some (Inl start)
         else value_loop f (skip_whitespace (skip_string (tl start))) e name take' full pref key_len
       else if deref start = CHR ''{'' then
         if take' \<and> pref then
           map_option Inl (find_key_fuel f (tl start) e (drop (key_len + 1) name) True)
         else
           (case find_key_fuel f (tl start) e [] False of
              None \<Rightarrow> None
            | Some start \<Rightarrow>
                (let start = (if deref start = CHR ''}'' then tl start else start)
                 in value_loop f (skip_whitespace start) e name take' full pref key_len))
       else if take' \<and> full then Some (Inl start)
       else value_loop f (skip_whitespace (skip_key (tl start))) e name take' full pref key_len
     else Some (Inr start))"
  by pat_completeness simp_all
termination
  by (relation "measure (\<lambda>x. case x of Inl (f, _) \<Rightarrow> f | Inr (Inl (f, _)) \<Rightarrow> f | Inr (Inr (f, _)) \<Rightarrow> f)")
    simp_all

definition find_key :: "string \<Rightarrow> nat \<Rightarrow> string \<Rightarrow> bool \<Rightarrow> string option" where
  "find_key start e name take' = find_key_fuel (3 * length start + 3) start e name take'"

text \<open>
  \<^verbatim>\<open>archdata.config_start\<close> and \<^verbatim>\<open>config_end\<close> of a device (the latter as the number of
  bytes behind it), each possibly \<^verbatim>\<open>NULL\<close>, and the two messages of the accessors.
\<close>

record archdata =
  config_start :: "string option"
  config_end :: "nat option"

datatype lookup_log = Not_found | Not_parsed

definition config_string_u64 :: "math_env \<Rightarrow> archdata \<Rightarrow> string \<Rightarrow> (u64 \<times> lookup_log option) option" where
  "config_string_u64 E ad key =
    (case (config_start ad, config_end ad) of
       (Some start, Some e) \<Rightarrow>
         (case find_key start e key True of
            None \<Rightarrow> None
          | Some value \<Rightarrow>
              if length value \<le> e then Some (0, Some Not_found)
              else (let tail = skip_key value; (rest, result) = parse_u64 E value
                    in if tail \<noteq> rest then Some (0, Some Not_parsed) else Some (result, None)))
     | _ \<Rightarrow> Some (0, None))"

text \<open>The result, the bytes stored through \<^verbatim>\<open>dest\<close>, and the message.\<close>

definition config_string_str ::
    "archdata \<Rightarrow> string \<Rightarrow> int \<Rightarrow> (nat \<times> string \<times> lookup_log option) option" where
  "config_string_str ad key maxlen =
    (case (config_start ad, config_end ad) of
       (Some start, Some e) \<Rightarrow>
         (case find_key start e key True of
            None \<Rightarrow> None
          | Some value \<Rightarrow>
              if length value \<le> e then Some (0, store maxlen NUL [], Some Not_found)
              else (let (n, written) = parse_string value maxlen in Some (n, written, None)))
     | _ \<Rightarrow> Some (0, store maxlen NUL [], None))"

section \<open>Enough fuel\<close>

text \<open>
  What each loop guarantees of its result: it lies in the buffer from where the loop started, and
  the value loop ends behind the region or at a \<^verbatim>\<open>;\<close>.
\<close>

definition found_in :: "string \<Rightarrow> string option \<Rightarrow> bool" where
  "found_in start r \<longleftrightarrow> (\<exists>s. r = Some s \<and> suffix s start)"

definition values_in :: "string \<Rightarrow> nat \<Rightarrow> (string + string) option \<Rightarrow> bool" where
  "values_in start e r \<longleftrightarrow>
    (\<exists>s. (r = Some (Inl s) \<or> r = Some (Inr s) \<and> (length s \<le> e \<or> deref s = CHR '';''))
      \<and> suffix s start)"

lemma found_in_mono: "found_in s r \<Longrightarrow> suffix s t \<Longrightarrow> found_in t r"
  unfolding found_in_def using suffix_order.order_trans by blast

lemma values_in_mono: "values_in s e r \<Longrightarrow> suffix s t \<Longrightarrow> values_in t e r"
  unfolding values_in_def using suffix_order.order_trans by blast

lemma deref_neq_Nil: "deref s \<noteq> NUL \<Longrightarrow> s \<noteq> []"
  by (auto simp: deref_def at_def)

lemma opt_tl_suffix: "suffix (if b then tl s else s) s"
  by (simp add: suffix_tl)

lemma key_step_fuel:
  assumes vals: "\<And>start e name take' full pref key_len. 3 * length start < f \<Longrightarrow>
      values_in start e (value_loop f start e name take' full pref key_len)"
    and key: "\<And>start e name take'. 3 * length start + 1 < f \<Longrightarrow>
      found_in start (key_loop f start e name take')"
    and fuel: "3 * length start + 1 < Suc f"
  shows "found_in start (key_loop (Suc f) start e name take')"
proof (cases "e < length start \<and> deref start \<noteq> CHR ''}''")
  case True
  define k v where "k = length start - length (skip_key start)" and "v = skip_whitespace (skip_key start)"
  have v: "suffix v start" unfolding v_def by (intro ws.skip_trans key.skip_suffix)
  then have "3 * length v < f" using fuel suffix_length_le [OF v] by linarith
  from vals [OF this, of e name take' "full_match name start k" "prefix_match name start k" k]
  obtain s where s: "suffix s v"
    "value_loop f v e name take' (full_match name start k) (prefix_match name start k) k = Some (Inl s)
     \<or> value_loop f v e name take' (full_match name start k) (prefix_match name start k) k = Some (Inr s)
       \<and> (length s \<le> e \<or> deref s = CHR '';'')"
    unfolding values_in_def by blast
  have st: "suffix s start" using s(1) v suffix_order.order_trans by blast
  from s(2) show ?thesis
  proof
    assume "value_loop f v e name take' (full_match name start k) (prefix_match name start k) k = Some (Inl s)"
    then show ?thesis using True st
      by (simp add: Let_def found_in_def flip: k_def v_def)
  next
    define t where "t = skip_whitespace (if deref s = CHR '';'' then tl s else s)"
    assume "value_loop f v e name take' (full_match name start k) (prefix_match name start k) k = Some (Inr s)
      \<and> (length s \<le> e \<or> deref s = CHR '';'')"
    then have r: "value_loop f v e name take' (full_match name start k) (prefix_match name start k) k = Some (Inr s)"
      and end': "length s \<le> e \<or> deref s = CHR '';''" by blast+
    have ts: "suffix t s" unfolding t_def by (intro ws.skip_trans opt_tl_suffix)
    have "length t < length start"
    proof (cases "deref s = CHR '';''")
      case True
      then have "s \<noteq> []" by (intro deref_neq_Nil) simp
      then show ?thesis using ws.skip_tl_length [of s] suffix_length_le [OF st] True
        by (simp add: t_def)
    qed (use end' True suffix_length_le [OF ts] in simp)
    then have "found_in t (key_loop f t e name take')" using fuel by (intro key) simp
    then have "found_in start (key_loop f t e name take')"
      using ts st by (blast intro: found_in_mono suffix_order.order_trans)
    then show ?thesis using True r by (simp add: Let_def t_def flip: k_def v_def)
  qed
qed (auto simp: found_in_def)

lemma value_step_fuel:
  assumes vals: "\<And>start e name take' full pref key_len. 3 * length start < f \<Longrightarrow>
      values_in start e (value_loop f start e name take' full pref key_len)"
    and find: "\<And>start e name take'. 3 * length start + 2 < f \<Longrightarrow>
      found_in start (find_key_fuel f start e name take')"
    and fuel: "3 * length start < Suc f"
  shows "values_in start e (value_loop (Suc f) start e name take' full pref key_len)"
proof (cases "e < length start \<and> deref start \<noteq> CHR '';''")
  case True
  then have ne: "start \<noteq> []" by auto
  have less: "length (tl start) < length start" using ne by simp
  have next_value: "values_in start e (value_loop f t e name take' full pref key_len)"
    if "suffix t (tl start)" for t
  proof -
    have "3 * length t < f" using suffix_length_le [OF that] less fuel by linarith
    then show ?thesis
      using that vals suffix_tl by (blast intro: values_in_mono suffix_order.order_trans)
  qed
  have "3 * length (tl start) + 2 < f" using ne fuel by (cases start) simp_all
  then have block: "found_in (tl start) (find_key_fuel f (tl start) e n b)" for n b
    by (rule find)
  then have block': "found_in start (find_key_fuel f (tl start) e n b)" for n b
    using suffix_tl by (rule found_in_mono)
  have here: "values_in start e (Some (Inl start))" by (simp add: values_in_def)
  consider (quote) "deref start = CHR 0x22" | (brace) "deref start = CHR ''{''"
    | (word) "deref start \<noteq> CHR 0x22" "deref start \<noteq> CHR ''{''" by blast
  then show ?thesis
  proof cases
    case quote
    then show ?thesis using True here
      by (auto intro!: next_value ws.skip_trans str.skip_suffix)
  next
    case brace
    obtain s where s: "find_key_fuel f (tl start) e [] False = Some s" "suffix s (tl start)"
      using block unfolding found_in_def by blast
    have "suffix (skip_whitespace (if deref s = CHR ''}'' then tl s else s)) (tl start)"
      using s(2) opt_tl_suffix suffix_order.order_trans by (blast intro: ws.skip_trans)
    with block' [of "drop (key_len + 1) name" True] s(1) next_value True brace show ?thesis
      by (auto simp: Let_def found_in_def values_in_def)
  next
    case word
    then show ?thesis using True here
      by (auto intro!: next_value ws.skip_trans key.skip_suffix)
  qed
qed (auto simp: values_in_def)

lemma fuel_enough:
  "3 * length start + 2 < f \<Longrightarrow> found_in start (find_key_fuel f start e name take')"
  "3 * length start + 1 < f \<Longrightarrow> found_in start (key_loop f start e name take')"
  "3 * length start < f \<Longrightarrow>
    values_in start e (value_loop f start e name take' full pref key_len)"
proof (induction f arbitrary: start e name take' full pref key_len)
  case (Suc f)
  {
    case 1
    then have "3 * length (skip_whitespace start) + 1 < f" using ws.skip_length [of start] by linarith
    then have "found_in (skip_whitespace start) (key_loop f (skip_whitespace start) e name take')"
      using Suc.IH(2) by simp
    then show ?case using ws.skip_suffix found_in_mono by simp
  next
    case 2
    then show ?case using Suc.IH by (intro key_step_fuel)
  next
    case 3
    then show ?case using Suc.IH by (intro value_step_fuel)
  }
qed simp_all

lemma find_key_in: "found_in start (find_key start e name take')"
  unfolding find_key_def by (rule fuel_enough) simp

section \<open>The configuration language\<close>

text \<open>
  An abstract syntax of config strings, its text, and the values a dotted path denotes: an entry
  whose key is the name answers with its values from the first one that is not a block, an entry
  whose key is followed by a dot commits the search to its block (\<open>Dead_end\<close> when the rest of the
  path is not in it).
\<close>

datatype cfg_val = Word string | Quoted string | Block "(string \<times> cfg_val list) list"

type_synonym cfg = "(string \<times> cfg_val list) list"

datatype path = Found "cfg_val list" | Dead_end | Absent

fun show_vals :: "cfg_val list \<Rightarrow> string" and show_cfg :: "cfg \<Rightarrow> string" where
  "show_vals [] = []"
| "show_vals (Word w # vs) = w @ '' '' @ show_vals vs"
| "show_vals (Quoted q # vs) = [CHR 0x22] @ q @ [CHR 0x22] @ '' '' @ show_vals vs"
| "show_vals (Block es # vs) = ''{'' @ show_cfg es @ ''}'' @ '' '' @ show_vals vs"
| "show_cfg [] = []"
| "show_cfg ((k, vs) # es) = k @ '' '' @ show_vals vs @ '';'' @ show_cfg es"

fun path_vals :: "bool \<Rightarrow> string \<Rightarrow> string \<Rightarrow> cfg_val list \<Rightarrow> path"
  and path_cfg :: "bool \<Rightarrow> string \<Rightarrow> cfg \<Rightarrow> path" where
  "path_vals take' name k [] = Absent"
| "path_vals take' name k (Word w # vs) =
    (if take' \<and> k = name then Found (Word w # vs) else path_vals take' name k vs)"
| "path_vals take' name k (Quoted q # vs) =
    (if take' \<and> k = name then Found (Quoted q # vs) else path_vals take' name k vs)"
| "path_vals take' name k (Block es # vs) =
    (if take' \<and> prefix (k @ ''.'') name
     then (case path_cfg True (drop (length k + 1) name) es of Absent \<Rightarrow> Dead_end | r \<Rightarrow> r)
     else path_vals take' name k vs)"
| "path_cfg take' name [] = Absent"
| "path_cfg take' name ((k, vs) # es) =
    (case path_vals take' name k vs of Absent \<Rightarrow> path_cfg take' name es | r \<Rightarrow> r)"

fun wf_vals :: "cfg_val list \<Rightarrow> bool" and wf_cfg :: "cfg \<Rightarrow> bool" where
  "wf_vals [] = True"
| "wf_vals (Word w # vs) = (w \<noteq> [] \<and> list_all key_char w \<and> wf_vals vs)"
| "wf_vals (Quoted q # vs) = (list_all (\<lambda>c. c \<noteq> NUL \<and> c \<noteq> CHR 0x22) q \<and> wf_vals vs)"
| "wf_vals (Block es # vs) = (wf_cfg es \<and> wf_vals vs)"
| "wf_cfg [] = True"
| "wf_cfg ((k, vs) # es) = (k \<noteq> [] \<and> list_all key_char k \<and> wf_vals vs \<and> wf_cfg es)"


lemma key_char_simps [simp]:
  "key_char c \<Longrightarrow> \<not> blank c" "key_char c \<Longrightarrow> c \<noteq> CHR 0x22" "key_char c \<Longrightarrow> c \<noteq> CHR ''{''"
  "key_char c \<Longrightarrow> c \<noteq> CHR ''}''" "key_char c \<Longrightarrow> c \<noteq> CHR '';''"
  by (auto simp: key_char_def blank_def)

lemma deref_Cons [simp]: "deref (c # s) = c" "deref [] = NUL"
  by (simp_all add: deref_def at_def)

lemma skip_word:
  assumes "list_all key_char w" "\<not> key_char (deref s)"
  shows "skip_key (w @ s) = s"
  using assms key.skip_append key.skip_id by (simp add: list_all_iff)

lemma skip_word_tl:
  assumes "w \<noteq> []" "list_all key_char w" "\<not> key_char (deref s)"
  shows "skip_key (tl (w @ s)) = s"
  using assms skip_word [of "tl w" s] by (cases w) simp_all

lemma skip_quoted:
  "list_all (\<lambda>c. c \<noteq> NUL \<and> c \<noteq> CHR 0x22) q \<Longrightarrow> skip_string (q @ CHR 0x22 # s) = s"
  by (induction q) simp_all

lemma not_blank_shown:
  assumes "\<not> blank (deref t)"
  shows "wf_vals vs \<Longrightarrow> \<not> blank (deref (show_vals vs @ t))"
    and "wf_cfg es \<Longrightarrow> \<not> blank (deref (show_cfg es @ t))"
proof -
  have word: "\<not> blank (deref (w @ s))" if "w \<noteq> []" "list_all key_char w" for w s
    using that by (cases w) simp_all
  show "wf_vals vs \<Longrightarrow> \<not> blank (deref (show_vals vs @ t))"
    using assms by (cases vs rule: wf_vals.cases) (simp_all add: word, simp_all add: blank_def)
  show "wf_cfg es \<Longrightarrow> \<not> blank (deref (show_cfg es @ t))"
    using assms by (cases es rule: wf_cfg.cases) (simp_all add: word)
qed

lemma prefix_snoc_iff:
  "prefix (k @ [c]) name \<longleftrightarrow> length k < length name \<and> take (length k) name = k \<and> name ! length k = c"
proof
  assume r: "length k < length name \<and> take (length k) name = k \<and> name ! length k = c"
  then have "name = k @ c # drop (Suc (length k)) name"
    using id_take_nth_drop [of "length k" name] by simp
  then show "prefix (k @ [c]) name" by (metis append_Cons append_Nil append_assoc prefixI)
qed (auto simp: prefix_def nth_append)

lemma full_match_word: "full_match name (k @ s) (length k) \<longleftrightarrow> k = name"
  by (auto simp: full_match_def substr_match_def)

lemma prefix_match_word: "prefix_match name (k @ s) (length k) \<longleftrightarrow> prefix (k @ ''.'') name"
  by (auto simp: prefix_match_def substr_match_def prefix_snoc_iff)

lemma path_not_taken:
  "path_vals False name k vs = Absent" "path_cfg False name es = Absent"
  by (induction vs and es arbitrary: name k and name rule: show_vals_show_cfg.induct) simp_all

text \<open>What the two loops return for each answer of the tree.\<close>

definition vals_result :: "path \<Rightarrow> (string + string) option \<Rightarrow> string \<Rightarrow> bool" where
  "vals_result p r t =
    (case p of Absent \<Rightarrow> r = Some (Inr t)
     | Found vs \<Rightarrow> \<exists>u. r = Some (Inl (show_vals vs @ '';'' @ u))
     | Dead_end \<Rightarrow> \<exists>u. r = Some (Inl (''}'' @ u)))"

definition cfg_result :: "path \<Rightarrow> string option \<Rightarrow> string \<Rightarrow> bool" where
  "cfg_result p r t =
    (case p of Absent \<Rightarrow> r = Some t
     | Found vs \<Rightarrow> \<exists>u. r = Some (show_vals vs @ '';'' @ u)
     | Dead_end \<Rightarrow> \<exists>u. r = Some (''}'' @ u))"

lemma deref_word: "w \<noteq> [] \<Longrightarrow> list_all key_char w \<Longrightarrow> key_char (deref (w @ s))"
  by (cases w) simp_all

lemma skip_to_vals: "wf_vals vs \<Longrightarrow> skip_whitespace (show_vals vs @ CHR '';'' # t)
    = show_vals vs @ CHR '';'' # t"
  using not_blank_shown(1) [of "CHR '';'' # t" vs] by (intro ws.skip_id) (simp add: blank_def)

lemma find_shown:
  "wf_vals vs \<Longrightarrow> e \<le> length t \<Longrightarrow> 3 * length (show_vals vs @ '';'' @ t) < f \<Longrightarrow>
    vals_result (path_vals tk name k vs)
      (value_loop f (show_vals vs @ '';'' @ t) e name tk (k = name) (prefix (k @ ''.'') name) (length k))
      ('';'' @ t)"
  "wf_cfg es \<Longrightarrow> e \<le> length t \<Longrightarrow> length t \<le> e \<or> deref t = CHR ''}'' \<Longrightarrow> skip_whitespace t = t \<Longrightarrow>
    3 * length (show_cfg es @ t) + 1 < f \<Longrightarrow>
    cfg_result (path_cfg tk name es) (key_loop f (show_cfg es @ t) e name tk) t"
proof (induction vs and es arbitrary: f t tk name k and f t tk name
    rule: show_vals_show_cfg.induct)
  case 1
  then obtain f' where "f = Suc f'" by (cases f) simp_all
  then show ?case by (simp add: vals_result_def)
next
  case (2 w vs)
  then obtain f' where f: "f = Suc f'" by (cases f) simp_all
  let ?rest = "show_vals vs @ CHR '';'' # t"
  have w: "w \<noteq> []" "list_all key_char w" "wf_vals vs" using 2 by simp_all
  note d = deref_word [OF w(1,2), of "CHR '' '' # ?rest"]
  have sk: "skip_key (tl (w @ CHR '' '' # ?rest)) = CHR '' '' # ?rest"
    using w by (intro skip_word_tl) (simp_all add: key_char_def)
  have "vals_result (path_vals tk name k vs)
      (value_loop f' ?rest e name tk (k = name) (prefix (k @ ''.'') name) (length k)) ('';'' @ t)"
    using 2 w f by (cases w) simp_all
  moreover have "value_loop f (w @ CHR '' '' # ?rest) e name tk (k = name) (prefix (k @ ''.'') name) (length k)
    = (if tk \<and> k = name then Some (Inl (w @ CHR '' '' # ?rest))
       else value_loop f' ?rest e name tk (k = name) (prefix (k @ ''.'') name) (length k))"
    using w 2(3) sk key_char_simps [OF d] by (simp add: f skip_to_vals)
  ultimately show ?case by (auto simp: vals_result_def)
next
  case (3 q vs)
  then obtain f' where f: "f = Suc f'" by (cases f) simp_all
  let ?rest = "show_vals vs @ CHR '';'' # t"
  have q: "list_all (\<lambda>c. c \<noteq> NUL \<and> c \<noteq> CHR 0x22) q" "wf_vals vs" using 3 by simp_all
  have "vals_result (path_vals tk name k vs)
      (value_loop f' ?rest e name tk (k = name) (prefix (k @ ''.'') name) (length k)) ('';'' @ t)"
    using 3 q f by simp
  moreover have "value_loop f (CHR 0x22 # q @ CHR 0x22 # CHR '' '' # ?rest) e name tk (k = name)
      (prefix (k @ ''.'') name) (length k)
    = (if tk \<and> k = name then Some (Inl (CHR 0x22 # q @ CHR 0x22 # CHR '' '' # ?rest))
       else value_loop f' ?rest e name tk (k = name) (prefix (k @ ''.'') name) (length k))"
    using q 3(3) by (simp add: f skip_to_vals skip_quoted)
  ultimately show ?case by (auto simp: vals_result_def)
next
  case (4 es vs)
  then obtain f' where f: "f = Suc f'" by (cases f) simp_all
  let ?rest = "show_vals vs @ CHR '';'' # t"
  let ?start = "CHR ''{'' # show_cfg es @ CHR ''}'' # CHR '' '' # ?rest"
  have wf: "wf_cfg es" "wf_vals vs" using 4 by simp_all
  have brace: "\<not> blank (deref (CHR ''}'' # CHR '' '' # ?rest))" by (simp add: blank_def)
  have block: "cfg_result (path_cfg tk' name' es)
      (find_key_fuel f' (show_cfg es @ CHR ''}'' # CHR '' '' # ?rest) e name' tk')
      (CHR ''}'' # CHR '' '' # ?rest)" for tk' name'
  proof -
    obtain f'' where f'': "f' = Suc f''" using 4(5) f by (cases f') simp_all
    have "cfg_result (path_cfg tk' name' es)
      (key_loop f'' (show_cfg es @ CHR ''}'' # CHR '' '' # ?rest) e name' tk')
      (CHR ''}'' # CHR '' '' # ?rest)"
      using 4(4,5) f f'' wf ws.skip_id [OF brace] by (intro 4(1)) simp_all
    then show ?thesis
      using ws.skip_id [OF not_blank_shown(2) [OF brace wf(1)]] by (simp add: f'')
  qed
  show ?case
  proof (cases "tk \<and> prefix (k @ ''.'') name")
    case True
    have "value_loop f ?start e name tk (k = name) (prefix (k @ ''.'') name) (length k)
      = map_option Inl (find_key_fuel f' (show_cfg es @ CHR ''}'' # CHR '' '' # ?rest) e
          (drop (length k + 1) name) True)"
      using True 4(4) by (simp add: f)
    then show ?thesis
      using True block [of True "drop (length k + 1) name"]
      by (auto simp: vals_result_def cfg_result_def split: path.splits)
  next
    case False
    have "find_key_fuel f' (show_cfg es @ CHR ''}'' # CHR '' '' # ?rest) e [] False
      = Some (CHR ''}'' # CHR '' '' # ?rest)"
      using block [of False "[]"] by (simp add: cfg_result_def path_not_taken)
    then have "value_loop f ?start e name tk (k = name) (prefix (k @ ''.'') name) (length k)
      = value_loop f' ?rest e name tk (k = name) (prefix (k @ ''.'') name) (length k)"
      using 4(4) wf False by (cases tk) (simp_all add: f Let_def skip_to_vals)
    moreover have "vals_result (path_vals tk name k vs)
      (value_loop f' ?rest e name tk (k = name) (prefix (k @ ''.'') name) (length k)) ('';'' @ t)"
      using 4(2) [of t f' tk name k] 4(4,5) wf f by simp
    ultimately show ?thesis using False by (cases tk) simp_all
  qed
next
  case 5
  then obtain f' where "f = Suc f'" by (cases f) simp_all
  then show ?case using 5 by (auto simp: cfg_result_def)
next
  case (6 k vs es)
  then obtain f' where f: "f = Suc f'" by (cases f) simp_all
  let ?rest = "show_cfg es @ t"
  let ?vals = "show_vals vs @ CHR '';'' # ?rest"
  have wf: "k \<noteq> []" "list_all key_char k" "wf_vals vs" "wf_cfg es" using 6 by simp_all
  have t: "\<not> blank (deref t)" using 6(6) ws.skip_stops [of t] by simp
  note d = deref_word [OF wf(1,2), of "CHR '' '' # ?vals"]
  have sk: "skip_key (k @ CHR '' '' # ?vals) = CHR '' '' # ?vals"
    using wf by (intro skip_word) (simp_all add: key_char_def)
  have len: "length (k @ CHR '' '' # ?vals) - length (CHR '' '' # ?vals) = length k" by simp
  let ?v = "value_loop f' ?vals e name tk (k = name) (prefix (k @ ''.'') name) (length k)"
  have vals: "vals_result (path_vals tk name k vs) ?v ('';'' @ ?rest)"
    using 6(1) [of ?rest f' tk name k] 6(4,7) wf f by simp
  have rest: "cfg_result (path_cfg tk name es) (key_loop f' ?rest e name tk) t"
    using 6(2) [of t f' tk name] 6(4,5,6,7) wf f by simp
  have "key_loop f (k @ CHR '' '' # ?vals) e name tk =
      (case ?v of None \<Rightarrow> None | Some (Inl r) \<Rightarrow> Some r
       | Some (Inr start) \<Rightarrow>
          (let start = (if deref start = CHR '';'' then tl start else start)
           in key_loop f' (skip_whitespace start) e name tk))"
    using 6(4) key_char_simps [OF d] wf
    by (simp add: f Let_def sk len skip_to_vals full_match_word prefix_match_word)
  then show ?case
    using vals rest ws.skip_id [OF not_blank_shown(2) [OF t wf(4)]]
    by (cases "path_vals tk name k vs") (auto simp: vals_result_def cfg_result_def)
qed

lemma is_hex_key_char: "is_hex c \<Longrightarrow> key_char c"
  by (auto simp: is_hex_def key_char_def)

lemma read_brace:
  "\<not> key_char CHR ''}''" "parse_u64 E (CHR ''}'' # u) = (CHR ''}'' # u, 0)"
  "parse_string (CHR ''}'' # u) 8 = (1, [NUL])"
  using parse_string_eq [of "CHR ''}'' # u" 8]
  by (simp_all add: key_char_def parse_u64_def parse_u64_dec_def is_dec_def string_value_def at_def Let_def)

lemma find_key_shown:
  assumes "wf_cfg es"
  shows "cfg_result (path_cfg True name es) (find_key (show_cfg es) 0 name True) []"
proof -
  have "\<not> blank (deref (show_cfg es @ []))"
    using not_blank_shown(2) [of "[]", OF _ assms] by (simp add: blank_def)
  then have "skip_whitespace (show_cfg es) = show_cfg es" using ws.skip_id by simp
  then show ?thesis
    using find_shown(2) [OF assms, of 0 "[]" "3 * length (show_cfg es) + 2" True name]
    by (simp add: find_key_def numeral_3_eq_3)
qed

section \<open>Properties\<close>

text \<open>
  C30: \<^verbatim>\<open>find_key\<close> returns for every input, and the pointer it returns lies in the buffer it
  searched, whatever the nesting and however the text is malformed.
\<close>

theorem find_key_total:
  "\<exists>s. find_key start e name take' = Some s \<and> suffix s start"
  using find_key_in [of start e name take'] by (simp add: found_in_def)

text \<open>
  C7: on the text of a config tree, \<^verbatim>\<open>find_key\<close> returns the first value the dotted path
  denotes in the tree, the end of the text when no entry matches, and the closing brace of the
  block that a prefix of the path selected when the rest of the path is not in that block.
\<close>

theorem find_key_path:
  assumes "wf_cfg es"
  shows "case path_cfg True name es of
      Found vs \<Rightarrow> \<exists>u. find_key (show_cfg es) 0 name True = Some (show_vals vs @ '';'' @ u)
    | Dead_end \<Rightarrow> \<exists>u. find_key (show_cfg es) 0 name True = Some (''}'' @ u)
    | Absent \<Rightarrow> find_key (show_cfg es) 0 name True = Some []"
  using find_key_shown [OF assms, of name] by (simp add: cfg_result_def split: path.splits)

definition example_cfg :: cfg where
  "example_cfg = [(''plic'', [Block [(''ndevs'', [Word ''0x1f'']), (''tag'', [Quoted ''a{b''])]]),
     (''ram'', [Word ''0x80000000''])]"

lemma example_wf: "wf_cfg example_cfg"
  by (simp add: example_cfg_def key_char_def)

theorem find_key_path_witness:
  "\<exists>u. find_key (show_cfg example_cfg) 0 ''plic.tag'' True = Some (CHR 0x22 # ''a{b'' @ [CHR 0x22] @ u)"
  using find_key_path [OF example_wf, of "''plic.tag''"]
  by (auto simp: example_cfg_def)

text \<open>
  \<^verbatim>\<open>config_string_u64\<close> reads back every hexadecimal value of a config tree, without a
  message.
\<close>

theorem config_string_u64_found:
  assumes "wf_cfg es" and "path_cfg True key es = Found (Word (''0x'' @ hex_digits (unat v)) # vs)"
  shows "config_string_u64 E \<lparr>config_start = Some (show_cfg es), config_end = Some 0\<rparr> key
    = Some (v, None)"
proof -
  let ?rest = "CHR '' '' # show_vals vs @ '';'' @ u"
  obtain u where u: "find_key (show_cfg es) 0 key True
      = Some (''0x'' @ hex_digits (unat v) @ CHR '' '' # show_vals vs @ '';'' @ u)"
    using find_key_shown [OF assms(1), of key] assms(2) by (auto simp: cfg_result_def)
  have "list_all key_char (''0x'' @ hex_digits (unat v))"
    using hex_digits_chars is_hex_key_char by (auto simp: list_all_iff) (simp_all add: key_char_def)
  then have "skip_key ((''0x'' @ hex_digits (unat v)) @ CHR '' '' # show_vals vs @ '';'' @ u)
    = CHR '' '' # show_vals vs @ '';'' @ u"
    by (rule skip_word) (simp add: key_char_def)
  moreover have "parse_u64 E (''0x'' @ hex_digits (unat v) @ CHR '' '' # show_vals vs @ '';'' @ u)
    = (CHR '' '' # show_vals vs @ '';'' @ u, v)"
    using parse_u64_hex_digits [of "CHR '' '' # show_vals vs @ '';'' @ u" v]
    by (simp add: parse_u64_def at_def hex.num_char_def is_hex_def)
  ultimately show ?thesis by (simp add: config_string_u64_def u Let_def)
qed

theorem config_string_u64_found_witness:
  "config_string_u64 ref_env \<lparr>config_start = Some (show_cfg example_cfg), config_end = Some 0\<rparr>
    ''plic.ndevs'' = Some (31, None)"
proof -
  have "hex_digits (unat (31 :: u64)) = ''1f''"
    by code_simp
  then show ?thesis
    using config_string_u64_found [OF example_wf, of "''plic.ndevs''" 31 "[]" ref_env]
    by (simp add: example_cfg_def)
qed

text \<open>
  A path whose first part names a block but whose last key is missing in it is not reported:
  \<^verbatim>\<open>config_string_u64\<close> reads the closing brace as the number 0 and
  \<^verbatim>\<open>config_string_str\<close> as the empty string, both without the message that a path with no
  matching entry gets.
\<close>

theorem config_string_dead_end:
  assumes "wf_cfg es" and "ad = \<lparr>config_start = Some (show_cfg es), config_end = Some 0\<rparr>"
  shows "(path_cfg True key es = Dead_end \<longrightarrow>
      config_string_u64 E ad key = Some (0, None) \<and> config_string_str ad key 8 = Some (1, [NUL], None))
    \<and> (path_cfg True key es = Absent \<longrightarrow>
      config_string_u64 E ad key = Some (0, Some Not_found)
      \<and> config_string_str ad key 8 = Some (0, [NUL], Some Not_found))"
proof (intro conjI impI)
  note shown = find_key_shown [OF assms(1), of key, unfolded cfg_result_def]
  note defs = assms(2) config_string_u64_def config_string_str_def
  show "config_string_u64 E ad key = Some (0, None)" "config_string_str ad key 8 = Some (1, [NUL], None)"
    if "path_cfg True key es = Dead_end"
    using shown that by (auto simp: defs read_brace)
  show "config_string_u64 E ad key = Some (0, Some Not_found)"
    "config_string_str ad key 8 = Some (0, [NUL], Some Not_found)"
    if "path_cfg True key es = Absent"
    using shown that by (simp_all add: defs store_def)
qed

theorem config_string_dead_end_witness:
  "config_string_u64 ref_env \<lparr>config_start = Some (show_cfg example_cfg), config_end = Some 0\<rparr>
    ''plic.size'' = Some (0, None)"
  using config_string_dead_end [OF example_wf refl, of "''plic.size''" ref_env]
  by (simp add: example_cfg_def)

end
