(* ===== verification/ConfigDevices.thy ===== *)
theory ConfigDevices
  imports ConfigFind
begin

text \<open>
  The device scanner of \<^verbatim>\<open>drivers/config.c\<close> (lines 299-604): \<^verbatim>\<open>parse_config_string\<close> walks
  the text three times. Pass 0 marks the blocks that are devices, pass 1 counts the resources and
  the bytes of the names, and pass 2 fills the buffers that were allocated from these counts. A
  pointer into the text is the text from there on, as in \<open>ConfigLex\<close>; a pointer into a
  buffer is an index, and an access outside of the buffer is an error of the model. The chain of
  enclosing parser states that the code links through its stack frames is the list of the texts
  of their keys, the innermost first, which is all that is read through it.
\<close>

section \<open>State\<close>

datatype parse_error = Null_deref | Roots_oob | Devices_oob | Resources_oob | Names_oob | Out_of_fuel | Bug_no_memory

type_synonym 'a result = "parse_error + 'a"

definition bind_res :: "'a result \<Rightarrow> ('a \<Rightarrow> 'b result) \<Rightarrow> 'b result" where
  "bind_res r f = (case r of Inl e \<Rightarrow> Inl e | Inr x \<Rightarrow> f x)"

lemma bind_res_simps [simp]:
  "bind_res (Inl e) f = Inl e"
  "bind_res (Inr x) f = f x"
  by (simp_all add: bind_res_def)

lemma bind_res_Inr [simp]: "bind_res r f = Inr y \<longleftrightarrow> (\<exists>x. r = Inr x \<and> f x = Inr y)"
  by (cases r) simp_all

text \<open>The name of a device or resource: the static \<^verbatim>\<open>"."\<close> or a place in the names.\<close>

datatype name_ref = Dot | Names nat

datatype resource_flags = No_flags | IORESOURCE_IRQ | IORESOURCE_BUS | IORESOURCE_MEM

record resource =
  res_name :: name_ref
  res_flags :: resource_flags
  res_start :: u64
  res_end :: u64

record device =
  dev_name :: name_ref
  dev_id :: int
  num_resources :: nat
  dev_resource :: "nat option"
  driver_override :: "nat option"
  dev_archdata :: archdata

text \<open>The state the parser passes by value, and the memory it points into.\<close>

record parser_state =
  pass :: nat
  roots :: nat
  config :: string
  devices :: nat
  names :: nat
  key_start :: string
  key_end :: string

record world = parser_state +
  roots_buf :: "bool list"
  device_buf :: "device list"
  resource_buf :: "resource list"
  names_buf :: string

definition HAVE_DEVICES :: nat where "HAVE_DEVICES = 1"
definition HAVE_NAMES :: nat where "HAVE_NAMES = 2"

definition key_len :: "world \<Rightarrow> nat" where
  "key_len w = length (key_start w) - length (key_end w)"

definition key_text :: "world \<Rightarrow> string" where
  "key_text w = take (key_len w) (key_start w)"

definition update_device :: "nat \<Rightarrow> (device \<Rightarrow> device) \<Rightarrow> world \<Rightarrow> world" where
  "update_device d f w = w\<lparr>device_buf := (device_buf w)[d := f (device_buf w ! d)]\<rparr>"

definition names_put :: "nat \<Rightarrow> string \<Rightarrow> world \<Rightarrow> world result" where
  "names_put pos txt w =
    (if txt = [] then Inr w
     else if pos + length txt \<le> length (names_buf w)
     then Inr (w\<lparr>names_buf := take pos (names_buf w) @ txt @ drop (pos + length txt) (names_buf w)\<rparr>)
     else Inl Names_oob)"

section \<open>The operations\<close>

definition parser_key_eq :: "world \<Rightarrow> string \<Rightarrow> bool" where
  "parser_key_eq w key \<longleftrightarrow> key_len w = length key \<and> key_text w = key"

fun config_path_helper :: "string list \<Rightarrow> world \<Rightarrow> world result" where
  "config_path_helper [] w = Inl Null_deref"
| "config_path_helper (parent # up) w =
    bind_res (if up \<noteq> [] then config_path_helper up w else Inr w) (\<lambda>w.
    bind_res (if pass w \<ge> HAVE_NAMES then names_put (names w) (parent @ ''.'') w else Inr w) (\<lambda>w.
      Inr (w\<lparr>names := names w + (length parent + 1)\<rparr>)))"

definition config_path :: "string list \<Rightarrow> world \<Rightarrow> (name_ref \<times> world) result" where
  "config_path parents w =
    (if parents = [] then Inr (Dot, w)
     else bind_res (config_path_helper parents w) (\<lambda>w'.
       bind_res (if pass w' \<ge> HAVE_NAMES then names_put (names w' - 1) [NUL] w' else Inr w') (\<lambda>w'.
         Inr (Names (names w), w'))))"

definition parse_interface :: "nat option \<Rightarrow> world \<Rightarrow> world result" where
  "parse_interface target w =
    (let len = (if pass w \<ge> HAVE_NAMES then 65536 else 0);
         w = (case target of
                None \<Rightarrow> w
              | Some d \<Rightarrow> update_device d (\<lambda>dev. dev\<lparr>driver_override := Some (names w)\<rparr>) w);
         (n, written) = parse_string (config w) len
     in bind_res (names_put (names w) written w) (\<lambda>w. Inr (w\<lparr>names := names w + n\<rparr>)))"

text \<open>
  \<^verbatim>\<open>*name?name:"."\<close>, the entry behind the device's last resource, and the count that both
  \<^verbatim>\<open>parse_range\<close> and \<^verbatim>\<open>parse_single\<close> end with.
\<close>

definition display_name :: "name_ref \<Rightarrow> world \<Rightarrow> name_ref" where
  "display_name name w =
    (case name of Dot \<Rightarrow> Dot | Names p \<Rightarrow> if at (drop p (names_buf w)) 0 = NUL then Dot else Names p)"

definition add_resource ::
    "nat \<Rightarrow> name_ref \<Rightarrow> resource_flags \<Rightarrow> u64 \<Rightarrow> u64 \<Rightarrow> world \<Rightarrow> world result" where
  "add_resource d name flags start stop w =
    (let dev = device_buf w ! d;
         counted = (\<lambda>w. update_device d (\<lambda>dev. dev\<lparr>num_resources := num_resources dev + 1\<rparr>) w)
     in case dev_resource dev of
          None \<Rightarrow> Inr (counted w)
        | Some base \<Rightarrow>
            let r = base + num_resources dev
            in if r < length (resource_buf w)
               then Inr (counted (w\<lparr>resource_buf := (resource_buf w)[r :=
                 \<lparr>res_name = display_name name w, res_flags = flags, res_start = start, res_end = stop\<rparr>]\<rparr>))
               else Inl Resources_oob)"

definition parse_range ::
    "math_env \<Rightarrow> string list \<Rightarrow> resource_flags \<Rightarrow> nat option \<Rightarrow> world \<Rightarrow> world result" where
  "parse_range E parents flags target w =
    (let value_tail = skip_key (config w);
         (value_end, val) = parse_u64 E (config w);
         (end_of_key, key) = parse_u64 E (key_start w)
     in if end_of_key \<noteq> key_end w then Inr w
        else if value_end \<noteq> value_tail then Inr w
        else
          (case target of
             None \<Rightarrow> Inr w
           | Some d \<Rightarrow>
               (case parents of
                  [] \<Rightarrow> Inl Null_deref
                | parent # up \<Rightarrow>
                    bind_res (config_path up w) (\<lambda>(name, w). add_resource d name flags key val w))))"

definition parse_single ::
    "math_env \<Rightarrow> string list \<Rightarrow> resource_flags \<Rightarrow> nat option \<Rightarrow> world \<Rightarrow> world result" where
  "parse_single E parents flags target w =
    (let value_tail = skip_key (config w);
         (value_end, val) = parse_u64 E (config w)
     in if value_end \<noteq> value_tail then Inr w
        else
          (case target of
             None \<Rightarrow> Inr w
           | Some d \<Rightarrow>
               bind_res (config_path parents w) (\<lambda>(name, w). add_resource d name flags val val w)))"

section \<open>The walk\<close>

text \<open>The start of \<^verbatim>\<open>parse_config_string\<close>, up to its first loop.\<close>

definition start_device :: "string list \<Rightarrow> world \<Rightarrow> world result" where
  "start_device parents w =
    (let d = devices w
     in if d < length (device_buf w) then
          bind_res (config_path parents w) (\<lambda>(name, w).
            Inr (update_device d (\<lambda>dev. dev\<lparr>dev_name := name, dev_id := - 1, num_resources := 0,
              dev_archdata := \<lparr>config_start = Some (config w), config_end = Some (length (config w))\<rparr>\<rparr>) w))
        else Inl Devices_oob)"

definition enter ::
    "string list \<Rightarrow> nat option \<Rightarrow> world \<Rightarrow> (string list \<times> nat option \<times> world) result" where
  "enter parents target w =
    (let am_root = roots w; w = w\<lparr>roots := roots w + 1\<rparr>
     in if am_root < length (roots_buf w) then
          (if roots_buf w ! am_root then
             bind_res
               (if pass w \<ge> HAVE_DEVICES then
                  bind_res (start_device parents w) (\<lambda>w'. Inr (Some (devices w), w'))
                else Inr (target, w))
               (\<lambda>(target, w). Inr ([], target, w\<lparr>devices := devices w + 1\<rparr>))
           else Inr (parents, target, w))
        else Inl Roots_oob)"

text \<open>The key of an entry, with the mark of a device block and the flags of the key.\<close>

definition scan_key :: "world \<Rightarrow> world" where
  "scan_key w = w\<lparr>key_start := config w, config := skip_key (config w), key_end := skip_key (config w)\<rparr>"

definition mark_root :: "nat \<Rightarrow> world \<Rightarrow> world" where
  "mark_root am_root w =
    (if parser_key_eq w ''interface'' then w\<lparr>roots_buf := (roots_buf w)[am_root := True]\<rparr> else w)"

definition key_flags :: "world \<Rightarrow> resource_flags" where
  "key_flags w =
    (if parser_key_eq w ''mem'' then IORESOURCE_MEM
     else if parser_key_eq w ''bus'' then IORESOURCE_BUS
     else if parser_key_eq w ''irq'' then IORESOURCE_IRQ else No_flags)"

definition skip_config :: "(string \<Rightarrow> string) \<Rightarrow> world \<Rightarrow> world" where
  "skip_config skip w = w\<lparr>config := skip (config w)\<rparr>"

text \<open>The branches of the inner loop that are not a block, and the end of an entry.\<close>

definition quoted_value :: "bool \<Rightarrow> nat option \<Rightarrow> world \<Rightarrow> world result" where
  "quoted_value iface target w =
    bind_res (if iface then parse_interface target w else Inr w) (\<lambda>w.
      Inr (skip_config (\<lambda>s. skip_string (tl s)) w))"

definition plain_value ::
    "math_env \<Rightarrow> bool \<Rightarrow> string list \<Rightarrow> resource_flags \<Rightarrow> resource_flags \<Rightarrow> nat option \<Rightarrow> world \<Rightarrow> world result" where
  "plain_value E iface parents parent_flags flags target w =
    bind_res (if iface then parse_interface target w else Inr w) (\<lambda>w.
    bind_res (if parent_flags \<noteq> No_flags then parse_range E parents parent_flags target w else Inr w) (\<lambda>w.
    bind_res (if flags \<noteq> No_flags then parse_single E parents flags target w else Inr w) (\<lambda>w.
      Inr (skip_config (\<lambda>s. skip_key (tl s)) w))))"

definition skip_if :: "char \<Rightarrow> string \<Rightarrow> string" where
  "skip_if c s = (if deref s = c then tl s else s)"

definition end_entry :: "nat \<Rightarrow> nat option \<Rightarrow> world \<Rightarrow> world" where
  "end_entry am_root target w =
    (let w = skip_config (skip_if CHR '';'') w;
         w = (case target of
                None \<Rightarrow> w
              | Some d \<Rightarrow>
                  if roots_buf w ! am_root \<and> pass w \<ge> HAVE_DEVICES
                  then update_device d (\<lambda>dev. dev\<lparr>dev_archdata :=
                    (dev_archdata dev)\<lparr>config_end := Some (length (skip_newline (config w)))\<rparr>\<rparr>) w
                  else w)
     in skip_config skip_whitespace w)"

function (sequential) parse_config_string ::
    "math_env \<Rightarrow> nat \<Rightarrow> string list \<Rightarrow> resource_flags \<Rightarrow> nat option \<Rightarrow> world \<Rightarrow> world result"
  and entry_loop ::
    "math_env \<Rightarrow> nat \<Rightarrow> nat \<Rightarrow> string list \<Rightarrow> resource_flags \<Rightarrow> nat option \<Rightarrow> world \<Rightarrow> world result"
  and config_values ::
    "math_env \<Rightarrow> nat \<Rightarrow> bool \<Rightarrow> string list \<Rightarrow> resource_flags \<Rightarrow> resource_flags \<Rightarrow> nat option \<Rightarrow> world
      \<Rightarrow> world result" where
  "parse_config_string E 0 parents parent_flags target w = Inl Out_of_fuel"
| "parse_config_string E (Suc f) parents parent_flags target w =
    bind_res (enter parents target w) (\<lambda>(parents, target, w').
      entry_loop E f (roots w) parents parent_flags target (skip_config skip_whitespace w'))"
| "entry_loop E 0 am_root parents parent_flags target w = Inl Out_of_fuel"
| "entry_loop E (Suc f) am_root parents parent_flags target w =
    (if deref (config w) \<noteq> NUL \<and> deref (config w) \<noteq> CHR ''}'' then
       (let w = mark_root am_root (scan_key w)
        in bind_res
             (config_values E f (parser_key_eq w ''interface'') parents parent_flags (key_flags w) target
               (skip_config skip_whitespace w))
             (\<lambda>w. entry_loop E f am_root parents parent_flags target (end_entry am_root target w)))
     else Inr w)"
| "config_values E 0 iface parents parent_flags flags target w = Inl Out_of_fuel"
| "config_values E (Suc f) iface parents parent_flags flags target w =
    (if deref (config w) \<noteq> NUL \<and> deref (config w) \<noteq> CHR '';'' then
       bind_res
         (if deref (config w) = CHR 0x22 then quoted_value iface target w
          else if deref (config w) = CHR ''{'' then
            bind_res
              (parse_config_string E f (key_text w # parents) flags target
                (skip_config (\<lambda>s. skip_newline (tl s)) w))
              (\<lambda>w. Inr (skip_config (skip_if CHR ''}'') w))
          else plain_value E iface parents parent_flags flags target w)
         (\<lambda>w. config_values E f False parents parent_flags flags target
           (skip_config skip_whitespace w))
     else Inr w)"
  by pat_completeness simp_all
termination
  by (relation "measure (\<lambda>x. case x of Inl (_, f, _) \<Rightarrow> f | Inr (Inl (_, f, _)) \<Rightarrow> f | Inr (Inr (_, f, _)) \<Rightarrow> f)")
    simp_all

declare parse_config_string.simps [simp del] entry_loop.simps [simp del] config_values.simps [simp del]

section \<open>Finding the devices\<close>

definition no_device :: device where
  "no_device = \<lparr>dev_name = Dot, dev_id = 0, num_resources = 0, dev_resource = None, driver_override = None,
     dev_archdata = \<lparr>config_start = None, config_end = None\<rparr>\<rparr>"

text \<open>
  The start of a pass. The fields the code leaves uninitialised are never read; they are 0 here.
\<close>

definition begin_pass :: "nat \<Rightarrow> string \<Rightarrow> bool list \<Rightarrow> device list \<Rightarrow> resource list \<Rightarrow> string \<Rightarrow> world" where
  "begin_pass p text marks devs res nms =
    \<lparr>pass = p, roots = 0, config = text, devices = 0, names = 0, key_start = [], key_end = [],
      roots_buf = marks, device_buf = devs, resource_buf = res, names_buf = nms\<rparr>"

definition walk :: "math_env \<Rightarrow> world \<Rightarrow> world result" where
  "walk E w = parse_config_string E (3 * length (config w) + 3) [] No_flags None w"

fun resource_starts :: "device list \<Rightarrow> nat \<Rightarrow> device list" where
  "resource_starts [] n = []"
| "resource_starts (dev # devs) n = dev\<lparr>dev_resource := Some n\<rparr> # resource_starts devs (n + num_resources dev)"

text \<open>
  \<^verbatim>\<open>config_find_devices\<close>: the three allocations succeed or stop the kernel; \<open>res0\<close> and
  \<open>ch0\<close> are what the grown block holds before it is written.
\<close>

definition config_find_devices ::
    "math_env \<Rightarrow> (nat \<Rightarrow> bool) \<Rightarrow> resource \<Rightarrow> char \<Rightarrow> string \<Rightarrow> world result" where
  "config_find_devices E alloc res0 ch0 text =
    (if \<not> alloc 0 then Inl Bug_no_memory
     else bind_res (walk E (begin_pass 0 text (replicate (length text) False) [] [] [])) (\<lambda>s0.
       let marks = roots_buf s0;
           num_devices = length (filter (\<lambda>b. b) (take (roots s0) marks))
       in if \<not> alloc 1 then Inl Bug_no_memory
          else bind_res (walk E (begin_pass 1 text marks (replicate num_devices no_device) [] [])) (\<lambda>s1.
            let devs = device_buf s1; num_res = sum_list (map num_resources devs); size_names = names s1
            in if \<not> alloc 2 then Inl Bug_no_memory
               else walk E (begin_pass 2 text (roots_buf s1) (resource_starts devs 0)
                 (replicate num_res res0) (replicate size_names ch0)))))"

text \<open>The place of the three regions in the block, from the sizes of the C types.\<close>

definition div_round_up :: "nat \<Rightarrow> nat \<Rightarrow> nat" where
  "div_round_up n d = (n + d - 1) div d"

definition block_layout :: "nat \<Rightarrow> nat \<Rightarrow> nat \<Rightarrow> nat \<Rightarrow> nat \<Rightarrow> nat \<Rightarrow> nat \<times> nat \<times> nat \<times> nat" where
  "block_layout dev_size res_size page num_devices num_res size_names =
    (let off_devices = div_round_up 4 dev_size * dev_size;
         off_resources = div_round_up (off_devices + dev_size * num_devices) res_size * res_size;
         off_names = off_resources + res_size * num_res
     in (off_devices, off_resources, off_names, div_round_up (off_names + size_names) page * page))"

section \<open>What a run keeps\<close>

text \<open>
  An order on worlds that every operation goes up in: the text is consumed, the counters grow, the
  buffers keep their lengths, marks stay, and the resources of a device that was started are only
  added to.
\<close>

definition num :: "world \<Rightarrow> nat \<Rightarrow> nat" where
  "num w k = num_resources (device_buf w ! k)"

definition base :: "world \<Rightarrow> nat \<Rightarrow> nat option" where
  "base w k = dev_resource (device_buf w ! k)"

definition later :: "world \<Rightarrow> world \<Rightarrow> bool" where
  "later w v \<longleftrightarrow> pass v = pass w \<and> suffix (config v) (config w)
     \<and> roots w \<le> roots v \<and> devices w \<le> devices v \<and> names w \<le> names v
     \<and> length (roots_buf v) = length (roots_buf w) \<and> length (device_buf v) = length (device_buf w)
     \<and> length (resource_buf v) = length (resource_buf w) \<and> length (names_buf v) = length (names_buf w)
     \<and> (\<forall>j. roots_buf w ! j \<longrightarrow> roots_buf v ! j)
     \<and> (\<forall>k < devices w. num w k \<le> num v k) \<and> (\<forall>k. base v k = base w k)"

lemma later_refl [simp, intro]: "later w w"
  by (simp add: later_def)

lemma later_trans: "later u v \<Longrightarrow> later v w \<Longrightarrow> later u w"
proof -
  assume a: "later u v" and b: "later v w"
  have "suffix (config w) (config u)"
    using a b unfolding later_def by (blast intro: suffix_order.order_trans)
  moreover have "num u k \<le> num w k" if "k < devices u" for k
  proof -
    have "num u k \<le> num v k" and "k < devices v" using a that by (auto simp: later_def)
    moreover from this have "num v k \<le> num w k" using b by (simp add: later_def)
    ultimately show ?thesis by simp
  qed
  ultimately show "later u w" using a b by (simp add: later_def)
qed

text \<open>The operations that touch neither the text nor the counters of resources.\<close>

definition quiet_update :: "(device \<Rightarrow> device) \<Rightarrow> bool" where
  "quiet_update f \<longleftrightarrow> (\<forall>dev. num_resources (f dev) = num_resources dev \<and> dev_resource (f dev) = dev_resource dev)"

lemma update_device_simps [simp]:
  "pass (update_device d f w) = pass w" "config (update_device d f w) = config w"
  "roots (update_device d f w) = roots w" "devices (update_device d f w) = devices w"
  "names (update_device d f w) = names w" "roots_buf (update_device d f w) = roots_buf w"
  "resource_buf (update_device d f w) = resource_buf w" "names_buf (update_device d f w) = names_buf w"
  "key_start (update_device d f w) = key_start w" "key_end (update_device d f w) = key_end w"
  "length (device_buf (update_device d f w)) = length (device_buf w)"
  by (simp_all add: update_device_def)

lemma nth_update: "xs[i := f (xs ! i)] ! j = (if j = i \<and> i < length xs then f (xs ! i) else xs ! j)"
  by (cases "i < length xs") (auto simp: list_update_beyond)

lemma num_update: "num (update_device d f w) k =
    (if k = d \<and> d < length (device_buf w) then num_resources (f (device_buf w ! d)) else num w k)"
  by (simp add: num_def update_device_def nth_update)

lemma base_update: "base (update_device d f w) k =
    (if k = d \<and> d < length (device_buf w) then dev_resource (f (device_buf w ! d)) else base w k)"
  by (simp add: base_def update_device_def nth_update)

lemma quiet_num [simp]: "quiet_update f \<Longrightarrow> num (update_device d f w) k = num w k"
  and quiet_base [simp]: "quiet_update f \<Longrightarrow> base (update_device d f w) k = base w k"
  by (simp_all add: num_update base_update quiet_update_def) (simp_all add: num_def base_def)

lemma later_update: "quiet_update f \<Longrightarrow> later w (update_device d f w)"
  by (simp add: later_def)

text \<open>A change of the parser's own fields, or of the contents of the names.\<close>

lemma field_updates [simp]:
  "num (w\<lparr>config := s\<rparr>) = num w" "base (w\<lparr>config := s\<rparr>) = base w"
  "num (w\<lparr>names := n\<rparr>) = num w" "base (w\<lparr>names := n\<rparr>) = base w"
  "num (w\<lparr>roots := n\<rparr>) = num w" "base (w\<lparr>roots := n\<rparr>) = base w"
  "num (w\<lparr>devices := n\<rparr>) = num w" "base (w\<lparr>devices := n\<rparr>) = base w"
  "num (w\<lparr>key_start := s\<rparr>) = num w" "base (w\<lparr>key_start := s\<rparr>) = base w"
  "num (w\<lparr>key_end := s\<rparr>) = num w" "base (w\<lparr>key_end := s\<rparr>) = base w"
  "num (w\<lparr>roots_buf := b\<rparr>) = num w" "base (w\<lparr>roots_buf := b\<rparr>) = base w"
  "num (w\<lparr>resource_buf := l\<rparr>) = num w" "base (w\<lparr>resource_buf := l\<rparr>) = base w"
  "num (w\<lparr>names_buf := s\<rparr>) = num w" "base (w\<lparr>names_buf := s\<rparr>) = base w"
  by (simp_all add: num_def base_def fun_eq_iff)

lemma later_config: "suffix s (config w) \<Longrightarrow> later w (w\<lparr>config := s\<rparr>)"
  by (simp add: later_def)

lemma later_names: "names w \<le> n \<Longrightarrow> later w (w\<lparr>names := n\<rparr>)"
  by (simp add: later_def)

lemma later_names_put: "names_put pos txt w = Inr v \<Longrightarrow> later w v"
  by (auto simp: names_put_def later_def split: if_splits)

lemma later_if: "(if b then r else Inr w) = Inr v \<Longrightarrow> (b \<Longrightarrow> r = Inr v \<Longrightarrow> later w v) \<Longrightarrow> later w v"
  by (auto split: if_splits)

lemma later_path_helper: "config_path_helper parents w = Inr v \<Longrightarrow> later w v"
proof (induction parents w arbitrary: v rule: config_path_helper.induct)
  case (2 parent up w)
  from "2.prems" obtain x y where x: "(if up \<noteq> [] then config_path_helper up w else Inr w) = Inr x"
    and y: "(if pass x \<ge> HAVE_NAMES then names_put (names x) (parent @ ''.'') x else Inr x) = Inr y"
    and v: "v = y\<lparr>names := names y + (length parent + 1)\<rparr>"
    by auto
  have "later w x" using x by (rule later_if) (rule "2.IH")
  moreover have "later x y" using y by (rule later_if) (rule later_names_put)
  moreover have "later y v" unfolding v by (rule later_names) simp
  ultimately show ?case by (blast intro: later_trans)
qed simp

lemma later_config_path:
  assumes "config_path parents w = Inr (name, v)"
  shows "later w v"
proof (cases "parents = []")
  case False
  then obtain x where "config_path_helper parents w = Inr x"
    and y: "(if pass x \<ge> HAVE_NAMES then names_put (names x - 1) [NUL] x else Inr x) = Inr v"
    using assms by (auto simp: config_path_def)
  moreover have "later x v" using y by (rule later_if) (rule later_names_put)
  ultimately show ?thesis by (blast intro: later_trans later_path_helper)
qed (use assms in \<open>simp add: config_path_def\<close>)

lemma later_interface: "parse_interface target w = Inr v \<Longrightarrow> later w v"
proof -
  assume "parse_interface target w = Inr v"
  moreover have "later w (case target of None \<Rightarrow> w
      | Some d \<Rightarrow> update_device d (\<lambda>dev. dev\<lparr>driver_override := Some (names w)\<rparr>) w)" (is "later w ?u")
    by (auto split: option.split intro!: later_update simp: quiet_update_def)
  ultimately obtain n written x where x: "names_put (names ?u) written ?u = Inr x" "v = x\<lparr>names := names x + n\<rparr>"
    by (auto simp: parse_interface_def Let_def split: prod.splits)
  then have "later ?u x" "later x v" by (auto intro: later_names_put later_names)
  then show "later w v" using \<open>later w ?u\<close> by (blast intro: later_trans)
qed

lemma later_count: "later w (update_device d (\<lambda>dev. dev\<lparr>num_resources := num_resources dev + 1\<rparr>) w)"
  by (simp add: later_def num_update base_update) (simp add: num_def base_def)

lemma later_resources: "length l = length (resource_buf w) \<Longrightarrow> later w (w\<lparr>resource_buf := l\<rparr>)"
  by (simp add: later_def)

lemma later_add_resource: "add_resource d name flags start stop w = Inr v \<Longrightarrow> later w v"
  using later_count [of w d] later_trans [OF later_resources later_count]
  by (auto simp: add_resource_def Let_def split: option.splits if_splits)

lemma later_range: "parse_range E parents flags target w = Inr v \<Longrightarrow> later w v"
  by (auto simp: parse_range_def split: prod.splits if_splits option.splits list.splits
      intro: later_trans [OF later_config_path later_add_resource])

lemma later_single: "parse_single E parents flags target w = Inr v \<Longrightarrow> later w v"
  by (auto simp: parse_single_def split: prod.splits if_splits option.splits list.splits
      intro: later_trans [OF later_config_path later_add_resource])

lemma later_skip_config: "(\<And>s. suffix (skip s) s) \<Longrightarrow> later w (skip_config skip w)"
  by (simp add: skip_config_def later_config)

lemma skip_if_suffix: "suffix (skip_if c s) s"
  by (simp add: skip_if_def suffix_tl)

lemma later_skip_if: "later w (skip_config (skip_if c) w)"
  by (rule later_skip_config) (rule skip_if_suffix)

lemmas later_skips = later_skip_config [OF ws.skip_suffix] later_skip_if
  later_skip_config [OF nl.skip_tl_suffix] later_skip_config [OF str.skip_tl_suffix]
  later_skip_config [OF key.skip_tl_suffix]

lemma later_quoted_value: "quoted_value iface target w = Inr v \<Longrightarrow> later w v"
  by (auto simp: quoted_value_def split: if_splits
      intro: later_skips later_trans [OF later_interface later_skips(4)])

lemma later_plain_value:
  assumes "plain_value E iface parents pflags flags target w = Inr v"
  shows "later w v"
proof -
  obtain x y z where x: "(if iface then parse_interface target w else Inr w) = Inr x"
    and y: "(if pflags \<noteq> No_flags then parse_range E parents pflags target x else Inr x) = Inr y"
    and z: "(if flags \<noteq> No_flags then parse_single E parents flags target y else Inr y) = Inr z"
    and v: "v = skip_config (\<lambda>s. skip_key (tl s)) z"
    using assms by (auto simp: plain_value_def)
  have "later w x" using x by (rule later_if) (rule later_interface)
  moreover have "later x y" using y by (rule later_if) (rule later_range)
  moreover have "later y z" using z by (rule later_if) (rule later_single)
  moreover have "later z v" unfolding v by (rule later_skips)
  ultimately show ?thesis by (blast intro: later_trans)
qed

text \<open>The path writers change the names and their counter only.\<close>

lemma names_put_shape: "names_put pos written w = Inr v \<Longrightarrow> \<exists>b. v = w\<lparr>names_buf := b\<rparr>"
  by (auto simp: names_put_def split: if_splits intro: exI [of _ "names_buf w"])

lemma if_put_shape: "(if c then names_put pos written w else Inr w) = Inr v \<Longrightarrow> \<exists>b. v = w\<lparr>names_buf := b\<rparr>"
  using names_put_shape by (auto split: if_splits intro: exI [of _ "names_buf w"])

lemma path_helper_shape:
  "config_path_helper parents w = Inr v \<Longrightarrow> \<exists>n b. v = w\<lparr>names := n, names_buf := b\<rparr>"
proof (induction parents w arbitrary: v rule: config_path_helper.induct)
  case (2 parent up w)
  from "2.prems" obtain x y where x: "(if up \<noteq> [] then config_path_helper up w else Inr w) = Inr x"
    and y: "(if pass x \<ge> HAVE_NAMES then names_put (names x) (parent @ ''.'') x else Inr x) = Inr y"
    and v: "v = y\<lparr>names := names y + (length parent + 1)\<rparr>"
    by auto
  have "\<exists>n b. x = w\<lparr>names := n, names_buf := b\<rparr>"
  proof (cases "up = []")
    case True
    then have "x = w\<lparr>names := names w, names_buf := names_buf w\<rparr>" using x by simp
    then show ?thesis by blast
  qed (use x "2.IH" in simp)
  then obtain n b c where "x = w\<lparr>names := n, names_buf := b\<rparr>" and "y = x\<lparr>names_buf := c\<rparr>"
    using if_put_shape [OF y] by auto
  then have "v = w\<lparr>names := n + (length parent + 1), names_buf := c\<rparr>" using v by simp
  then show ?case by blast
qed simp

lemma config_path_shape:
  assumes "config_path parents w = Inr (name, v)"
  shows "\<exists>n b. v = w\<lparr>names := n, names_buf := b\<rparr>"
proof (cases "parents = []")
  case True
  then have "v = w\<lparr>names := names w, names_buf := names_buf w\<rparr>" using assms by (simp add: config_path_def)
  then show ?thesis by blast
next
  case False
  then obtain x where "config_path_helper parents w = Inr x"
    and y: "(if pass x \<ge> HAVE_NAMES then names_put (names x - 1) [NUL] x else Inr x) = Inr v"
    using assms by (auto simp: config_path_def)
  then show ?thesis using if_put_shape [OF y] path_helper_shape by fastforce
qed

lemma later_start_device:
  assumes "start_device parents w = Inr v"
  shows "later w v \<and> devices v = devices w"
proof -
  obtain name x where x: "config_path parents w = Inr (name, x)"
    and v: "v = update_device (devices w) (\<lambda>dev. dev\<lparr>dev_name := name, dev_id := - 1, num_resources := 0,
      dev_archdata := \<lparr>config_start = Some (config x), config_end = Some (length (config x))\<rparr>\<rparr>) x"
    using assms by (auto simp: start_device_def Let_def split: if_splits)
  have dev: "devices x = devices w" using config_path_shape [OF x] by auto
  have "later x v"
    unfolding v dev [symmetric] by (simp add: later_def num_update base_update) (simp add: base_def)
  then show ?thesis using later_config_path [OF x] dev v by (auto intro: later_trans)
qed

lemma later_enter:
  assumes "enter parents target w = Inr (parents', target', v)"
  shows "later w v"
proof -
  let ?w = "w\<lparr>roots := roots w + 1\<rparr>"
  have w: "later w ?w" by (simp add: later_def)
  consider (plain) "v = ?w"
    | (device) x where "start_device parents ?w = Inr x" "v = x\<lparr>devices := devices x + 1\<rparr>"
    | (mark) "v = ?w\<lparr>devices := devices w + 1\<rparr>"
    using assms by (auto simp: enter_def Let_def split: if_splits)
  then show ?thesis
  proof cases
    case (device x)
    then have "later ?w x" using later_start_device by blast
    moreover have "later x v" using device(2) by (simp add: later_def)
    ultimately show ?thesis using w by (blast intro: later_trans)
  qed (use w in \<open>simp_all add: later_def\<close>)
qed

lemma enter_roots:
  assumes "enter parents target w = Inr (parents', target', v)"
  shows "roots w < roots v"
proof -
  consider "roots v = roots w + 1"
    | x where "start_device parents (w\<lparr>roots := roots w + 1\<rparr>) = Inr x" "roots v = roots x"
    using assms by (auto simp: enter_def Let_def split: if_splits)
  then show ?thesis
    by cases (auto dest!: later_start_device simp: later_def)
qed

lemma later_scan_key: "later w (scan_key w)"
  by (simp add: scan_key_def later_def key.skip_suffix num_def base_def)

lemma later_mark_root: "later w (mark_root i w)"
proof (cases "i < length (roots_buf w)")
  case True
  then show ?thesis by (auto simp: mark_root_def later_def nth_list_update)
qed (simp add: mark_root_def list_update_beyond)

lemma later_end_entry: "later w (end_entry i target w)"
proof -
  let ?w = "skip_config (skip_if CHR '';'') w"
  let ?v = "case target of None \<Rightarrow> ?w
    | Some d \<Rightarrow> if roots_buf ?w ! i \<and> pass ?w \<ge> HAVE_DEVICES
        then update_device d (\<lambda>dev. dev\<lparr>dev_archdata :=
          (dev_archdata dev)\<lparr>config_end := Some (length (skip_newline (config ?w)))\<rparr>\<rparr>) ?w
        else ?w"
  have "later w ?w" by (rule later_skips)
  moreover have "later ?w ?v"
    by (auto split: option.split intro!: later_update simp: quiet_update_def)
  moreover have "later ?v (skip_config skip_whitespace ?v)" by (rule later_skips)
  ultimately show ?thesis unfolding end_entry_def Let_def by (blast intro: later_trans)
qed

text \<open>
  Relations between the worlds before and after a run: \<open>rel\<close> for any part of the walk, and \<open>opened\<close>
  for a part that begins where a block begins, behind its brace. It is enough that every operation of
  the walk goes along them.
\<close>

locale walk_blocks =
  fixes rel opened :: "world \<Rightarrow> world \<Rightarrow> bool"
  assumes rel_refl [simp, intro]: "rel w w"
    and rel_trans: "rel u v \<Longrightarrow> rel v w \<Longrightarrow> rel u w"
    and enter_opened: "enter parents target w = Inr (parents', target', v) \<Longrightarrow> opened w v"
    and opened_trans: "opened u v \<Longrightarrow> rel v w \<Longrightarrow> opened u w"
    and brace_rel: "deref (config w) = CHR ''{'' \<Longrightarrow> opened (skip_config (\<lambda>s. skip_newline (tl s)) w) v \<Longrightarrow> rel w v"
    and key_rel: "rel w (mark_root i (scan_key w))"
    and skips_rel: "rel w (skip_config skip_whitespace w)" "rel w (skip_config (skip_if c) w)"
    and end_rel: "rel w (end_entry i target w)"
    and quoted_rel: "quoted_value iface target w = Inr v \<Longrightarrow> rel w v"
    and plain_rel: "plain_value E iface parents pflags flags target w = Inr v \<Longrightarrow> rel w v"
begin

lemma run:
  "(parse_config_string E f parents pflags target w = Inr v \<longrightarrow> opened w v)
    \<and> (entry_loop E f i parents pflags target w = Inr v \<longrightarrow> rel w v)
    \<and> (config_values E f iface parents pflags flags target w = Inr v \<longrightarrow> rel w v)"
proof (induction f arbitrary: parents pflags target w v i iface flags)
  case 0
  then show ?case
    by (simp add: parse_config_string.simps entry_loop.simps config_values.simps)
next
  case (Suc f)
  note block = Suc.IH [THEN conjunct1, rule_format]
    and entries = Suc.IH [THEN conjunct2, THEN conjunct1, rule_format]
    and vals = Suc.IH [THEN conjunct2, THEN conjunct2, rule_format]
  have 1: "opened w v" if "parse_config_string E (Suc f) parents pflags target w = Inr v"
    using that
    by (auto simp: parse_config_string.simps dest!: entries enter_opened intro: opened_trans rel_trans [OF skips_rel(1)])
  have 2: "rel w v" if run: "entry_loop E (Suc f) i parents pflags target w = Inr v"
  proof (cases "deref (config w) \<noteq> NUL \<and> deref (config w) \<noteq> CHR ''}''")
    case True
    let ?w = "mark_root i (scan_key w)"
    obtain x where x: "config_values E f (parser_key_eq ?w ''interface'') parents pflags (key_flags ?w) target
        (skip_config skip_whitespace ?w) = Inr x"
      and v: "entry_loop E f i parents pflags target (end_entry i target x) = Inr v"
      using run True by (auto simp: entry_loop.simps Let_def)
    have "rel w ?w" by (rule key_rel)
    moreover have "rel ?w x" using vals [OF x] by (rule rel_trans [OF skips_rel(1)])
    moreover have "rel x v" using entries [OF v] by (rule rel_trans [OF end_rel])
    ultimately show ?thesis by (blast intro: rel_trans)
  qed (use run in \<open>auto simp: entry_loop.simps\<close>)
  have 3: "rel w v" if run: "config_values E (Suc f) iface parents pflags flags target w = Inr v"
  proof (cases "deref (config w) \<noteq> NUL \<and> deref (config w) \<noteq> CHR '';''")
    case True
    obtain x where x: "(if deref (config w) = CHR 0x22 then quoted_value iface target w
        else if deref (config w) = CHR ''{'' then
          bind_res (parse_config_string E f (key_text w # parents) flags target
              (skip_config (\<lambda>s. skip_newline (tl s)) w))
            (\<lambda>w. Inr (skip_config (skip_if CHR ''}'') w))
        else plain_value E iface parents pflags flags target w) = Inr x"
      and v: "config_values E f False parents pflags flags target (skip_config skip_whitespace x) = Inr v"
      using run True by (auto simp: config_values.simps)
    have "rel w x"
    proof (cases "deref (config w) = CHR ''{''")
      case True
      then obtain y where "parse_config_string E f (key_text w # parents) flags target
          (skip_config (\<lambda>s. skip_newline (tl s)) w) = Inr y" "x = skip_config (skip_if CHR ''}'') y"
        using x by auto
      then show ?thesis
        using brace_rel [OF True opened_trans [OF block skips_rel(2)]] by blast
    qed (use x in \<open>auto split: if_splits intro: quoted_rel plain_rel\<close>)
    moreover have "rel x v" using vals [OF v] by (rule rel_trans [OF skips_rel(1)])
    ultimately show ?thesis by (rule rel_trans)
  qed (use run in \<open>auto simp: config_values.simps\<close>)
  show ?case using 1 2 3 by blast
qed

lemmas block_run = run [THEN conjunct1, rule_format]
lemmas entries_run = run [THEN conjunct2, THEN conjunct1, rule_format]
lemmas values_run = run [THEN conjunct2, THEN conjunct2, rule_format]

end

text \<open>The case where the beginning of a block does not matter.\<close>

locale walk_order =
  fixes rel :: "world \<Rightarrow> world \<Rightarrow> bool"
  assumes refl: "rel w w"
    and trans: "rel u v \<Longrightarrow> rel v w \<Longrightarrow> rel u w"
    and enters: "enter parents target w = Inr (parents', target', v) \<Longrightarrow> rel w v"
    and key: "rel w (mark_root i (scan_key w))"
    and skips: "rel w (skip_config skip_whitespace w)" "rel w (skip_config (skip_if c) w)"
      "rel w (skip_config (\<lambda>s. skip_newline (tl s)) w)"
    and ends: "rel w (end_entry i target w)"
    and quoted: "quoted_value iface target w = Inr v \<Longrightarrow> rel w v"
    and plain: "plain_value E iface parents pflags flags target w = Inr v \<Longrightarrow> rel w v"

sublocale walk_order \<subseteq> walk_blocks rel rel
  by unfold_locales (auto intro: refl trans enters key skips ends quoted plain trans [OF skips(3)])

interpretation later: walk_order later
  by unfold_locales (auto intro: later_trans later_enter later_scan_key later_mark_root later_skips later_end_entry
      later_quoted_value later_plain_value)

lemmas block_later = later.block_run
lemmas entries_later = later.entries_run
lemmas values_later = later.values_run

section \<open>Pass 0 returns\<close>

definition braces :: "string \<Rightarrow> nat" where
  "braces s = length (filter (\<lambda>c. c = CHR ''{'') s)"

lemma braces_suffix: "suffix s t \<Longrightarrow> braces s \<le> braces t"
  by (auto simp: suffix_def braces_def)

lemma deref_tl: "deref s = c \<Longrightarrow> c \<noteq> NUL \<Longrightarrow> s = c # tl s"
  by (cases s) (auto simp: deref_def at_def)

text \<open>What a block costs: its place in the marks, and its brace in the text.\<close>

definition used :: "world \<Rightarrow> nat" where
  "used w = roots w + braces (config w)"

definition marks0 :: "world \<Rightarrow> bool" where
  "marks0 w \<longleftrightarrow> pass w = 0 \<and> (\<forall>j < length (roots_buf w). roots w \<le> j \<longrightarrow> \<not> roots_buf w ! j)"

lemma marks0_fields [simp]:
  "marks0 (skip_config skip w) = marks0 w"
  "marks0 (w\<lparr>names := n\<rparr>) = marks0 w"
  "marks0 (scan_key w) = marks0 w"
  by (simp_all add: marks0_def skip_config_def scan_key_def)

lemma skip_config_fields [simp]:
  "pass (skip_config skip w) = pass w" "roots (skip_config skip w) = roots w"
  "roots_buf (skip_config skip w) = roots_buf w" "config (skip_config skip w) = skip (config w)"
  "devices (skip_config skip w) = devices w" "names (skip_config skip w) = names w"
  "device_buf (skip_config skip w) = device_buf w" "resource_buf (skip_config skip w) = resource_buf w"
  "names_buf (skip_config skip w) = names_buf w" "key_start (skip_config skip w) = key_start w"
  "key_end (skip_config skip w) = key_end w"
  "num (skip_config skip w) = num w" "base (skip_config skip w) = base w"
  by (simp_all add: skip_config_def)

lemma scan_key_fields [simp]:
  "pass (scan_key w) = pass w" "roots (scan_key w) = roots w" "roots_buf (scan_key w) = roots_buf w"
  "devices (scan_key w) = devices w" "names (scan_key w) = names w" "device_buf (scan_key w) = device_buf w"
  "resource_buf (scan_key w) = resource_buf w" "names_buf (scan_key w) = names_buf w"
  "config (scan_key w) = skip_key (config w)" "key_start (scan_key w) = config w"
  "key_end (scan_key w) = skip_key (config w)"
  "num (scan_key w) = num w" "base (scan_key w) = base w"
  by (simp_all add: scan_key_def num_def base_def fun_eq_iff)

lemma mark_root_fields [simp]:
  "pass (mark_root i w) = pass w" "roots (mark_root i w) = roots w" "config (mark_root i w) = config w"
  "length (roots_buf (mark_root i w)) = length (roots_buf w)"
  by (simp_all add: mark_root_def)

lemma marks0_mark_root [simp]: "i < roots w \<Longrightarrow> marks0 w \<Longrightarrow> marks0 (mark_root i w)"
  by (auto simp: mark_root_def marks0_def nth_list_update)

lemma used_later: "later w v \<Longrightarrow> roots v = roots w \<Longrightarrow> used v \<le> used w"
  by (simp add: used_def later_def braces_suffix)

lemma parse_interface_eq:
  "parse_interface target w =
    (let v = (case target of
           None \<Rightarrow> w
         | Some d \<Rightarrow> update_device d (\<lambda>dev. dev\<lparr>driver_override := Some (names w)\<rparr>) w)
     in bind_res (names_put (names v) (take (if pass w \<ge> HAVE_NAMES then 65536 else 0) (string_value (config v) @ [NUL])) v)
       (\<lambda>w. Inr (w\<lparr>names := names w + (length (string_value (config v)) + 1)\<rparr>)))"
  using parse_string_eq [of "config w" 65536] parse_string_eq [of "config w" 0]
  by (auto simp: parse_interface_def Let_def split: option.split)

lemma interface_pass0:
  "pass w = 0 \<Longrightarrow> parse_interface None w = Inr (w\<lparr>names := names w + (length (string_value (config w)) + 1)\<rparr>)"
  by (simp add: parse_interface_eq names_put_def HAVE_NAMES_def)

lemma quoted_value_pass0:
  "pass w = 0 \<Longrightarrow> \<exists>n. quoted_value iface None w = Inr (skip_config (\<lambda>s. skip_string (tl s)) (w\<lparr>names := n\<rparr>))"
  by (auto simp: quoted_value_def interface_pass0 intro: exI [of _ "names w"])

lemma plain_value_pass0:
  assumes "pass w = 0"
  shows "\<exists>n. plain_value E iface parents pflags flags None w
    = Inr (skip_config (\<lambda>s. skip_key (tl s)) (w\<lparr>names := n\<rparr>))"
proof -
  have r: "parse_range E ps fl None v = Inr v" for ps fl v
    by (simp add: parse_range_def split: prod.split)
  have s: "parse_single E ps fl None v = Inr v" for ps fl v
    by (simp add: parse_single_def split: prod.split)
  show ?thesis
    using assms by (auto simp: plain_value_def interface_pass0 r s intro: exI [of _ "names w"])
qed

text \<open>What pass 0 guarantees of a result: it stopped, and used no more marks than it had braces.\<close>

definition returns :: "nat \<Rightarrow> world \<Rightarrow> world result \<Rightarrow> bool" where
  "returns extra w r \<longleftrightarrow> (\<exists>v. r = Inr v \<and> marks0 v \<and> used v \<le> used w + extra)"

lemma enter_pass0:
  assumes "marks0 w" and "used w < length (roots_buf w)"
  shows "enter parents None w = Inr (parents, None, w\<lparr>roots := roots w + 1\<rparr>)"
  using assms by (simp add: enter_def Let_def marks0_def used_def)

lemma end_entry_None: "end_entry i None w = skip_config skip_whitespace (skip_config (skip_if CHR '';'') w)"
  by (simp add: end_entry_def)

definition stops :: "world \<Rightarrow> world result \<Rightarrow> bool" where
  "stops w r \<longleftrightarrow> (\<exists>v. r = Inr v \<and> marks0 v \<and> used v \<le> used w
     \<and> (deref (config v) = NUL \<or> deref (config v) = CHR '';''))"

lemma pass0_block:
  assumes entries: "\<And>parents pflags w i. marks0 w \<Longrightarrow> i < roots w \<Longrightarrow> used w \<le> length (roots_buf w) \<Longrightarrow>
      3 * length (config w) + 1 < f \<Longrightarrow> returns 0 w (entry_loop E f i parents pflags None w)"
    and w: "marks0 w" "used w < length (roots_buf w)" "3 * length (config w) + 2 < Suc f"
  shows "returns 1 w (parse_config_string E (Suc f) parents pflags None w)"
proof -
  let ?w = "skip_config skip_whitespace (w\<lparr>roots := roots w + 1\<rparr>)"
  have m: "marks0 ?w" using w(1) by (auto simp: marks0_def)
  have u: "used ?w \<le> used w + 1" using braces_suffix [OF ws.skip_suffix] by (simp add: used_def)
  have "returns 0 ?w (entry_loop E f (roots w) parents pflags None ?w)"
    using w(2,3) m u ws.skip_length [of "config w"] by (intro entries) auto
  then have "returns 1 w (entry_loop E f (roots w) parents pflags None ?w)"
    using u by (auto simp: returns_def)
  then show ?thesis using w(1,2) by (simp add: parse_config_string.simps enter_pass0)
qed

lemma pass0_entry:
  assumes entries: "\<And>parents pflags w i. marks0 w \<Longrightarrow> i < roots w \<Longrightarrow> used w \<le> length (roots_buf w) \<Longrightarrow>
      3 * length (config w) + 1 < f \<Longrightarrow> returns 0 w (entry_loop E f i parents pflags None w)"
    and vals: "\<And>parents pflags flags iface w. marks0 w \<Longrightarrow> used w \<le> length (roots_buf w) \<Longrightarrow>
      3 * length (config w) < f \<Longrightarrow> stops w (config_values E f iface parents pflags flags None w)"
    and w: "marks0 w" "i < roots w" "used w \<le> length (roots_buf w)" "3 * length (config w) + 1 < Suc f"
  shows "returns 0 w (entry_loop E (Suc f) i parents pflags None w)"
proof (cases "deref (config w) \<noteq> NUL \<and> deref (config w) \<noteq> CHR ''}''")
  case True
  let ?k = "mark_root i (scan_key w)"
  let ?w = "skip_config skip_whitespace ?k"
  let ?v = "config_values E f (parser_key_eq ?k ''interface'') parents pflags (key_flags ?k) None ?w"
  have later_w: "later w ?w"
    by (rule later_trans [OF later_trans [OF later_scan_key later_mark_root] later_skips(1)])
  have m: "marks0 ?w" and u: "used ?w \<le> used w" and l: "length (roots_buf ?w) = length (roots_buf w)"
    using w(1,2) used_later [OF later_w] by simp_all
  have len: "length (config ?w) \<le> length (config w)"
    using later_w by (auto simp: later_def dest: suffix_length_le)
  have "stops ?w ?v" using m u l len w(3,4) by (intro vals) auto
  then obtain v where v: "?v = Inr v" "marks0 v" "used v \<le> used ?w" "deref (config v) = NUL \<or> deref (config v) = CHR '';''"
    unfolding stops_def by blast
  have lv: "later ?w v" by (rule values_later [OF v(1)])
  let ?x = "end_entry i None v"
  have lx: "later v ?x" by (rule later_end_entry)
  have x: "marks0 ?x" "used ?x \<le> used w" "i < roots ?x" "length (roots_buf ?x) = length (roots_buf w)"
    using v(2,3) u l lv w(2) used_later [OF lx] by (auto simp: end_entry_None later_def)
  have "returns 0 ?x (entry_loop E f i parents pflags None ?x)"
  proof (cases "deref (config v) = CHR '';''")
    case True
    then have "config v \<noteq> []" by (intro deref_neq_Nil) simp
    then have "length (config ?x) < length (config v)"
      using True ws.skip_tl_length [of "config v"] by (simp add: end_entry_None skip_if_def)
    moreover have "length (config v) \<le> length (config ?w)"
      using lv by (auto simp: later_def dest: suffix_length_le)
    ultimately show ?thesis using x w(3,4) len by (intro entries) auto
  next
    case False
    then have nul: "deref (config v) = NUL" using v(4) by simp
    then have "skip_whitespace (config v) = config v"
      by (intro ws.skip_id) (simp add: blank_def)
    then have "config ?x = config v" using False by (simp add: end_entry_None skip_if_def)
    then have "entry_loop E f i parents pflags None ?x = Inr ?x"
      using nul w(4) by (cases f) (auto simp: entry_loop.simps)
    then show ?thesis using x(1) by (simp add: returns_def)
  qed
  then show ?thesis using True v(1) x(2) by (auto simp: entry_loop.simps Let_def returns_def)
qed (use w in \<open>auto simp: entry_loop.simps returns_def\<close>)

text \<open>One value: a string, a block or a plain value.\<close>

definition one_value ::
    "math_env \<Rightarrow> nat \<Rightarrow> bool \<Rightarrow> string list \<Rightarrow> resource_flags \<Rightarrow> resource_flags \<Rightarrow> nat option \<Rightarrow> world
      \<Rightarrow> world result" where
  "one_value E f iface parents pflags flags target w =
    (if deref (config w) = CHR 0x22 then quoted_value iface target w
     else if deref (config w) = CHR ''{'' then
       bind_res (parse_config_string E f (key_text w # parents) flags target
           (skip_config (\<lambda>s. skip_newline (tl s)) w))
         (\<lambda>w. Inr (skip_config (skip_if CHR ''}'') w))
     else plain_value E iface parents pflags flags target w)"

lemma config_values_step:
  "config_values E (Suc f) iface parents pflags flags target w =
    (if deref (config w) \<noteq> NUL \<and> deref (config w) \<noteq> CHR '';'' then
       bind_res (one_value E f iface parents pflags flags target w)
         (\<lambda>w. config_values E f False parents pflags flags target (skip_config skip_whitespace w))
     else Inr w)"
  unfolding config_values.simps one_value_def by (rule refl)

lemma pass0_one_value:
  assumes block: "\<And>parents pflags w. marks0 w \<Longrightarrow> used w < length (roots_buf w) \<Longrightarrow>
      3 * length (config w) + 2 < f \<Longrightarrow> returns 1 w (parse_config_string E f parents pflags None w)"
    and w: "marks0 w" "used w \<le> length (roots_buf w)" "3 * length (config w) < Suc f" "config w \<noteq> []"
  shows "\<exists>v. one_value E f iface parents pflags flags None w = Inr v \<and> marks0 v \<and> used v \<le> used w
    \<and> length (roots_buf v) = length (roots_buf w) \<and> length (config v) < length (config w)"
proof -
  have p: "pass w = 0" using w(1) by (simp add: marks0_def)
  consider (str) "deref (config w) = CHR 0x22" | (block) "deref (config w) = CHR ''{''"
    | (plain) "deref (config w) \<noteq> CHR 0x22" "deref (config w) \<noteq> CHR ''{''" by blast
  then show ?thesis
  proof cases
    case str
    obtain n where "quoted_value iface None w = Inr (skip_config (\<lambda>s. skip_string (tl s)) (w\<lparr>names := n\<rparr>))"
      using quoted_value_pass0 [OF p] by blast
    then show ?thesis
      using str w(1) str.skip_tl_length [OF w(4)] braces_suffix [OF str.skip_tl_suffix, of "config w"]
      by (simp add: one_value_def used_def)
  next
    case plain
    obtain n where "plain_value E iface parents pflags flags None w
        = Inr (skip_config (\<lambda>s. skip_key (tl s)) (w\<lparr>names := n\<rparr>))"
      using plain_value_pass0 [OF p] by blast
    then show ?thesis
      using plain w(1) key.skip_tl_length [OF w(4)] braces_suffix [OF key.skip_tl_suffix, of "config w"]
      by (simp add: one_value_def used_def)
  next
    case block
    let ?b = "skip_config (\<lambda>s. skip_newline (tl s)) w"
    have "config w = CHR ''{'' # tl (config w)" using block by (rule deref_tl) simp
    then obtain rest where "config w = CHR ''{'' # rest" by blast
    then have "braces (config w) = braces (tl (config w)) + 1" by (simp add: braces_def)
    then have b: "used ?b + 1 \<le> used w"
      using braces_suffix [OF nl.skip_suffix, of "tl (config w)"] by (simp add: used_def)
    have len: "length (config ?b) < length (config w)"
      using nl.skip_tl_length [OF w(4)] by simp
    have "returns 1 ?b (parse_config_string E f (key_text w # parents) flags None ?b)"
      using w b len by (intro assms(1)) auto
    then obtain y where y: "parse_config_string E f (key_text w # parents) flags None ?b = Inr y"
      "marks0 y" "used y \<le> used ?b + 1" by (auto simp: returns_def)
    let ?y = "skip_config (skip_if CHR ''}'') y"
    have l: "later ?b ?y" using block_later [OF y(1)] later_skip_if by (rule later_trans)
    have "length (config ?y) \<le> length (config ?b)" using l unfolding later_def by (blast dest: suffix_length_le)
    moreover have "length (roots_buf ?y) = length (roots_buf w)" using l by (simp add: later_def)
    moreover have "used ?y \<le> used w"
      using y(3) b used_later [OF later_skip_if, of "CHR ''}''" y] by simp
    moreover have "one_value E f iface parents pflags flags None w = Inr ?y"
      using block y(1) by (simp add: one_value_def)
    ultimately show ?thesis using y(2) len by auto
  qed
qed

lemma pass0_values:
  assumes block: "\<And>parents pflags w. marks0 w \<Longrightarrow> used w < length (roots_buf w) \<Longrightarrow>
      3 * length (config w) + 2 < f \<Longrightarrow> returns 1 w (parse_config_string E f parents pflags None w)"
    and vals: "\<And>parents pflags flags iface w. marks0 w \<Longrightarrow> used w \<le> length (roots_buf w) \<Longrightarrow>
      3 * length (config w) < f \<Longrightarrow> stops w (config_values E f iface parents pflags flags None w)"
    and w: "marks0 w" "used w \<le> length (roots_buf w)" "3 * length (config w) < Suc f"
  shows "stops w (config_values E (Suc f) iface parents pflags flags None w)"
proof (cases "deref (config w) \<noteq> NUL \<and> deref (config w) \<noteq> CHR '';''")
  case True
  then have "config w \<noteq> []" by (intro deref_neq_Nil) simp
  then obtain v where v: "one_value E f iface parents pflags flags None w = Inr v" "marks0 v"
    "used v \<le> used w" "length (roots_buf v) = length (roots_buf w)" "length (config v) < length (config w)"
    using pass0_one_value [OF block w] by blast
  let ?x = "skip_config skip_whitespace v"
  have x: "used ?x \<le> used w" "length (config ?x) < length (config w)"
    using v(3,5) ws.skip_length [of "config v"] braces_suffix [OF ws.skip_suffix, of "config v"]
    by (auto simp: used_def)
  then have "stops ?x (config_values E f False parents pflags flags None ?x)"
    using v(2,4) w(2,3) by (intro vals) auto
  then show ?thesis
    using True v(1) x(1) by (auto simp: config_values_step stops_def)
next
  case False
  then show ?thesis using w(1) by (auto simp: config_values_step stops_def)
qed

lemma pass0_returns:
  "(marks0 w \<and> used w < length (roots_buf w) \<and> 3 * length (config w) + 2 < f \<longrightarrow>
      returns 1 w (parse_config_string E f parents pflags None w))
    \<and> (marks0 w \<and> i < roots w \<and> used w \<le> length (roots_buf w) \<and> 3 * length (config w) + 1 < f \<longrightarrow>
      returns 0 w (entry_loop E f i parents pflags None w))
    \<and> (marks0 w \<and> used w \<le> length (roots_buf w) \<and> 3 * length (config w) < f \<longrightarrow>
      stops w (config_values E f iface parents pflags flags None w))"
proof (induction f arbitrary: parents pflags w i iface flags)
  case (Suc f)
  note IH = Suc.IH [THEN conjunct1, THEN mp] Suc.IH [THEN conjunct2, THEN conjunct1, THEN mp]
    Suc.IH [THEN conjunct2, THEN conjunct2, THEN mp]
  show ?case
    by (intro conjI impI) (elim conjE; (rule pass0_block | rule pass0_entry | rule pass0_values); (rule IH)?; simp?)+
qed simp

end
