(* ===== verification/ConfigPasses.thy ===== *)
theory ConfigPasses
  imports ConfigDevices
begin

text \<open>
  Two passes of the device scanner in lockstep: a contract between the operations of two passes,
  the proof that it carries over to the whole walk, and its two instances. Pass 1 follows pass 0
  in the text, and pass 2 follows pass 1 in the text, the devices and the names, within the
  buffers that are sized by what pass 1 counted.
\<close>

section \<open>Two passes in lockstep\<close>

text \<open>
  The second run returns with a result related to the first one's, or, when \<open>excuse\<close> allows
  it, it stops at the null pointer that \<^verbatim>\<open>parse_range\<close> may follow.
\<close>

definition follows :: "bool \<Rightarrow> 'a result \<Rightarrow> ('a \<Rightarrow> bool) \<Rightarrow> bool" where
  "follows excuse r P \<longleftrightarrow> (\<exists>x. r = Inr x \<and> P x) \<or> excuse \<and> r = Inl Null_deref"

lemma follows_Inr [simp]: "follows e (Inr x) P \<longleftrightarrow> P x"
  by (simp add: follows_def)

lemma follows_bind:
  assumes "follows e r P" and "\<And>x. r = Inr x \<Longrightarrow> P x \<Longrightarrow> follows e (f x) Q"
  shows "follows e (bind_res r f) Q"
  using assms by (auto simp: follows_def)

text \<open>
  The contract between two passes: their worlds agree on the text, and each operation of the
  second pass follows the same operation of the first, provided that the first run ends within the
  bounds \<open>fits\<close>. Nothing but this contract is needed for the whole walk.
\<close>

locale pass_pair =
  fixes E :: math_env
    and wrel :: "world \<Rightarrow> world \<Rightarrow> bool"
    and crel :: "string list \<Rightarrow> nat option \<Rightarrow> string list \<Rightarrow> nat option \<Rightarrow> world \<Rightarrow> bool"
    and fits :: "world \<Rightarrow> bool"
    and excuse :: bool
  assumes same_text: "wrel w v \<Longrightarrow> config w = config v \<and> roots w = roots v
      \<and> key_start w = key_start v \<and> key_end w = key_end v"
    and fits_before: "later w x \<Longrightarrow> fits x \<Longrightarrow> fits w"
    and crel_later: "crel ps t qs u v \<Longrightarrow> later v y \<Longrightarrow> crel ps t qs u y"
    and crel_push: "crel ps t qs u v \<Longrightarrow> crel (key # ps) t (key # qs) u v"
    and skip_rel: "wrel w v \<Longrightarrow> wrel (skip_config skip w) (skip_config skip v)"
    and scan_rel: "wrel w v \<Longrightarrow> wrel (scan_key w) (scan_key v)"
    and mark_rel: "wrel w v \<Longrightarrow> i < roots w \<Longrightarrow> fits (mark_root i w) \<Longrightarrow> wrel (mark_root i w) (mark_root i v)"
    and end_rel: "wrel w v \<Longrightarrow> crel ps t qs u v \<Longrightarrow> i < roots w \<Longrightarrow> wrel (end_entry i t w) (end_entry i u v)"
    and enter_rel: "wrel w v \<Longrightarrow> crel ps t qs u v \<Longrightarrow> enter ps t w = Inr (ps', t', x) \<Longrightarrow> fits x \<Longrightarrow>
      follows excuse (enter qs u v) (\<lambda>(qs', u', y). wrel x y \<and> crel ps' t' qs' u' y)"
    and interface_rel: "wrel w v \<Longrightarrow> crel ps t qs u v \<Longrightarrow> parse_interface t w = Inr x \<Longrightarrow> fits x \<Longrightarrow>
      follows excuse (parse_interface u v) (wrel x)"
    and range_rel: "wrel w v \<Longrightarrow> crel ps t qs u v \<Longrightarrow> parse_range E ps fl t w = Inr x \<Longrightarrow> fits x \<Longrightarrow>
      follows excuse (parse_range E qs fl u v) (wrel x)"
    and single_rel: "wrel w v \<Longrightarrow> crel ps t qs u v \<Longrightarrow> parse_single E ps fl t w = Inr x \<Longrightarrow> fits x \<Longrightarrow>
      follows excuse (parse_single E qs fl u v) (wrel x)"
begin

lemma same_key:
  assumes "wrel w v"
  shows "key_text w = key_text v" and "parser_key_eq w = parser_key_eq v" and "key_flags w = key_flags v"
  using same_text [OF assms]
  by (auto simp: key_text_def key_len_def parser_key_eq_def key_flags_def fun_eq_iff)

lemma if_rel:
  assumes "wrel w v" and "(if b then r else Inr w) = Inr x" and "b \<Longrightarrow> r = Inr x \<Longrightarrow> follows excuse r' (wrel x)"
  shows "follows excuse (if b then r' else Inr v) (wrel x)"
  using assms by (cases b) simp_all

lemma quoted_rel:
  assumes "wrel w v" and "crel ps t qs u v" and "quoted_value iface t w = Inr x" and "fits x"
  shows "follows excuse (quoted_value iface u v) (wrel x)"
proof -
  obtain y where y: "(if iface then parse_interface t w else Inr w) = Inr y"
    and x: "x = skip_config (\<lambda>s. skip_string (tl s)) y"
    using assms(3) by (auto simp: quoted_value_def)
  have "fits y" using assms(4) unfolding x by (rule fits_before [OF later_skips(4)])
  with assms(1,2) y have "follows excuse (if iface then parse_interface u v else Inr v) (wrel y)"
    by (blast intro: if_rel interface_rel)
  then show ?thesis unfolding quoted_value_def x by (rule follows_bind) (simp add: skip_rel)
qed

lemma plain_rel:
  assumes "wrel w v" and "crel ps t qs u v" and "plain_value E iface ps pf fl t w = Inr x" and "fits x"
  shows "follows excuse (plain_value E iface qs pf fl u v) (wrel x)"
proof -
  obtain a b c where a: "(if iface then parse_interface t w else Inr w) = Inr a"
    and b: "(if pf \<noteq> No_flags then parse_range E ps pf t a else Inr a) = Inr b"
    and c: "(if fl \<noteq> No_flags then parse_single E ps fl t b else Inr b) = Inr c"
    and x: "x = skip_config (\<lambda>s. skip_key (tl s)) c"
    using assms(3) by (auto simp: plain_value_def)
  have fc: "fits c" using assms(4) unfolding x by (rule fits_before [OF later_skips(5)])
  have fb: "fits b" using c by (rule fits_before [OF later_if [OF _ later_single] fc])
  have fa: "fits a" using b by (rule fits_before [OF later_if [OF _ later_range] fb])
  have 1: "follows excuse (if iface then parse_interface u v else Inr v) (wrel a)"
    using assms(1,2) a fa by (blast intro: if_rel interface_rel)
  have 2: "follows excuse (if pf \<noteq> No_flags then parse_range E qs pf u y else Inr y) (wrel b)"
    if "wrel a y" "crel ps t qs u y" for y
    using that b fb by (blast intro: if_rel range_rel)
  have 3: "follows excuse (if fl \<noteq> No_flags then parse_single E qs fl u y else Inr y) (wrel c)"
    if "wrel b y" "crel ps t qs u y" for y
    using that c fc by (blast intro: if_rel single_rel)
  show ?thesis
    unfolding plain_value_def x
  proof (rule follows_bind [OF 1], rule follows_bind [OF 2], assumption)
    fix y assume "(if iface then parse_interface u v else Inr v) = Inr y"
    then show "crel ps t qs u y"
      by (rule crel_later [OF assms(2) later_if [OF _ later_interface]])
  next
    fix y z assume y: "(if iface then parse_interface u v else Inr v) = Inr y"
      and z: "(if pf \<noteq> No_flags then parse_range E qs pf u y else Inr y) = Inr z" and "wrel b z"
    have "later v z"
      by (rule later_trans [OF later_if [OF y later_interface] later_if [OF z later_range]])
    then have "crel ps t qs u z" by (rule crel_later [OF assms(2)])
    with \<open>wrel b z\<close> have "follows excuse (if fl \<noteq> No_flags then parse_single E qs fl u z else Inr z) (wrel c)"
      by (rule 3)
    then show "follows excuse (bind_res (if fl \<noteq> No_flags then parse_single E qs fl u z else Inr z)
        (\<lambda>w. Inr (skip_config (\<lambda>s. skip_key (tl s)) w))) (wrel (skip_config (\<lambda>s. skip_key (tl s)) c))"
      by (rule follows_bind) (simp add: skip_rel)
  qed
qed

text \<open>The three functions of the walk, for the fuel of a nested call.\<close>

definition block_follows :: "nat \<Rightarrow> bool" where
  "block_follows f \<longleftrightarrow> (\<forall>w v ps t qs u fl x. wrel w v \<longrightarrow> crel ps t qs u v \<longrightarrow>
     parse_config_string E f ps fl t w = Inr x \<longrightarrow> fits x \<longrightarrow>
     follows excuse (parse_config_string E f qs fl u v) (wrel x))"

definition entries_follow :: "nat \<Rightarrow> bool" where
  "entries_follow f \<longleftrightarrow> (\<forall>w v i ps t qs u pf x. wrel w v \<longrightarrow> crel ps t qs u v \<longrightarrow> i < roots w \<longrightarrow>
     entry_loop E f i ps pf t w = Inr x \<longrightarrow> fits x \<longrightarrow>
     follows excuse (entry_loop E f i qs pf u v) (wrel x))"

definition values_follow :: "nat \<Rightarrow> bool" where
  "values_follow f \<longleftrightarrow> (\<forall>w v iface ps t qs u pf fl x. wrel w v \<longrightarrow> crel ps t qs u v \<longrightarrow>
     config_values E f iface ps pf fl t w = Inr x \<longrightarrow> fits x \<longrightarrow>
     follows excuse (config_values E f iface qs pf fl u v) (wrel x))"

lemma block_step:
  assumes "entries_follow f"
  shows "block_follows (Suc f)"
  unfolding block_follows_def
proof (intro allI impI)
  fix w v ps t qs u fl x
  assume rel: "wrel w v" "crel ps t qs u v" and run: "parse_config_string E (Suc f) ps fl t w = Inr x" and "fits x"
  obtain ps' t' y where y: "enter ps t w = Inr (ps', t', y)"
    and x: "entry_loop E f (roots w) ps' fl t' (skip_config skip_whitespace y) = Inr x"
    using run by (auto simp: parse_config_string.simps)
  have "later y x" using later_skips(1) entries_later [OF x] by (rule later_trans)
  then have "fits y" using \<open>fits x\<close> by (rule fits_before)
  with rel y have "follows excuse (enter qs u v) (\<lambda>(qs', u', z). wrel y z \<and> crel ps' t' qs' u' z)"
    by (rule enter_rel)
  moreover have "roots w < roots y" using y by (rule enter_roots)
  ultimately show "follows excuse (parse_config_string E (Suc f) qs fl u v) (wrel x)"
    unfolding parse_config_string.simps
  proof (elim follows_bind, clarsimp)
    fix qs' u' z assume "wrel y z" "crel ps' t' qs' u' z" "roots w < roots y"
    then have "wrel (skip_config skip_whitespace y) (skip_config skip_whitespace z)"
      and "crel ps' t' qs' u' (skip_config skip_whitespace z)" and "roots w < roots (skip_config skip_whitespace y)"
      using skip_rel crel_later later_skips(1) by auto
    then have "follows excuse (entry_loop E f (roots w) qs' fl u' (skip_config skip_whitespace z)) (wrel x)"
      using assms x \<open>fits x\<close> unfolding entries_follow_def by blast
    then show "follows excuse (entry_loop E f (roots v) qs' fl u' (skip_config skip_whitespace z)) (wrel x)"
      using same_text [OF rel(1)] by simp
  qed
qed

lemma entry_step:
  assumes "entries_follow f" and "values_follow f"
  shows "entries_follow (Suc f)"
  unfolding entries_follow_def
proof (intro allI impI)
  fix w v i ps t qs u pf x
  assume rel: "wrel w v" "crel ps t qs u v" and i: "i < roots w"
    and run: "entry_loop E (Suc f) i ps pf t w = Inr x" and "fits x"
  have same: "config v = config w" using same_text [OF rel(1)] by simp
  show "follows excuse (entry_loop E (Suc f) i qs pf u v) (wrel x)"
  proof (cases "deref (config w) \<noteq> NUL \<and> deref (config w) \<noteq> CHR ''}''")
    case True
    let ?m = "\<lambda>w. mark_root i (scan_key w)"
    obtain y where y: "config_values E f (parser_key_eq (?m w) ''interface'') ps pf (key_flags (?m w)) t
          (skip_config skip_whitespace (?m w)) = Inr y"
      and x: "entry_loop E f i ps pf t (end_entry i t y) = Inr x"
      using run True by (auto simp: entry_loop.simps Let_def)
    have ly: "later (?m w) y" using later_skips(1) values_later [OF y] by (rule later_trans)
    have "later y x" using later_end_entry entries_later [OF x] by (rule later_trans)
    then have fy: "fits y" using \<open>fits x\<close> by (rule fits_before)
    have m: "wrel (?m w) (?m v)"
      using fits_before [OF ly fy] i by (intro mark_rel scan_rel rel(1)) simp_all
    have lv: "later v (skip_config skip_whitespace (?m v))"
      by (rule later_trans [OF later_trans [OF later_scan_key later_mark_root] later_skips(1)])
    have 1: "follows excuse (config_values E f (parser_key_eq (?m v) ''interface'') qs pf (key_flags (?m v)) u
          (skip_config skip_whitespace (?m v))) (wrel y)"
      using assms(2) skip_rel [OF m] crel_later [OF rel(2) lv] y fy
      unfolding values_follow_def same_key [OF m] by blast
    have 2: "follows excuse (entry_loop E f i qs pf u (end_entry i u z)) (wrel x)"
      if z: "config_values E f (parser_key_eq (?m v) ''interface'') qs pf (key_flags (?m v)) u
          (skip_config skip_whitespace (?m v)) = Inr z" and r: "wrel y z" for z
    proof -
      have c: "crel ps t qs u z" by (rule crel_later [OF crel_later [OF rel(2) lv] values_later [OF z]])
      have iy: "i < roots y" using i ly by (simp add: later_def)
      moreover have "later y (end_entry i t y)" by (rule later_end_entry)
      ultimately have ie: "i < roots (end_entry i t y)" by (simp add: later_def)
      from assms(1) end_rel [OF r c iy] crel_later [OF c later_end_entry] ie x \<open>fits x\<close>
      show ?thesis unfolding entries_follow_def by blast
    qed
    show ?thesis
      using True same follows_bind [OF 1 2] by (simp add: entry_loop.simps Let_def)
  next
    case False
    then show ?thesis using run rel(1) same by (auto simp: entry_loop.simps)
  qed
qed

lemma one_value_rel:
  assumes "block_follows f" and rel: "wrel w v" "crel ps t qs u v"
    and run: "one_value E f iface ps pf fl t w = Inr x" and "fits x"
  shows "follows excuse (one_value E f iface qs pf fl u v) (wrel x)"
proof -
  have same: "config v = config w" using same_text [OF rel(1)] by simp
  consider (str) "deref (config w) = CHR 0x22" | (block) "deref (config w) = CHR ''{''"
    | (plain) "deref (config w) \<noteq> CHR 0x22" "deref (config w) \<noteq> CHR ''{''" by blast
  then show ?thesis
  proof cases
    case str
    then show ?thesis using run same quoted_rel [OF rel] \<open>fits x\<close> by (simp add: one_value_def)
  next
    case plain
    then show ?thesis using run same plain_rel [OF rel] \<open>fits x\<close> by (simp add: one_value_def)
  next
    case block
    let ?b = "skip_config (\<lambda>s. skip_newline (tl s))"
    obtain y where y: "parse_config_string E f (key_text w # ps) fl t (?b w) = Inr y"
      and x: "x = skip_config (skip_if CHR ''}'') y"
      using run block by (auto simp: one_value_def)
    have "fits y" using \<open>fits x\<close> unfolding x by (rule fits_before [OF later_skip_if])
    then have "follows excuse (parse_config_string E f (key_text w # qs) fl u (?b v)) (wrel y)"
      using assms(1) skip_rel [OF rel(1)] crel_later [OF crel_push [OF rel(2)] later_skips(3)] y
      unfolding block_follows_def by blast
    then have "follows excuse (bind_res (parse_config_string E f (key_text v # qs) fl u (?b v))
        (\<lambda>w. Inr (skip_config (skip_if CHR ''}'') w))) (wrel x)"
      unfolding same_key [OF rel(1)] x by (rule follows_bind) (simp add: skip_rel)
    then show ?thesis using block same by (simp add: one_value_def)
  qed
qed

lemma one_value_later: "one_value E f iface ps pf fl t w = Inr x \<Longrightarrow> later w x"
  by (auto simp: one_value_def split: if_splits
      intro: later_quoted_value later_plain_value later_trans [OF later_trans [OF later_skips(3) block_later] later_skip_if])

lemma values_step:
  assumes "block_follows f" and "values_follow f"
  shows "values_follow (Suc f)"
  unfolding values_follow_def
proof (intro allI impI)
  fix w v iface ps t qs u pf fl x
  assume rel: "wrel w v" "crel ps t qs u v"
    and run: "config_values E (Suc f) iface ps pf fl t w = Inr x" and "fits x"
  have same: "config v = config w" using same_text [OF rel(1)] by simp
  show "follows excuse (config_values E (Suc f) iface qs pf fl u v) (wrel x)"
  proof (cases "deref (config w) \<noteq> NUL \<and> deref (config w) \<noteq> CHR '';''")
    case True
    obtain y where y: "one_value E f iface ps pf fl t w = Inr y"
      and x: "config_values E f False ps pf fl t (skip_config skip_whitespace y) = Inr x"
      using run True by (auto simp: config_values_step)
    have "later y x" using later_skips(1) values_later [OF x] by (rule later_trans)
    then have "fits y" using \<open>fits x\<close> by (rule fits_before)
    then have 1: "follows excuse (one_value E f iface qs pf fl u v) (wrel y)"
      by (rule one_value_rel [OF assms(1) rel y])
    have 2: "follows excuse (config_values E f False qs pf fl u (skip_config skip_whitespace z)) (wrel x)"
      if z: "one_value E f iface qs pf fl u v = Inr z" and r: "wrel y z" for z
      using assms(2) skip_rel [OF r] crel_later [OF rel(2) later_trans [OF one_value_later [OF z] later_skips(1)]]
        x \<open>fits x\<close>
      unfolding values_follow_def by blast
    show ?thesis using True same follows_bind [OF 1 2] by (simp add: config_values_step)
  next
    case False
    then show ?thesis using run rel(1) same by (auto simp: config_values_step)
  qed
qed

lemma all_follow: "block_follows f \<and> entries_follow f \<and> values_follow f"
proof (induction f)
  case 0
  show ?case
    by (simp add: block_follows_def entries_follow_def values_follow_def
        parse_config_string.simps entry_loop.simps config_values.simps)
next
  case (Suc f)
  then show ?case by (simp add: block_step entry_step values_step)
qed

lemma walk_follows:
  assumes "wrel w v" and "crel ps t qs u v" and "parse_config_string E f ps fl t w = Inr x" and "fits x"
  shows "follows excuse (parse_config_string E f qs fl u v) (wrel x)"
  using all_follow [of f, THEN conjunct1] assms unfolding block_follows_def by blast

end

section \<open>Pass 1 follows pass 0\<close>

text \<open>The bytes of a dotted path, and what writing it does in each pass.\<close>

definition path_size :: "string list \<Rightarrow> nat" where
  "path_size parents = sum_list (map (\<lambda>p. length p + 1) parents)"

lemma path_helper_counts:
  "pass w < HAVE_NAMES \<Longrightarrow> parents \<noteq> [] \<Longrightarrow>
    config_path_helper parents w = Inr (w\<lparr>names := names w + path_size parents\<rparr>)"
proof (induction parents w rule: config_path_helper.induct)
  case (2 parent up w)
  show ?case
  proof (cases "up = []")
    case False
    then have "config_path_helper up w = Inr (w\<lparr>names := names w + path_size up\<rparr>)"
      using "2.IH" "2.prems" by simp
    then show ?thesis using False "2.prems" by (simp add: path_size_def)
  qed (use "2.prems" in \<open>simp add: path_size_def\<close>)
qed simp

lemma config_path_counts:
  "pass w < HAVE_NAMES \<Longrightarrow> config_path parents w
    = Inr (if parents = [] then Dot else Names (names w), w\<lparr>names := names w + path_size parents\<rparr>)"
  by (simp add: config_path_def path_helper_counts) (simp add: path_size_def)

definition marked :: "bool list \<Rightarrow> nat \<Rightarrow> nat" where
  "marked F n = length (filter (\<lambda>b. b) (take n F))"

lemma marked_Suc: "n < length F \<Longrightarrow> marked F (Suc n) = marked F n + (if F ! n then 1 else 0)"
  by (simp add: marked_def take_Suc_conv_app_nth)

lemma marked_mono: "n \<le> m \<Longrightarrow> marked F n \<le> marked F m"
proof -
  assume "n \<le> m"
  then have "take m F = take n F @ take (m - n) (drop n F)" by (metis le_add_diff_inverse take_add)
  then show ?thesis by (simp add: marked_def)
qed

definition same_position :: "world \<Rightarrow> world \<Rightarrow> bool" where
  "same_position w v \<longleftrightarrow> config w = config v \<and> roots w = roots v
     \<and> key_start w = key_start v \<and> key_end w = key_end v"

text \<open>
  \<open>F\<close> is the list of marks pass 0 ends with: pass 1 starts a device at each of them, so the
  next device is the number of marks it has passed.
\<close>

definition wrel01 :: "bool list \<Rightarrow> world \<Rightarrow> world \<Rightarrow> bool" where
  "wrel01 F w v \<longleftrightarrow> same_position w v \<and> marks0 w \<and> length (roots_buf w) = length F
     \<and> pass v = 1 \<and> roots_buf v = F \<and> devices v = marked F (roots v)
     \<and> length (device_buf v) = marked F (length F) \<and> (\<forall>k < length (device_buf v). base v k = None)"

definition crel01 :: "string list \<Rightarrow> nat option \<Rightarrow> string list \<Rightarrow> nat option \<Rightarrow> world \<Rightarrow> bool" where
  "crel01 ps t qs u v \<longleftrightarrow> t = None \<and> (\<forall>d. u = Some d \<longrightarrow> d < devices v \<and> d < length (device_buf v))"

definition fits01 :: "bool list \<Rightarrow> world \<Rightarrow> bool" where
  "fits01 F x \<longleftrightarrow> (\<forall>j < length F. roots_buf x ! j \<longrightarrow> F ! j)"

lemma same_position_skip: "same_position w v \<Longrightarrow> same_position (skip_config skip w) (skip_config skip v)"
  by (simp add: same_position_def)

lemma same_position_scan: "same_position w v \<Longrightarrow> same_position (scan_key w) (scan_key v)"
  by (simp add: same_position_def)

lemma same_position_key: "same_position w v \<Longrightarrow> parser_key_eq w = parser_key_eq v"
  by (auto simp: same_position_def key_text_def key_len_def parser_key_eq_def fun_eq_iff)

lemma mark_root_id: "roots_buf w ! i \<Longrightarrow> mark_root i w = w"
  using list_update_id [of "roots_buf w" i] by (simp add: mark_root_def)

lemma wrel01_update: "quiet_update f \<Longrightarrow> wrel01 F w v \<Longrightarrow> wrel01 F w (update_device d f v)"
  by (simp add: wrel01_def same_position_def)

lemma wrel01_names: "wrel01 F w v \<Longrightarrow> wrel01 F (w\<lparr>names := n\<rparr>) (v\<lparr>names := m\<rparr>)"
  by (simp add: wrel01_def same_position_def)

lemma mark_rel01:
  assumes "wrel01 F w v" and "i < roots w" and "fits01 F (mark_root i w)"
  shows "wrel01 F (mark_root i w) (mark_root i v)"
proof -
  have rel: "same_position w v" "marks0 w" "length (roots_buf w) = length F" "roots_buf v = F"
    using assms(1) by (simp_all add: wrel01_def)
  have "mark_root i v = v"
  proof (cases "parser_key_eq v ''interface'' \<and> i < length F")
    case True
    then have "roots_buf (mark_root i w) ! i"
      using rel same_position_key [OF rel(1)] by (simp add: mark_root_def)
    then have "F ! i" using assms(3) True by (simp add: fits01_def)
    then show ?thesis using rel(4) by (intro mark_root_id) simp
  next
    case False
    then show ?thesis using rel(4) by (auto simp: mark_root_def list_update_beyond)
  qed
  moreover have "same_position (mark_root i w) v"
    using rel(1) by (simp add: same_position_def mark_root_def)
  ultimately show ?thesis
    using assms(1,2) by (simp add: wrel01_def)
qed

lemma start_device_counts:
  assumes "pass v = 1" and "devices v < length (device_buf v)"
  shows "\<exists>f. (\<forall>dev. dev_resource (f dev) = dev_resource dev \<and> num_resources (f dev) = 0)
    \<and> start_device ps v = Inr (update_device (devices v) f (v\<lparr>names := names v + path_size ps\<rparr>))"
  using assms
  by (intro exI [of _ "\<lambda>dev. dev\<lparr>dev_name := (if ps = [] then Dot else Names (names v)), dev_id := - 1,
      num_resources := 0,
      dev_archdata := \<lparr>config_start = Some (config v), config_end = Some (length (config v))\<rparr>\<rparr>"])
    (simp add: start_device_def config_path_counts HAVE_NAMES_def Let_def)

lemma enter_rel01:
  assumes rel: "wrel01 F w v" and c: "crel01 ps t qs u v" and run: "enter ps t w = Inr (ps', t', x)"
  shows "follows True (enter qs u v) (\<lambda>(qs', u', y). wrel01 F x y \<and> crel01 ps' t' qs' u' y)"
proof -
  let ?i = "roots w"
  have w: "same_position w v" "marks0 w" "length (roots_buf w) = length F" and v: "pass v = 1" "roots_buf v = F"
    "devices v = marked F (roots v)" "length (device_buf v) = marked F (length F)"
    "\<forall>k < length (device_buf v). base v k = None" and i: "roots v = ?i"
    using rel by (simp_all add: wrel01_def same_position_def)
  have bound: "?i < length F" and x: "ps' = ps" "t' = None" "x = w\<lparr>roots := ?i + 1\<rparr>"
    using run w(2,3) c by (auto simp: enter_def Let_def marks0_def crel01_def split: if_splits)
  have pos: "same_position x (v\<lparr>roots := ?i + 1\<rparr>)" and mx: "marks0 x" "length (roots_buf x) = length F"
    using w by (auto simp: x same_position_def marks0_def)
  show ?thesis
  proof (cases "F ! ?i")
    case False
    then have "enter qs u v = Inr (qs, u, v\<lparr>roots := ?i + 1\<rparr>)"
      using bound v(2) i by (simp add: enter_def Let_def)
    then show ?thesis
      using pos mx v i c bound False by (simp add: wrel01_def crel01_def marked_Suc x)
  next
    case True
    have le: "marked F (Suc ?i) \<le> marked F (length F)" using bound by (intro marked_mono) simp
    then have room: "devices v < length (device_buf v)"
      using v(3,4) i True bound by (simp add: marked_Suc)
    let ?v = "v\<lparr>roots := ?i + 1\<rparr>"
    obtain f where f: "\<forall>dev. dev_resource (f dev) = dev_resource dev"
      and s: "start_device qs ?v = Inr (update_device (devices v) f (?v\<lparr>names := names v + path_size qs\<rparr>))"
      using start_device_counts [of ?v qs] v(1) room by auto
    let ?y = "update_device (devices v) f (?v\<lparr>names := names v + path_size qs\<rparr>)\<lparr>devices := devices v + 1\<rparr>"
    have "enter qs u v = Inr ([], Some (devices v), ?y)"
      using bound v(1,2) i True s by (simp add: enter_def Let_def HAVE_DEVICES_def)
    moreover have "wrel01 F x ?y"
      using pos mx v i bound True f by (auto simp: wrel01_def same_position_def marked_Suc base_update) (simp add: base_def)
    ultimately show ?thesis using room x(2) by (simp add: crel01_def)
  qed
qed

lemma interface_rel01:
  assumes rel: "wrel01 F w v" and c: "crel01 ps t qs u v" and run: "parse_interface t w = Inr x"
  shows "follows True (parse_interface u v) (wrel01 F x)"
proof -
  have "x = w\<lparr>names := names w + (length (string_value (config w)) + 1)\<rparr>"
    using run rel c interface_pass0 [of w] by (simp add: wrel01_def crel01_def marks0_def)
  moreover have "pass v = 1" using rel by (simp add: wrel01_def)
  ultimately show ?thesis
    using rel
    by (auto simp: parse_interface_eq names_put_def HAVE_NAMES_def Let_def quiet_update_def
        split: option.split intro!: wrel01_names wrel01_update)
qed

lemma add_resource_rel01:
  assumes "wrel01 F w v" and "d < length (device_buf v)"
  shows "\<exists>y. add_resource d name fl a b v = Inr y \<and> wrel01 F w y"
proof -
  have "dev_resource (device_buf v ! d) = None" using assms by (simp add: wrel01_def base_def)
  then show ?thesis using assms
    by (auto simp: add_resource_def wrel01_def same_position_def base_update)
qed

lemma range_rel01:
  assumes rel: "wrel01 F w v" and c: "crel01 ps t qs u v" and run: "parse_range E ps fl t w = Inr x"
  shows "follows True (parse_range E qs fl u v) (wrel01 F x)"
proof -
  have x: "x = w" using run c by (auto simp: parse_range_def crel01_def split: prod.splits if_splits)
  have p: "pass v < HAVE_NAMES" using rel by (simp add: wrel01_def HAVE_NAMES_def)
  have add: "follows True (add_resource d name fl a b (v\<lparr>names := m\<rparr>)) (wrel01 F w)" if "u = Some d" for d name a b m
    using add_resource_rel01 [of F w "v\<lparr>names := m\<rparr>" d name fl a b] wrel01_names [OF rel, of "names w" m] c that
    by (auto simp: crel01_def follows_def)
  show ?thesis
    using rel add p unfolding x
    by (auto simp: parse_range_def config_path_counts follows_def split: prod.split option.split list.split)
qed

lemma single_rel01:
  assumes rel: "wrel01 F w v" and c: "crel01 ps t qs u v" and run: "parse_single E ps fl t w = Inr x"
  shows "follows True (parse_single E qs fl u v) (wrel01 F x)"
proof -
  have x: "x = w" using run c by (auto simp: parse_single_def crel01_def split: prod.splits if_splits)
  have p: "pass v < HAVE_NAMES" using rel by (simp add: wrel01_def HAVE_NAMES_def)
  have add: "follows True (add_resource d name fl a b (v\<lparr>names := m\<rparr>)) (wrel01 F w)" if "u = Some d" for d name a b m
    using add_resource_rel01 [of F w "v\<lparr>names := m\<rparr>" d name fl a b] wrel01_names [OF rel, of "names w" m] c that
    by (auto simp: crel01_def follows_def)
  show ?thesis
    using rel add p unfolding x
    by (auto simp: parse_single_def config_path_counts split: prod.split option.split)
qed

lemma end_rel01:
  assumes rel: "wrel01 F w v" and c: "crel01 ps t qs u v"
  shows "wrel01 F (end_entry i t w) (end_entry i u v)"
proof -
  have skip: "wrel01 F (skip_config s w) (skip_config s v)" if "wrel01 F w v" for s w v
    using that by (simp add: wrel01_def same_position_skip)
  have "t = None" using c by (simp add: crel01_def)
  then show ?thesis
    using rel by (auto simp: end_entry_def Let_def quiet_update_def split: option.split intro!: skip wrel01_update)
qed

interpretation count: pass_pair E "wrel01 F" crel01 "fits01 F" True
proof
  show "fits01 F w" if "later w x" "fits01 F x" for w x
    using that by (auto simp: later_def fits01_def)
  show "crel01 ps t qs u y" if "crel01 ps t qs u v" "later v y" for ps t qs u v y
    using that by (auto simp: later_def crel01_def intro: less_le_trans)
  show "config w = config v \<and> roots w = roots v \<and> key_start w = key_start v \<and> key_end w = key_end v"
    if "wrel01 F w v" for w v
    using that by (simp add: wrel01_def same_position_def)
  show "crel01 (key # ps) t (key # qs) u v" if "crel01 ps t qs u v" for key ps t qs u v
    using that by (simp add: crel01_def)
  show "wrel01 F (skip_config skip w) (skip_config skip v)" and "wrel01 F (scan_key w) (scan_key v)"
    if "wrel01 F w v" for skip w v
    using that by (simp_all add: wrel01_def same_position_skip same_position_scan)
qed (blast intro: mark_rel01 enter_rel01 interface_rel01 range_rel01 single_rel01 end_rel01)+

section \<open>Pass 2 follows pass 1\<close>

text \<open>
  Pass 2 has the buffers: device \<open>k\<close> has its resources from \<open>starts k\<close> on, and
  \<open>nl\<close> and \<open>rl\<close> are the lengths of the names and of the resources.
\<close>

definition wrel12 :: "(nat \<Rightarrow> nat) \<Rightarrow> nat \<Rightarrow> nat \<Rightarrow> world \<Rightarrow> world \<Rightarrow> bool" where
  "wrel12 starts nl rl w v \<longleftrightarrow> same_position w v \<and> pass w = 1 \<and> pass v = 2
     \<and> devices v = devices w \<and> names v = names w \<and> roots_buf v = roots_buf w
     \<and> length (device_buf v) = length (device_buf w)
     \<and> (\<forall>k < length (device_buf w). base w k = None \<and> base v k = Some (starts k))
     \<and> (\<forall>k < devices w. num v k = num w k)
     \<and> length (names_buf v) = nl \<and> length (resource_buf v) = rl"

definition crel12 :: "string list \<Rightarrow> nat option \<Rightarrow> string list \<Rightarrow> nat option \<Rightarrow> world \<Rightarrow> bool" where
  "crel12 ps t qs u v \<longleftrightarrow> qs = ps \<and> u = t \<and> (\<forall>d. t = Some d \<longrightarrow> d < devices v \<and> d < length (device_buf v))"

definition fits12 :: "(nat \<Rightarrow> nat) \<Rightarrow> nat \<Rightarrow> nat \<Rightarrow> world \<Rightarrow> bool" where
  "fits12 starts nl rl x \<longleftrightarrow> names x \<le> nl \<and> (\<forall>k < devices x. k < length (device_buf x) \<longrightarrow> starts k + num x k \<le> rl)"

lemma fits12_before:
  assumes "later w x" and "fits12 starts nl rl x"
  shows "fits12 starts nl rl w"
proof -
  have "starts k + num w k \<le> rl" if "k < devices w" "k < length (device_buf w)" for k
  proof -
    have "num w k \<le> num x k" and "starts k + num x k \<le> rl"
      using assms that by (auto simp: later_def fits12_def)
    then show ?thesis by simp
  qed
  then show ?thesis using assms by (auto simp: later_def fits12_def)
qed

lemma names_put_ok:
  assumes "pos + length written \<le> length (names_buf w)"
  shows "\<exists>b. names_put pos written w = Inr (w\<lparr>names_buf := b\<rparr>) \<and> length b = length (names_buf w)"
  using assms by (auto simp: names_put_def intro: exI [of _ "names_buf w"])

text \<open>Writing a path succeeds where counting it has found room.\<close>

lemma path_helper_writes:
  "parents \<noteq> [] \<Longrightarrow> names w + path_size parents \<le> length (names_buf w) \<Longrightarrow>
    \<exists>b. config_path_helper parents w = Inr (w\<lparr>names := names w + path_size parents, names_buf := b\<rparr>)
      \<and> length b = length (names_buf w)"
proof (induction parents w rule: config_path_helper.induct)
  case (2 parent up w)
  have "\<exists>b. (if up \<noteq> [] then config_path_helper up w else Inr w)
      = Inr (w\<lparr>names := names w + path_size up, names_buf := b\<rparr>) \<and> length b = length (names_buf w)"
  proof (cases "up = []")
    case True
    show ?thesis by (rule exI [of _ "names_buf w"]) (simp add: True path_size_def)
  qed (use "2.IH" "2.prems" in \<open>simp add: path_size_def\<close>)
  then obtain b where b: "(if up \<noteq> [] then config_path_helper up w else Inr w)
      = Inr (w\<lparr>names := names w + path_size up, names_buf := b\<rparr>)" "length b = length (names_buf w)"
    by blast
  let ?x = "w\<lparr>names := names w + path_size up, names_buf := b\<rparr>"
  have "\<exists>c. (if pass ?x \<ge> HAVE_NAMES then names_put (names ?x) (parent @ ''.'') ?x else Inr ?x)
      = Inr (?x\<lparr>names_buf := c\<rparr>) \<and> length c = length b"
  proof (cases "pass ?x \<ge> HAVE_NAMES")
    case True
    have "names ?x + length (parent @ ''.'') \<le> length (names_buf ?x)"
      using "2.prems" b(2) by (simp add: path_size_def)
    from names_put_ok [OF this] show ?thesis using True by auto
  next
    case False
    then show ?thesis by (intro exI [of _ b]) simp
  qed
  then obtain c where c: "(if pass ?x \<ge> HAVE_NAMES then names_put (names ?x) (parent @ ''.'') ?x else Inr ?x)
      = Inr (?x\<lparr>names_buf := c\<rparr>)" "length c = length b" by blast
  have "config_path_helper (parent # up) w
      = Inr (w\<lparr>names := names w + path_size (parent # up), names_buf := c\<rparr>)"
    unfolding config_path_helper.simps(2) b(1) bind_res_simps(2) c(1) by (simp add: path_size_def ac_simps)
  moreover have "length c = length (names_buf w)" using b(2) c(2) by simp
  ultimately show ?case by (intro exI conjI)
qed simp

lemma config_path_writes:
  assumes "names w + path_size parents \<le> length (names_buf w)"
  shows "\<exists>b. config_path parents w = Inr (if parents = [] then Dot else Names (names w),
      w\<lparr>names := names w + path_size parents, names_buf := b\<rparr>) \<and> length b = length (names_buf w)"
proof (cases "parents = []")
  case True
  show ?thesis by (rule exI [of _ "names_buf w"]) (simp add: True config_path_def path_size_def)
next
  case False
  then obtain b where b: "config_path_helper parents w
      = Inr (w\<lparr>names := names w + path_size parents, names_buf := b\<rparr>)" "length b = length (names_buf w)"
    using path_helper_writes assms by blast
  let ?x = "w\<lparr>names := names w + path_size parents, names_buf := b\<rparr>"
  have "names ?x - 1 + length [NUL] \<le> length (names_buf ?x)"
    using False assms b(2) by (cases parents) (auto simp: path_size_def)
  from names_put_ok [OF this] obtain c where "names_put (names ?x - 1) [NUL] ?x = Inr (?x\<lparr>names_buf := c\<rparr>)"
    "length c = length b" by auto
  then show ?thesis using False b by (auto simp: config_path_def)
qed

lemma wrel12_names:
  "wrel12 starts nl rl w v \<Longrightarrow> length b = nl \<Longrightarrow>
    wrel12 starts nl rl (w\<lparr>names := n\<rparr>) (v\<lparr>names := n, names_buf := b\<rparr>)"
  by (simp add: wrel12_def same_position_def)

lemma wrel12_update:
  assumes "wrel12 starts nl rl w v" and "quiet_update f" and "quiet_update g"
  shows "wrel12 starts nl rl (update_device d f w) (update_device d g v)"
  using assms by (simp add: wrel12_def same_position_def)

lemma interface_rel12:
  assumes rel: "wrel12 starts nl rl w v" and c: "crel12 ps t qs u v"
    and run: "parse_interface t w = Inr x" and "fits12 starts nl rl x"
  shows "follows False (parse_interface u v) (wrel12 starts nl rl x)"
proof -
  let ?d = "\<lambda>w. case t of None \<Rightarrow> w
      | Some d \<Rightarrow> update_device d (\<lambda>dev. dev\<lparr>driver_override := Some (names w)\<rparr>) w"
  let ?n = "names w + (length (string_value (config w)) + 1)"
  have pos: "config v = config w" "names v = names w" "pass w = 1" "pass v = 2" "length (names_buf v) = nl"
    using rel by (simp_all add: wrel12_def same_position_def)
  have fields: "config (?d y) = config y" "names (?d y) = names y" "names_buf (?d y) = names_buf y" for y
    by (simp_all split: option.split)
  have dev: "wrel12 starts nl rl (?d w) (?d v)"
    using rel by (cases t) (simp_all add: wrel12_update quiet_update_def)
  have x: "x = ?d w\<lparr>names := ?n\<rparr>"
    using run pos fields [of w] by (simp add: parse_interface_eq names_put_def HAVE_NAMES_def Let_def)
  have "?n \<le> nl" using assms(4) unfolding x fits12_def by simp
  then have "names (?d v) + length (take 65536 (string_value (config v) @ [NUL])) \<le> length (names_buf (?d v))"
    using pos fields [of v] by simp
  from names_put_ok [OF this] obtain b where
    "names_put (names (?d v)) (take 65536 (string_value (config v) @ [NUL])) (?d v) = Inr (?d v\<lparr>names_buf := b\<rparr>)"
    "length b = nl" using pos fields [of v] by auto
  then have "parse_interface u v = Inr (?d v\<lparr>names := ?n, names_buf := b\<rparr>)"
    using c pos fields [of v] by (simp add: parse_interface_eq HAVE_NAMES_def Let_def crel12_def)
  then show ?thesis
    unfolding x using wrel12_names [OF dev \<open>length b = nl\<close>] by simp
qed

lemma add_resource_rel12:
  assumes rel: "wrel12 starts nl rl w v" and d: "d < devices v" "d < length (device_buf v)"
    and run: "add_resource d name fl a b w = Inr x" and fits: "fits12 starts nl rl x"
  shows "\<exists>y. add_resource d name' fl a b v = Inr y \<and> wrel12 starts nl rl x y"
proof -
  let ?c = "update_device d (\<lambda>dev. dev\<lparr>num_resources := num_resources dev + 1\<rparr>)"
  have w: "dev_resource (device_buf w ! d) = None" and v: "dev_resource (device_buf v ! d) = Some (starts d)"
    and len: "length (device_buf v) = length (device_buf w)" and devs: "devices v = devices w"
    and n: "num v d = num w d" and rl: "length (resource_buf v) = rl"
    using rel d by (simp_all add: wrel12_def base_def)
  have x: "x = ?c w" using run w by (simp add: add_resource_def)
  have "starts d + num x d \<le> rl" using fits d len devs by (simp add: fits12_def x)
  then have room: "starts d + num_resources (device_buf v ! d) < rl"
    using d len n by (simp add: x num_update) (simp add: num_def)
  let ?l = "(resource_buf v)[starts d + num_resources (device_buf v ! d) :=
    \<lparr>res_name = display_name name' v, res_flags = fl, res_start = a, res_end = b\<rparr>]"
  have "add_resource d name' fl a b v = Inr (?c (v\<lparr>resource_buf := ?l\<rparr>))"
    using v room rl by (simp add: add_resource_def Let_def)
  moreover have "wrel12 starts nl rl (?c w) (?c (v\<lparr>resource_buf := ?l\<rparr>))"
    using rel by (auto simp: wrel12_def same_position_def num_update base_update)
      (auto simp: num_def base_def)
  ultimately show ?thesis unfolding x by blast
qed

text \<open>The common end of the two resource parsers.\<close>

lemma named_resource_rel12:
  assumes rel: "wrel12 starts nl rl w v" and d: "d < devices v" "d < length (device_buf v)"
    and run: "bind_res (config_path ps w) (\<lambda>(name, w). add_resource d name fl a b w) = Inr x"
    and fits: "fits12 starts nl rl x"
  shows "follows False (bind_res (config_path ps v) (\<lambda>(name, w). add_resource d name fl a b w)) (wrel12 starts nl rl x)"
proof -
  have pos: "names v = names w" "pass w = 1" "length (names_buf v) = nl" using rel by (simp_all add: wrel12_def)
  let ?w = "w\<lparr>names := names w + path_size ps\<rparr>"
  obtain name where x: "add_resource d name fl a b ?w = Inr x"
    using run pos by (auto simp: config_path_counts HAVE_NAMES_def)
  have "fits12 starts nl rl ?w" using later_add_resource [OF x] fits by (rule fits12_before)
  then have "names v + path_size ps \<le> length (names_buf v)" using pos by (simp add: fits12_def)
  from config_path_writes [OF this] obtain c where c: "config_path ps v = Inr (if ps = [] then Dot else Names (names v),
      v\<lparr>names := names w + path_size ps, names_buf := c\<rparr>)" "length c = nl" using pos by auto
  have rel': "wrel12 starts nl rl ?w (v\<lparr>names := names w + path_size ps, names_buf := c\<rparr>)"
    using rel c(2) by (rule wrel12_names)
  from add_resource_rel12 [OF rel' _ _ x fits] d show ?thesis
    unfolding c(1) by (auto simp: follows_def)
qed

lemma crel12_device: "crel12 ps (Some d) qs u v \<Longrightarrow> u = Some d \<and> qs = ps \<and> d < devices v \<and> d < length (device_buf v)"
  by (simp add: crel12_def)

text \<open>The two resource parsers as tests in front of their common end.\<close>

lemma parse_range_eq:
  "parse_range E ps fl t w =
    (if fst (parse_u64 E (key_start w)) \<noteq> key_end w \<or> fst (parse_u64 E (config w)) \<noteq> skip_key (config w) then Inr w
     else case t of None \<Rightarrow> Inr w
       | Some d \<Rightarrow> (case ps of [] \<Rightarrow> Inl Null_deref
         | p # up \<Rightarrow> bind_res (config_path up w) (\<lambda>(name, x).
             add_resource d name fl (snd (parse_u64 E (key_start w))) (snd (parse_u64 E (config w))) x)))"
  by (cases "parse_u64 E (key_start w)"; cases "parse_u64 E (config w)") (simp add: parse_range_def split: option.split list.split)

lemma parse_single_eq:
  "parse_single E ps fl t w =
    (if fst (parse_u64 E (config w)) \<noteq> skip_key (config w) then Inr w
     else case t of None \<Rightarrow> Inr w
       | Some d \<Rightarrow> bind_res (config_path ps w) (\<lambda>(name, x).
           add_resource d name fl (snd (parse_u64 E (config w))) (snd (parse_u64 E (config w))) x))"
  by (cases "parse_u64 E (config w)") (simp add: parse_single_def split: option.split)

lemma range_rel12:
  assumes rel: "wrel12 starts nl rl w v" and c: "crel12 ps t qs u v"
    and run: "parse_range E ps fl t w = Inr x" and fits: "fits12 starts nl rl x"
  shows "follows False (parse_range E qs fl u v) (wrel12 starts nl rl x)"
proof -
  have pos: "config v = config w" "key_start v = key_start w" "key_end v = key_end w" and u: "u = t" "qs = ps"
    using rel c by (simp_all add: wrel12_def same_position_def crel12_def)
  show ?thesis
  proof (cases t)
    case None
    then show ?thesis using run rel u by (auto simp: parse_range_eq split: if_splits)
  next
    case (Some d)
    note dev = crel12_device [OF c [unfolded Some]]
    show ?thesis
    proof (cases "fst (parse_u64 E (key_start w)) \<noteq> key_end w \<or> fst (parse_u64 E (config w)) \<noteq> skip_key (config w)")
      case True
      then show ?thesis using run rel u pos by (auto simp: parse_range_eq)
    next
      case False
      then obtain p up where ps: "ps = p # up" using run Some by (cases ps) (auto simp: parse_range_eq)
      have "bind_res (config_path up w) (\<lambda>(name, x).
          add_resource d name fl (snd (parse_u64 E (key_start w))) (snd (parse_u64 E (config w))) x) = Inr x"
        using run False Some ps by (simp only: parse_range_eq if_False option.case list.case)
      from named_resource_rel12 [OF rel _ _ this fits] dev
      have "follows False (bind_res (config_path up v) (\<lambda>(name, x).
          add_resource d name fl (snd (parse_u64 E (key_start w))) (snd (parse_u64 E (config w))) x)) (wrel12 starts nl rl x)"
        by simp
      then show ?thesis
        using False Some ps u pos by (simp only: parse_range_eq if_False option.case list.case)
    qed
  qed
qed

lemma single_rel12:
  assumes rel: "wrel12 starts nl rl w v" and c: "crel12 ps t qs u v"
    and run: "parse_single E ps fl t w = Inr x" and fits: "fits12 starts nl rl x"
  shows "follows False (parse_single E qs fl u v) (wrel12 starts nl rl x)"
proof -
  have pos: "config v = config w" and u: "u = t" "qs = ps"
    using rel c by (simp_all add: wrel12_def same_position_def crel12_def)
  show ?thesis
  proof (cases t)
    case None
    then show ?thesis using run rel u by (auto simp: parse_single_eq split: if_splits)
  next
    case (Some d)
    note dev = crel12_device [OF c [unfolded Some]]
    show ?thesis
    proof (cases "fst (parse_u64 E (config w)) \<noteq> skip_key (config w)")
      case True
      then show ?thesis using run rel u pos by (auto simp: parse_single_eq)
    next
      case False
      have "bind_res (config_path ps w) (\<lambda>(name, x).
          add_resource d name fl (snd (parse_u64 E (config w))) (snd (parse_u64 E (config w))) x) = Inr x"
        using run False Some by (simp only: parse_single_eq if_False option.case)
      from named_resource_rel12 [OF rel _ _ this fits] dev
      have "follows False (bind_res (config_path ps v) (\<lambda>(name, x).
          add_resource d name fl (snd (parse_u64 E (config w))) (snd (parse_u64 E (config w))) x)) (wrel12 starts nl rl x)"
        by simp
      then show ?thesis
        using False Some u pos by (simp only: parse_single_eq if_False option.case)
    qed
  qed
qed

lemma mark_rel12:
  assumes "wrel12 starts nl rl w v"
  shows "wrel12 starts nl rl (mark_root i w) (mark_root i v)"
proof -
  have "parser_key_eq w = parser_key_eq v"
    using assms same_position_key by (simp add: wrel12_def)
  then show ?thesis using assms by (simp add: wrel12_def same_position_def mark_root_def)
qed

lemma skip_rel12: "wrel12 starts nl rl w v \<Longrightarrow> wrel12 starts nl rl (skip_config s w) (skip_config s v)"
  by (simp add: wrel12_def same_position_skip)

lemma end_rel12:
  assumes rel: "wrel12 starts nl rl w v" and c: "crel12 ps t qs u v"
  shows "wrel12 starts nl rl (end_entry i t w) (end_entry i u v)"
proof -
  have u: "u = t" and pos: "roots_buf v = roots_buf w" "pass w = 1" "pass v = 2" "config v = config w"
    using rel c by (simp_all add: wrel12_def crel12_def same_position_def)
  show ?thesis
  proof (cases t)
    case None
    then show ?thesis using rel u by (simp add: end_entry_def skip_rel12)
  next
    case (Some d)
    then show ?thesis using rel u pos
      by (simp add: end_entry_def Let_def HAVE_DEVICES_def skip_rel12 wrel12_update quiet_update_def)
  qed
qed

text \<open>What \<^verbatim>\<open>parse_config_string\<close> stores in a device it starts.\<close>

definition fresh_device :: "name_ref \<Rightarrow> string \<Rightarrow> device \<Rightarrow> device" where
  "fresh_device name text dev = dev\<lparr>dev_name := name, dev_id := - 1, num_resources := 0,
     dev_archdata := \<lparr>config_start = Some text, config_end = Some (length text)\<rparr>\<rparr>"

lemma start_device_writes:
  assumes "devices v < length (device_buf v)" and "config_path ps v = Inr (name, v\<lparr>names := n, names_buf := b\<rparr>)"
  shows "start_device ps v = Inr (update_device (devices v) (fresh_device name (config v)) (v\<lparr>names := n, names_buf := b\<rparr>))"
  using assms by (simp add: start_device_def fresh_device_def [abs_def] Let_def)

lemma wrel12_start:
  assumes rel: "wrel12 starts nl rl w v" and len: "length b = nl" and room: "devices w < length (device_buf w)"
  shows "wrel12 starts nl rl
    (update_device (devices w) (fresh_device name text) (w\<lparr>names := n\<rparr>)\<lparr>devices := devices w + 1\<rparr>)
    (update_device (devices v) (fresh_device name' text') (v\<lparr>names := n, names_buf := b\<rparr>)\<lparr>devices := devices v + 1\<rparr>)"
  using rel len room
  by (auto simp: wrel12_def same_position_def num_update base_update fresh_device_def)
    (auto simp: num_def base_def less_Suc_eq)

lemma start_rel12:
  assumes rel: "wrel12 starts nl rl w v" and run: "start_device ps w = Inr x" and "fits12 starts nl rl x"
  shows "\<exists>y. start_device ps v = Inr y \<and> wrel12 starts nl rl (x\<lparr>devices := devices x + 1\<rparr>) (y\<lparr>devices := devices y + 1\<rparr>)
    \<and> devices y = devices v \<and> devices v < length (device_buf y) \<and> devices x = devices w"
proof -
  have pos: "names v = names w" "pass w = 1" "length (names_buf v) = nl" "devices v = devices w"
    "length (device_buf v) = length (device_buf w)"
    using rel by (simp_all add: wrel12_def)
  let ?n = "names w + path_size ps" and ?name = "if ps = [] then Dot else Names (names w)"
  have room: "devices w < length (device_buf w)"
    using run by (auto simp: start_device_def Let_def split: if_splits)
  have "config_path ps w = Inr (?name, w\<lparr>names := ?n, names_buf := names_buf w\<rparr>)"
    using pos by (simp add: config_path_counts HAVE_NAMES_def)
  from start_device_writes [OF room this] have x: "x = update_device (devices w) (fresh_device ?name (config w)) (w\<lparr>names := ?n\<rparr>)"
    using run by simp
  have "names v + path_size ps \<le> length (names_buf v)"
    using assms(3) pos by (simp add: x fits12_def)
  from config_path_writes [OF this, unfolded pos(1,3)]
  obtain b where b: "config_path ps v = Inr (?name, v\<lparr>names := ?n, names_buf := b\<rparr>)" "length b = nl"
    by blast
  have "devices v < length (device_buf v)" using room pos by simp
  from start_device_writes [OF this b(1)] show ?thesis
    using wrel12_start [OF rel b(2) room, of ?name "config w" ?n ?name "config v"] room pos by (simp add: x)
qed

lemma enter_rel12:
  assumes rel: "wrel12 starts nl rl w v" and c: "crel12 ps t qs u v" and run: "enter ps t w = Inr (ps', t', x)"
    and fits: "fits12 starts nl rl x"
  shows "follows False (enter qs u v) (\<lambda>(qs', u', y). wrel12 starts nl rl x y \<and> crel12 ps' t' qs' u' y)"
proof -
  let ?w = "w\<lparr>roots := roots w + 1\<rparr>" and ?v = "v\<lparr>roots := roots v + 1\<rparr>"
  have pos: "roots v = roots w" "roots_buf v = roots_buf w" "pass w = 1" "pass v = 2" "devices v = devices w"
    using rel by (simp_all add: wrel12_def same_position_def)
  have rel': "wrel12 starts nl rl ?w ?v" using rel by (simp add: wrel12_def same_position_def)
  have u: "qs = ps" "u = t" using c by (simp_all add: crel12_def)
  have bound: "roots w < length (roots_buf w)" using run by (auto simp: enter_def Let_def split: if_splits)
  show ?thesis
  proof (cases "roots_buf w ! roots w")
    case False
    then have "enter qs u v = Inr (ps, t, ?v)" and "ps' = ps" "t' = t" "x = ?w"
      using run bound pos u by (simp_all add: enter_def Let_def)
    then show ?thesis using rel' c u by (simp add: crel12_def)
  next
    case True
    then obtain a where a: "start_device ps ?w = Inr a" and x: "ps' = []" "t' = Some (devices w)"
      "x = a\<lparr>devices := devices a + 1\<rparr>"
      using run bound pos by (auto simp: enter_def Let_def HAVE_DEVICES_def)
    have "later a x" by (simp add: x later_def)
    then have "fits12 starts nl rl a" using fits by (rule fits12_before)
    from start_rel12 [OF rel' a this] obtain y where y: "start_device ps ?v = Inr y"
      "wrel12 starts nl rl x (y\<lparr>devices := devices y + 1\<rparr>)" "devices y = devices v" "devices v < length (device_buf y)"
      by (auto simp: x)
    then have "enter qs u v = Inr ([], Some (devices v), y\<lparr>devices := devices y + 1\<rparr>)"
      using True bound pos u by (simp add: enter_def Let_def HAVE_DEVICES_def)
    then show ?thesis using y x pos by (simp add: crel12_def)
  qed
qed

interpretation fill: pass_pair E "wrel12 starts nl rl" crel12 "fits12 starts nl rl" False
proof
  show "fits12 starts nl rl w" if "later w x" "fits12 starts nl rl x" for w x
    using that by (rule fits12_before)
  show "crel12 ps t qs u y" if "crel12 ps t qs u v" "later v y" for ps t qs u v y
    using that by (auto simp: later_def crel12_def intro: less_le_trans)
  show "config w = config v \<and> roots w = roots v \<and> key_start w = key_start v \<and> key_end w = key_end v"
    if "wrel12 starts nl rl w v" for w v
    using that by (simp add: wrel12_def same_position_def)
  show "crel12 (key # ps) t (key # qs) u v" if "crel12 ps t qs u v" for key ps t qs u v
    using that by (simp add: crel12_def)
  show "wrel12 starts nl rl (scan_key w) (scan_key v)" if "wrel12 starts nl rl w v" for w v
    using that by (simp add: wrel12_def same_position_scan)
qed (blast intro: mark_rel12 skip_rel12 enter_rel12 interface_rel12 range_rel12 single_rel12 end_rel12)+

end
