(* ===== verification/ConfigScan.thy ===== *)
theory ConfigScan
  imports ConfigPasses
begin

text \<open>
  \<^verbatim>\<open>config_find_devices\<close> as a whole: what the three passes together guarantee, the layout of
  the block of memory they fill, and the inputs on which they fail.
\<close>

section \<open>Composition of the passes\<close>

definition starts_of :: "device list \<Rightarrow> nat \<Rightarrow> nat" where
  "starts_of devs k = sum_list (map num_resources (take k devs))"

lemma resource_starts_length [simp]: "length (resource_starts devs n) = length devs"
  by (induction devs n rule: resource_starts.induct) simp_all

lemma resource_starts_nth:
  "k < length devs \<Longrightarrow> dev_resource (resource_starts devs n ! k) = Some (n + starts_of devs k)"
proof (induction devs n arbitrary: k rule: resource_starts.induct)
  case (2 dev devs n)
  then show ?case by (cases k) (simp_all add: starts_of_def)
qed simp

lemma starts_of_bound: "k < length devs \<Longrightarrow> starts_of devs k + num_resources (devs ! k) \<le> sum_list (map num_resources devs)"
proof -
  assume k: "k < length devs"
  have "sum_list (map num_resources devs) = starts_of devs (Suc k) + sum_list (map num_resources (drop (Suc k) devs))"
    unfolding starts_of_def by (metis append_take_drop_id map_append sum_list_append)
  then show ?thesis using k by (simp add: starts_of_def take_Suc_conv_app_nth)
qed

text \<open>Pass 0 from its start.\<close>

lemma pass0_run:
  assumes "braces text < length text"
  shows "\<exists>s. walk E (begin_pass 0 text (replicate (length text) False) [] [] []) = Inr s \<and> marks0 s
    \<and> length (roots_buf s) = length text"
proof -
  let ?w = "begin_pass 0 text (replicate (length text) False) [] [] []"
  have "marks0 ?w" and "used ?w < length (roots_buf ?w)"
    using assms by (simp_all add: marks0_def used_def begin_pass_def)
  then have "returns 1 ?w (walk E ?w)"
    using pass0_returns unfolding walk_def by simp
  then obtain s where s: "walk E ?w = Inr s" "marks0 s" by (auto simp: returns_def)
  have "later ?w s" using s(1) unfolding walk_def by (rule block_later)
  then show ?thesis using s by (auto simp: later_def begin_pass_def)
qed

lemma marks0_marked: "marks0 s \<Longrightarrow> marked (roots_buf s) (roots s) = marked (roots_buf s) (length (roots_buf s))"
proof -
  assume m: "marks0 s"
  have "filter (\<lambda>b. b) (drop (roots s) (roots_buf s)) = []"
    using m by (auto simp: filter_empty_conv in_set_conv_nth marks0_def)
  moreover have "filter (\<lambda>b. b) (roots_buf s)
      = filter (\<lambda>b. b) (take (roots s) (roots_buf s)) @ filter (\<lambda>b. b) (drop (roots s) (roots_buf s))"
    by (metis append_take_drop_id filter_append)
  ultimately show ?thesis by (simp add: marked_def)
qed

lemma pass1_run:
  assumes s: "walk E (begin_pass 0 text (replicate (length text) False) [] [] []) = Inr s0" "marks0 s0"
    and n: "n = length (filter (\<lambda>b. b) (take (roots s0) (roots_buf s0)))"
  shows "follows True (walk E (begin_pass 1 text (roots_buf s0) (replicate n no_device) [] []))
    (wrel01 (roots_buf s0) s0)"
proof -
  let ?F = "roots_buf s0"
  have "later (begin_pass 0 text (replicate (length text) False) [] [] []) s0"
    using s(1) unfolding walk_def by (rule block_later)
  then have len: "length ?F = length text" by (simp add: later_def begin_pass_def)
  have n': "n = marked ?F (length ?F)" using marks0_marked [OF s(2)] n by (simp add: marked_def)
  have "wrel01 ?F (begin_pass 0 text (replicate (length text) False) [] [] [])
      (begin_pass 1 text ?F (replicate n no_device) [] [])"
    using len n' by (simp add: wrel01_def same_position_def marks0_def begin_pass_def base_def no_device_def
        marked_def [of _ 0])
  moreover have "crel01 [] None [] None v" for v by (simp add: crel01_def)
  moreover have "fits01 ?F s0" by (simp add: fits01_def)
  ultimately show ?thesis
    using s(1) unfolding walk_def by (intro count.walk_follows) (simp_all add: begin_pass_def)
qed

lemma pass2_run:
  assumes s1: "walk E (begin_pass 1 text F (replicate n no_device) [] []) = Inr s1"
    and F: "roots_buf s1 = F" and devs: "devices s1 = length (device_buf s1)"
    and d: "d = device_buf s1"
    and len: "length rbuf = sum_list (map num_resources d)" "length nbuf = names s1"
  shows "\<exists>s2. walk E (begin_pass 2 text F (resource_starts d 0) rbuf nbuf) = Inr s2
    \<and> wrel12 (starts_of d) (names s1) (length rbuf) s1 s2"
proof -
  let ?w = "begin_pass 1 text F (replicate n no_device) [] []"
  have "later ?w s1" using s1 unfolding walk_def by (rule block_later)
  then have ln: "length d = n" by (simp add: later_def begin_pass_def d)
  have "wrel12 (starts_of d) (names s1) (length rbuf) ?w (begin_pass 2 text F (resource_starts d 0) rbuf nbuf)"
    using ln len by (simp add: wrel12_def same_position_def begin_pass_def base_def no_device_def resource_starts_nth)
  moreover have "crel12 [] None [] None v" for v by (simp add: crel12_def)
  moreover have "fits12 (starts_of d) (names s1) (length rbuf) s1"
    using starts_of_bound [of _ d] devs len by (simp add: fits12_def num_def d)
  ultimately have "follows False (walk E (begin_pass 2 text F (resource_starts d 0) rbuf nbuf))
      (wrel12 (starts_of d) (names s1) (length rbuf) s1)"
    using s1 unfolding walk_def by (intro fill.walk_follows) (simp_all add: begin_pass_def)
  then show ?thesis by (simp add: follows_def)
qed

lemma sum_num:
  assumes "length (device_buf v) = length (device_buf w)" and "\<forall>k < length (device_buf w). num v k = num w k"
  shows "map num_resources (device_buf v) = map num_resources (device_buf w)"
  using assms by (auto intro: nth_equalityI simp: num_def)

lemma sized_by_pass1:
  assumes rel: "wrel12 (starts_of (device_buf s1)) (names s1) rl s1 s2"
    and devs: "devices s1 = length (device_buf s1)" and rl: "rl = sum_list (map num_resources (device_buf s1))"
  shows "devices s2 = length (device_buf s2) \<and> names s2 = length (names_buf s2)
    \<and> sum_list (map num_resources (device_buf s2)) = length (resource_buf s2)
    \<and> (\<forall>k < length (device_buf s2). dev_resource (device_buf s2 ! k) = Some (starts_of (device_buf s2) k))"
proof -
  have len: "length (device_buf s2) = length (device_buf s1)" and "\<forall>k < length (device_buf s1). num s2 k = num s1 k"
    and base: "\<forall>k < length (device_buf s1). base s2 k = Some (starts_of (device_buf s1) k)"
    and counts: "devices s2 = devices s1" "names s2 = names s1" "length (names_buf s2) = names s1" "length (resource_buf s2) = rl"
    using rel devs by (simp_all add: wrel12_def)
  then have nums: "map num_resources (device_buf s2) = map num_resources (device_buf s1)"
    by (intro sum_num)
  then have "starts_of (device_buf s2) = starts_of (device_buf s1)"
    by (simp add: starts_of_def fun_eq_iff take_map [symmetric])
  then show ?thesis using len base counts devs rl nums by (simp add: base_def)
qed

text \<open>What a run of \<^verbatim>\<open>config_find_devices\<close> that returns has built.\<close>

definition devices_built :: "world \<Rightarrow> bool" where
  "devices_built w \<longleftrightarrow> devices w = length (device_buf w) \<and> names w = length (names_buf w)
    \<and> sum_list (map num_resources (device_buf w)) = length (resource_buf w)
    \<and> (\<forall>k < length (device_buf w). dev_resource (device_buf w ! k) = Some (starts_of (device_buf w) k))"

lemma find_devices_outcome:
  assumes "braces text < length text" and "\<forall>n < 3. alloc n"
  shows "config_find_devices E alloc res0 ch0 text = Inl Null_deref
    \<or> (\<exists>w. config_find_devices E alloc res0 ch0 text = Inr w \<and> devices_built w)"
proof -
  obtain s0 where s0: "walk E (begin_pass 0 text (replicate (length text) False) [] [] []) = Inr s0" "marks0 s0"
    using pass0_run [OF assms(1)] by blast
  let ?F = "roots_buf s0"
  define n where "n = length (filter (\<lambda>b. b) (take (roots s0) ?F))"
  let ?w1 = "begin_pass 1 text ?F (replicate n no_device) [] []"
  have alloc: "alloc 0" "alloc 1" "alloc 2" using assms(2) by simp_all
  from pass1_run [OF s0 n_def] consider "walk E ?w1 = Inl Null_deref"
    | s1 where "walk E ?w1 = Inr s1" "wrel01 ?F s0 s1"
    by (auto simp: follows_def)
  then show ?thesis
  proof cases
    case 1
    then show ?thesis using s0(1) alloc by (simp add: config_find_devices_def Let_def flip: n_def)
  next
    case (2 s1)
    have F: "roots_buf s1 = ?F" and devs: "devices s1 = length (device_buf s1)"
      using 2(2) marks0_marked [OF s0(2)] by (simp_all add: wrel01_def same_position_def)
    let ?d = "device_buf s1"
    let ?r = "replicate (sum_list (map num_resources ?d)) res0" and ?n = "replicate (names s1) ch0"
    obtain s2 where s2: "walk E (begin_pass 2 text ?F (resource_starts ?d 0) ?r ?n) = Inr s2"
      "wrel12 (starts_of ?d) (names s1) (length ?r) s1 s2"
      using pass2_run [OF 2(1) F devs refl, of ?r ?n] by auto
    have "config_find_devices E alloc res0 ch0 text = Inr s2"
      using s0(1) 2(1) s2(1) F alloc by (simp add: config_find_devices_def Let_def flip: n_def)
    moreover have "devices_built s2"
      using sized_by_pass1 [OF s2(2) devs] by (simp add: devices_built_def)
    ultimately show ?thesis by blast
  qed
qed

text \<open>
  C11: on a text with fewer opening braces than characters, the three passes of
  \<^verbatim>\<open>config_find_devices\<close> stay inside the buffers sized by the passes before them and return:
  pass 2 uses every byte of the names and every resource that pass 1 counted, device
  \<open>k\<close> owns the slice of resources behind those of the devices before it, and no device is left out;
  the only way to fail is the null pointer that \<^verbatim>\<open>parse_range\<close> follows.
\<close>

theorem config_find_devices_fits:
  assumes "braces text < length text" and "\<forall>n < 3. alloc n"
  shows "config_find_devices E alloc res0 ch0 text = Inl Null_deref
    \<or> (\<exists>w. config_find_devices E alloc res0 ch0 text = Inr w \<and> devices_built w)"
  using assms by (rule find_devices_outcome)

definition blank_resource :: resource where
  "blank_resource = \<lparr>res_name = Dot, res_flags = No_flags, res_start = 0, res_end = 0\<rparr>"

theorem config_find_devices_fits_witness:
  "config_find_devices ref_env (\<lambda>_. True) blank_resource NUL ''a{interface q;irq 5;};'' = Inl Null_deref
    \<or> (\<exists>w. config_find_devices ref_env (\<lambda>_. True) blank_resource NUL ''a{interface q;irq 5;};'' = Inr w
        \<and> devices_built w)"
  by (rule config_find_devices_fits) (simp_all add: braces_def)

section \<open>Layout\<close>

lemma div_round_up_bounds:
  assumes "0 < d"
  shows "n \<le> div_round_up n d * d" and "div_round_up n d * d < n + d"
proof -
  have "(n + d - 1) div d * d + (n + d - 1) mod d = n + d - 1" by (rule div_mult_mod_eq)
  moreover have "(n + d - 1) mod d < d" using assms by simp
  ultimately show "n \<le> div_round_up n d * d" and "div_round_up n d * d < n + d"
    using assms unfolding div_round_up_def by linarith+
qed

text \<open>
  The block of \<^verbatim>\<open>config_find_devices\<close> holds the count, the devices, the resources and the
  names one behind the other without overlap: the devices start behind the 4 bytes of the count
  (as \<^verbatim>\<open>config_string_remove\<close> relies on: they start at the second element of an array of
  devices), the resources start aligned for their type behind the devices, and the block is a whole
  number of pages.
\<close>

theorem block_layout_disjoint:
  assumes "4 \<le> dev_size" and "0 < res_size" and "0 < page"
    and "block_layout dev_size res_size page nd nr nn = (od, or', on, oe)"
  shows "od = dev_size \<and> 4 \<le> od \<and> od + nd * dev_size \<le> or' \<and> res_size dvd or'
    \<and> or' + nr * res_size \<le> on \<and> on + nn \<le> oe \<and> page dvd oe \<and> oe < on + nn + page"
proof -
  have "4 + dev_size - 1 = 3 + dev_size" by simp
  then have "div_round_up 4 dev_size = 1"
    using assms(1) unfolding div_round_up_def by (simp only:) (simp add: div_add_self2)
  then have places: "od = dev_size" "or' = div_round_up (dev_size + dev_size * nd) res_size * res_size"
    "on = or' + res_size * nr" "oe = div_round_up (on + nn) page * page"
    using assms(4) by (auto simp: block_layout_def Let_def)
  have "dev_size + dev_size * nd \<le> or'" and "on + nn \<le> oe" and "oe < on + nn + page"
    using div_round_up_bounds [OF assms(2)] div_round_up_bounds [OF assms(3)] by (simp_all add: places(2,4))
  then show ?thesis
    using assms(1) places by (simp add: mult.commute)
qed

theorem block_layout_disjoint_witness:
  "block_layout 400 28 4096 3 7 100 = (400, 1624, 1820, 4096)
    \<and> 400 + 3 * 400 \<le> (1624 :: nat) \<and> (28 :: nat) dvd 1624"
proof -
  have "block_layout 400 28 4096 3 7 100 = (400, 1624, 1820, 4096)" by code_simp
  then show ?thesis using block_layout_disjoint [of 400 28 4096 3 7 100 400 1624 1820 4096] by simp
qed

section \<open>Inputs that fail\<close>

text \<open>The names of the resources, as the platform bus prints them.\<close>

definition resource_names :: "world result \<Rightarrow> string list" where
  "resource_names r = (case r of Inl _ \<Rightarrow> []
    | Inr w \<Rightarrow> map (\<lambda>r. case res_name r of Dot \<Rightarrow> ''.''
        | Names p \<Rightarrow> takeWhile (\<lambda>c. c \<noteq> NUL) (drop p (names_buf w))) (resource_buf w))"

lemma brace_alone:
  "config_find_devices ref_env (\<lambda>_. True) blank_resource NUL ''{'' = Inl Roots_oob"
  by code_simp

lemma null_parent:
  "config_find_devices ref_env (\<lambda>_. True) blank_resource NUL ''mem{interface a;0 1;};'' = Inl Null_deref"
  by code_simp

text \<open>
  The marks have a byte per character of the text, but the outermost block needs one as well:
  a text of one opening brace reads and writes behind them. A device block that itself stands under
  a key with a meaning, like \<^verbatim>\<open>mem\<close>, makes \<^verbatim>\<open>parse_range\<close> follow a null pointer.
\<close>

theorem config_find_devices_faults:
  "config_find_devices ref_env (\<lambda>_. True) blank_resource NUL ''{'' = Inl Roots_oob
    \<and> config_find_devices ref_env (\<lambda>_. True) blank_resource NUL ''mem{interface a;0 1;};'' = Inl Null_deref"
  by (rule conjI [OF brace_alone null_parent])

text \<open>
  The state a nested block returns replaces its caller's, with the key it scanned last: a second
  block under one key \<^verbatim>\<open>p\<close> gets the name of the first block's key, \<^verbatim>\<open>bus\<close>, in place of
  \<^verbatim>\<open>p\<close>.
\<close>

theorem second_block_misnamed:
  "resource_names (config_find_devices ref_env (\<lambda>_. True) blank_resource NUL
     ''interface q;p{bus 1;}{bus 3;};'') = [''p'', ''bus'']"
  by code_simp

end
