(* ===== verification/PageTable.thy ===== *)
theory PageTable
  imports Prelude
begin

text \<open>
  Pages, page table entries and page tables: \<^verbatim>\<open>asm/page.h\<close>,
  \<^verbatim>\<open>asm/pgtable-bits.h\<close>, \<^verbatim>\<open>asm/pgtable.h\<close>, \<^verbatim>\<open>asm/pgtable-32.h\<close>,
  \<^verbatim>\<open>asm/pgtable-64.h\<close> and \<^verbatim>\<open>asm/pgalloc.h\<close>. An \<^verbatim>\<open>unsigned long\<close> is a word of
  any width; \<open>XLEN\<close> of a word is 32 or 64 in the builds of the port. The variables
  \<^verbatim>\<open>va_pa_offset\<close>, \<^verbatim>\<open>pfn_base\<close> and \<^verbatim>\<open>max_mapnr\<close>, which the memory setup writes, are the
  record \<open>mem_layout\<close>.
\<close>

section \<open>Pages\<close>

definition PAGE_SHIFT :: nat where "PAGE_SHIFT = 12"
definition PAGE_SIZE :: "'w::len word" where "PAGE_SIZE = push_bit PAGE_SHIFT 1"
definition PAGE_MASK :: "'w::len word" where "PAGE_MASK = NOT (PAGE_SIZE - 1)"

definition PAGE_UP :: "'w::len word \<Rightarrow> 'w word" where
  "PAGE_UP addr = (addr + (PAGE_SIZE - 1)) AND NOT (PAGE_SIZE - 1)"

definition PAGE_DOWN :: "'w::len word \<Rightarrow> 'w word" where
  "PAGE_DOWN addr = addr AND NOT (PAGE_SIZE - 1)"

record 'a mem_layout =
  va_pa_offset :: 'a
  pfn_base :: 'a
  max_mapnr :: 'a

definition pa :: "'w::len word mem_layout \<Rightarrow> 'w word \<Rightarrow> 'w word" where
  "pa L x = x - va_pa_offset L"

definition va :: "'w::len word mem_layout \<Rightarrow> 'w word \<Rightarrow> 'w word" where
  "va L x = x + va_pa_offset L"

definition phys_to_pfn :: "'w::len word \<Rightarrow> 'w word" where
  "phys_to_pfn phys = drop_bit PAGE_SHIFT phys"

definition pfn_to_phys :: "'w::len word \<Rightarrow> 'w word" where
  "pfn_to_phys pfn = push_bit PAGE_SHIFT pfn"

definition virt_to_pfn :: "'w::len word mem_layout \<Rightarrow> 'w word \<Rightarrow> 'w word" where
  "virt_to_pfn L vaddr = phys_to_pfn (pa L vaddr)"

definition pfn_to_virt :: "'w::len word mem_layout \<Rightarrow> 'w word \<Rightarrow> 'w word" where
  "pfn_to_virt L pfn = va L (pfn_to_phys pfn)"

definition pfn_valid :: "'w::len word mem_layout \<Rightarrow> 'w word \<Rightarrow> bool" where
  "pfn_valid L pfn \<longleftrightarrow> pfn_base L \<le> pfn \<and> pfn - pfn_base L < max_mapnr L"

definition virt_addr_valid :: "'w::len word mem_layout \<Rightarrow> 'w word \<Rightarrow> bool" where
  "virt_addr_valid L vaddr = pfn_valid L (virt_to_pfn L vaddr)"

section \<open>Page table entries\<close>

datatype 'a pte_t = Pte (pte_val: 'a)
datatype 'a pmd_t = Pmd (pmd_val: 'a)
datatype 'a pgprot_t = Pgprot (pgprot_val: 'a)

definition PAGE_PRESENT :: "'w::len word" where "PAGE_PRESENT = push_bit 0 1"
definition PAGE_READ_BIT :: "'w::len word" where "PAGE_READ_BIT = push_bit 1 1"
definition PAGE_WRITE_BIT :: "'w::len word" where "PAGE_WRITE_BIT = push_bit 2 1"
definition PAGE_EXEC_BIT :: "'w::len word" where "PAGE_EXEC_BIT = push_bit 3 1"
definition PAGE_USER :: "'w::len word" where "PAGE_USER = push_bit 4 1"
definition PAGE_GLOBAL :: "'w::len word" where "PAGE_GLOBAL = push_bit 5 1"
definition PAGE_ACCESSED :: "'w::len word" where "PAGE_ACCESSED = push_bit 6 1"
definition PAGE_DIRTY :: "'w::len word" where "PAGE_DIRTY = push_bit 7 1"
definition PAGE_SPECIAL :: "'w::len word" where "PAGE_SPECIAL = push_bit 8 1"
definition PAGE_TABLE :: "'w::len word" where "PAGE_TABLE = PAGE_PRESENT"
definition PAGE_PFN_SHIFT :: nat where "PAGE_PFN_SHIFT = 10"

definition PAGE_CHG_MASK :: "'w::len word" where
  "PAGE_CHG_MASK = NOT (PAGE_PRESENT OR PAGE_READ_BIT OR PAGE_WRITE_BIT OR PAGE_EXEC_BIT
     OR PAGE_USER OR PAGE_GLOBAL)"

lemmas page_bits = PAGE_PRESENT_def PAGE_READ_BIT_def PAGE_WRITE_BIT_def PAGE_EXEC_BIT_def
  PAGE_USER_def PAGE_GLOBAL_def PAGE_ACCESSED_def PAGE_DIRTY_def PAGE_SPECIAL_def PAGE_TABLE_def

definition PAGE_BASE :: "'w::len word" where
  "PAGE_BASE = PAGE_PRESENT OR PAGE_ACCESSED OR PAGE_USER"

definition PAGE_NONE :: "'w::len word pgprot_t" where "PAGE_NONE = Pgprot 0"
definition PAGE_READ :: "'w::len word pgprot_t" where "PAGE_READ = Pgprot (PAGE_BASE OR PAGE_READ_BIT)"
definition PAGE_WRITE :: "'w::len word pgprot_t" where
  "PAGE_WRITE = Pgprot (PAGE_BASE OR PAGE_READ_BIT OR PAGE_WRITE_BIT)"
definition PAGE_EXEC :: "'w::len word pgprot_t" where "PAGE_EXEC = Pgprot (PAGE_BASE OR PAGE_EXEC_BIT)"
definition PAGE_READ_EXEC :: "'w::len word pgprot_t" where
  "PAGE_READ_EXEC = Pgprot (PAGE_BASE OR PAGE_READ_BIT OR PAGE_EXEC_BIT)"
definition PAGE_WRITE_EXEC :: "'w::len word pgprot_t" where
  "PAGE_WRITE_EXEC = Pgprot (PAGE_BASE OR PAGE_READ_BIT OR PAGE_EXEC_BIT OR PAGE_WRITE_BIT)"
definition PAGE_KERNEL :: "'w::len word pgprot_t" where
  "PAGE_KERNEL = Pgprot (PAGE_READ_BIT OR PAGE_WRITE_BIT OR PAGE_PRESENT OR PAGE_ACCESSED)"

lemmas page_prots = PAGE_NONE_def PAGE_READ_def PAGE_WRITE_def PAGE_EXEC_def PAGE_READ_EXEC_def
  PAGE_WRITE_EXEC_def PAGE_KERNEL_def PAGE_BASE_def

text \<open>
  The tables \<^verbatim>\<open>__P000\<close> to \<^verbatim>\<open>__P111\<close> (private mappings) and \<^verbatim>\<open>__S000\<close> to
  \<^verbatim>\<open>__S111\<close> (shared ones), by the bits exec, write and read of the request.
\<close>

fun private_prot :: "bool \<Rightarrow> bool \<Rightarrow> bool \<Rightarrow> 'w::len word pgprot_t" where
  "private_prot False False False = PAGE_NONE"
| "private_prot False False True = PAGE_READ"
| "private_prot False True False = PAGE_READ"
| "private_prot False True True = PAGE_READ"
| "private_prot True False False = PAGE_EXEC"
| "private_prot True False True = PAGE_READ_EXEC"
| "private_prot True True False = PAGE_EXEC"
| "private_prot True True True = PAGE_READ_EXEC"

fun shared_prot :: "bool \<Rightarrow> bool \<Rightarrow> bool \<Rightarrow> 'w::len word pgprot_t" where
  "shared_prot False False False = PAGE_NONE"
| "shared_prot False False True = PAGE_READ"
| "shared_prot False True False = PAGE_WRITE"
| "shared_prot False True True = PAGE_WRITE"
| "shared_prot True False False = PAGE_EXEC"
| "shared_prot True False True = PAGE_READ_EXEC"
| "shared_prot True True False = PAGE_WRITE_EXEC"
| "shared_prot True True True = PAGE_WRITE_EXEC"

definition pte_pfn :: "'w::len word pte_t \<Rightarrow> 'w word" where
  "pte_pfn pte = drop_bit PAGE_PFN_SHIFT (pte_val pte)"

definition pfn_pte :: "'w::len word \<Rightarrow> 'w word pgprot_t \<Rightarrow> 'w word pte_t" where
  "pfn_pte pfn prot = Pte (push_bit PAGE_PFN_SHIFT pfn OR pgprot_val prot)"

definition pte_present :: "'w::len word pte_t \<Rightarrow> bool" where
  "pte_present pte \<longleftrightarrow> pte_val pte AND PAGE_PRESENT \<noteq> 0"

definition pte_none :: "'w::len word pte_t \<Rightarrow> bool" where
  "pte_none pte \<longleftrightarrow> pte_val pte = 0"

definition pte_write :: "'w::len word pte_t \<Rightarrow> bool" where
  "pte_write pte \<longleftrightarrow> pte_val pte AND PAGE_WRITE_BIT \<noteq> 0"

definition pte_huge :: "'w::len word pte_t \<Rightarrow> bool" where
  "pte_huge pte \<longleftrightarrow> pte_present pte
     \<and> pte_val pte AND (PAGE_READ_BIT OR PAGE_WRITE_BIT OR PAGE_EXEC_BIT) \<noteq> 0"

definition pte_dirty :: "'w::len word pte_t \<Rightarrow> bool" where
  "pte_dirty pte \<longleftrightarrow> pte_val pte AND PAGE_DIRTY \<noteq> 0"

definition pte_young :: "'w::len word pte_t \<Rightarrow> bool" where
  "pte_young pte \<longleftrightarrow> pte_val pte AND PAGE_ACCESSED \<noteq> 0"

definition pte_special :: "'w::len word pte_t \<Rightarrow> bool" where
  "pte_special pte \<longleftrightarrow> pte_val pte AND PAGE_SPECIAL \<noteq> 0"

definition pte_wrprotect :: "'w::len word pte_t \<Rightarrow> 'w word pte_t" where
  "pte_wrprotect pte = Pte (pte_val pte AND NOT PAGE_WRITE_BIT)"

definition pte_mkwrite :: "'w::len word pte_t \<Rightarrow> 'w word pte_t" where
  "pte_mkwrite pte = Pte (pte_val pte OR PAGE_WRITE_BIT)"

definition pte_mkdirty :: "'w::len word pte_t \<Rightarrow> 'w word pte_t" where
  "pte_mkdirty pte = Pte (pte_val pte OR PAGE_DIRTY)"

definition pte_mkclean :: "'w::len word pte_t \<Rightarrow> 'w word pte_t" where
  "pte_mkclean pte = Pte (pte_val pte AND NOT PAGE_DIRTY)"

definition pte_mkyoung :: "'w::len word pte_t \<Rightarrow> 'w word pte_t" where
  "pte_mkyoung pte = Pte (pte_val pte AND NOT PAGE_ACCESSED)"

definition pte_mkold :: "'w::len word pte_t \<Rightarrow> 'w word pte_t" where
  "pte_mkold pte = Pte (pte_val pte OR PAGE_ACCESSED)"

definition pte_mkspecial :: "'w::len word pte_t \<Rightarrow> 'w word pte_t" where
  "pte_mkspecial pte = Pte (pte_val pte OR PAGE_SPECIAL)"

definition pte_modify :: "'w::len word pte_t \<Rightarrow> 'w word pgprot_t \<Rightarrow> 'w word pte_t" where
  "pte_modify pte newprot = Pte ((pte_val pte AND PAGE_CHG_MASK) OR pgprot_val newprot)"

section \<open>Swap entries\<close>

definition SWP_TYPE_SHIFT :: nat where "SWP_TYPE_SHIFT = 2"
definition SWP_TYPE_BITS :: nat where "SWP_TYPE_BITS = 5"
definition SWP_TYPE_MASK :: "'w::len word" where "SWP_TYPE_MASK = push_bit SWP_TYPE_BITS 1 - 1"
definition SWP_OFFSET_SHIFT :: nat where "SWP_OFFSET_SHIFT = SWP_TYPE_BITS + SWP_TYPE_SHIFT"

definition swp_type :: "'w::len word \<Rightarrow> 'w word" where
  "swp_type x = drop_bit SWP_TYPE_SHIFT x AND SWP_TYPE_MASK"

definition swp_offset :: "'w::len word \<Rightarrow> 'w word" where
  "swp_offset x = drop_bit SWP_OFFSET_SHIFT x"

definition swp_entry :: "'w::len word \<Rightarrow> 'w word \<Rightarrow> 'w word" where
  "swp_entry type offset = push_bit SWP_TYPE_SHIFT type OR push_bit SWP_OFFSET_SHIFT offset"

definition pte_to_swp_entry :: "'w::len word pte_t \<Rightarrow> 'w word" where
  "pte_to_swp_entry pte = pte_val pte"

definition swp_entry_to_pte :: "'w::len word \<Rightarrow> 'w word pte_t" where
  "swp_entry_to_pte x = Pte x"

section \<open>Directories\<close>

text \<open>\<^verbatim>\<open>pgtable-32.h\<close> has two levels with 4 MiB regions, \<^verbatim>\<open>pgtable-64.h\<close> three with 1 GiB.\<close>

definition PGDIR_SHIFT :: "'w::len itself \<Rightarrow> nat" where
  "PGDIR_SHIFT _ = (if LENGTH('w) = 64 then 30 else 22)"

definition PMD_SHIFT :: nat where "PMD_SHIFT = 21"

text \<open>\<^verbatim>\<open>PTRS_PER_PGD\<close>, \<^verbatim>\<open>PTRS_PER_PMD\<close> and \<^verbatim>\<open>PTRS_PER_PTE\<close>: page size by entry size.\<close>

definition PTRS_PER_PAGE :: "'w::len itself \<Rightarrow> nat" where
  "PTRS_PER_PAGE _ = 2 ^ PAGE_SHIFT div (LENGTH('w) div 8)"

definition pgd_index :: "'w::len word \<Rightarrow> 'w word" where
  "pgd_index addr = drop_bit (PGDIR_SHIFT TYPE('w)) addr AND (of_nat (PTRS_PER_PAGE TYPE('w)) - 1)"

definition pmd_index :: "'w::len word \<Rightarrow> 'w word" where
  "pmd_index addr = drop_bit PMD_SHIFT addr AND (of_nat (PTRS_PER_PAGE TYPE('w)) - 1)"

definition pte_index :: "'w::len word \<Rightarrow> 'w word" where
  "pte_index addr = drop_bit PAGE_SHIFT addr AND (of_nat (PTRS_PER_PAGE TYPE('w)) - 1)"

definition PAGE_OFFSET :: "'w::len word" where
  "PAGE_OFFSET = (if LENGTH('w) = 64 then 0xffffffff80000000 else 0xc0000000)"

definition VMALLOC_START :: "'w::len word" where
  "VMALLOC_START = PAGE_OFFSET - 0x8000000"

definition VMALLOC_END :: "'w::len word" where
  "VMALLOC_END = PAGE_OFFSET - 1"

definition TASK_SIZE :: "'w::len word" where
  "TASK_SIZE = (if LENGTH('w) = 64
     then push_bit (PGDIR_SHIFT TYPE('w)) 1 * of_nat (PTRS_PER_PAGE TYPE('w)) div 2
     else VMALLOC_START)"

definition USER_PTRS_PER_PGD :: "'w::len itself \<Rightarrow> nat" where
  "USER_PTRS_PER_PGD _ = unat (TASK_SIZE div push_bit (PGDIR_SHIFT TYPE('w)) 1 :: 'w word)"

definition pmd_present :: "'w::len word pmd_t \<Rightarrow> bool" where
  "pmd_present pmd \<longleftrightarrow> pmd_val pmd AND PAGE_PRESENT \<noteq> 0"

definition pmd_none :: "'w::len word pmd_t \<Rightarrow> bool" where
  "pmd_none pmd \<longleftrightarrow> pmd_val pmd = 0"

definition pmd_bad :: "'w::len word pmd_t \<Rightarrow> bool" where
  "pmd_bad pmd \<longleftrightarrow> \<not> pmd_present pmd"

definition pmd_page_vaddr :: "'w::len word mem_layout \<Rightarrow> 'w word pmd_t \<Rightarrow> 'w word" where
  "pmd_page_vaddr L pmd = pfn_to_virt L (drop_bit PAGE_PFN_SHIFT (pmd_val pmd))"

definition pmd_populate_kernel :: "'w::len word mem_layout \<Rightarrow> 'w word \<Rightarrow> 'w word pmd_t" where
  "pmd_populate_kernel L pte =
    (let pfn = virt_to_pfn L pte in Pmd (push_bit PAGE_PFN_SHIFT pfn OR PAGE_TABLE))"

text \<open>\<^verbatim>\<open>pte_offset_kernel\<close>: the address of the entry, pointer arithmetic scaled by its size.\<close>

definition pte_offset_kernel :: "'w::len word mem_layout \<Rightarrow> 'w word pmd_t \<Rightarrow> 'w word \<Rightarrow> 'w word" where
  "pte_offset_kernel L pmd addr =
    pmd_page_vaddr L pmd + of_nat (LENGTH('w) div 8) * pte_index addr"

text \<open>
  \<^verbatim>\<open>pgd_alloc\<close>: \<open>page\<close> is what \<^verbatim>\<open>__get_free_page\<close> returned (with arbitrary contents), the
  user part is cleared and the kernel part copied from \<^verbatim>\<open>init_mm.pgd\<close>.
\<close>

definition pgd_alloc :: "'w::len word list \<Rightarrow> 'w word list option \<Rightarrow> 'w word list option" where
  "pgd_alloc init_pgd page =
    (case page of
       None \<Rightarrow> None
     | Some pgd \<Rightarrow>
        (let user = USER_PTRS_PER_PGD TYPE('w); all = PTRS_PER_PAGE TYPE('w);
             pgd = replicate user 0 @ drop user pgd;
             pgd = take user pgd @ take (all - user) (drop user init_pgd) @ drop all pgd
         in Some pgd))"

section \<open>One flag of an entry\<close>

text \<open>
  The contract of a flag of a page table entry: a function that sets it, one that clears it and
  a test, all about the same bit below the frame number.
\<close>

locale pte_flag =
  fixes set_flag clear_flag :: "'w::len word pte_t \<Rightarrow> 'w word pte_t"
    and test_flag :: "'w word pte_t \<Rightarrow> bool" and n :: nat
  assumes n: "n < PAGE_PFN_SHIFT" "n < LENGTH('w)"
    and set_bits: "bit (pte_val (set_flag p)) i \<longleftrightarrow> i = n \<or> bit (pte_val p) i"
    and clear_bits: "bit (pte_val (clear_flag p)) i \<longleftrightarrow> i \<noteq> n \<and> bit (pte_val p) i"
    and test_bit: "test_flag p \<longleftrightarrow> bit (pte_val p) n"
begin

lemma test_set: "test_flag (set_flag p)"
  by (simp add: test_bit set_bits)

lemma test_clear: "\<not> test_flag (clear_flag p)"
  by (simp add: test_bit clear_bits)

lemma set_clear: "set_flag (clear_flag p) = set_flag p"
  by (intro pte_t.expand bit_word_eqI) (auto simp: set_bits clear_bits)

lemma clear_set: "clear_flag (set_flag p) = clear_flag p"
  by (intro pte_t.expand bit_word_eqI) (auto simp: set_bits clear_bits)

lemma pfn_kept: "pte_pfn (set_flag p) = pte_pfn p" "pte_pfn (clear_flag p) = pte_pfn p"
  using n by (auto simp: pte_pfn_def bit_drop_bit_eq set_bits clear_bits intro!: bit_word_eqI)

end

lemma bit_flag: "bit (push_bit n 1 :: 'w::len word) i \<longleftrightarrow> i = n \<and> n < LENGTH('w)"
  by (auto simp: bit_exp_iff)

lemma and_flag: "x AND push_bit n 1 \<noteq> (0 :: 'w::len word) \<longleftrightarrow> bit x n"
proof
  assume "x AND push_bit n 1 \<noteq> 0"
  then obtain i where "bit (x AND push_bit n 1) i" by (auto simp: bit_eq_iff)
  then show "bit x n" by (auto simp: bit_and_iff bit_exp_iff)
next
  assume b: "bit x n"
  then have "bit (x AND push_bit n 1) n"
    using bit_imp_le_length [OF b] by (simp add: bit_and_iff bit_exp_iff)
  then show "x AND push_bit n 1 \<noteq> 0" by auto
qed

lemma page_bit_iff:
  "bit (PAGE_PRESENT :: 'w::len word) i \<longleftrightarrow> i = 0"
  "bit (PAGE_READ_BIT :: 'w word) i \<longleftrightarrow> i = 1 \<and> 1 < LENGTH('w)"
  "bit (PAGE_WRITE_BIT :: 'w word) i \<longleftrightarrow> i = 2 \<and> 2 < LENGTH('w)"
  "bit (PAGE_EXEC_BIT :: 'w word) i \<longleftrightarrow> i = 3 \<and> 3 < LENGTH('w)"
  "bit (PAGE_USER :: 'w word) i \<longleftrightarrow> i = 4 \<and> 4 < LENGTH('w)"
  "bit (PAGE_GLOBAL :: 'w word) i \<longleftrightarrow> i = 5 \<and> 5 < LENGTH('w)"
  "bit (PAGE_ACCESSED :: 'w word) i \<longleftrightarrow> i = 6 \<and> 6 < LENGTH('w)"
  "bit (PAGE_DIRTY :: 'w word) i \<longleftrightarrow> i = 7 \<and> 7 < LENGTH('w)"
  "bit (PAGE_SPECIAL :: 'w word) i \<longleftrightarrow> i = 8 \<and> 8 < LENGTH('w)"
  "bit (PAGE_TABLE :: 'w word) i \<longleftrightarrow> i = 0"
  unfolding page_bits bit_flag by simp_all

lemma pte_tests:
  "pte_present p \<longleftrightarrow> bit (pte_val p) 0" "pte_write p \<longleftrightarrow> bit (pte_val p) 2"
  "pte_dirty p \<longleftrightarrow> bit (pte_val p) 7" "pte_young p \<longleftrightarrow> bit (pte_val p) 6"
  "pte_special p \<longleftrightarrow> bit (pte_val p) 8" "pmd_present d \<longleftrightarrow> bit (pmd_val d) 0"
  unfolding pte_present_def pte_write_def pte_dirty_def pte_young_def pte_special_def
    pmd_present_def page_bits and_flag by (rule refl)+

lemma bit_and_not: "bit (x AND NOT y :: 'w::len word) i \<longleftrightarrow> bit x i \<and> \<not> bit y i"
  using bit_imp_le_length by (auto simp: bit_and_iff bit_not_iff)

lemmas pte_bits = page_bit_iff pte_tests bit_and_not bit_or_iff PAGE_PFN_SHIFT_def

interpretation dirty: pte_flag "pte_mkdirty :: u32 pte_t \<Rightarrow> _" pte_mkclean pte_dirty 7
  by unfold_locales (auto simp: pte_mkdirty_def pte_mkclean_def pte_bits)

interpretation writable: pte_flag "pte_mkwrite :: u32 pte_t \<Rightarrow> _" pte_wrprotect pte_write 2
  by unfold_locales (auto simp: pte_mkwrite_def pte_wrprotect_def pte_bits)

text \<open>The accessed flag satisfies the contract with the two setters exchanged.\<close>

interpretation accessed: pte_flag "pte_mkold :: u32 pte_t \<Rightarrow> _" pte_mkyoung pte_young 6
  by unfold_locales (auto simp: pte_mkold_def pte_mkyoung_def pte_bits)

interpretation dirty64: pte_flag "pte_mkdirty :: u64 pte_t \<Rightarrow> _" pte_mkclean pte_dirty 7
  by unfold_locales (auto simp: pte_mkdirty_def pte_mkclean_def pte_bits)

interpretation writable64: pte_flag "pte_mkwrite :: u64 pte_t \<Rightarrow> _" pte_wrprotect pte_write 2
  by unfold_locales (auto simp: pte_mkwrite_def pte_wrprotect_def pte_bits)

interpretation accessed64: pte_flag "pte_mkold :: u64 pte_t \<Rightarrow> _" pte_mkyoung pte_young 6
  by unfold_locales (auto simp: pte_mkold_def pte_mkyoung_def pte_bits)

section \<open>Frame numbers, swap entries and tables\<close>

lemma shift_bound:
  assumes "unat (x :: 'w::len word) < 2 ^ (LENGTH('w) - n)" "n \<le> LENGTH('w)"
  shows "drop_bit n (push_bit n x) = x"
proof -
  have "unat x * 2 ^ n < 2 ^ (LENGTH('w) - n) * 2 ^ n" using assms(1) by simp
  also have "\<dots> = 2 ^ LENGTH('w)" using assms(2) by (simp flip: power_add)
  finally show ?thesis
    by (simp add: unat_eq_word unat_drop_bit_word unat_push_bit_word)
qed

lemma bit_small:
  assumes "unat (x :: 'w::len word) < 2 ^ n" "n \<le> i"
  shows "\<not> bit x i"
proof -
  have "(2::nat) ^ n \<le> 2 ^ i" using assms(2) by (rule power_increasing) simp
  with assms(1) have "unat x < 2 ^ i" by (rule less_le_trans)
  then show ?thesis by (simp add: bit_word_unat)
qed

lemma drop_small: "unat (x :: 'w::len word) < 2 ^ n \<Longrightarrow> drop_bit n x = 0"
  by (simp add: unat_eq_word unat_drop_bit_word)

lemma pfn_pte_pfn:
  assumes "10 \<le> LENGTH('w)" "unat (pfn :: 'w::len word) < 2 ^ (LENGTH('w) - 10)"
    and "unat (pgprot_val prot) < 2 ^ 10"
  shows "pte_pfn (pfn_pte pfn prot) = pfn" 
  using shift_bound [OF assms(2,1)] drop_small [OF assms(3)]
  by (simp add: pte_pfn_def pfn_pte_def PAGE_PFN_SHIFT_def drop_bit_or)

lemma low_bits_pfn_pte:
  "i < 10 \<Longrightarrow> bit (pte_val (pfn_pte pfn prot)) i \<longleftrightarrow> bit (pgprot_val prot) i"
  by (simp add: pfn_pte_def PAGE_PFN_SHIFT_def bit_or_iff bit_push_bit_iff)

lemma swp_roundtrip:
  fixes type offset :: "'w::len word"
  assumes "7 \<le> LENGTH('w)" "unat type < 2 ^ 5" "unat offset < 2 ^ (LENGTH('w) - 7)"
  shows "swp_type (swp_entry type offset) = type" "swp_offset (swp_entry type offset) = offset"
    "\<not> pte_present (swp_entry_to_pte (swp_entry type offset))"
proof -
  have m: "(SWP_TYPE_MASK :: 'w word) = mask 5"
    by (simp add: SWP_TYPE_MASK_def SWP_TYPE_BITS_def mask_eq_exp_minus_1)
  have t: "bit type i \<Longrightarrow> i < 5" for i
    using bit_small [OF assms(2)] by (meson not_le)
  then have t': "bit type i \<Longrightarrow> i < 5 \<and> Suc (Suc i) < LENGTH('w)" for i
    using assms(1) by fastforce
  show "swp_type (swp_entry type offset) = type"
    unfolding swp_type_def swp_entry_def m
    by (intro bit_word_eqI) (auto dest: t' simp: bit_simps SWP_TYPE_SHIFT_def SWP_OFFSET_SHIFT_def SWP_TYPE_BITS_def)
  have "drop_bit 7 (push_bit 2 type) = 0"
    using assms(2) by (intro drop_small) (simp add: unat_push_bit_word le_less_trans [OF mod_less_eq_dividend])
  then show "swp_offset (swp_entry type offset) = offset"
    using shift_bound [OF assms(3,1)]
    by (simp add: swp_offset_def swp_entry_def SWP_TYPE_SHIFT_def SWP_OFFSET_SHIFT_def
        SWP_TYPE_BITS_def drop_bit_or)
  show "\<not> pte_present (swp_entry_to_pte (swp_entry type offset))"
    by (simp add: pte_tests swp_entry_to_pte_def swp_entry_def bit_or_iff bit_push_bit_iff
        SWP_TYPE_SHIFT_def SWP_OFFSET_SHIFT_def SWP_TYPE_BITS_def)
qed

lemma aligned_page: "take_bit 12 x = 0 \<Longrightarrow> push_bit 12 (drop_bit 12 x) = (x :: 'w::len word)"
  using bits_ident [of 12 x] by simp

lemma pmd_populate_vaddr:
  fixes L :: "'w::len word mem_layout"
  assumes w: "12 \<le> LENGTH('w)" and al: "take_bit PAGE_SHIFT (pa L pte) = 0"
  shows "pmd_page_vaddr L (pmd_populate_kernel L pte) = pte"
proof -
  have "unat (drop_bit 12 (pa L pte)) < 2 ^ (LENGTH('w) - 12)"
  proof -
    have "unat (pa L pte) < 2 ^ (LENGTH('w) - 12) * 2 ^ 12"
      using unat_bound [of "pa L pte"] w by (simp only: flip: power_add) simp
    then show ?thesis by (simp only: unat_drop_bit_word less_mult_imp_div_less)
  qed
  moreover have "(2::nat) ^ (LENGTH('w) - 12) \<le> 2 ^ (LENGTH('w) - 10)"
    by (rule power_increasing) simp_all
  ultimately have small: "unat (drop_bit 12 (pa L pte)) < 2 ^ (LENGTH('w) - 10)"
    by (rule less_le_trans)
  have "drop_bit 10 (PAGE_TABLE :: 'w word) = 0"
    by (intro bit_word_eqI) (simp add: bit_drop_bit_eq page_bit_iff)
  then have "drop_bit PAGE_PFN_SHIFT (pmd_val (pmd_populate_kernel L pte)) = drop_bit 12 (pa L pte)"
    using shift_bound [OF small] w
    by (simp add: pmd_populate_kernel_def virt_to_pfn_def phys_to_pfn_def PAGE_SHIFT_def
        PAGE_PFN_SHIFT_def drop_bit_or)
  then show ?thesis
    using al by (simp add: pmd_page_vaddr_def pfn_to_virt_def pfn_to_phys_def PAGE_SHIFT_def
        aligned_page va_def) (simp add: pa_def)
qed

lemma pgd_alloc_nth:
  fixes init :: "'w::len word list"
  assumes "pgd_alloc init (Some page) = Some pgd" "length page = PTRS_PER_PAGE TYPE('w)"
    "length init = PTRS_PER_PAGE TYPE('w)" "USER_PTRS_PER_PGD TYPE('w) \<le> PTRS_PER_PAGE TYPE('w)"
  shows "length pgd = PTRS_PER_PAGE TYPE('w)"
    "i < PTRS_PER_PAGE TYPE('w) \<Longrightarrow> pgd ! i = (if i < USER_PTRS_PER_PGD TYPE('w) then 0 else init ! i)"
proof -
  have pgd: "pgd = replicate (USER_PTRS_PER_PGD TYPE('w)) 0 @ drop (USER_PTRS_PER_PGD TYPE('w)) init"
    using assms by (simp add: pgd_alloc_def Let_def)
  then show "length pgd = PTRS_PER_PAGE TYPE('w)" using assms by simp
  show "pgd ! i = (if i < USER_PTRS_PER_PGD TYPE('w) then 0 else init ! i)"
    if "i < PTRS_PER_PAGE TYPE('w)"
    using that assms by (simp add: pgd nth_append)
qed

lemma layout32:
  "PTRS_PER_PAGE TYPE(32) = 1024" "USER_PTRS_PER_PGD TYPE(32) = 736"
  "(TASK_SIZE :: u32) = 0xb8000000"
  by (simp_all add: PTRS_PER_PAGE_def USER_PTRS_PER_PGD_def TASK_SIZE_def VMALLOC_START_def
      PAGE_OFFSET_def PGDIR_SHIFT_def PAGE_SHIFT_def)

lemma layout64:
  "PTRS_PER_PAGE TYPE(64) = 512" "USER_PTRS_PER_PGD TYPE(64) = 256"
  "(TASK_SIZE :: u64) = 0x4000000000"
  by (simp_all add: PTRS_PER_PAGE_def USER_PTRS_PER_PGD_def TASK_SIZE_def
      PAGE_OFFSET_def PGDIR_SHIFT_def PAGE_SHIFT_def)

lemma pgd_index_user32: "unat (pgd_index (addr :: u32)) < 736 \<longleftrightarrow> addr < TASK_SIZE"
proof -
  have "unat (pgd_index addr) = unat addr div 2 ^ 22"
  proof -
    have "(1023 :: u32) = mask 10" by (simp add: mask_eq_exp_minus_1)
    then have "pgd_index addr = drop_bit 22 addr AND mask 10"
      by (simp add: pgd_index_def layout32 PGDIR_SHIFT_def)
    then have "unat (pgd_index addr) = unat addr div 2 ^ 22 mod 2 ^ 10"
      by (simp only: unat_and_mask_word unat_drop_bit_word)
    then show ?thesis using unat_bound [of addr] by simp
  qed
  then show ?thesis by (simp add: layout32 unat_less_word div_less_iff_less_mult)
qed

lemma prot_bits:
  assumes "9 \<le> LENGTH('w)"
  shows "bit (pgprot_val (private_prot x w r :: 'w::len word pgprot_t)) 2 \<longleftrightarrow> False"
    "bit (pgprot_val (private_prot x w r :: 'w word pgprot_t)) 0 \<longleftrightarrow> x \<or> w \<or> r"
    "bit (pgprot_val (private_prot x w r :: 'w word pgprot_t)) 3 \<longleftrightarrow> x"
    "bit (pgprot_val (shared_prot x w r :: 'w word pgprot_t)) 2 \<longleftrightarrow> w"
    "bit (pgprot_val (shared_prot x w r :: 'w word pgprot_t)) 0 \<longleftrightarrow> x \<or> w \<or> r"
    "bit (pgprot_val (shared_prot x w r :: 'w word pgprot_t)) 3 \<longleftrightarrow> x"
  using assms
  by (cases x; cases w; cases r; simp add: page_prots page_bit_iff bit_or_iff)+

section \<open>Properties\<close>

text \<open>
  A page table entry holds its frame number and its protection bits side by side, and
  \<^verbatim>\<open>pte_modify\<close> replaces the permission bits only: the frame number and the accessed,
  dirty and special bits stay.
\<close>

theorem pte_fields:
  fixes pfn :: "'w::len word"
  assumes "32 \<le> LENGTH('w)" and "unat pfn < 2 ^ (LENGTH('w) - 10)"
    and "unat (pgprot_val prot) < 2 ^ 10" and "unat (pgprot_val newprot) < 2 ^ 6"
  shows "pte_pfn (pte_modify (pfn_pte pfn prot) newprot) = pfn
    \<and> pte_dirty (pte_modify (pfn_pte pfn prot) newprot) = bit (pgprot_val prot) 7
    \<and> pte_young (pte_modify (pfn_pte pfn prot) newprot) = bit (pgprot_val prot) 6
    \<and> pte_special (pte_modify (pfn_pte pfn prot) newprot) = bit (pgprot_val prot) 8
    \<and> pte_present (pte_modify (pfn_pte pfn prot) newprot) = bit (pgprot_val newprot) 0
    \<and> pte_write (pte_modify (pfn_pte pfn prot) newprot) = bit (pgprot_val newprot) 2"
proof -
  have np: "\<not> bit (pgprot_val newprot) i" if "6 \<le> i" for i
    using bit_small [OF assms(4) that] .
  have mod: "bit (pte_val (pte_modify p newprot)) i \<longleftrightarrow>
      (6 \<le> i \<and> bit (pte_val p) i) \<or> bit (pgprot_val newprot) i" for p i
    using bit_imp_le_length [of "pte_val p" i] assms(1)
    by (auto simp: pte_modify_def PAGE_CHG_MASK_def bit_or_iff bit_and_iff bit_not_iff page_bit_iff
        not_less less_Suc_eq numeral_eq_Suc Suc_le_eq)
  have "pte_pfn (pte_modify p newprot) = pte_pfn p" for p
    by (intro bit_word_eqI) (simp add: pte_pfn_def bit_drop_bit_eq mod np PAGE_PFN_SHIFT_def)
  then have "pte_pfn (pte_modify (pfn_pte pfn prot) newprot) = pfn"
    using pfn_pte_pfn [of pfn prot] assms by simp
  then show ?thesis by (simp add: pte_tests mod np low_bits_pfn_pte)
qed

theorem pte_fields_witness:
  "pte_pfn (pte_modify (pfn_pte (0x80000 :: u32) PAGE_WRITE) (Pgprot 3)) = 0x80000"
proof -
  have "unat (pgprot_val (PAGE_WRITE :: u32 pgprot_t)) < 2 ^ 10"
    by (simp add: page_prots page_bits)
  then show ?thesis using pte_fields [of "0x80000 :: u32" PAGE_WRITE "Pgprot 3"] by simp
qed

text \<open>
  \<^verbatim>\<open>pte_mkyoung\<close> and \<^verbatim>\<open>pte_mkold\<close> are exchanged: the first always yields an entry
  that is not young, the second always a young one; writing and dirtying behave as named.
\<close>

theorem pte_young_exchanged:
  fixes p :: "u32 pte_t"
  shows "\<not> pte_young (pte_mkyoung p) \<and> pte_young (pte_mkold p)
    \<and> pte_dirty (pte_mkdirty p) \<and> \<not> pte_dirty (pte_mkclean p)
    \<and> pte_write (pte_mkwrite p) \<and> \<not> pte_write (pte_wrprotect p)"
  by (simp add: accessed.test_set accessed.test_clear dirty.test_set dirty.test_clear
      writable.test_set writable.test_clear)

text \<open>
  A swap entry round-trips its type and offset within their fields, and its page table
  entry is never taken for a present page.
\<close>

theorem swap_entry_roundtrip:
  fixes type offset :: "'w::len word"
  assumes "32 \<le> LENGTH('w)" and "unat type < 2 ^ SWP_TYPE_BITS"
    and "unat offset < 2 ^ (LENGTH('w) - SWP_OFFSET_SHIFT)"
  defines "pte \<equiv> swp_entry_to_pte (swp_entry type offset)"
  shows "swp_type (pte_to_swp_entry pte) = type \<and> swp_offset (pte_to_swp_entry pte) = offset
    \<and> \<not> pte_present pte"
  using swp_roundtrip [of type offset] assms
  by (simp add: pte_to_swp_entry_def swp_entry_to_pte_def SWP_TYPE_BITS_def SWP_OFFSET_SHIFT_def
      SWP_TYPE_SHIFT_def)

theorem swap_entry_roundtrip_witness:
  "swp_offset (pte_to_swp_entry (swp_entry_to_pte (swp_entry (3 :: u32) 4096))) = 4096"
  using swap_entry_roundtrip [of "3 :: u32" 4096]
  by (simp add: SWP_TYPE_BITS_def SWP_OFFSET_SHIFT_def SWP_TYPE_SHIFT_def)

text \<open>
  The protection tables never make a private page writable, whatever was requested, while a
  shared page is writable or executable exactly when that was requested; only the request for
  nothing gives an entry that is not present.
\<close>

theorem protection_tables:
  fixes pfn :: "'w::len word"
  assumes "32 \<le> LENGTH('w)"
  shows "\<not> pte_write (pfn_pte pfn (private_prot x w r))
    \<and> (pte_write (pfn_pte pfn (shared_prot x w r)) \<longleftrightarrow> w)
    \<and> (bit (pte_val (pfn_pte pfn (shared_prot x w r))) 3 \<longleftrightarrow> x)
    \<and> (bit (pte_val (pfn_pte pfn (private_prot x w r))) 3 \<longleftrightarrow> x)
    \<and> (pte_present (pfn_pte pfn (shared_prot x w r)) \<longleftrightarrow> x \<or> w \<or> r)
    \<and> (pte_present (pfn_pte pfn (private_prot x w r)) \<longleftrightarrow> x \<or> w \<or> r)"
  using assms by (simp add: pte_tests low_bits_pfn_pte prot_bits)

theorem protection_tables_witness:
  "\<not> pte_write (pfn_pte (0x80000 :: u32) (private_prot True True True))"
  using protection_tables [of "0x80000 :: u32" True True True] by simp

text \<open>
  The table a directory entry was populated with is the table it is read back as: the
  address of an entry computed by \<^verbatim>\<open>pte_offset_kernel\<close> lies in the page given to
  \<^verbatim>\<open>pmd_populate_kernel\<close>, whatever the offset between virtual and physical addresses.
\<close>

theorem pmd_populate_offset:
  fixes L :: "'w::len word mem_layout"
  assumes "32 \<le> LENGTH('w)" and "take_bit PAGE_SHIFT (pa L pte) = 0"
  shows "pte_offset_kernel L (pmd_populate_kernel L pte) addr = pte + of_nat (LENGTH('w) div 8) * pte_index addr
    \<and> pmd_present (pmd_populate_kernel L pte) \<and> \<not> pmd_bad (pmd_populate_kernel L pte)"
  using pmd_populate_vaddr [of L pte] assms
  by (simp add: pte_offset_kernel_def pmd_bad_def pte_tests pmd_populate_kernel_def bit_or_iff page_bit_iff
      Let_def)

theorem pmd_populate_offset_witness:
  "pte_offset_kernel \<lparr>va_pa_offset = 0x40000000, pfn_base = 0x80000, max_mapnr = 0x8000\<rparr>
     (pmd_populate_kernel \<lparr>va_pa_offset = 0x40000000, pfn_base = 0x80000, max_mapnr = 0x8000\<rparr>
        (0xc1000000 :: u32)) 0x3000 = 0xc100000c"
  using pmd_populate_offset [where L = "\<lparr>va_pa_offset = 0x40000000, pfn_base = 0x80000, max_mapnr = 0x8000\<rparr>"
      and pte = "0xc1000000 :: u32" and addr = "0x3000"]
  by (simp add: pa_def PAGE_SHIFT_def pte_index_def layout32 take_bit_eq_mod)

text \<open>
  A new directory of the 32-bit build maps nothing below \<^verbatim>\<open>TASK_SIZE\<close> and every address
  from there on as \<^verbatim>\<open>init_mm\<close> does, whatever the allocated page held before.
\<close>

theorem pgd_alloc_maps_kernel:
  fixes init :: "u32 list" and addr :: u32
  assumes "pgd_alloc init (Some page) = Some pgd" and "length page = 1024" and "length init = 1024"
  shows "length pgd = 1024
    \<and> pgd ! unat (pgd_index addr) = (if addr < TASK_SIZE then 0 else init ! unat (pgd_index addr))"
proof -
  have "unat (pgd_index addr) < 1024"
  proof -
    have "pgd_index addr = drop_bit 22 addr AND mask 10"
      by (simp add: pgd_index_def layout32 PGDIR_SHIFT_def mask_eq_exp_minus_1)
    then show ?thesis by (simp only: unat_and_mask_word) simp
  qed
  then show ?thesis
    using pgd_alloc_nth [of init page pgd] assms by (simp add: layout32(1,2) pgd_index_user32)
qed

theorem pgd_alloc_maps_kernel_witness:
  "\<exists>pgd. pgd_alloc (replicate 1024 (7 :: u32)) (Some (replicate 1024 1)) = Some pgd
    \<and> pgd ! unat (pgd_index (0x10000 :: u32)) = 0"
proof -
  obtain pgd where p: "pgd_alloc (replicate 1024 (7 :: u32)) (Some (replicate 1024 1)) = Some pgd"
    by (simp add: pgd_alloc_def Let_def)
  then show ?thesis
    using pgd_alloc_maps_kernel [OF p, where addr = "0x10000"] by (simp add: layout32)
qed

end
