(* ===== verification/Regs.thy ===== *)
theory Regs
  imports Prelude
begin

text \<open>
  The supervisor status register and the saved registers of a task: \<^verbatim>\<open>asm/csr.h\<close>,
  \<^verbatim>\<open>asm/irqflags.h\<close>, \<^verbatim>\<open>asm/ptrace.h\<close>, \<^verbatim>\<open>asm/syscall.h\<close>,
  \<^verbatim>\<open>asm/switch_to.h\<close>, \<^verbatim>\<open>kernel/process.c\<close>, \<^verbatim>\<open>kernel/ptrace.c\<close> and the parts of
  \<^verbatim>\<open>asm/processor.h\<close> they use. A CSR macro is the pair of the value it returns and the new
  value of the register.
\<close>

section \<open>Control and status registers\<close>

definition SR_IE :: "'w::len word" where "SR_IE = 0x2"
definition SR_PIE :: "'w::len word" where "SR_PIE = 0x20"
definition SR_PS :: "'w::len word" where "SR_PS = 0x100"
definition SR_FS :: "'w::len word" where "SR_FS = 0x6000"
definition SR_FS_OFF :: "'w::len word" where "SR_FS_OFF = 0"
definition SR_FS_INITIAL :: "'w::len word" where "SR_FS_INITIAL = 0x2000"
definition SR_FS_CLEAN :: "'w::len word" where "SR_FS_CLEAN = 0x4000"
definition SR_FS_DIRTY :: "'w::len word" where "SR_FS_DIRTY = 0x6000"
definition SR_SD :: "'w::len word" where "SR_SD = push_bit (LENGTH('w) - 1) 1"
definition EXC_SYSCALL :: "'w::len word" where "EXC_SYSCALL = 8"

definition csr_swap :: "'w::len word \<Rightarrow> 'w word \<Rightarrow> 'w word \<times> 'w word" where
  "csr_swap val csr = (csr, val)"

definition csr_read :: "'w::len word \<Rightarrow> 'w word" where
  "csr_read csr = csr"

definition csr_write :: "'w::len word \<Rightarrow> 'w word \<Rightarrow> 'w word" where
  "csr_write val csr = val"

definition csr_read_set :: "'w::len word \<Rightarrow> 'w word \<Rightarrow> 'w word \<times> 'w word" where
  "csr_read_set val csr = (csr, csr OR val)"

definition csr_set :: "'w::len word \<Rightarrow> 'w word \<Rightarrow> 'w word" where
  "csr_set val csr = csr OR val"

definition csr_read_clear :: "'w::len word \<Rightarrow> 'w word \<Rightarrow> 'w word \<times> 'w word" where
  "csr_read_clear val csr = (csr, csr AND NOT val)"

definition csr_clear :: "'w::len word \<Rightarrow> 'w word \<Rightarrow> 'w word" where
  "csr_clear val csr = csr AND NOT val"

section \<open>Interrupt flags\<close>

definition arch_local_save_flags :: "'w::len word \<Rightarrow> 'w word" where
  "arch_local_save_flags sst = csr_read sst"

definition arch_local_irq_enable :: "'w::len word \<Rightarrow> 'w word" where
  "arch_local_irq_enable sst = csr_set SR_IE sst"

definition arch_local_irq_disable :: "'w::len word \<Rightarrow> 'w word" where
  "arch_local_irq_disable sst = csr_clear SR_IE sst"

definition arch_local_irq_save :: "'w::len word \<Rightarrow> 'w word \<times> 'w word" where
  "arch_local_irq_save sst = csr_read_clear SR_IE sst"

definition arch_irqs_disabled_flags :: "'w::len word \<Rightarrow> bool" where
  "arch_irqs_disabled_flags flags \<longleftrightarrow> flags AND SR_IE = 0"

definition arch_irqs_disabled :: "'w::len word \<Rightarrow> bool" where
  "arch_irqs_disabled sst = arch_irqs_disabled_flags (arch_local_save_flags sst)"

definition arch_local_irq_restore :: "'w::len word \<Rightarrow> 'w word \<Rightarrow> 'w word" where
  "arch_local_irq_restore flags sst = csr_set (flags AND SR_IE) sst"

section \<open>Saved registers\<close>

record 'a pt_regs =
  sepc :: 'a ra :: 'a sp :: 'a gp :: 'a tp :: 'a t0 :: 'a t1 :: 'a t2 :: 'a
  s0 :: 'a s1 :: 'a a0 :: 'a a1 :: 'a a2 :: 'a a3 :: 'a a4 :: 'a a5 :: 'a a6 :: 'a a7 :: 'a
  s2 :: 'a s3 :: 'a s4 :: 'a s5 :: 'a s6 :: 'a s7 :: 'a s8 :: 'a s9 :: 'a s10 :: 'a s11 :: 'a
  t3 :: 'a t4 :: 'a t5 :: 'a t6 :: 'a
  sstatus :: 'a sbadaddr :: 'a scause :: 'a

text \<open>The structure in memory: its words in the order of its members.\<close>

definition regs_words :: "'a pt_regs \<Rightarrow> 'a list" where
  "regs_words r =
    [sepc r, ra r, sp r, gp r, tp r, t0 r, t1 r, t2 r, s0 r, s1 r,
     a0 r, a1 r, a2 r, a3 r, a4 r, a5 r, a6 r, a7 r,
     s2 r, s3 r, s4 r, s5 r, s6 r, s7 r, s8 r, s9 r, s10 r, s11 r,
     t3 r, t4 r, t5 r, t6 r, sstatus r, sbadaddr r, scause r]"

definition words_regs :: "'a list \<Rightarrow> 'a pt_regs" where
  "words_regs w =
    \<lparr>sepc = w ! 0, ra = w ! 1, sp = w ! 2, gp = w ! 3, tp = w ! 4, t0 = w ! 5, t1 = w ! 6, t2 = w ! 7,
     s0 = w ! 8, s1 = w ! 9, a0 = w ! 10, a1 = w ! 11, a2 = w ! 12, a3 = w ! 13, a4 = w ! 14,
     a5 = w ! 15, a6 = w ! 16, a7 = w ! 17, s2 = w ! 18, s3 = w ! 19, s4 = w ! 20, s5 = w ! 21,
     s6 = w ! 22, s7 = w ! 23, s8 = w ! 24, s9 = w ! 25, s10 = w ! 26, s11 = w ! 27, t3 = w ! 28,
     t4 = w ! 29, t5 = w ! 30, t6 = w ! 31, sstatus = w ! 32, sbadaddr = w ! 33, scause = w ! 34\<rparr>"

definition user_mode :: "'w::len word pt_regs \<Rightarrow> bool" where
  "user_mode regs \<longleftrightarrow> sstatus regs AND SR_PS = 0"

definition instruction_pointer :: "'a pt_regs \<Rightarrow> 'a" where
  "instruction_pointer regs = sepc regs"

definition instruction_pointer_set :: "'a pt_regs \<Rightarrow> 'a \<Rightarrow> 'a pt_regs" where
  "instruction_pointer_set regs val = regs\<lparr>sepc := val\<rparr>"

definition user_stack_pointer :: "'a pt_regs \<Rightarrow> 'a" where
  "user_stack_pointer regs = sp regs"

definition user_stack_pointer_set :: "'a pt_regs \<Rightarrow> 'a \<Rightarrow> 'a pt_regs" where
  "user_stack_pointer_set regs val = regs\<lparr>sp := val\<rparr>"

definition frame_pointer :: "'a pt_regs \<Rightarrow> 'a" where
  "frame_pointer regs = s0 regs"

definition frame_pointer_set :: "'a pt_regs \<Rightarrow> 'a \<Rightarrow> 'a pt_regs" where
  "frame_pointer_set regs val = regs\<lparr>s0 := val\<rparr>"

section \<open>System call registers\<close>

definition syscall_get_nr :: "'w::len word pt_regs \<Rightarrow> 32 word" where
  "syscall_get_nr regs = ucast (a7 regs)"

definition syscall_set_nr :: "'w::len word pt_regs \<Rightarrow> 32 word \<Rightarrow> 'w word pt_regs" where
  "syscall_set_nr regs sysno = regs\<lparr>a7 := scast sysno\<rparr>"

text \<open>\<open>is_err\<close> is \<^verbatim>\<open>IS_ERR_VALUE\<close> of \<^verbatim>\<open>linux/err.h\<close>.\<close>

definition syscall_get_error :: "('w::len word \<Rightarrow> bool) \<Rightarrow> 'w word pt_regs \<Rightarrow> 'w word" where
  "syscall_get_error is_err regs = (let error = a0 regs in if is_err error then error else 0)"

definition syscall_get_return_value :: "'w::len word pt_regs \<Rightarrow> 'w word" where
  "syscall_get_return_value regs = a0 regs"

definition syscall_set_return_value ::
    "'w::len word pt_regs \<Rightarrow> 32 word \<Rightarrow> 'w word \<Rightarrow> 'w word pt_regs" where
  "syscall_set_return_value regs error val =
    regs\<lparr>a0 := (if (scast error :: 'w word) \<noteq> 0 then scast error else val)\<rparr>"

text \<open>
  The argument copies: \<open>&regs->a0 + i * sizeof(regs->a0)\<close> is pointer arithmetic on words, so
  the offset in words is \<open>i\<close> times the size of a word in bytes. The outcome \<open>Inl\<close> is the
  \<^verbatim>\<open>BUG_ON\<close>, or an access outside the structure.
\<close>

datatype arg_error = Arg_bug | Arg_outside

definition a0_index :: nat where "a0_index = 10"

definition syscall_get_arguments ::
    "'w::len word pt_regs \<Rightarrow> nat \<Rightarrow> nat \<Rightarrow> arg_error + 'w word list" where
  "syscall_get_arguments regs i n =
    (if i + n > 6 then Inl Arg_bug
     else (let from = a0_index + i * (LENGTH('w) div 8)
           in if from + n > length (regs_words regs) then Inl Arg_outside
              else Inr (take n (drop from (regs_words regs)))))"

definition syscall_set_arguments ::
    "'w::len word pt_regs \<Rightarrow> nat \<Rightarrow> nat \<Rightarrow> 'w word list \<Rightarrow> arg_error + 'w word pt_regs" where
  "syscall_set_arguments regs i n args =
    (if i + n > 6 then Inl Arg_bug
     else (let from = a0_index + i * (LENGTH('w) div 8); w = regs_words regs
           in if from + n > length w then Inl Arg_outside
              else Inr (words_regs (take from w @ take n args @ drop (from + n) w))))"

section \<open>Tasks\<close>

text \<open>
  The parts of \<^verbatim>\<open>task_struct\<close> the port reads and writes: \<^verbatim>\<open>thread_struct\<close> (with the
  floating-point state of type \<open>'f\<close>), the saved registers at the top of the kernel stack, their
  address and the flag \<^verbatim>\<open>PF_KTHREAD\<close>.
\<close>

record ('a, 'f) task =
  thread_ra :: 'a
  thread_sp :: 'a
  thread_s :: "'a list"
  fstate :: 'f
  pt_regs_of :: "'a pt_regs"
  pt_regs_addr :: 'a
  kthread :: bool

definition fstate_clean :: "'w::len word pt_regs \<Rightarrow> 'w word pt_regs" where
  "fstate_clean regs =
    regs\<lparr>sstatus := sstatus regs OR ((sstatus regs AND NOT SR_FS) OR SR_FS_CLEAN)\<rparr>"

text \<open>
  The two assembly routines of \<^verbatim>\<open>entry.S\<close> that should move the registers \<open>fpu\<close> of the unit to the
  task and back. Their bodies are commented out; what is left of each is a \<^verbatim>\<open>ret\<close>.
\<close>

definition asm_fstate_save :: "'f \<Rightarrow> ('a, 'f) task \<Rightarrow> ('a, 'f) task" where
  "asm_fstate_save fpu task = task"

definition asm_fstate_restore :: "('a, 'f) task \<Rightarrow> 'f \<Rightarrow> 'f" where
  "asm_fstate_restore task fpu = fpu"

definition fstate_save :: "'f \<Rightarrow> ('w::len word, 'f) task \<Rightarrow> ('w word, 'f) task" where
  "fstate_save fpu task =
    (if sstatus (pt_regs_of task) AND SR_FS = SR_FS_DIRTY
     then (let task = asm_fstate_save fpu task in task\<lparr>pt_regs_of := fstate_clean (pt_regs_of task)\<rparr>)
     else task)"

definition fstate_restore :: "'f \<Rightarrow> ('w::len word, 'f) task \<Rightarrow> 'f \<times> ('w word, 'f) task" where
  "fstate_restore fpu task =
    (if sstatus (pt_regs_of task) AND SR_FS \<noteq> SR_FS_OFF
     then (asm_fstate_restore task fpu, task\<lparr>pt_regs_of := fstate_clean (pt_regs_of task)\<rparr>)
     else (fpu, task))"

definition switch_to_aux ::
    "'f \<Rightarrow> ('w::len word, 'f) task \<Rightarrow> ('w word, 'f) task
      \<Rightarrow> 'f \<times> ('w word, 'f) task \<times> ('w word, 'f) task" where
  "switch_to_aux fpu prev nxt =
    (let prev = (if sstatus (pt_regs_of prev) AND SR_SD \<noteq> 0 then fstate_save fpu prev else prev);
         (fpu, nxt) = fstate_restore fpu nxt
     in (fpu, prev, nxt))"

text \<open>
  So no state of the unit is ever kept: whatever the tasks are, a switch leaves the unit's registers
  with the next task and the stored state of both as it was.
\<close>

lemma fstate_kept [simp]:
  "fstate (fstate_save fpu task) = fstate task" "fst (fstate_restore fpu task) = fpu"
  "fstate (snd (fstate_restore fpu task)) = fstate task"
  by (simp_all add: fstate_save_def asm_fstate_save_def fstate_restore_def asm_fstate_restore_def)

lemma switch_leaks_fpu:
  "fst (switch_to_aux fpu prev nxt) = fpu" "fstate (fst (snd (switch_to_aux fpu prev nxt))) = fstate prev"
  "fstate (snd (snd (switch_to_aux fpu prev nxt))) = fstate nxt"
  by (simp_all add: switch_to_aux_def Let_def case_prod_beta)

definition start_thread :: "'w::len word pt_regs \<Rightarrow> 'w word \<Rightarrow> 'w word \<Rightarrow> 'w word pt_regs" where
  "start_thread regs pc stack =
    regs\<lparr>sstatus := SR_PIE OR SR_FS_INITIAL, sepc := pc, sp := stack\<rparr>"

definition flush_thread :: "'f \<Rightarrow> ('w::len word, 'f) task \<Rightarrow> ('w word, 'f) task" where
  "flush_thread zero task = task\<lparr>fstate := zero\<rparr>"

definition arch_dup_task_struct ::
    "'f \<Rightarrow> ('w::len word, 'f) task \<Rightarrow> ('w word, 'f) task \<times> ('w word, 'f) task" where
  "arch_dup_task_struct fpu src = (let src = fstate_save fpu src in (src, src))"

text \<open>
  \<^verbatim>\<open>copy_thread\<close>: \<open>settls\<close> is the bit \<^verbatim>\<open>CLONE_SETTLS\<close> of the flags; the addresses of
  the two assembler entry points and the kernel's \<^verbatim>\<open>gp\<close> are parameters.
\<close>

record 'a entry_points =
  ret_from_fork :: 'a
  ret_from_kernel_thread :: 'a
  kernel_gp :: 'a

definition zero_regs :: "'w::len word pt_regs" where
  "zero_regs = words_regs (replicate 35 0)"

definition copy_thread ::
    "'w::len word entry_points \<Rightarrow> 'w word pt_regs \<Rightarrow> bool \<Rightarrow> 'w word \<Rightarrow> 'w word
      \<Rightarrow> ('w word, 'f) task \<Rightarrow> ('w word, 'f) task" where
  "copy_thread ep current_regs settls usp arg p =
    (let p =
      (if kthread p then
         p\<lparr>pt_regs_of := zero_regs\<lparr>gp := kernel_gp ep, sstatus := SR_PS OR SR_PIE\<rparr>,
           thread_ra := ret_from_kernel_thread ep,
           thread_s := (thread_s p)[0 := usp, 1 := arg]\<rparr>
       else
         (let childregs = current_regs;
              childregs = (if usp \<noteq> 0 then childregs\<lparr>sp := usp\<rparr> else childregs);
              childregs = (if settls then childregs\<lparr>tp := a5 childregs\<rparr> else childregs);
              childregs = childregs\<lparr>a0 := 0\<rparr>
          in p\<lparr>pt_regs_of := childregs, thread_ra := ret_from_fork ep\<rparr>))
     in p\<lparr>thread_sp := pt_regs_addr p\<rparr>)"

text \<open>The register set of \<^verbatim>\<open>kernel/ptrace.c\<close>.\<close>

definition getregs :: "('w::len word, 'f) task \<Rightarrow> 'w word pt_regs" where
  "getregs child = pt_regs_of child"

definition putregs :: "('w::len word, 'f) task \<Rightarrow> 'w word pt_regs \<Rightarrow> ('w word, 'f) task" where
  "putregs child uregs = child\<lparr>pt_regs_of := uregs\<rparr>"

text \<open>
  \<open>copyout\<close> and \<open>copyin\<close> are \<^verbatim>\<open>user_regset_copyout\<close> and
  \<^verbatim>\<open>user_regset_copyin\<close>: the latter updates the words of a buffer and returns an error
  number or 0. The buffer of \<^verbatim>\<open>riscv_gpr_set\<close> is a local variable, whose words before the
  copy are \<open>stack\<close>.
\<close>

definition riscv_gpr_get ::
    "('w::len word list \<Rightarrow> 'r) \<Rightarrow> ('w word, 'f) task \<Rightarrow> 'r" where
  "riscv_gpr_get copyout target = copyout (regs_words (getregs target))"

definition riscv_gpr_set ::
    "('w::len word list \<Rightarrow> int \<times> 'w word list) \<Rightarrow> 'w word list \<Rightarrow> ('w word, 'f) task
      \<Rightarrow> int \<times> ('w word, 'f) task" where
  "riscv_gpr_set copyin stack target =
    (let (ret, regs) = copyin stack
     in if ret \<noteq> 0 then (ret, target) else (0, putregs target (words_regs regs)))"

text \<open>A critical section and the sections nested in it, run as the code brackets them.\<close>

datatype irq_section = Section "irq_section list"

fun run_section :: "irq_section \<Rightarrow> 'w::len word \<Rightarrow> 'w word"
  and run_sections :: "irq_section list \<Rightarrow> 'w word \<Rightarrow> 'w word" where
  "run_section (Section body) sst =
    (let (flags, sst) = arch_local_irq_save sst; sst = run_sections body sst
     in arch_local_irq_restore flags sst)"
| "run_sections [] sst = sst"
| "run_sections (c # cs) sst = run_sections cs (run_section c sst)"

section \<open>Lemmas\<close>

lemmas sr_bits = SR_IE_def SR_PIE_def SR_PS_def SR_FS_def SR_FS_OFF_def SR_FS_INITIAL_def
  SR_FS_CLEAN_def SR_FS_DIRTY_def

lemma regs_words_length [simp]: "length (regs_words r) = 35"
  by (simp add: regs_words_def)

lemma words_regs_words [simp]: "words_regs (regs_words r) = r"
  by (simp add: words_regs_def regs_words_def)

lemma regs_words_regs [simp]:
  assumes "length w = 35"
  shows "regs_words (words_regs w) = w"
proof -
  have "w = map (nth w) [0..<35]" using assms by (metis map_nth)
  also have "\<dots> = regs_words (words_regs w)"
    by (simp add: regs_words_def words_regs_def upt_rec eval_nat_numeral)
  finally show ?thesis by simp
qed

lemma irq_restore_save:
  "arch_local_irq_restore (fst (arch_local_irq_save s)) (snd (arch_local_irq_save s)) = s"
  unfolding arch_local_irq_restore_def arch_local_irq_save_def csr_set_def csr_read_clear_def
  by (rule bit_word_eqI) (auto simp: bit_simps)

lemma run_sections_id: "run_section c s = s" "run_sections cs s = s"
proof (induction c s and cs s rule: run_section_run_sections.induct)
  case (1 body s)
  obtain flags s' where save: "arch_local_irq_save s = (flags, s')" by fastforce
  then have "run_sections body s' = s'" using 1 by simp
  then show ?case using irq_restore_save [of s] by (simp add: save)
qed simp_all

lemma sstatus_clean: "sstatus (fstate_clean r) = sstatus r OR SR_FS_CLEAN"
  unfolding fstate_clean_def by (simp, rule bit_word_eqI) (auto simp: bit_simps)

section \<open>Properties\<close>

text \<open>
  Critical sections nest: whatever sections run inside, a section that
  \<^verbatim>\<open>arch_local_irq_save\<close> opens runs with interrupts disabled, and
  \<^verbatim>\<open>arch_local_irq_restore\<close> leaves the status register as the section found it.
\<close>

theorem irq_sections_nest:
  "run_section c s = s \<and> arch_irqs_disabled (snd (arch_local_irq_save s))"
proof -
  have "(s AND NOT SR_IE) AND SR_IE = 0" by (rule bit_word_eqI) (auto simp: bit_simps)
  then show ?thesis
    by (simp add: run_sections_id arch_irqs_disabled_def arch_irqs_disabled_flags_def
        arch_local_save_flags_def csr_read_def arch_local_irq_save_def csr_read_clear_def)
qed

text \<open>
  \<^verbatim>\<open>syscall_get_arguments\<close> scales its offset twice: on the 32-bit build it copies the
  arguments from the first one on correctly, but the request for the second argument alone yields
  \<^verbatim>\<open>a4\<close> in place of \<^verbatim>\<open>a1\<close>, and the request for the last one \<^verbatim>\<open>t5\<close>.
\<close>

theorem syscall_arguments_offset:
  fixes regs :: "u32 pt_regs"
  shows "syscall_get_arguments regs 0 6 = Inr [a0 regs, a1 regs, a2 regs, a3 regs, a4 regs, a5 regs]
    \<and> syscall_get_arguments regs 1 1 = Inr [a4 regs]
    \<and> syscall_get_arguments regs 5 1 = Inr [t5 regs]"
  by (simp add: syscall_get_arguments_def a0_index_def) (simp add: regs_words_def)

text \<open>
  The state \<open>clean\<close> is unreachable: \<^verbatim>\<open>__fstate_clean\<close> only adds bits, so a
  dirty floating-point state that was just saved is still marked dirty, and a restored initial
  state becomes dirty.
\<close>

theorem fstate_never_clean:
  fixes t :: "(u32, 'f) task"
  assumes "sstatus (pt_regs_of t) AND SR_FS = SR_FS_DIRTY \<or> sstatus (pt_regs_of t) AND SR_FS = SR_FS_INITIAL"
  shows "sstatus (pt_regs_of (snd (fstate_restore fpu (fstate_save fpu t)))) AND SR_FS = SR_FS_DIRTY"
proof -
  have or_fs: "(x OR SR_FS_CLEAN) AND SR_FS = (x AND SR_FS) OR (SR_FS_CLEAN :: u32)" for x
    unfolding bit.conj_disj_distrib2 by (simp add: sr_bits)
  show ?thesis
    using assms
    by (auto simp: fstate_save_def asm_fstate_save_def fstate_restore_def sstatus_clean or_fs) (simp_all add: sr_bits)
qed

theorem fstate_never_clean_witness:
  "sstatus (pt_regs_of (snd (fstate_restore () (fstate_save ()
     \<lparr>thread_ra = 0, thread_sp = 0, thread_s = [], fstate = (),
       pt_regs_of = zero_regs\<lparr>sstatus := 0x6000\<rparr>, pt_regs_addr = 0, kthread = False\<rparr>)))) AND SR_FS
   = (SR_FS_DIRTY :: u32)"
  by (rule fstate_never_clean) (simp add: sr_bits)

text \<open>
  \<^verbatim>\<open>copy_thread\<close> gives a forked child the registers of its parent with the return
  value 0, the stack it asked for and, with \<^verbatim>\<open>CLONE_SETTLS\<close>, the thread pointer from
  \<^verbatim>\<open>a5\<close>, in the parent's mode; a kernel thread starts in supervisor mode, and
  \<^verbatim>\<open>start_thread\<close> in user mode with interrupts enabled on return.
\<close>

theorem copy_thread_child:
  fixes cur :: "u32 pt_regs" and p :: "(u32, 'f) task" and usp arg :: u32
    and ep :: "u32 entry_points" and settls :: bool
  defines "child \<equiv> copy_thread ep cur settls usp arg p"
  shows "(kthread p \<longrightarrow> \<not> user_mode (pt_regs_of child) \<and> thread_ra child = ret_from_kernel_thread ep
        \<and> thread_s child = (thread_s p)[0 := usp, 1 := arg])
    \<and> (\<not> kthread p \<longrightarrow> pt_regs_of child =
          cur\<lparr>a0 := 0, sp := (if usp = 0 then sp cur else usp), tp := (if settls then a5 cur else tp cur)\<rparr>
        \<and> user_mode (pt_regs_of child) = user_mode cur \<and> thread_ra child = ret_from_fork ep)
    \<and> thread_sp child = pt_regs_addr p
    \<and> user_mode (start_thread cur pc stk) \<and> sstatus (start_thread cur pc stk) AND SR_PIE = SR_PIE"
  by (auto simp: child_def copy_thread_def user_mode_def start_thread_def sr_bits Let_def)

theorem copy_thread_child_witness:
  "pt_regs_of (copy_thread \<lparr>ret_from_fork = 0xc0000100, ret_from_kernel_thread = 0xc0000200, kernel_gp = 0\<rparr>
      (zero_regs\<lparr>a0 := 120, a5 := 7, sp := 0x9000\<rparr>) True 0 0
      \<lparr>thread_ra = 0, thread_sp = 0, thread_s = [], fstate = (), pt_regs_of = zero_regs,
        pt_regs_addr = 0xc0001000, kthread = False\<rparr>)
   = zero_regs\<lparr>a5 := 7 :: u32, sp := 0x9000, tp := 7\<rparr>"
  using copy_thread_child [of "\<lparr>thread_ra = 0, thread_sp = 0, thread_s = [], fstate = (), pt_regs_of = zero_regs,
        pt_regs_addr = 0xc0001000, kthread = False\<rparr>"
      "\<lparr>ret_from_fork = 0xc0000100, ret_from_kernel_thread = 0xc0000200, kernel_gp = 0\<rparr>"
      "zero_regs\<lparr>a0 := 120, a5 := 7, sp := 0x9000\<rparr>" True 0 0]
  by (simp add: zero_regs_def words_regs_def)

text \<open>
  The register set of \<^verbatim>\<open>ptrace\<close> has the 32 words of \<^verbatim>\<open>user_regs_struct\<close>, a
  prefix of \<^verbatim>\<open>pt_regs\<close>: setting it takes the task's status register, fault address and cause
  from the uninitialised tail of a local variable, so the old values are lost.
\<close>

theorem gpr_set_clobbers_status:
  fixes target :: "(u32, 'f) task" and stack user :: "u32 list"
    and copyin :: "u32 list \<Rightarrow> int \<times> u32 list"
  assumes "length stack = 35" and "copyin stack = (0, user @ drop 32 stack)" and "length user = 32"
  defines "child \<equiv> snd (riscv_gpr_set copyin stack target)"
  shows "take 32 (regs_words (pt_regs_of child)) = user
    \<and> sstatus (pt_regs_of child) = stack ! 32 \<and> sbadaddr (pt_regs_of child) = stack ! 33
    \<and> scause (pt_regs_of child) = stack ! 34"
proof -
  have "pt_regs_of child = words_regs (user @ drop 32 stack)"
    using assms by (simp add: riscv_gpr_set_def putregs_def)
  then show ?thesis
    using assms by (simp add: nth_append) (simp add: words_regs_def nth_append)
qed

theorem gpr_set_clobbers_status_witness:
  "sstatus (pt_regs_of (snd (riscv_gpr_set (\<lambda>b. (0, replicate 32 1 @ drop 32 b)) (replicate 35 (0xdead :: u32))
     \<lparr>thread_ra = 0, thread_sp = 0, thread_s = [], fstate = (), pt_regs_of = zero_regs\<lparr>sstatus := 0x20\<rparr>,
       pt_regs_addr = 0, kthread = False\<rparr>))) = 0xdead"
  using gpr_set_clobbers_status [of "replicate 35 0xdead" "\<lambda>b. (0, replicate 32 1 @ drop 32 b)" "replicate 32 1"
    "\<lparr>thread_ra = 0, thread_sp = 0, thread_s = [], fstate = (), pt_regs_of = zero_regs\<lparr>sstatus := 0x20\<rparr>,
       pt_regs_addr = 0, kthread = False\<rparr>"]
  by simp

end
