(* ===== verification/Traps.thy ===== *)
theory Traps
  imports Regs
begin

text \<open>
  Exceptions: the dispatch of \<^verbatim>\<open>kernel/entry.S\<close>, the handlers of \<^verbatim>\<open>kernel/traps.c\<close> and
  the fixup of \<^verbatim>\<open>mm/extable.c\<close>. A handler returns the registers it leaves in the frame, what
  it did (the signals it sent and what it logged, in order), the new value of the static
  \<^verbatim>\<open>die_counter\<close>, and how it ended: it returned, exited the task or panicked.
\<close>

section \<open>The environment and the outcome\<close>

datatype signo = SIGILL | SIGTRAP | SIGBUS | SIGSEGV | SIGKILL

datatype sicode = ILL_ILLTRP | ILL_ILLOPC | BUS_ADRALN | BUS_ADRERR | TRAP_BRKPT
  | SEGV_MAPERR | SEGV_ACCERR

datatype bug_trap_type = BUG_TRAP_TYPE_NONE | BUG_TRAP_TYPE_WARN | BUG_TRAP_TYPE_BUG

text \<open>
  The environment: \<^verbatim>\<open>search_exception_tables\<close> (the fixup address of a program counter),
  \<^verbatim>\<open>report_bug\<close>, whether an unhandled signal is printed, whether \<^verbatim>\<open>notify_die\<close> said
  \<^verbatim>\<open>NOTIFY_STOP\<close>, and the states \<^verbatim>\<open>die\<close> asks for.
\<close>

record 'a trap_env =
  search_exception_tables :: "'a \<Rightarrow> 'a option"
  report_bug :: "'a \<Rightarrow> bug_trap_type"
  print_unhandled :: bool
  notify_stop :: bool
  in_interrupt :: bool
  panic_on_oops :: bool

datatype 'a event =
  Log_unhandled signo sicode 'a
| Force_sig signo sicode 'a
| Die_lock
| Emerg string nat
| Show_regs
| Notify_die
| Die_unlock

text \<open>
  How a handler ends. \<open>Bug_again\<close> is a trap at a \<^verbatim>\<open>BUG()\<close> whose handler came back: to the same
  instruction, which traps again, or to a fixup; what the compiler puts behind a \<^verbatim>\<open>BUG()\<close> is not
  code of the source.
\<close>

datatype ending = Returned | Exited signo | Panicked | Bug_again

record 'a trap_result =
  res_regs :: "'a pt_regs"
  res_events :: "'a event list"
  res_counter :: nat
  res_ending :: ending

section \<open>The handlers\<close>

definition fixup_exception :: "'a trap_env \<Rightarrow> 'a pt_regs \<Rightarrow> 'a pt_regs option" where
  "fixup_exception env regs =
    (case search_exception_tables env (sepc regs) of
       Some fixup \<Rightarrow> Some (regs\<lparr>sepc := fixup\<rparr>)
     | None \<Rightarrow> None)"

definition die :: "'a trap_env \<Rightarrow> nat \<Rightarrow> string \<Rightarrow> 'a event list \<times> nat \<times> ending" where
  "die env counter str =
    ([Die_lock, Emerg str (counter + 1), Show_regs, Notify_die, Die_unlock], counter + 1,
     if in_interrupt env then Panicked
     else if panic_on_oops env then Panicked
     else if \<not> notify_stop env then Exited SIGSEGV
     else Returned)"

definition do_trap_siginfo :: "signo \<Rightarrow> sicode \<Rightarrow> 'a \<Rightarrow> 'a event list" where
  "do_trap_siginfo signo code addr = [Force_sig signo code addr]"

definition do_trap :: "'a trap_env \<Rightarrow> signo \<Rightarrow> sicode \<Rightarrow> 'a \<Rightarrow> 'a event list" where
  "do_trap env signo code addr =
    (if print_unhandled env then [Log_unhandled signo code addr, Show_regs] else [])
    @ do_trap_siginfo signo code addr"

definition do_trap_error ::
    "'w::len word trap_env \<Rightarrow> 'w word pt_regs \<Rightarrow> nat \<Rightarrow> signo \<Rightarrow> sicode \<Rightarrow> 'w word \<Rightarrow> string
      \<Rightarrow> 'w word trap_result" where
  "do_trap_error env regs counter signo code addr str =
    (if user_mode regs then
       \<lparr>res_regs = regs, res_events = do_trap env signo code addr, res_counter = counter,
        res_ending = Returned\<rparr>
     else
       (case fixup_exception env regs of
          Some regs \<Rightarrow>
            \<lparr>res_regs = regs, res_events = [], res_counter = counter, res_ending = Returned\<rparr>
        | None \<Rightarrow>
            (let (events, counter, ending) = die env counter str
             in \<lparr>res_regs = regs, res_events = events, res_counter = counter, res_ending = ending\<rparr>)))"

definition do_trap_unknown :: "'w::len word trap_env \<Rightarrow> nat \<Rightarrow> 'w word pt_regs \<Rightarrow> 'w word trap_result" where
  "do_trap_unknown env counter regs =
    do_trap_error env regs counter SIGILL ILL_ILLTRP (sepc regs) ''Oops - unknown exception''"

definition do_trap_amo_misaligned ::
    "'w::len word trap_env \<Rightarrow> nat \<Rightarrow> 'w word pt_regs \<Rightarrow> 'w word trap_result" where
  "do_trap_amo_misaligned env counter regs =
    do_trap_error env regs counter SIGBUS BUS_ADRALN (sepc regs) ''Oops - AMO address misaligned''"

definition do_trap_insn_misaligned ::
    "'w::len word trap_env \<Rightarrow> nat \<Rightarrow> 'w word pt_regs \<Rightarrow> 'w word trap_result" where
  "do_trap_insn_misaligned env counter regs =
    do_trap_error env regs counter SIGBUS BUS_ADRALN (sepc regs)
      ''Oops - instruction address misaligned''"

definition do_trap_insn_illegal ::
    "'w::len word trap_env \<Rightarrow> nat \<Rightarrow> 'w word pt_regs \<Rightarrow> 'w word trap_result" where
  "do_trap_insn_illegal env counter regs =
    do_trap_error env regs counter SIGILL ILL_ILLOPC (sepc regs) ''Oops - illegal instruction''"

text \<open>
  \<^verbatim>\<open>do_trap_break\<close>, with \<^verbatim>\<open>CONFIG_GENERIC_BUG\<close> as a flag. A \<^verbatim>\<open>die\<close> that
  returns falls out of the \<^verbatim>\<open>switch\<close> to the signal.
\<close>

definition break_signal ::
    "'w::len word pt_regs \<Rightarrow> 'w word event list \<Rightarrow> nat \<Rightarrow> 'w word trap_result" where
  "break_signal regs events counter =
    \<lparr>res_regs = regs\<lparr>sepc := sepc regs + 4\<rparr>,
     res_events = events @ do_trap_siginfo SIGTRAP TRAP_BRKPT (sepc regs),
     res_counter = counter, res_ending = Returned\<rparr>"

definition do_trap_break ::
    "bool \<Rightarrow> 'w::len word trap_env \<Rightarrow> nat \<Rightarrow> 'w word pt_regs \<Rightarrow> 'w word trap_result" where
  "do_trap_break generic_bug env counter regs =
    (if generic_bug \<and> \<not> user_mode regs then
       (case report_bug env (sepc regs) of
          BUG_TRAP_TYPE_NONE \<Rightarrow> break_signal regs [] counter
        | BUG_TRAP_TYPE_WARN \<Rightarrow>
            \<lparr>res_regs = regs\<lparr>sepc := sepc regs + 4\<rparr>, res_events = [], res_counter = counter,
             res_ending = Returned\<rparr>
        | BUG_TRAP_TYPE_BUG \<Rightarrow>
            (let (events, counter, ending) = die env counter ''Kernel BUG''
             in if ending = Returned then break_signal regs events counter
                else \<lparr>res_regs = regs, res_events = events, res_counter = counter, res_ending = ending\<rparr>))
     else break_signal regs [] counter)"

definition BUG_INSN :: "32 word" where "BUG_INSN = 0x00100073"

text \<open>\<open>probe\<close> is \<^verbatim>\<open>probe_kernel_address\<close>: the instruction word, or a fault.\<close>

definition is_valid_bugaddr :: "('w::len word \<Rightarrow> 32 word option) \<Rightarrow> 'w word \<Rightarrow> 'w word \<Rightarrow> bool" where
  "is_valid_bugaddr probe page_offset pc =
    (if pc < page_offset then False
     else (case probe pc of None \<Rightarrow> False | Some insn \<Rightarrow> insn = BUG_INSN))"

section \<open>Dispatch\<close>

datatype handler = Do_IRQ | Handle_syscall | Do_trap_insn_misaligned | Do_page_fault
  | Do_trap_insn_illegal | Do_trap_unknown | Do_trap_amo_misaligned | Do_trap_break | Null_handler

definition excp_vect_table :: "handler list" where
  "excp_vect_table =
    [Do_trap_insn_misaligned, Do_page_fault, Do_trap_insn_illegal, Do_trap_unknown,
     Do_trap_unknown, Do_page_fault, Do_trap_amo_misaligned, Do_page_fault,
     Null_handler, Do_trap_break]"

definition EXC_BREAKPOINT :: "'w::len word" where "EXC_BREAKPOINT = 3"

text \<open>
  The dispatch on the cause: its top bit marks an interrupt. The code compares the address of the
  table entry with the end of the table; here that is the comparison of the index, which is the
  same for every cause below \<open>2 ^ 28\<close>, where the scaled index cannot wrap past the table.
\<close>

definition dispatch :: "'w::len word \<Rightarrow> handler" where
  "dispatch cause =
    (if bit cause (LENGTH('w) - 1) then Do_IRQ
     else if cause = EXC_SYSCALL then Handle_syscall
     else if unat cause < length excp_vect_table then excp_vect_table ! unat cause
     else Do_trap_unknown)"

text \<open>
  \<^verbatim>\<open>BUG()\<close> with \<^verbatim>\<open>CONFIG_GENERIC_BUG\<close> is the instruction \<^verbatim>\<open>sbreak\<close>: a trap from the kernel with
  the cause of a breakpoint. \<open>frame\<close> holds the other registers that entry saves at it.
\<close>

definition BUG_trap :: "'w::len word trap_env \<Rightarrow> nat \<Rightarrow> 'w word pt_regs \<Rightarrow> 'w word trap_result" where
  "BUG_trap env counter frame =
    (let frame = frame\<lparr>scause := EXC_BREAKPOINT, sstatus := sstatus frame OR SR_PS\<rparr>
     in case dispatch (scause frame) of
          Do_trap_break \<Rightarrow> do_trap_break True env counter frame
        | _ \<Rightarrow> do_trap_unknown env counter frame)"

definition example_env :: "u32 trap_env" where
  "example_env =
    \<lparr>search_exception_tables = \<lambda>pc. if pc = 0xc0000100 then Some 0xc0000200 else None,
     report_bug = \<lambda>_. BUG_TRAP_TYPE_NONE, print_unhandled = False, notify_stop = False,
     in_interrupt = False, panic_on_oops = False\<rparr>"

text \<open>
  The cause 3 goes to the handler of unknown exceptions, so a \<^verbatim>\<open>BUG()\<close> is an oops that never asks
  \<^verbatim>\<open>report_bug\<close>.
\<close>

lemma BUG_trap_dies:
  fixes frame :: "u32 pt_regs"
  shows "BUG_trap env counter frame =
    (let frame = frame\<lparr>scause := 3, sstatus := sstatus frame OR SR_PS\<rparr>
     in case fixup_exception env frame of
          Some regs \<Rightarrow> \<lparr>res_regs = regs, res_events = [], res_counter = counter, res_ending = Returned\<rparr>
        | None \<Rightarrow> (let (events, counter, ending) = die env counter ''Oops - unknown exception''
             in \<lparr>res_regs = frame, res_events = events, res_counter = counter, res_ending = ending\<rparr>))"
proof -
  have "dispatch (EXC_BREAKPOINT :: u32) = Do_trap_unknown"
    by (simp add: dispatch_def excp_vect_table_def EXC_SYSCALL_def EXC_BREAKPOINT_def)
  moreover have "(x OR SR_PS) AND SR_PS \<noteq> 0" for x :: u32
  proof -
    have "(x OR SR_PS) AND SR_PS = SR_PS" by (rule bit_word_eqI) (auto simp: bit_simps)
    then show ?thesis by (simp add: SR_PS_def)
  qed
  ultimately show ?thesis
    by (simp add: BUG_trap_def Let_def do_trap_unknown_def do_trap_error_def user_mode_def EXC_BREAKPOINT_def
        split: option.split)
qed

section \<open>Properties\<close>

text \<open>
  The handlers of user exceptions send exactly one signal, for the faulting instruction, and
  leave the registers alone; in the kernel no signal is ever sent: execution continues at the
  fixup of the instruction when there is one, and otherwise the kernel dies with the next number.
\<close>

theorem do_trap_error_cases:
  fixes regs :: "u32 pt_regs" and env :: "u32 trap_env" and counter :: nat and signo :: signo
    and code :: sicode and str :: string
  defines "r \<equiv> do_trap_error env regs counter signo code (sepc regs) str"
  shows "(user_mode regs \<longrightarrow>
        filter (\<lambda>e. \<exists>s c a. e = Force_sig s c a) (res_events r) = [Force_sig signo code (sepc regs)]
        \<and> res_regs r = regs \<and> res_ending r = Returned \<and> res_counter r = counter)
    \<and> (\<not> user_mode regs \<longrightarrow> (\<forall>s c a. Force_sig s c a \<notin> set (res_events r)))
    \<and> (\<not> user_mode regs \<and> search_exception_tables env (sepc regs) = Some fixup \<longrightarrow>
        res_regs r = regs\<lparr>sepc := fixup\<rparr> \<and> res_ending r = Returned \<and> res_events r = [])
    \<and> (\<not> user_mode regs \<and> search_exception_tables env (sepc regs) = None \<longrightarrow>
        Emerg str (counter + 1) \<in> set (res_events r) \<and> res_counter r = counter + 1)"
  by (auto simp: r_def do_trap_error_def do_trap_def do_trap_siginfo_def fixup_exception_def die_def
      split: option.splits)

theorem do_trap_error_cases_witness:
  "res_regs (do_trap_error example_env (zero_regs\<lparr>sstatus := 0x100, sepc := 0xc0000100\<rparr>) 0 SIGILL
     ILL_ILLTRP 0xc0000100 ''x'') = zero_regs\<lparr>sstatus := 0x100, sepc := 0xc0000200\<rparr>"
  using do_trap_error_cases [of "zero_regs\<lparr>sstatus := 0x100, sepc := 0xc0000100\<rparr>" example_env 0
      SIGILL ILL_ILLTRP "''x''" "0xc0000200"]
  by (simp add: user_mode_def SR_PS_def example_env_def zero_regs_def words_regs_def)

text \<open>
  A warning in the kernel resumes behind its instruction with nothing else changed; any other
  breakpoint that is survived resumes there too and sends one \<^verbatim>\<open>SIGTRAP\<close> for its address.
\<close>

theorem do_trap_break_resumes:
  fixes regs :: "u32 pt_regs" and env :: "u32 trap_env" and counter :: nat
  defines "r \<equiv> do_trap_break True env counter regs"
  assumes "res_ending r = Returned"
  shows "res_regs r = regs\<lparr>sepc := sepc regs + 4\<rparr>
    \<and> (if \<not> user_mode regs \<and> report_bug env (sepc regs) = BUG_TRAP_TYPE_WARN then res_events r = []
       else last (res_events r) = Force_sig SIGTRAP TRAP_BRKPT (sepc regs))"
  using assms
  by (auto simp: do_trap_break_def break_signal_def do_trap_siginfo_def die_def Let_def
      split: bug_trap_type.splits if_splits)

theorem do_trap_break_resumes_witness:
  "sepc (res_regs (do_trap_break True example_env 0 (zero_regs\<lparr>sepc := 0x10000\<rparr>))) = 0x10004"
proof -
  have "res_ending (do_trap_break True example_env 0 (zero_regs\<lparr>sepc := 0x10000\<rparr>)) = Returned"
    by (simp add: do_trap_break_def user_mode_def zero_regs_def words_regs_def break_signal_def)
  from do_trap_break_resumes [OF this] show ?thesis by simp
qed

text \<open>
  Every cause has a handler, and the null entry of the table is never called, because its
  index is the system call's cause; but the breakpoint's cause reaches the handler of unknown
  exceptions, and \<^verbatim>\<open>do_trap_break\<close> only cause 9.
\<close>

theorem dispatch_total:
  fixes cause :: u32
  shows "dispatch cause \<noteq> Null_handler
    \<and> dispatch (EXC_BREAKPOINT :: u32) = Do_trap_unknown
    \<and> (dispatch cause = Do_trap_break \<longleftrightarrow> cause = 9)"
proof -
  have i: "unat cause = n \<longleftrightarrow> cause = of_nat n" if "n < 10" for n
    using that by (auto simp: unat_eq_word unat_of_nat)
  have "unat cause < 10 \<longleftrightarrow> unat cause \<in> {0, 1, 2, 3, 4, 5, 6, 7, 8, 9}" by auto
  then consider "unat cause \<ge> 10" | "unat cause \<in> {0, 1, 2, 3, 4, 5, 6, 7, 8, 9}"
    by linarith
  then have "dispatch cause \<noteq> Null_handler \<and> (dispatch cause = Do_trap_break \<longleftrightarrow> cause = 9)"
  proof cases
    case 1
    then show ?thesis by (auto simp: dispatch_def excp_vect_table_def EXC_SYSCALL_def)
  next
    case 2
    then show ?thesis
      by (elim insertE emptyE) (auto simp: i dispatch_def excp_vect_table_def EXC_SYSCALL_def)
  qed
  moreover have "dispatch (EXC_BREAKPOINT :: u32) = Do_trap_unknown"
    by (simp add: dispatch_def excp_vect_table_def EXC_SYSCALL_def EXC_BREAKPOINT_def)
  ultimately show ?thesis by blast
qed

end
