(* ===== verification/Fault.thy ===== *)
theory Fault
  imports Traps PageTable
begin

text \<open>
  \<^verbatim>\<open>mm/fault.c\<close>: the page fault handler \<^verbatim>\<open>do_page_fault\<close>. The memory management core it
  calls is the environment \<open>fault_env\<close>, whose answers may differ at each attempt (numbered from 0),
  because the lock is dropped in between; \<open>bug_frame\<close> holds the registers, its own address among
  them, at the handler's \<^verbatim>\<open>BUG()\<close>. What the handler does is the list of its events; each
  label of the code is a definition.
\<close>

section \<open>The environment\<close>

record 'a vma =
  vm_start :: 'a
  vm_read :: bool
  vm_write :: bool
  vm_exec :: bool
  vm_growsdown :: bool

text \<open>The flags passed to \<^verbatim>\<open>handle_mm_fault\<close> and the bits of its answer.\<close>

record fault_flags =
  FLAG_ALLOW_RETRY :: bool
  FLAG_KILLABLE :: bool
  FLAG_USER :: bool
  FLAG_WRITE :: bool
  FLAG_TRIED :: bool

record vm_fault =
  VM_FAULT_RETRY :: bool
  VM_FAULT_OOM :: bool
  VM_FAULT_SIGBUS :: bool
  VM_FAULT_OTHER_ERROR :: bool
  VM_FAULT_MAJOR :: bool

definition VM_FAULT_ERROR :: "vm_fault \<Rightarrow> bool" where
  "VM_FAULT_ERROR f \<longleftrightarrow> VM_FAULT_OOM f \<or> VM_FAULT_SIGBUS f \<or> VM_FAULT_OTHER_ERROR f"

record 'a fault_env =
  traps :: "'a trap_env"
  has_mm :: bool
  faulthandler_disabled :: bool
  find_vma :: "nat \<Rightarrow> 'a \<Rightarrow> 'a vma option"
  expand_stack_fails :: "nat \<Rightarrow> 'a vma \<Rightarrow> 'a \<Rightarrow> bool"
  handle_mm_fault :: "nat \<Rightarrow> 'a vma \<Rightarrow> 'a \<Rightarrow> fault_flags \<Rightarrow> vm_fault"
  fatal_signal_pending :: "nat \<Rightarrow> bool"
  pte_at :: "'a \<Rightarrow> 'a"
  layout :: "'a mem_layout"
  bug_frame :: "'a pt_regs"

datatype 'a fault_event =
  Irq_enable
| Perf_fault
| Down_read
| Mm_fault nat fault_flags vm_fault
| Maj_flt
| Min_flt
| Up_read
| Trap "'a event"
| Alert_null
| Alert_paging
| Out_of_memory
| Bug
| Panic

record 'a fault_result =
  f_regs :: "'a pt_regs"
  f_events :: "'a fault_event list"
  f_counter :: nat
  f_ending :: ending
  f_pgd :: "'a list"

definition finish ::
    "'a pt_regs \<Rightarrow> 'a fault_event list \<Rightarrow> nat \<Rightarrow> ending \<Rightarrow> 'a list \<Rightarrow> 'a fault_result" where
  "finish regs events counter ending pgd =
    \<lparr>f_regs = regs, f_events = events, f_counter = counter, f_ending = ending, f_pgd = pgd\<rparr>"

section \<open>The handler\<close>

definition EXC_INST_ACCESS :: "'w::len word" where "EXC_INST_ACCESS = 1"
definition EXC_LOAD_ACCESS :: "'w::len word" where "EXC_LOAD_ACCESS = 5"
definition EXC_STORE_ACCESS :: "'w::len word" where "EXC_STORE_ACCESS = 7"

definition no_context ::
    "'w::len word fault_env \<Rightarrow> 'w word pt_regs \<Rightarrow> 'w word \<Rightarrow> nat \<Rightarrow> 'w word list
      \<Rightarrow> 'w word fault_event list \<Rightarrow> 'w word fault_result" where
  "no_context env regs addr counter pgd events =
    (case fixup_exception (traps env) regs of
       Some regs \<Rightarrow> finish regs events counter Returned pgd
     | None \<Rightarrow>
        (let (dies, counter, ending) = die (traps env) counter ''Oops'';
             alert = (if addr < PAGE_SIZE then Alert_null else Alert_paging)
         in finish regs (events @ [alert] @ map Trap dies) counter
              (if ending = Returned then Exited SIGKILL else ending) pgd))"

definition bad_area ::
    "'w::len word fault_env \<Rightarrow> 'w word pt_regs \<Rightarrow> 'w word \<Rightarrow> nat \<Rightarrow> 'w word list
      \<Rightarrow> sicode \<Rightarrow> 'w word fault_event list \<Rightarrow> 'w word fault_result" where
  "bad_area env regs addr counter pgd code events =
    (let events = events @ [Up_read]
     in if user_mode regs
        then finish regs (events @ map Trap (do_trap (traps env) SIGSEGV code addr)) counter Returned pgd
        else no_context env regs addr counter pgd events)"

definition out_of_memory ::
    "'w::len word fault_env \<Rightarrow> 'w word pt_regs \<Rightarrow> 'w word \<Rightarrow> nat \<Rightarrow> 'w word list
      \<Rightarrow> 'w word fault_event list \<Rightarrow> 'w word fault_result" where
  "out_of_memory env regs addr counter pgd events =
    (let events = events @ [Up_read]
     in if \<not> user_mode regs then no_context env regs addr counter pgd events
        else finish regs (events @ [Out_of_memory]) counter Returned pgd)"

definition do_sigbus ::
    "'w::len word fault_env \<Rightarrow> 'w word pt_regs \<Rightarrow> 'w word \<Rightarrow> nat \<Rightarrow> 'w word list
      \<Rightarrow> 'w word fault_event list \<Rightarrow> 'w word fault_result" where
  "do_sigbus env regs addr counter pgd events =
    (let events = events @ [Up_read]
     in if \<not> user_mode regs then no_context env regs addr counter pgd events
        else finish regs (events @ map Trap (do_trap (traps env) SIGBUS BUS_ADRERR addr)) counter
          Returned pgd)"

text \<open>
  The \<^verbatim>\<open>BUG()\<close> for an error of the memory core that has no name: a trap inside the handler, with
  \<^verbatim>\<open>mmap_sem\<close> held.
\<close>

definition bug ::
    "'w::len word fault_env \<Rightarrow> 'w word pt_regs \<Rightarrow> nat \<Rightarrow> 'w word list
      \<Rightarrow> 'w word fault_event list \<Rightarrow> 'w word fault_result" where
  "bug env regs counter pgd events =
    (let t = BUG_trap (traps env) counter (bug_frame env)
     in finish regs (events @ [Bug] @ map Trap (res_events t)) (res_counter t)
          (if res_ending t = Returned then Bug_again else res_ending t) pgd)"

text \<open>The permission the cause needs of the area; \<open>None\<close> is the \<^verbatim>\<open>panic\<close>.\<close>

definition access_allowed :: "'w::len word \<Rightarrow> 'w word vma \<Rightarrow> bool option" where
  "access_allowed cause vma =
    (if cause = EXC_INST_ACCESS then Some (vm_exec vma)
     else if cause = EXC_LOAD_ACCESS then Some (vm_read vma)
     else if cause = EXC_STORE_ACCESS then Some (vm_write vma)
     else None)"

text \<open>
  From the label \<^verbatim>\<open>retry\<close> on: \<open>k\<close> is the number of the attempt and \<open>code\<close> the variable of
  that name, which \<^verbatim>\<open>good_area\<close> sets and a retry does not reset.
\<close>

definition after_fault ::
    "fault_flags \<Rightarrow> vm_fault \<Rightarrow> 'w::len word fault_event list \<Rightarrow> 'w word fault_event list" where
  "after_fault flags fault events =
    (if FLAG_ALLOW_RETRY flags
     then events @ [if VM_FAULT_MAJOR fault then Maj_flt else Min_flt] else events)"

function (sequential) attempt ::
    "'w::len word fault_env \<Rightarrow> 'w word pt_regs \<Rightarrow> 'w word \<Rightarrow> 'w word \<Rightarrow> nat \<Rightarrow> 'w word list
      \<Rightarrow> nat \<Rightarrow> fault_flags \<Rightarrow> sicode \<Rightarrow> 'w word fault_event list \<Rightarrow> 'w word fault_result" where
  "attempt env regs cause addr counter pgd k flags code events =
    (let events = events @ [Down_read]
     in case find_vma env k addr of
          None \<Rightarrow> bad_area env regs addr counter pgd code events
        | Some vma \<Rightarrow>
            if \<not> vm_start vma \<le> addr \<and> \<not> vm_growsdown vma
            then bad_area env regs addr counter pgd code events
            else if \<not> vm_start vma \<le> addr \<and> expand_stack_fails env k vma addr
            then bad_area env regs addr counter pgd code events
            else
              (case access_allowed cause vma of
                 None \<Rightarrow> finish regs (events @ [Panic]) counter Panicked pgd
               | Some False \<Rightarrow> bad_area env regs addr counter pgd SEGV_ACCERR events
               | Some True \<Rightarrow>
                   (let flags = (if cause = EXC_STORE_ACCESS then flags\<lparr>FLAG_WRITE := True\<rparr> else flags);
                        fault = handle_mm_fault env k vma addr flags;
                        events = events @ [Mm_fault k flags fault]
                    in if VM_FAULT_RETRY fault \<and> fatal_signal_pending env k
                       then finish regs events counter Returned pgd
                       else if VM_FAULT_ERROR fault then
                         if VM_FAULT_OOM fault then out_of_memory env regs addr counter pgd events
                         else if VM_FAULT_SIGBUS fault then do_sigbus env regs addr counter pgd events
                         else bug env regs counter pgd events
                       else if FLAG_ALLOW_RETRY flags \<and> VM_FAULT_RETRY fault then
                         attempt env regs cause addr counter pgd (k + 1)
                           (flags\<lparr>FLAG_ALLOW_RETRY := False, FLAG_TRIED := True\<rparr>) SEGV_ACCERR
                           (after_fault flags fault events)
                       else finish regs (after_fault flags fault events @ [Up_read]) counter Returned pgd)))"
  by pat_completeness simp_all
termination
  by (relation "measure (\<lambda>(env, regs, cause, addr, counter, pgd, k, flags, code, events).
        if FLAG_ALLOW_RETRY flags then 1 else 0)")
    (simp_all split: if_splits)

declare attempt.simps [simp del]

text \<open>
  The label \<^verbatim>\<open>vmalloc_fault\<close>, on the two-level tables of the 32-bit build, where the upper
  and middle directories are folded into the global one: \<open>pgd\<close> is the table \<^verbatim>\<open>sptbr\<close>
  points to and \<open>init_pgd\<close> that of \<^verbatim>\<open>init_mm\<close>; \<open>pte_at\<close> reads an entry.
\<close>

definition vmalloc_fault ::
    "u32 fault_env \<Rightarrow> u32 pt_regs \<Rightarrow> u32 \<Rightarrow> nat \<Rightarrow> u32 list \<Rightarrow> u32 list \<Rightarrow> u32 fault_result" where
  "vmalloc_fault env regs addr counter pgd init_pgd =
    (if user_mode regs then bad_area env regs addr counter pgd SEGV_MAPERR []
     else
       (let index = unat (pgd_index addr);
            pmd_k = Pmd (init_pgd ! index);
            pgd = pgd[index := pmd_val pmd_k]
        in if \<not> pmd_present pmd_k then no_context env regs addr counter pgd []
           else if \<not> pte_present (Pte (pte_at env (pte_offset_kernel (layout env) pmd_k addr)))
           then no_context env regs addr counter pgd []
           else finish regs [] counter Returned pgd))"

definition do_page_fault ::
    "u32 fault_env \<Rightarrow> u32 pt_regs \<Rightarrow> nat \<Rightarrow> u32 list \<Rightarrow> u32 list \<Rightarrow> u32 fault_result" where
  "do_page_fault env regs counter pgd init_pgd =
    (let cause = scause regs; addr = sbadaddr regs
     in if VMALLOC_START \<le> addr \<and> addr \<le> VMALLOC_END
        then vmalloc_fault env regs addr counter pgd init_pgd
        else
          (let events = (if sstatus regs AND SR_PIE \<noteq> 0 then [Irq_enable] else [])
           in if faulthandler_disabled env \<or> \<not> has_mm env
              then no_context env regs addr counter pgd events
              else attempt env regs cause addr counter pgd 0
                \<lparr>FLAG_ALLOW_RETRY = True, FLAG_KILLABLE = True, FLAG_USER = user_mode regs,
                  FLAG_WRITE = False, FLAG_TRIED = False\<rparr>
                SEGV_MAPERR (events @ [Perf_fault])))"

section \<open>The lock\<close>

text \<open>
  The changes of the semaphore \<^verbatim>\<open>mmap_sem\<close>: \<^verbatim>\<open>handle_mm_fault\<close> drops it when it asks
  for a retry. Its documented contract: it only asks for one when the flags allow it, and never
  together with an error.
\<close>

fun lock_delta :: "'a fault_event \<Rightarrow> int" where
  "lock_delta Down_read = 1"
| "lock_delta Up_read = - 1"
| "lock_delta (Mm_fault k flags fault) = (if VM_FAULT_RETRY fault then - 1 else 0)"
| "lock_delta _ = 0"

definition held :: "'a fault_event list \<Rightarrow> int" where
  "held events = sum_list (map lock_delta events)"

fun locks_run :: "int \<Rightarrow> 'a fault_event list \<Rightarrow> bool" where
  "locks_run h [] = True"
| "locks_run h (e # es) = (h + lock_delta e \<in> {0, 1} \<and> locks_run (h + lock_delta e) es)"

definition mm_ok :: "'a fault_env \<Rightarrow> bool" where
  "mm_ok env \<longleftrightarrow> (\<forall>k vma addr flags. VM_FAULT_RETRY (handle_mm_fault env k vma addr flags) \<longrightarrow>
     FLAG_ALLOW_RETRY flags \<and> \<not> VM_FAULT_ERROR (handle_mm_fault env k vma addr flags))"

lemma held_simps [simp]:
  "held [] = 0" "held (e # es) = lock_delta e + held es" "held (xs @ ys) = held xs + held ys"
  by (simp_all add: held_def)

lemma held_traps [simp]: "held (map Trap es) = 0"
  by (induction es) simp_all

lemma locks_run_append [simp]:
  "locks_run h (xs @ ys) \<longleftrightarrow> locks_run h xs \<and> locks_run (h + held xs) ys"
  by (induction xs arbitrary: h) (simp_all add: add.assoc)

lemma locks_run_traps [simp]: "h \<in> {0, 1} \<Longrightarrow> locks_run h (map Trap es)"
  by (induction es) simp_all

text \<open>
  The lock over a whole fault: free at the end, unless the handler met its \<^verbatim>\<open>BUG()\<close> or its
  \<^verbatim>\<open>panic\<close>, from which it does not return.
\<close>

definition broke_down :: "'a fault_event list \<Rightarrow> bool" where
  "broke_down events \<longleftrightarrow> Bug \<in> set events \<or> Panic \<in> set events"

lemma broke_down_simps [simp]:
  "broke_down (xs @ ys) \<longleftrightarrow> broke_down xs \<or> broke_down ys" "\<not> broke_down []"
  "broke_down (e # es) \<longleftrightarrow> e = Bug \<or> e = Panic \<or> broke_down es" "\<not> broke_down (map Trap ts)"
  by (auto simp: broke_down_def)

definition lock_result :: "'a fault_result \<Rightarrow> bool" where
  "lock_result r \<longleftrightarrow> locks_run 0 (f_events r) \<and> held (f_events r) = of_bool (broke_down (f_events r))
    \<and> (f_ending r = Returned \<longrightarrow> \<not> broke_down (f_events r))"

lemma finish_lock [simp]:
  "lock_result (finish regs events counter ending pgd) \<longleftrightarrow>
    locks_run 0 events \<and> held events = of_bool (broke_down events) \<and> (ending = Returned \<longrightarrow> \<not> broke_down events)"
  by (simp add: finish_def lock_result_def)

lemma no_context_lock:
  "locks_run 0 events \<Longrightarrow> held events = 0 \<Longrightarrow> \<not> broke_down events \<Longrightarrow> lock_result (no_context env regs addr counter pgd events)"
  by (auto simp: no_context_def Let_def split: option.splits prod.splits)

lemma error_exits_lock:
  assumes "locks_run 0 events" "held events = 1" "\<not> broke_down events"
  shows "lock_result (bad_area env regs addr counter pgd code events)"
    "lock_result (out_of_memory env regs addr counter pgd events)"
    "lock_result (do_sigbus env regs addr counter pgd events)"
    "lock_result (bug env regs counter pgd events)"
  using assms
  by (auto simp: bad_area_def out_of_memory_def do_sigbus_def bug_def Let_def intro!: no_context_lock)

lemma after_fault_lock [simp]:
  "held (after_fault flags fault events) = held events"
  "locks_run 0 (after_fault flags fault events) \<longleftrightarrow> locks_run 0 events \<and>
    (FLAG_ALLOW_RETRY flags \<longrightarrow> held events \<in> {0, 1})"
  "broke_down (after_fault flags fault events) \<longleftrightarrow> broke_down events"
  by (auto simp: after_fault_def)

section \<open>Attempts\<close>

text \<open>A call of the memory core at attempt \<open>k\<close>: its flags \<open>fl\<close> and answer \<open>f\<close>.\<close>

definition mm_call ::
    "'w::len word fault_env \<Rightarrow> nat \<Rightarrow> 'w word \<Rightarrow> fault_flags \<Rightarrow> fault_flags \<Rightarrow> vm_fault \<Rightarrow> bool" where
  "mm_call env k addr flags fl f \<longleftrightarrow>
    (\<exists>vma w. fl = flags\<lparr>FLAG_WRITE := w\<rparr> \<and> f = handle_mm_fault env k vma addr fl)"

text \<open>
  The reasoning rule for the handler's loop: \<open>I\<close> holds at the label \<^verbatim>\<open>retry\<close>, and each way out
  of an attempt establishes \<open>P\<close>.
\<close>

lemma attempt_rule:
  fixes env :: "'w::len word fault_env"
  assumes bad: "\<And>k flags code code' ev. I k flags code ev \<Longrightarrow> code' = code \<or> code' = SEGV_ACCERR \<Longrightarrow>
      P (bad_area env regs addr counter pgd code' (ev @ [Down_read]))"
    and panic: "\<And>k flags code ev. I k flags code ev \<Longrightarrow>
      P (finish regs (ev @ [Down_read, Panic]) counter Panicked pgd)"
    and fatal: "\<And>k flags code ev fl f. I k flags code ev \<Longrightarrow> mm_call env k addr flags fl f \<Longrightarrow>
      VM_FAULT_RETRY f \<Longrightarrow> P (finish regs (ev @ [Down_read, Mm_fault k fl f]) counter Returned pgd)"
    and oom: "\<And>k flags code ev fl f. I k flags code ev \<Longrightarrow> mm_call env k addr flags fl f \<Longrightarrow>
      VM_FAULT_ERROR f \<Longrightarrow> P (out_of_memory env regs addr counter pgd (ev @ [Down_read, Mm_fault k fl f]))"
    and sigbus: "\<And>k flags code ev fl f. I k flags code ev \<Longrightarrow> mm_call env k addr flags fl f \<Longrightarrow>
      VM_FAULT_ERROR f \<Longrightarrow> P (do_sigbus env regs addr counter pgd (ev @ [Down_read, Mm_fault k fl f]))"
    and bug: "\<And>k flags code ev fl f. I k flags code ev \<Longrightarrow> mm_call env k addr flags fl f \<Longrightarrow>
      VM_FAULT_ERROR f \<Longrightarrow> P (bug env regs counter pgd (ev @ [Down_read, Mm_fault k fl f]))"
    and ok: "\<And>k flags code ev fl f. I k flags code ev \<Longrightarrow> mm_call env k addr flags fl f \<Longrightarrow>
      \<not> VM_FAULT_ERROR f \<Longrightarrow> \<not> (FLAG_ALLOW_RETRY fl \<and> VM_FAULT_RETRY f) \<Longrightarrow>
      P (finish regs (after_fault fl f (ev @ [Down_read, Mm_fault k fl f]) @ [Up_read]) counter Returned pgd)"
    and retry: "\<And>k flags code ev fl f. I k flags code ev \<Longrightarrow> mm_call env k addr flags fl f \<Longrightarrow>
      FLAG_ALLOW_RETRY fl \<Longrightarrow> VM_FAULT_RETRY f \<Longrightarrow> \<not> VM_FAULT_ERROR f \<Longrightarrow>
      I (k + 1) (fl\<lparr>FLAG_ALLOW_RETRY := False, FLAG_TRIED := True\<rparr>) SEGV_ACCERR
        (after_fault fl f (ev @ [Down_read, Mm_fault k fl f]))"
    and I: "I k flags code ev"
  shows "P (attempt env regs cause addr counter pgd k flags code ev)"
  using I
proof (induction "if FLAG_ALLOW_RETRY flags then 1 else 0 :: nat" arbitrary: k flags code ev rule: less_induct)
  case less
  note bad = bad [OF less.prems]
  note eq = attempt.simps [of env regs cause addr counter pgd k flags code ev, unfolded Let_def]
  show ?case
  proof (cases "find_vma env k addr")
    case None
    then show ?thesis using bad by (simp add: eq)
  next
    case (Some vma)
    note eq = eq [unfolded Some option.case]
    show ?thesis
    proof (cases "\<not> vm_start vma \<le> addr \<and> (\<not> vm_growsdown vma \<or> expand_stack_fails env k vma addr)")
      case True
      then show ?thesis using bad by (simp add: eq)
    next
      case good: False
      define fl where "fl = (if cause = EXC_STORE_ACCESS then flags\<lparr>FLAG_WRITE := True\<rparr> else flags)"
      define f where "f = handle_mm_fault env k vma addr fl"
      have "fl = flags\<lparr>FLAG_WRITE := FLAG_WRITE fl\<rparr>" by (simp add: fl_def)
      then have call: "mm_call env k addr flags fl f" unfolding mm_call_def f_def by blast
      have g: "(\<not> vm_start vma \<le> addr \<and> \<not> vm_growsdown vma) = False"
        "(\<not> vm_start vma \<le> addr \<and> expand_stack_fails env k vma addr) = False"
        using good by auto
      have eq': "attempt env regs cause addr counter pgd k flags code ev =
        (case access_allowed cause vma of
           None \<Rightarrow> finish regs (ev @ [Down_read, Panic]) counter Panicked pgd
         | Some False \<Rightarrow> bad_area env regs addr counter pgd SEGV_ACCERR (ev @ [Down_read])
         | Some True \<Rightarrow>
            if VM_FAULT_RETRY f \<and> fatal_signal_pending env k
            then finish regs (ev @ [Down_read, Mm_fault k fl f]) counter Returned pgd
            else if VM_FAULT_ERROR f then
              if VM_FAULT_OOM f then out_of_memory env regs addr counter pgd (ev @ [Down_read, Mm_fault k fl f])
              else if VM_FAULT_SIGBUS f then do_sigbus env regs addr counter pgd (ev @ [Down_read, Mm_fault k fl f])
              else bug env regs counter pgd (ev @ [Down_read, Mm_fault k fl f])
            else if FLAG_ALLOW_RETRY fl \<and> VM_FAULT_RETRY f then
              attempt env regs cause addr counter pgd (k + 1)
                (fl\<lparr>FLAG_ALLOW_RETRY := False, FLAG_TRIED := True\<rparr>) SEGV_ACCERR
                (after_fault fl f (ev @ [Down_read, Mm_fault k fl f]))
            else finish regs (after_fault fl f (ev @ [Down_read, Mm_fault k fl f]) @ [Up_read]) counter Returned pgd)"
        unfolding eq fl_def [symmetric] f_def [symmetric] by (simp only: g if_False append_assoc append_Cons append_Nil)
      have again: "FLAG_ALLOW_RETRY fl \<Longrightarrow> VM_FAULT_RETRY f \<Longrightarrow> \<not> VM_FAULT_ERROR f \<Longrightarrow>
        P (attempt env regs cause addr counter pgd (k + 1)
                (fl\<lparr>FLAG_ALLOW_RETRY := False, FLAG_TRIED := True\<rparr>) SEGV_ACCERR
                (after_fault fl f (ev @ [Down_read, Mm_fault k fl f])))"
        using retry [OF less.prems call] by (intro less.hyps) (auto simp: fl_def split: if_splits)
      show ?thesis
        unfolding eq'
        using bad panic [OF less.prems] fatal [OF less.prems call] oom [OF less.prems call]
          sigbus [OF less.prems call] bug [OF less.prems call] ok [OF less.prems call] again
        by (simp split: option.split bool.split)
    qed
  qed
qed

lemma attempt_lock:
  assumes ok: "mm_ok env" and ev: "locks_run 0 ev" "held ev = 0" "\<not> broke_down ev"
  shows "lock_result (attempt env regs cause addr counter pgd k flags code ev)"
proof (rule attempt_rule [where I = "\<lambda>k flags code ev. locks_run 0 ev \<and> held ev = 0 \<and> \<not> broke_down ev"])
  have call: "VM_FAULT_RETRY f \<Longrightarrow> FLAG_ALLOW_RETRY fl \<and> \<not> VM_FAULT_ERROR f"
    if "mm_call env k addr flags fl f" for k flags fl f
    using that ok unfolding mm_call_def mm_ok_def by blast
  fix k flags code and ev :: "'a word fault_event list" and fl f
  assume I: "locks_run 0 ev \<and> held ev = 0 \<and> \<not> broke_down ev"
  show "lock_result (bad_area env regs addr counter pgd code' (ev @ [Down_read]))" for code'
    using I by (auto intro!: error_exits_lock)
  show "lock_result (finish regs (ev @ [Down_read, Panic]) counter Panicked pgd)"
    using I by simp
  assume c: "mm_call env k addr flags fl f"
  show "lock_result (finish regs (ev @ [Down_read, Mm_fault k fl f]) counter Returned pgd)"
    if "VM_FAULT_RETRY f" using I that by simp
  show "lock_result (out_of_memory env regs addr counter pgd (ev @ [Down_read, Mm_fault k fl f]))"
    "lock_result (do_sigbus env regs addr counter pgd (ev @ [Down_read, Mm_fault k fl f]))"
    "lock_result (bug env regs counter pgd (ev @ [Down_read, Mm_fault k fl f]))"
    if "VM_FAULT_ERROR f"
    using I call [OF c] that by (auto intro!: error_exits_lock)
  show "lock_result (finish regs (after_fault fl f (ev @ [Down_read, Mm_fault k fl f]) @ [Up_read]) counter Returned pgd)"
    if "\<not> VM_FAULT_ERROR f" "\<not> (FLAG_ALLOW_RETRY fl \<and> VM_FAULT_RETRY f)"
    using I call [OF c] that by auto
  show "locks_run 0 (after_fault fl f (ev @ [Down_read, Mm_fault k fl f]))
      \<and> held (after_fault fl f (ev @ [Down_read, Mm_fault k fl f])) = 0
      \<and> \<not> broke_down (after_fault fl f (ev @ [Down_read, Mm_fault k fl f]))"
    if "VM_FAULT_RETRY f" using I that by auto
qed (use ev in simp)

text \<open>The number of calls of the memory core, and the absence of anything sent to the user.\<close>

fun is_mm_call :: "'a fault_event \<Rightarrow> bool" where
  "is_mm_call (Mm_fault k fl f) = True"
| "is_mm_call _ = False"

definition mm_calls :: "'a fault_event list \<Rightarrow> nat" where
  "mm_calls ev = length (filter is_mm_call ev)"

fun to_user :: "'a fault_event \<Rightarrow> bool" where
  "to_user (Trap (Force_sig s c a)) = True"
| "to_user Out_of_memory = True"
| "to_user _ = False"

lemma mm_calls_simps [simp]:
  "mm_calls [] = 0" "mm_calls (xs @ ys) = mm_calls xs + mm_calls ys"
  "mm_calls (e # es) = (if is_mm_call e then 1 else 0) + mm_calls es" "mm_calls (map Trap ts) = 0"
  by (simp_all add: mm_calls_def filter_map comp_def)

lemma mm_calls_after_fault [simp]: "mm_calls (after_fault fl f ev) = mm_calls ev"
  by (simp add: after_fault_def)

lemma mm_calls_exits [simp]:
  "mm_calls (f_events (finish regs ev counter ending pgd)) = mm_calls ev"
  "mm_calls (f_events (no_context env regs addr counter pgd ev)) = mm_calls ev"
  "mm_calls (f_events (bad_area env regs addr counter pgd code ev)) = mm_calls ev"
  "mm_calls (f_events (out_of_memory env regs addr counter pgd ev)) = mm_calls ev"
  "mm_calls (f_events (do_sigbus env regs addr counter pgd ev)) = mm_calls ev"
  "mm_calls (f_events (bug env regs counter pgd ev)) = mm_calls ev"
proof -
  show n: "mm_calls (f_events (no_context env regs addr counter pgd ev)) = mm_calls ev" for regs ev
    by (simp add: no_context_def finish_def Let_def case_prod_beta split: option.split)
  show "mm_calls (f_events (finish regs ev counter ending pgd)) = mm_calls ev"
    by (simp add: finish_def)
  show "mm_calls (f_events (bad_area env regs addr counter pgd code ev)) = mm_calls ev"
    "mm_calls (f_events (out_of_memory env regs addr counter pgd ev)) = mm_calls ev"
    "mm_calls (f_events (do_sigbus env regs addr counter pgd ev)) = mm_calls ev"
    "mm_calls (f_events (bug env regs counter pgd ev)) = mm_calls ev"
    by (simp_all add: bad_area_def out_of_memory_def do_sigbus_def bug_def Let_def n finish_def)
qed

lemma attempt_calls:
  assumes "mm_calls ev = 0"
  shows "mm_calls (f_events (attempt env regs cause addr counter pgd k flags code ev)) \<le> 2"
  by (rule attempt_rule [where I = "\<lambda>k flags code ev. mm_calls ev = 0 \<or> mm_calls ev = 1 \<and> \<not> FLAG_ALLOW_RETRY flags"])
    (use assms in \<open>auto simp: mm_call_def\<close>)

definition quiet :: "'a fault_result \<Rightarrow> bool" where
  "quiet r \<longleftrightarrow> (\<forall>e \<in> set (f_events r). \<not> to_user e)"

lemma quiet_finish [simp]:
  "quiet (finish regs ev counter ending pgd) \<longleftrightarrow> (\<forall>e \<in> set ev. \<not> to_user e)"
  by (simp add: quiet_def finish_def)

lemma quiet_exits:
  assumes "\<not> user_mode regs" "\<forall>e \<in> set ev. \<not> to_user e"
  shows "quiet (no_context env regs addr counter pgd ev)"
    "quiet (bad_area env regs addr counter pgd code ev)"
    "quiet (out_of_memory env regs addr counter pgd ev)"
    "quiet (do_sigbus env regs addr counter pgd ev)"
proof -
  have n: "quiet (no_context env regs addr counter pgd ev)"
    if "\<forall>e \<in> set ev. \<not> to_user e" for ev
    using that by (auto simp: quiet_def no_context_def finish_def die_def Let_def split: option.split)
  then show "quiet (no_context env regs addr counter pgd ev)" using assms by blast
  show "quiet (bad_area env regs addr counter pgd code ev)"
    "quiet (out_of_memory env regs addr counter pgd ev)"
    "quiet (do_sigbus env regs addr counter pgd ev)"
    using assms by (auto simp: bad_area_def out_of_memory_def do_sigbus_def Let_def intro!: n)
qed

lemma quiet_bug:
  fixes env :: "u32 fault_env"
  assumes "\<forall>e \<in> set ev. \<not> to_user e"
  shows "quiet (bug env regs counter pgd ev)"
  using assms by (auto simp: bug_def BUG_trap_dies die_def Let_def split: option.splits)

lemma attempt_quiet:
  fixes env :: "u32 fault_env"
  assumes "\<not> user_mode regs" "\<forall>e \<in> set ev. \<not> to_user e"
  shows "quiet (attempt env regs cause addr counter pgd k flags code ev)"
  by (rule attempt_rule [where I = "\<lambda>k flags code ev. \<forall>e \<in> set ev. \<not> to_user e"])
    (use assms in \<open>auto intro!: quiet_exits quiet_bug simp: after_fault_def split: if_splits\<close>)

lemma attempt_unmapped:
  "find_vma env k addr = None \<Longrightarrow> attempt env regs cause addr counter pgd k flags code ev
    = bad_area env regs addr counter pgd code (ev @ [Down_read])"
  by (subst attempt.simps) simp

text \<open>After the \<^verbatim>\<open>BUG()\<close> the task is gone.\<close>

definition bug_kills :: "'a fault_env \<Rightarrow> bool" where
  "bug_kills env \<longleftrightarrow> search_exception_tables (traps env) (sepc (bug_frame env)) = None
    \<and> \<not> in_interrupt (traps env) \<and> \<not> panic_on_oops (traps env) \<and> \<not> notify_stop (traps env)"

definition bug_exits :: "'a fault_env \<Rightarrow> 'a fault_result \<Rightarrow> bool" where
  "bug_exits env r \<longleftrightarrow> (Bug \<in> set (f_events r) \<and> bug_kills env \<longrightarrow> f_ending r = Exited SIGSEGV)"

lemma bug_exits_finish [simp]: "Bug \<notin> set ev \<Longrightarrow> bug_exits env (finish regs ev counter ending pgd)"
  by (simp add: bug_exits_def finish_def)

lemma bug_exits_no_context: "Bug \<notin> set ev \<Longrightarrow> bug_exits env (no_context env' regs addr counter pgd ev)"
  by (auto simp: no_context_def Let_def image_iff split: option.splits prod.splits)

lemma bug_exits_exits:
  fixes env :: "u32 fault_env"
  assumes "Bug \<notin> set ev"
  shows "bug_exits env (bad_area env' regs addr counter pgd code ev)"
    "bug_exits env (out_of_memory env' regs addr counter pgd ev)"
    "bug_exits env (do_sigbus env' regs addr counter pgd ev)"
    "bug_exits env (bug env regs' counter pgd ev)"
  using assms
  by (auto simp: bad_area_def out_of_memory_def do_sigbus_def Let_def intro!: bug_exits_no_context)
    (auto simp: bug_exits_def bug_kills_def bug_def BUG_trap_dies fixup_exception_def die_def finish_def Let_def)

lemma page_fault_bug: "bug_exits env (do_page_fault env regs counter pgd init_pgd)"
proof -
  have "bug_exits env (attempt env regs cause addr counter pgd k flags code ev)"
    if "Bug \<notin> set ev" for cause addr k flags code ev
    by (rule attempt_rule [where I = "\<lambda>k flags code ev. Bug \<notin> set ev"])
      (use that in \<open>auto intro!: bug_exits_exits simp: after_fault_def split: if_splits\<close>)
  then show ?thesis
    by (auto simp: do_page_fault_def vmalloc_fault_def Let_def intro!: bug_exits_no_context bug_exits_exits)
qed

text \<open>The codes of the segmentation faults sent for an address.\<close>

definition segv_codes :: "'a fault_result \<Rightarrow> 'a \<Rightarrow> sicode set" where
  "segv_codes r a = {code. Trap (Force_sig SIGSEGV code a) \<in> set (f_events r)}"

section \<open>Properties\<close>

text \<open>
  C3: the handler takes and drops \<^verbatim>\<open>mmap_sem\<close> in pairs: on every path the lock is held at
  most once and never dropped without being held, and it is free in the end, whether the handler
  returns or kills the task, with two exceptions, neither of which returns. At the \<^verbatim>\<open>panic\<close> for a
  cause it does not know, and at the \<^verbatim>\<open>BUG()\<close> for an error of the memory core that has no name, the
  lock is held; and \<^verbatim>\<open>BUG()\<close> is a trap, which in task context, with no fixup, no
  \<^verbatim>\<open>panic_on_oops\<close> and no notifier that stops it, kills the task with \<^verbatim>\<open>mmap_sem\<close> held. The theorem
  leaves out a user access to the vmalloc range.
\<close>

theorem page_fault_lock:
  fixes counter :: nat and pgd init_pgd :: "u32 list"
  assumes "mm_ok env"
    and "\<not> (user_mode regs \<and> VMALLOC_START \<le> sbadaddr regs \<and> sbadaddr regs \<le> VMALLOC_END)"
  defines "r \<equiv> do_page_fault env regs counter pgd init_pgd"
  shows "locks_run 0 (f_events r)
    \<and> held (f_events r) = (if Bug \<in> set (f_events r) \<or> Panic \<in> set (f_events r) then 1 else 0)
    \<and> (f_ending r = Returned \<longrightarrow> Bug \<notin> set (f_events r) \<and> Panic \<notin> set (f_events r))
    \<and> (Bug \<in> set (f_events r) \<and> search_exception_tables (traps env) (sepc (bug_frame env)) = None
        \<and> \<not> in_interrupt (traps env) \<and> \<not> panic_on_oops (traps env) \<and> \<not> notify_stop (traps env)
       \<longrightarrow> f_ending r = Exited SIGSEGV \<and> held (f_events r) = 1)"
proof -
  have "lock_result r"
  proof (cases "VMALLOC_START \<le> sbadaddr regs \<and> sbadaddr regs \<le> VMALLOC_END")
    case True
    then have "\<not> user_mode regs" using assms(2) by blast
    then show ?thesis using True by (simp add: r_def do_page_fault_def vmalloc_fault_def Let_def no_context_lock)
  next
    case False
    then show ?thesis
      by (simp only: r_def do_page_fault_def Let_def if_False) (simp add: no_context_lock attempt_lock [OF assms(1)])
  qed
  moreover have "f_ending r = Exited SIGSEGV"
    if "Bug \<in> set (f_events r)" "bug_kills env" using page_fault_bug [of env] that unfolding r_def bug_exits_def by blast
  ultimately show ?thesis by (auto simp: lock_result_def broke_down_def bug_kills_def)
qed

definition example_fault_env :: "u32 fault_env" where
  "example_fault_env =
    \<lparr>traps = example_env, has_mm = True, faulthandler_disabled = False,
     find_vma = \<lambda>k a. if k = 0 then Some \<lparr>vm_start = 0x10000, vm_read = True, vm_write = False,
       vm_exec = False, vm_growsdown = False\<rparr> else None,
     expand_stack_fails = \<lambda>_ _ _. True,
     handle_mm_fault = \<lambda>_ _ _ fl. \<lparr>VM_FAULT_RETRY = FLAG_ALLOW_RETRY fl, VM_FAULT_OOM = False,
       VM_FAULT_SIGBUS = False, VM_FAULT_OTHER_ERROR = False, VM_FAULT_MAJOR = False\<rparr>,
     fatal_signal_pending = \<lambda>_. False, pte_at = \<lambda>_. 0,
     layout = \<lparr>va_pa_offset = 0, pfn_base = 0, max_mapnr = 0\<rparr>,
     bug_frame = zero_regs\<lparr>sepc := 0xc0000400\<rparr>\<rparr>"

text \<open>A memory core that answers with an error that has no name.\<close>

definition odd_fault_env :: "u32 fault_env" where
  "odd_fault_env = example_fault_env\<lparr>handle_mm_fault := \<lambda>_ _ _ _. \<lparr>VM_FAULT_RETRY = False, VM_FAULT_OOM = False,
     VM_FAULT_SIGBUS = False, VM_FAULT_OTHER_ERROR = True, VM_FAULT_MAJOR = False\<rparr>\<rparr>"

definition example_fault_regs :: "u32 pt_regs" where
  "example_fault_regs = zero_regs\<lparr>scause := 5, sbadaddr := 0x10000\<rparr>"

lemma example_fault:
  "mm_ok example_fault_env" "user_mode example_fault_regs" "scause example_fault_regs = 5"
  "sbadaddr example_fault_regs = 0x10000" "sstatus example_fault_regs = 0"
  "(VMALLOC_START :: u32) = 0xb8000000"
  by (simp_all add: mm_ok_def example_fault_env_def VM_FAULT_ERROR_def user_mode_def zero_regs_def
      words_regs_def example_fault_regs_def VMALLOC_START_def PAGE_OFFSET_def)

lemma odd_fault:
  "mm_ok odd_fault_env" "bug_kills odd_fault_env"
  "Bug \<in> set (f_events (do_page_fault odd_fault_env example_fault_regs 0 [] []))"
proof -
  show "mm_ok odd_fault_env" by (simp add: mm_ok_def odd_fault_env_def)
  show "bug_kills odd_fault_env"
    by (simp add: bug_kills_def odd_fault_env_def example_fault_env_def example_env_def zero_regs_def words_regs_def)
  show "Bug \<in> set (f_events (do_page_fault odd_fault_env example_fault_regs 0 [] []))"
    by (simp add: do_page_fault_def example_fault VMALLOC_END_def PAGE_OFFSET_def Let_def odd_fault_env_def
        example_fault_env_def attempt.simps access_allowed_def EXC_INST_ACCESS_def EXC_LOAD_ACCESS_def
        EXC_STORE_ACCESS_def VM_FAULT_ERROR_def bug_def finish_def)
qed

theorem page_fault_lock_witness:
  "locks_run 0 (f_events (do_page_fault example_fault_env example_fault_regs 0 [] []))
    \<and> f_ending (do_page_fault odd_fault_env example_fault_regs 0 [] []) = Exited SIGSEGV
    \<and> held (f_events (do_page_fault odd_fault_env example_fault_regs 0 [] [])) = 1"
  using page_fault_lock [OF example_fault(1), of example_fault_regs 0 "[]" "[]"]
    page_fault_lock [OF odd_fault(1), of example_fault_regs 0 "[]" "[]"] odd_fault(2,3)
  by (simp add: example_fault bug_kills_def)

text \<open>
  A user access to the vmalloc range drops \<^verbatim>\<open>mmap_sem\<close> without having taken it: the
  first thing the handler does is the release on the path of \<^verbatim>\<open>bad_area\<close>.
\<close>

theorem vmalloc_user_fault_unlocks:
  assumes "user_mode regs" and "VMALLOC_START \<le> sbadaddr regs" and "sbadaddr regs \<le> VMALLOC_END"
  shows "f_events (do_page_fault env regs counter pgd init_pgd)
      = Up_read # map Trap (do_trap (traps env) SIGSEGV SEGV_MAPERR (sbadaddr regs))
    \<and> held (f_events (do_page_fault env regs counter pgd init_pgd)) = - 1"
  using assms by (simp add: do_page_fault_def vmalloc_fault_def bad_area_def finish_def Let_def)

theorem vmalloc_user_fault_unlocks_witness:
  "held (f_events (do_page_fault example_fault_env (example_fault_regs\<lparr>sbadaddr := 0xb8000000\<rparr>) 0 [] [])) = - 1"
  using vmalloc_user_fault_unlocks [of "example_fault_regs\<lparr>sbadaddr := 0xb8000000\<rparr>" example_fault_env 0 "[]" "[]"]
  by (simp add: example_fault VMALLOC_END_def PAGE_OFFSET_def)
    (simp add: user_mode_def example_fault_regs_def zero_regs_def words_regs_def)

text \<open>
  The handler is not starved by retries: whatever the memory core answers, it is called at
  most twice for one fault.
\<close>

theorem page_fault_two_attempts:
  "mm_calls (f_events (do_page_fault env regs counter pgd init_pgd)) \<le> 2"
  by (simp add: do_page_fault_def vmalloc_fault_def Let_def attempt_calls)

text \<open>
  A fault of the kernel itself never sends a signal and never calls the out-of-memory killer
  on the current task; when nothing in the memory core can resolve it, execution continues at the
  fixup of the faulting instruction.
\<close>

theorem page_fault_kernel_quiet:
  assumes "\<not> user_mode regs"
  shows "(\<forall>s c a. Trap (Force_sig s c a) \<notin> set (f_events (do_page_fault env regs counter pgd init_pgd)))
    \<and> Out_of_memory \<notin> set (f_events (do_page_fault env regs counter pgd init_pgd))"
proof -
  have "quiet (do_page_fault env regs counter pgd init_pgd)"
    using assms by (auto simp: do_page_fault_def vmalloc_fault_def Let_def
        intro!: quiet_exits attempt_quiet split: if_splits)
  then show ?thesis unfolding quiet_def by fastforce
qed

theorem page_fault_kernel_quiet_witness:
  "Out_of_memory \<notin> set (f_events (do_page_fault example_fault_env
     (example_fault_regs\<lparr>sstatus := 0x100\<rparr>) 0 [] []))"
  using page_fault_kernel_quiet [of "example_fault_regs\<lparr>sstatus := 0x100\<rparr>" example_fault_env 0 "[]" "[]"]
  by (simp add: user_mode_def SR_PS_def)

text \<open>
  A user access outside every area gets \<^verbatim>\<open>SIGSEGV\<close> with \<^verbatim>\<open>SEGV_MAPERR\<close> at the
  faulting address, one that an area forbids \<^verbatim>\<open>SEGV_ACCERR\<close>; but when the area is found at
  the first attempt and gone at the retry, the code is still \<^verbatim>\<open>SEGV_ACCERR\<close>.
\<close>

theorem page_fault_codes:
  assumes "user_mode regs" and "\<not> VMALLOC_START \<le> sbadaddr regs"
    and "has_mm env" and "\<not> faulthandler_disabled env"
  shows "(find_vma env 0 (sbadaddr regs) = None \<longrightarrow>
        segv_codes (do_page_fault env regs counter pgd init_pgd) (sbadaddr regs) = {SEGV_MAPERR})
    \<and> (\<forall>vma. find_vma env 0 (sbadaddr regs) = Some vma \<longrightarrow> vm_start vma \<le> sbadaddr regs \<longrightarrow>
        access_allowed (scause regs) vma = Some False \<longrightarrow>
        segv_codes (do_page_fault env regs counter pgd init_pgd) (sbadaddr regs) = {SEGV_ACCERR})
    \<and> (\<forall>vma. find_vma env 0 (sbadaddr regs) = Some vma \<longrightarrow> vm_start vma \<le> sbadaddr regs \<longrightarrow>
        access_allowed (scause regs) vma = Some True \<longrightarrow>
        (\<forall>fl. VM_FAULT_RETRY (handle_mm_fault env 0 vma (sbadaddr regs) fl) = FLAG_ALLOW_RETRY fl
          \<and> \<not> VM_FAULT_ERROR (handle_mm_fault env 0 vma (sbadaddr regs) fl)) \<longrightarrow>
        \<not> fatal_signal_pending env 0 \<longrightarrow> find_vma env 1 (sbadaddr regs) = None \<longrightarrow>
        segv_codes (do_page_fault env regs counter pgd init_pgd) (sbadaddr regs) = {SEGV_ACCERR})"
proof -
  let ?a = "sbadaddr regs"
  define flags where "flags = \<lparr>FLAG_ALLOW_RETRY = True, FLAG_KILLABLE = True, FLAG_USER = user_mode regs,
                  FLAG_WRITE = False, FLAG_TRIED = False\<rparr>"
  define ev :: "u32 fault_event list" where
    "ev = (if sstatus regs AND SR_PIE \<noteq> 0 then [Irq_enable] else []) @ [Perf_fault]"
  have r: "do_page_fault env regs counter pgd init_pgd
    = attempt env regs (scause regs) ?a counter pgd 0 flags SEGV_MAPERR ev"
    using assms(2-4) by (simp add: do_page_fault_def Let_def flags_def ev_def)
  have ev0: "\<forall>e \<in> set ev. \<forall>c. e \<noteq> Trap c" by (simp add: ev_def)
  have bad: "segv_codes (bad_area env regs ?a counter pgd code ev') ?a = {code}"
    if "\<forall>e \<in> set ev'. \<forall>c. e \<noteq> Trap c" for code ev'
    using assms(1) that
    by (auto simp: segv_codes_def bad_area_def finish_def do_trap_def do_trap_siginfo_def)
  note eq = attempt.simps [of env regs "scause regs" ?a counter pgd]
  show ?thesis
  proof (intro conjI allI impI)
    assume "find_vma env 0 ?a = None"
    then show "segv_codes (do_page_fault env regs counter pgd init_pgd) ?a = {SEGV_MAPERR}"
      using ev0 by (simp add: r attempt_unmapped bad)
  next
    fix vma assume v: "find_vma env 0 ?a = Some vma" "vm_start vma \<le> ?a"
    show "segv_codes (do_page_fault env regs counter pgd init_pgd) ?a = {SEGV_ACCERR}"
      if "access_allowed (scause regs) vma = Some False"
      using v that ev0 by (simp add: r eq [of 0] Let_def bad)
    show "segv_codes (do_page_fault env regs counter pgd init_pgd) ?a = {SEGV_ACCERR}"
      if "access_allowed (scause regs) vma = Some True"
        "\<forall>fl. VM_FAULT_RETRY (handle_mm_fault env 0 vma ?a fl) = FLAG_ALLOW_RETRY fl
          \<and> \<not> VM_FAULT_ERROR (handle_mm_fault env 0 vma ?a fl)"
        "\<not> fatal_signal_pending env 0" "find_vma env 1 ?a = None"
      using v that ev0 by (simp add: r eq [of 0] Let_def bad flags_def after_fault_def attempt_unmapped)
  qed
qed

theorem page_fault_codes_witness:
  "segv_codes (do_page_fault example_fault_env example_fault_regs 0 [] []) 0x10000 = {SEGV_ACCERR}"
proof -
  have "has_mm example_fault_env" "\<not> faulthandler_disabled example_fault_env"
    "\<not> (VMALLOC_START :: u32) \<le> sbadaddr example_fault_regs"
    by (simp_all add: example_fault) (simp_all add: example_fault_env_def)
  from page_fault_codes [OF example_fault(2) this(3,1,2), of 0 "[]" "[]"] show ?thesis
    by (simp add: example_fault example_fault_env_def access_allowed_def EXC_INST_ACCESS_def
        EXC_LOAD_ACCESS_def VM_FAULT_ERROR_def)
qed

end
