(* ===== verification/Atomics.thy ===== *)
theory Atomics
  imports Prelude "HOL-Library.Multiset"
begin

text \<open>
  Atomic counters, compare-and-exchange and bit operations: \<^verbatim>\<open>asm/atomic.h\<close>,
  \<^verbatim>\<open>asm/atomic64.h\<close>, \<^verbatim>\<open>asm/cmpxchg.h\<close> and \<^verbatim>\<open>asm/bitops.h\<close>. The memory word is passed
  in and its new value returned; an \<^verbatim>\<open>amo\<close> instruction is one step, the pair of the old and
  the new value. A loop of \<^verbatim>\<open>lr\<close> and \<^verbatim>\<open>sc\<close> runs against the rest of the machine: the list
  of its rounds has the value each \<^verbatim>\<open>lr\<close> reads and whether its \<^verbatim>\<open>sc\<close> would succeed.
\<close>

section \<open>Instructions\<close>

definition amoadd :: "'w::len word \<Rightarrow> 'w word \<Rightarrow> 'w word \<times> 'w word" where
  "amoadd x mem = (mem, mem + x)"

definition amoswap :: "'w::len word \<Rightarrow> 'w word \<Rightarrow> 'w word \<times> 'w word" where
  "amoswap x mem = (mem, x)"

definition amoand :: "'w::len word \<Rightarrow> 'w word \<Rightarrow> 'w word \<times> 'w word" where
  "amoand x mem = (mem, mem AND x)"

definition amoor :: "'w::len word \<Rightarrow> 'w word \<Rightarrow> 'w word \<times> 'w word" where
  "amoor x mem = (mem, mem OR x)"

definition amoxor :: "'w::len word \<Rightarrow> 'w word \<Rightarrow> 'w word \<times> 'w word" where
  "amoxor x mem = (mem, mem XOR x)"

text \<open>
  A loop of \<^verbatim>\<open>lr\<close> and \<^verbatim>\<open>sc\<close>: \<open>body\<close> maps the loaded value to the result and the value to
  store, or to no store when the loop is left. The outcome is the value read in the last round,
  the value in memory after it and the result; \<open>None\<close> means that the rounds ended first.
\<close>

fun lr_sc :: "('v \<Rightarrow> 'r \<times> 'v option) \<Rightarrow> ('v \<times> bool) list \<Rightarrow> ('v \<times> 'v \<times> 'r) option" where
  "lr_sc body [] = None"
| "lr_sc body ((v, succeeds) # rounds) =
    (case body v of
       (r, None) \<Rightarrow> Some (v, v, r)
     | (r, Some v') \<Rightarrow> if succeeds then Some (v, v', r) else lr_sc body rounds)"

section \<open>Counters\<close>

text \<open>
  The operations of \<^verbatim>\<open>atomic_t\<close> (32 bits) and \<^verbatim>\<open>atomic64_t\<close> (64 bits) have the same bodies
  with the \<^verbatim>\<open>.w\<close> and the \<^verbatim>\<open>.d\<close> instructions: each definition is of both.
\<close>

definition atomic_read :: "'w::len word \<Rightarrow> 'w word" where
  "atomic_read v = v"

definition atomic_set :: "'w::len word \<Rightarrow> 'w word \<Rightarrow> 'w word" where
  "atomic_set i v = i"

definition atomic_add :: "'w::len word \<Rightarrow> 'w word \<Rightarrow> 'w word" where
  "atomic_add i v = snd (amoadd i v)"

definition atomic_sub :: "'w::len word \<Rightarrow> 'w word \<Rightarrow> 'w word" where
  "atomic_sub i v = atomic_add (- i) v"

definition atomic_add_return :: "'w::len word \<Rightarrow> 'w word \<Rightarrow> 'w word \<times> 'w word" where
  "atomic_add_return i v = (let (c, v) = amoadd i v in (c + i, v))"

definition atomic_sub_return :: "'w::len word \<Rightarrow> 'w word \<Rightarrow> 'w word \<times> 'w word" where
  "atomic_sub_return i v = atomic_add_return (- i) v"

definition atomic_inc :: "'w::len word \<Rightarrow> 'w word" where
  "atomic_inc v = atomic_add 1 v"

definition atomic_dec :: "'w::len word \<Rightarrow> 'w word" where
  "atomic_dec v = atomic_add (- 1) v"

definition atomic_inc_return :: "'w::len word \<Rightarrow> 'w word \<times> 'w word" where
  "atomic_inc_return v = atomic_add_return 1 v"

definition atomic_dec_return :: "'w::len word \<Rightarrow> 'w word \<times> 'w word" where
  "atomic_dec_return v = atomic_sub_return 1 v"

definition atomic64_dec_return :: "'w::len word \<Rightarrow> 'w word \<times> 'w word" where
  "atomic64_dec_return v = atomic_add_return (- 1) v"

definition atomic_sub_and_test :: "'w::len word \<Rightarrow> 'w word \<Rightarrow> bool \<times> 'w word" where
  "atomic_sub_and_test i v = (let (c, v) = atomic_sub_return i v in (c = 0, v))"

definition atomic_inc_and_test :: "'w::len word \<Rightarrow> bool \<times> 'w word" where
  "atomic_inc_and_test v = (let (c, v) = atomic_inc_return v in (c = 0, v))"

definition atomic_dec_and_test :: "'w::len word \<Rightarrow> bool \<times> 'w word" where
  "atomic_dec_and_test v = (let (c, v) = atomic_dec_return v in (c = 0, v))"

definition atomic64_dec_and_test :: "'w::len word \<Rightarrow> bool \<times> 'w word" where
  "atomic64_dec_and_test v = (let (c, v) = atomic64_dec_return v in (c = 0, v))"

definition atomic_add_negative :: "'w::len word \<Rightarrow> 'w word \<Rightarrow> bool \<times> 'w word" where
  "atomic_add_negative i v = (let (c, v) = atomic_add_return i v in (c <s 0, v))"

definition atomic_xchg :: "'w::len word \<Rightarrow> 'w word \<Rightarrow> 'w word \<times> 'w word" where
  "atomic_xchg n v = amoswap n v"

definition atomic_and :: "'w::len word \<Rightarrow> 'w word \<Rightarrow> 'w word" where
  "atomic_and msk v = snd (amoand msk v)"

definition atomic_or :: "'w::len word \<Rightarrow> 'w word \<Rightarrow> 'w word" where
  "atomic_or msk v = snd (amoor msk v)"

definition atomic_xor :: "'w::len word \<Rightarrow> 'w word \<Rightarrow> 'w word" where
  "atomic_xor msk v = snd (amoxor msk v)"

section \<open>Loops\<close>

text \<open>\<^verbatim>\<open>__cmpxchg\<close>, and the operations that are it.\<close>

definition cmpxchg_body :: "'w::len word \<Rightarrow> 'w word \<Rightarrow> 'w word \<Rightarrow> 'w word \<times> 'w word option" where
  "cmpxchg_body old new ret = (ret, if ret \<noteq> old then None else Some new)"

definition cmpxchg ::
    "'w::len word \<Rightarrow> 'w word \<Rightarrow> ('w word \<times> bool) list \<Rightarrow> ('w word \<times> 'w word \<times> 'w word) option" where
  "cmpxchg old new rounds = lr_sc (cmpxchg_body old new) rounds"

definition atomic_cmpxchg ::
    "'w::len word \<Rightarrow> 'w word \<Rightarrow> ('w word \<times> bool) list \<Rightarrow> ('w word \<times> 'w word \<times> 'w word) option" where
  "atomic_cmpxchg old new rounds = cmpxchg old new rounds"

definition xchg :: "'w::len word \<Rightarrow> 'w word \<Rightarrow> 'w word \<times> 'w word" where
  "xchg new v = amoswap new v"

text \<open>\<^verbatim>\<open>__atomic_add_unless\<close> returns the old value.\<close>

definition atomic_add_unless_old ::
    "'w::len word \<Rightarrow> 'w word \<Rightarrow> ('w word \<times> bool) list \<Rightarrow> ('w word \<times> 'w word \<times> 'w word) option" where
  "atomic_add_unless_old a u rounds =
    lr_sc (\<lambda>prev. (prev, if prev = u then None else Some (prev + a))) rounds"

text \<open>
  \<^verbatim>\<open>atomic64_dec_if_positive\<close>: the store is \<^verbatim>\<open>sc.w\<close>, which writes the low half of the
  counter only.
\<close>

definition store_low :: "64 word \<Rightarrow> 64 word \<Rightarrow> 64 word" where
  "store_low new old = (old AND NOT (mask 32)) OR (new AND mask 32)"

definition atomic64_dec_if_positive ::
    "(64 word \<times> bool) list \<Rightarrow> (64 word \<times> 64 word \<times> 64 word) option" where
  "atomic64_dec_if_positive rounds =
    lr_sc (\<lambda>v. let prev = v + (- 1) in (prev, if prev <s 0 then None else Some (store_low prev v)))
      rounds"

text \<open>
  \<^verbatim>\<open>atomic64_add_unless\<close>: the register of \<^verbatim>\<open>rc\<close> is written by the \<^verbatim>\<open>sc.d\<close> only and is
  an output of the assembly, so on the path that leaves the loop early its value is the register's
  previous content \<open>junk\<close>; a successful \<^verbatim>\<open>sc.d\<close> writes 0, and after a failed one it is 1.
\<close>

fun atomic64_add_unless ::
    "64 word \<Rightarrow> 64 word \<Rightarrow> 32 word \<Rightarrow> (64 word \<times> bool) list \<Rightarrow> (64 word \<times> 64 word \<times> bool) option" where
  "atomic64_add_unless a u rc [] = None"
| "atomic64_add_unless a u rc ((tmp, succeeds) # rounds) =
    (if tmp = u then Some (tmp, tmp, rc = 0)
     else if succeeds then Some (tmp, tmp + a, True)
     else atomic64_add_unless a u 1 rounds)"

definition atomic64_inc_not_zero ::
    "32 word \<Rightarrow> (64 word \<times> bool) list \<Rightarrow> (64 word \<times> 64 word \<times> bool) option" where
  "atomic64_inc_not_zero junk rounds = atomic64_add_unless 1 0 junk rounds"

section \<open>Bits\<close>

text \<open>The word and the mask of a bit number, and the two shapes of operation on them.\<close>

definition BIT_WORD :: "'w::len itself \<Rightarrow> nat \<Rightarrow> nat" where
  "BIT_WORD _ nr = nr div LENGTH('w)"

definition BIT_MASK :: "nat \<Rightarrow> 'w::len word" where
  "BIT_MASK nr = push_bit (nr mod LENGTH('w)) 1"

definition test_and_op_bit ::
    "('w::len word \<Rightarrow> 'w word \<Rightarrow> 'w word \<times> 'w word) \<Rightarrow> ('w word \<Rightarrow> 'w word) \<Rightarrow> nat \<Rightarrow> 'w word list
      \<Rightarrow> bool \<times> 'w word list" where
  "test_and_op_bit amo md nr addr =
    (let msk = BIT_MASK nr; w = BIT_WORD TYPE('w) nr; (res, new) = amo (md msk) (addr ! w)
     in (res AND msk \<noteq> 0, addr[w := new]))"

definition op_bit ::
    "('w::len word \<Rightarrow> 'w word \<Rightarrow> 'w word \<times> 'w word) \<Rightarrow> ('w word \<Rightarrow> 'w word) \<Rightarrow> nat \<Rightarrow> 'w word list
      \<Rightarrow> 'w word list" where
  "op_bit amo md nr addr =
    (let w = BIT_WORD TYPE('w) nr in addr[w := snd (amo (md (BIT_MASK nr)) (addr ! w))])"

definition test_and_set_bit :: "nat \<Rightarrow> 'w::len word list \<Rightarrow> bool \<times> 'w word list" where
  "test_and_set_bit nr addr = test_and_op_bit amoor (\<lambda>x. x) nr addr"

definition test_and_clear_bit :: "nat \<Rightarrow> 'w::len word list \<Rightarrow> bool \<times> 'w word list" where
  "test_and_clear_bit nr addr = test_and_op_bit amoand (\<lambda>x. NOT x) nr addr"

definition test_and_change_bit :: "nat \<Rightarrow> 'w::len word list \<Rightarrow> bool \<times> 'w word list" where
  "test_and_change_bit nr addr = test_and_op_bit amoxor (\<lambda>x. x) nr addr"

definition set_bit_at :: "nat \<Rightarrow> 'w::len word list \<Rightarrow> 'w word list" where
  "set_bit_at nr addr = op_bit amoor (\<lambda>x. x) nr addr"

definition clear_bit_at :: "nat \<Rightarrow> 'w::len word list \<Rightarrow> 'w word list" where
  "clear_bit_at nr addr = op_bit amoand (\<lambda>x. NOT x) nr addr"

definition change_bit_at :: "nat \<Rightarrow> 'w::len word list \<Rightarrow> 'w word list" where
  "change_bit_at nr addr = op_bit amoxor (\<lambda>x. x) nr addr"

definition test_and_set_bit_lock :: "nat \<Rightarrow> 'w::len word list \<Rightarrow> bool \<times> 'w word list" where
  "test_and_set_bit_lock nr addr = test_and_set_bit nr addr"

definition clear_bit_unlock :: "nat \<Rightarrow> 'w::len word list \<Rightarrow> 'w word list" where
  "clear_bit_unlock nr addr = clear_bit_at nr addr"

text \<open>\<^verbatim>\<open>__clear_bit_unlock\<close>, which is atomic all the same.\<close>

definition clear_bit_unlock_plain :: "nat \<Rightarrow> 'w::len word list \<Rightarrow> 'w word list" where
  "clear_bit_unlock_plain nr addr = clear_bit_at nr addr"

text \<open>The bit of an array.\<close>

definition bit_at :: "'w::len word list \<Rightarrow> nat \<Rightarrow> bool" where
  "bit_at addr nr = bit (addr ! (nr div LENGTH('w))) (nr mod LENGTH('w))"

section \<open>Counters shared between harts\<close>

text \<open>The answers of a run of decrements.\<close>

fun dec_run :: "('w::len word \<Rightarrow> bool \<times> 'w word) \<Rightarrow> nat \<Rightarrow> 'w word \<Rightarrow> bool list \<times> 'w word" where
  "dec_run dec 0 v = ([], v)"
| "dec_run dec (Suc n) v =
    (let (zero, v) = dec v; (zs, v) = dec_run dec n v in (zero # zs, v))"

text \<open>What a counter promises its users, of either width.\<close>

locale counter =
  fixes add :: "'w::len word \<Rightarrow> 'w word \<Rightarrow> 'w word"
    and add_return :: "'w word \<Rightarrow> 'w word \<Rightarrow> 'w word \<times> 'w word"
    and dec_and_test :: "'w word \<Rightarrow> bool \<times> 'w word"
  assumes add: "add i v = v + i"
    and add_return: "add_return i v = (v + i, v + i)"
    and dec_and_test: "dec_and_test v = (v = 1, v - 1)"
begin

lemma fold_add: "fold add is v = v + sum_list is"
  by (induction "is" arbitrary: v) (simp_all add: add ac_simps)

lemma add_any_order: "mset is = mset js \<Longrightarrow> fold add is v = fold add js v"
  unfolding fold_add by (metis sum_mset_sum_list)

lemma dec_run_last:
  "0 < n \<Longrightarrow> n < 2 ^ LENGTH('w) \<Longrightarrow>
    dec_run dec_and_test n (of_nat n) = (replicate (n - 1) False @ [True], 0)"
proof (induction n)
  case (Suc n)
  show ?case
  proof (cases "n = 0")
    case False
    have "unat (of_nat (Suc n) :: 'w word) = Suc n"
      using Suc.prems by (simp only: unat_of_nat mod_less)
    then have "(of_nat (Suc n) :: 'w word) \<noteq> 1"
      using False by (metis One_nat_def old.nat.inject unsigned_1)
    moreover have "(of_nat (Suc n) :: 'w word) - 1 = of_nat n" by simp
    ultimately have "dec_and_test (of_nat (Suc n) :: 'w word) = (False, of_nat n)"
      by (simp only: dec_and_test)
    moreover have "replicate n False = False # replicate (n - 1) False"
      using False by (cases n) simp_all
    ultimately show ?thesis using Suc False by (simp del: of_nat_Suc)
  qed (use dec_and_test [of 1] in simp)
qed simp

end

lemmas counter_defs = atomic_add_def amoadd_def atomic_add_return_def atomic_sub_return_def
  atomic_dec_return_def atomic64_dec_return_def atomic_dec_and_test_def atomic64_dec_and_test_def

interpretation c32: counter "atomic_add :: u32 \<Rightarrow> _" atomic_add_return atomic_dec_and_test
  by unfold_locales (auto simp: counter_defs Let_def add_eq_0_iff)

interpretation c64: counter "atomic_add :: u64 \<Rightarrow> _" atomic_add_return atomic64_dec_and_test
  by unfold_locales (auto simp: counter_defs Let_def add_eq_0_iff)

section \<open>Loops of reservations\<close>

lemma lr_sc_Some:
  "lr_sc body rounds = Some (v, v', r) \<Longrightarrow>
    (\<exists>ok. (v, ok) \<in> set rounds \<and> body v = (r, if ok then snd (body v) else None)
      \<and> v' = (case snd (body v) of None \<Rightarrow> v | Some n \<Rightarrow> n))"
proof (induction rounds)
  case (Cons a rounds)
  then show ?case
    by (cases a) (force split: prod.splits option.splits if_splits)
qed simp

lemma lr_sc_finishes:
  "(\<exists>(v, ok) \<in> set rounds. ok \<or> snd (body v) = None) \<Longrightarrow> lr_sc body rounds \<noteq> None"
  by (induction rounds) (auto split: prod.splits option.splits)

section \<open>Arrays of bits\<close>

text \<open>What an operation on one bit of an array does: \<open>f\<close> to that bit, nothing to the others.\<close>

locale bit_update =
  fixes upd :: "nat \<Rightarrow> 'w::len word list \<Rightarrow> 'w word list" and f :: "bool \<Rightarrow> bool"
  assumes upd_length: "length (upd nr addr) = length addr"
    and upd_bit: "nr div LENGTH('w) < length addr \<Longrightarrow>
      bit_at (upd nr addr) m = (if m = nr then f (bit_at addr nr) else bit_at addr m)"
begin

lemma upd_same: "nr div LENGTH('w) < length addr \<Longrightarrow> bit_at (upd nr addr) nr = f (bit_at addr nr)"
  by (simp add: upd_bit)

lemma upd_other: "nr div LENGTH('w) < length addr \<Longrightarrow> m \<noteq> nr \<Longrightarrow> bit_at (upd nr addr) m = bit_at addr m"
  by (simp add: upd_bit)

lemma upd_twice:
  "(\<And>b. f (f b) = b) \<Longrightarrow> nr div LENGTH('w) < length addr \<Longrightarrow> bit_at (upd nr (upd nr addr)) m = bit_at addr m"
  by (simp add: upd_bit upd_length)

end

lemma bit_at_update:
  fixes addr :: "'w::len word list"
  assumes w: "nr div LENGTH('w) < length addr"
    and x: "\<And>i. bit x i \<longleftrightarrow> (if i = nr mod LENGTH('w) then f (bit (addr ! (nr div LENGTH('w))) i)
      else bit (addr ! (nr div LENGTH('w))) i)"
  shows "bit_at (addr[nr div LENGTH('w) := x]) m = (if m = nr then f (bit_at addr nr) else bit_at addr m)"
proof (cases "m div LENGTH('w) = nr div LENGTH('w)")
  case True
  then have "m mod LENGTH('w) = nr mod LENGTH('w) \<longleftrightarrow> m = nr"
    by (metis div_mult_mod_eq)
  then show ?thesis using w True by (auto simp: bit_at_def x)
next
  case False
  then show ?thesis by (auto simp: bit_at_def)
qed

lemma bit_mask_iff: "bit (BIT_MASK nr :: 'w::len word) i \<longleftrightarrow> i = nr mod LENGTH('w)"
  by (auto simp: BIT_MASK_def bit_exp_iff)

lemmas bit_op_defs = op_bit_def test_and_op_bit_def BIT_WORD_def amoor_def amoand_def amoxor_def Let_def

lemma op_bit_upd:
  assumes "\<And>nr x i. bit (snd (amo (md (BIT_MASK nr)) x)) i \<longleftrightarrow>
      (if i = nr mod LENGTH('w) then f (bit x i) else bit (x :: 'w::len word) i)"
  shows "bit_update (op_bit amo md) f"
proof
  show "length (op_bit amo md nr addr) = length addr" for nr and addr :: "'w word list"
    by (simp add: op_bit_def Let_def)
  show "bit_at (op_bit amo md nr addr) m = (if m = nr then f (bit_at addr nr) else bit_at addr m)"
    if "nr div LENGTH('w) < length addr" for nr m and addr :: "'w word list"
    unfolding op_bit_def Let_def BIT_WORD_def using that assms by (rule bit_at_update)
qed

lemma set_bit_upd: "bit_update (set_bit_at :: nat \<Rightarrow> 'w::len word list \<Rightarrow> _) (\<lambda>_. True)"
  unfolding set_bit_at_def
  by (rule op_bit_upd) (auto simp: amoor_def bit_or_iff bit_mask_iff)

lemma clear_bit_upd: "bit_update (clear_bit_at :: nat \<Rightarrow> 'w::len word list \<Rightarrow> _) (\<lambda>_. False)"
  unfolding clear_bit_at_def
  by (rule op_bit_upd) (auto simp: amoand_def bit_and_iff bit_not_iff bit_mask_iff dest: bit_imp_le_length)

lemma change_bit_upd: "bit_update (change_bit_at :: nat \<Rightarrow> 'w::len word list \<Rightarrow> _) Not"
  unfolding change_bit_at_def
  by (rule op_bit_upd) (auto simp: amoxor_def bit_xor_iff bit_mask_iff)

interpretation sb: bit_update set_bit_at "\<lambda>_. True" by (rule set_bit_upd)
interpretation cb: bit_update clear_bit_at "\<lambda>_. False" by (rule clear_bit_upd)
interpretation xb: bit_update change_bit_at Not by (rule change_bit_upd)

lemma and_mask_bit: "x AND BIT_MASK nr \<noteq> (0 :: 'w::len word) \<longleftrightarrow> bit x (nr mod LENGTH('w))"
  using bit_imp_le_length by (auto simp: bit_eq_iff [of _ 0] bit_and_iff bit_mask_iff)

lemma test_and_ops:
  "test_and_set_bit nr addr = (bit_at addr nr, set_bit_at nr addr)"
  "test_and_clear_bit nr addr = (bit_at addr nr, clear_bit_at nr addr)"
  "test_and_change_bit nr addr = (bit_at addr nr, change_bit_at nr addr)"
  by (simp_all add: test_and_set_bit_def test_and_clear_bit_def test_and_change_bit_def
      set_bit_at_def clear_bit_at_def change_bit_at_def bit_op_defs and_mask_bit bit_at_def)

section \<open>Properties\<close>

text \<open>
  Harts that add to one counter never lose an addition: in whatever order their
  \<^verbatim>\<open>atomic_add\<close> operations are interleaved, the counter ends with the same value, its initial
  value plus all the amounts, at both widths.
\<close>

theorem atomic_add_interleaving:
  fixes xs ys :: "u32 list" and ks ls :: "u64 list"
  assumes "mset xs = mset ys" and "mset ks = mset ls"
  shows "fold atomic_add xs v = fold atomic_add ys v \<and> fold atomic_add ys v = v + sum_list ys
    \<and> fold atomic_add ks w = fold atomic_add ls w \<and> fold atomic_add ls w = w + sum_list ls"
  using c32.add_any_order [OF assms(1), of v] c64.add_any_order [OF assms(2), of w]
    c32.fold_add [of ys v] c64.fold_add [of ls w] by simp

theorem atomic_add_interleaving_witness:
  "fold atomic_add [1, - 1, 5] (7 :: u32) = fold atomic_add [5, 1, - 1] 7"
  using atomic_add_interleaving [of "[1, - 1, 5]" "[5, 1, - 1]" "[]" "[]" 7 0] by simp

text \<open>
  A reference count of \<open>n\<close> that is dropped \<open>n\<close> times is seen to reach zero exactly once, by
  the last \<^verbatim>\<open>atomic_dec_and_test\<close>.
\<close>

theorem refcount_last_drop:
  assumes "0 < n" and "n < 2 ^ 32"
  shows "dec_run (atomic_dec_and_test :: u32 \<Rightarrow> _) n (of_nat n) = (replicate (n - 1) False @ [True], 0)"
  using c32.dec_run_last [of n] assms by simp

theorem refcount_last_drop_witness:
  "dec_run (atomic_dec_and_test :: u32 \<Rightarrow> _) 3 3 = ([False, False, True], 0)"
  proof -
  have "replicate 2 False = [False, False]" by (simp add: numeral_2_eq_2)
  then show ?thesis using refcount_last_drop [of 3] by simp
qed

text \<open>
  \<^verbatim>\<open>cmpxchg\<close> is atomic whatever the rest of the machine does between its rounds: it
  returns a value that was in memory, and in the same step the memory becomes the new value if
  that value was the expected one and stays otherwise; it finishes at the first round whose store
  succeeds or whose value differs.
\<close>

theorem cmpxchg_atomic:
  assumes "cmpxchg old new rounds = Some (v, v', ret)"
  shows "ret = v \<and> v' = (if ret = old then new else v) \<and> v \<in> fst ` set rounds
    \<and> ((\<exists>(x, ok) \<in> set rs. ok \<or> x \<noteq> old) \<longrightarrow> cmpxchg old new rs \<noteq> None)"
proof (intro conjI impI)
  obtain ok where ok: "(v, ok) \<in> set rounds"
    "cmpxchg_body old new v = (ret, if ok then snd (cmpxchg_body old new v) else None)"
    "v' = (case snd (cmpxchg_body old new v) of None \<Rightarrow> v | Some n \<Rightarrow> n)"
    using lr_sc_Some [of "cmpxchg_body old new" rounds v v' ret] assms unfolding cmpxchg_def by blast
  show ret: "ret = v" using ok(2) by (simp add: cmpxchg_body_def)
  show "v' = (if ret = old then new else v)" using ok(3) by (simp add: ret cmpxchg_body_def)
  show "v \<in> fst ` set rounds" using ok(1) by force
  assume "\<exists>(x, ok) \<in> set rs. ok \<or> x \<noteq> old"
  then obtain x ok where "(x, ok) \<in> set rs" "ok \<or> x \<noteq> old" by blast
  then have "\<exists>(x, ok) \<in> set rs. ok \<or> snd (cmpxchg_body old new x) = None"
    by (intro bexI [of _ "(x, ok)"]) (auto simp: cmpxchg_body_def)
  then show "cmpxchg old new rs \<noteq> None"
    unfolding cmpxchg_def by (rule lr_sc_finishes)
qed

theorem cmpxchg_atomic_witness:
  "cmpxchg (1 :: u32) 9 [(1, False), (1, True)] = Some (1, 9, 1) \<and> (9 :: u32) = (if (1 :: u32) = 1 then 9 else 1)"
proof -
  have c: "cmpxchg (1 :: u32) 9 [(1, False), (1, True)] = Some (1, 9, 1)"
    by (simp add: cmpxchg_def cmpxchg_body_def)
  show ?thesis using cmpxchg_atomic [OF c] c by simp
qed

text \<open>
  \<^verbatim>\<open>atomic64_dec_if_positive\<close> stores 32 of the 64 bits: a positive counter whose low
  half is 0 does not go down by one but up by \<open>2 ^ 32 - 1\<close>, while the returned value is the
  decremented one.
\<close>

theorem dec_if_positive_low_half:
  fixes v :: u64
  assumes "0 <s v" and "take_bit 32 v = 0"
  shows "atomic64_dec_if_positive [(v, True)] = Some (v, v + (2 ^ 32 - 1), v - 1)"
proof -
  have pos: "0 < sint v" using assms(1) by (simp add: word_sless_alt)
  then have "sint (v - 1) = sint v - 1"
    using sint_lt [of v] by (simp add: sint_word_diff signed_take_bit_int_eq_self)
  then have nonneg: "\<not> v - 1 <s 0" using pos by (simp add: word_sless_alt)
  have low: "unat v mod 2 ^ 32 = 0"
    using assms(2) by (simp add: unat_eq_word unat_take_bit_word)
  have "v \<noteq> 0" using pos by auto
  then have "unat v \<noteq> 0" by (simp add: unat_eq_0)
  with low obtain q where "unat v = Suc q * 2 ^ 32" by (metis dvdE gr0_conv_Suc mod_0_imp_dvd mult.commute mult_0_right not_gr0)
  then have "unat v - 1 = 2 ^ 32 - 1 + q * 2 ^ 32" by simp
  then have "(unat v - 1) mod 2 ^ 32 = 2 ^ 32 - 1" by (simp only: mod_mult_self1) simp
  then have "unat (take_bit 32 (v - 1)) = unat (mask 32 :: u64)"
    using \<open>v \<noteq> 0\<close> by (simp add: unat_take_bit_word unat_minus_one mask_eq_exp_minus_1)
  then have "(v - 1) AND mask 32 = mask 32"
    by (simp only: unat_eq_word take_bit_eq_mask)
  moreover have high: "v AND mask 32 = 0" using assms(2) by (simp add: take_bit_eq_mask)
  have "(v AND mask 32) OR (v AND NOT (mask 32)) = v"
    by (simp only: bit.conj_disj_distrib [symmetric] bit.disj_cancel_right and.right_neutral)
  then have "v AND NOT (mask 32) = v" by (simp only: high or.left_neutral)
  moreover have "v OR mask 32 = v + mask 32"
    using high by (simp add: disjunctive_add_eq_or)
  ultimately have "store_low (v - 1) v = v + (2 ^ 32 - 1)"
    by (simp add: store_low_def) (simp add: mask_eq_exp_minus_1)
  then show ?thesis using nonneg by (simp add: atomic64_dec_if_positive_def Let_def)
qed

theorem dec_if_positive_low_half_witness:
  "atomic64_dec_if_positive [(0x100000000, True)] = Some (0x100000000, 0x1FFFFFFFF, 0xFFFFFFFF)"
  using dec_if_positive_low_half [of "0x100000000"] by (simp add: word_sless_alt take_bit_eq_mod)

text \<open>
  \<^verbatim>\<open>atomic64_add_unless\<close> adds exactly when the value differs from \<open>u\<close> and then
  returns true, but when it does not add, its result is what the register of \<^verbatim>\<open>rc\<close> happened to
  hold: with a zero there it returns true as well.
\<close>

theorem add_unless_result:
  "atomic64_add_unless a u junk [(v, True)]
    = Some (v, if v = u then v else v + a, if v = u then junk = 0 else True)"
  by simp

text \<open>
  The bit operations act on one bit of an array of words: setting, clearing and changing
  bit \<open>nr\<close> leaves every other bit of every word alone, and the test variants return the bit's
  old value.
\<close>

theorem bit_operations_local:
  fixes addr :: "u32 list"
  assumes "nr div 32 < length addr"
  shows "bit_at (set_bit_at nr addr) m = (m = nr \<or> bit_at addr m)
    \<and> bit_at (clear_bit_at nr addr) m = (m \<noteq> nr \<and> bit_at addr m)
    \<and> bit_at (change_bit_at nr addr) m = (bit_at addr m \<noteq> (m = nr))
    \<and> fst (test_and_set_bit nr addr) = bit_at addr nr
    \<and> snd (test_and_clear_bit nr addr) = clear_bit_at nr addr"
  using assms by (auto simp: sb.upd_bit cb.upd_bit xb.upd_bit test_and_ops)

theorem bit_operations_local_witness:
  "bit_at (set_bit_at 40 [0, 0 :: u32]) 40 \<and> \<not> bit_at (set_bit_at 40 [0, 0 :: u32]) 8"
  using bit_operations_local [of 40 "[0, 0]" 40] bit_operations_local [of 40 "[0, 0]" 8]
  by (simp add: bit_at_def)

end
