(* ===== verification/Spinlock.thy ===== *)
theory Spinlock
  imports Atomics
begin

text \<open>
  The locks of \<^verbatim>\<open>asm/spinlock.h\<close>, run by any number of harts on one lock word: every
  instruction that reads or writes the word is one step of a relation, and the steps of the harts
  interleave freely. A reservation of \<^verbatim>\<open>lr\<close> is lost when any hart writes the word, and a
  \<^verbatim>\<open>sc\<close> may fail without a reason. The value of the word is sequentially consistent here;
  the acquire and release bits of the instructions are not modelled.
\<close>

section \<open>The spin lock\<close>

definition arch_spin_is_locked :: "u32 \<Rightarrow> bool" where
  "arch_spin_is_locked lock \<longleftrightarrow> lock \<noteq> 0"

definition arch_spin_unlock :: "u32 \<Rightarrow> u32" where
  "arch_spin_unlock lock = snd (amoswap 0 lock)"

definition arch_spin_trylock :: "u32 \<Rightarrow> bool \<times> u32" where
  "arch_spin_trylock lock = (let (busy, lock) = amoswap 1 lock in (busy = 0, lock))"

text \<open>
  Where a hart is in \<^verbatim>\<open>arch_spin_lock\<close>: in front of the test, in front of the
  \<^verbatim>\<open>amoswap\<close>, or behind the loop and holding the lock.
\<close>

datatype spin_pc = Out | Test | Swap | Held

record spin_state =
  lock_word :: u32
  spin_pcs :: "nat \<Rightarrow> spin_pc"

definition spin_at :: "spin_state \<Rightarrow> nat \<Rightarrow> spin_pc \<Rightarrow> u32 \<Rightarrow> spin_state" where
  "spin_at s h pc lock = s\<lparr>lock_word := lock, spin_pcs := (spin_pcs s)(h := pc)\<rparr>"

inductive spin_step :: "spin_state \<Rightarrow> spin_state \<Rightarrow> bool" where
  lock_call: "spin_pcs s h = Out \<Longrightarrow> spin_step s (spin_at s h Test (lock_word s))"
| lock_test: "spin_pcs s h = Test \<Longrightarrow>
    spin_step s (spin_at s h (if arch_spin_is_locked (lock_word s) then Test else Swap) (lock_word s))"
| lock_swap: "spin_pcs s h = Swap \<Longrightarrow> arch_spin_trylock (lock_word s) = (got, lock) \<Longrightarrow>
    spin_step s (spin_at s h (if got then Held else Test) lock)"
| trylock: "spin_pcs s h = Out \<Longrightarrow> arch_spin_trylock (lock_word s) = (got, lock) \<Longrightarrow>
    spin_step s (spin_at s h (if got then Held else Out) lock)"
| unlock: "spin_pcs s h = Held \<Longrightarrow> spin_step s (spin_at s h Out (arch_spin_unlock (lock_word s)))"

inductive_cases spin_stepE: "spin_step s t"

definition spin_init :: "spin_state \<Rightarrow> bool" where
  "spin_init s \<longleftrightarrow> lock_word s = 0 \<and> spin_pcs s = (\<lambda>_. Out)"

text \<open>The word is 0 or 1, and it is 1 exactly when one hart holds the lock.\<close>

definition holders :: "spin_state \<Rightarrow> nat set" where
  "holders s = {h. spin_pcs s h = Held}"

definition spin_inv :: "spin_state \<Rightarrow> bool" where
  "spin_inv s \<longleftrightarrow> lock_word s = 0 \<and> holders s = {} \<or> lock_word s = 1 \<and> (\<exists>h. holders s = {h})"

lemmas spin_defs = arch_spin_is_locked_def arch_spin_trylock_def arch_spin_unlock_def amoswap_def
  spin_inv_def

lemma spin_at_simps [simp]:
  "lock_word (spin_at s h pc v) = v"
  "spin_pcs (spin_at s h pc v) = (spin_pcs s)(h := pc)"
  "holders (spin_at s h pc v) = (if pc = Held then insert h (holders s) else holders s - {h})"
  by (auto simp: spin_at_def holders_def)

lemma spin_inv_move:
  assumes "spin_inv s" and "spin_pcs s h \<noteq> Held" and "pc \<noteq> Held"
  shows "spin_inv (spin_at s h pc (lock_word s))"
proof -
  have "holders s - {h} = holders s" using assms(2) by (auto simp: holders_def)
  then show ?thesis using assms(1,3) by (simp add: spin_inv_def)
qed

lemma spin_inv_try:
  assumes "spin_inv s" and "spin_pcs s h \<noteq> Held" and "pc \<noteq> Held"
    and "arch_spin_trylock (lock_word s) = (got, lock)"
  shows "spin_inv (spin_at s h (if got then Held else pc) lock)"
proof -
  have "holders s - {h} = holders s" using assms(2) by (auto simp: holders_def)
  moreover have "got \<longleftrightarrow> lock_word s = 0" and "lock = 1"
    using assms(4) by (simp_all add: arch_spin_trylock_def amoswap_def)
  ultimately show ?thesis using assms(1,3) by (cases got) (auto simp: spin_inv_def)
qed

lemma spin_inv_release:
  assumes "spin_inv s" and "spin_pcs s h = Held"
  shows "spin_inv (spin_at s h Out (arch_spin_unlock (lock_word s)))"
proof -
  have "h \<in> holders s" using assms(2) by (simp add: holders_def)
  then have "holders s - {h} = {}" using assms(1) by (auto simp: spin_inv_def)
  then show ?thesis by (simp add: spin_inv_def arch_spin_unlock_def amoswap_def)
qed

lemma spin_step_inv:
  assumes "spin_step s t" and "spin_inv s"
  shows "spin_inv t"
  using assms
  by cases (simp_all add: spin_inv_move spin_inv_try spin_inv_release)

interpretation spin: stepping spin_init spin_step spin_inv
  proof
  show "spin_inv s" if "spin_init s" for s
    using that by (simp add: spin_init_def spin_inv_def holders_def)
qed (rule spin_step_inv)

text \<open>A hart that spins while no hart holds the lock takes it in at most two steps of its own.\<close>

lemma spin_progress_step:
  assumes "spin_inv s" and "spin_pcs s h = Test \<or> spin_pcs s h = Swap" and "\<forall>h. spin_pcs s h \<noteq> Held"
  shows "\<exists>t. spin_step\<^sup>*\<^sup>* s t \<and> spin_pcs t h = Held"
proof -
  have lock: "lock_word s = 0"
    using assms(1,3) by (auto simp: spin_inv_def holders_def)
  let ?s = "spin_at s h Swap (lock_word s)"
  have "spin_step\<^sup>*\<^sup>* s ?s"
  proof (cases "spin_pcs s h = Swap")
    case True
    then have "?s = s" by (simp add: spin_at_def fun_upd_idem)
    then show ?thesis by simp
  next
    case False
    then have "spin_step s (spin_at s h (if arch_spin_is_locked (lock_word s) then Test else Swap) (lock_word s))"
      using assms(2) by (intro lock_test) auto
    then show ?thesis using lock by (simp add: arch_spin_is_locked_def r_into_rtranclp)
  qed
  moreover have "spin_step ?s (spin_at ?s h (if True then Held else Test) 1)"
    by (rule lock_swap) (simp_all add: spin_defs lock)
  ultimately show ?thesis
    by (intro exI [of _ "spin_at ?s h Held 1"]) (auto simp: spin_at_def)
qed

text \<open>
  C27: mutual exclusion: however the harts interleave, at most one holds the spin lock, the lock is
  reported as locked exactly while one does, and when none does, every hart that spins can take
  it.
\<close>

theorem spin_lock_exclusive:
  assumes "spin_init s" and "spin_step\<^sup>*\<^sup>* s t"
  shows "(spin_pcs t h = Held \<and> spin_pcs t k = Held \<longrightarrow> h = k)
    \<and> (arch_spin_is_locked (lock_word t) \<longleftrightarrow> (\<exists>h. spin_pcs t h = Held))
    \<and> (\<not> arch_spin_is_locked (lock_word t) \<and> (spin_pcs t h = Test \<or> spin_pcs t h = Swap) \<longrightarrow>
        (\<exists>u. spin_step\<^sup>*\<^sup>* t u \<and> spin_pcs u h = Held))"
proof -
  have inv: "spin_inv t" by (rule spin.reachable_inv [OF assms])
  have "spin_pcs t h = Held \<longleftrightarrow> h \<in> holders t" for h by (simp add: holders_def)
  then have "spin_pcs t h = Held \<Longrightarrow> spin_pcs t k = Held \<Longrightarrow> h = k"
    and locked: "arch_spin_is_locked (lock_word t) \<longleftrightarrow> (\<exists>h. spin_pcs t h = Held)"
    using inv by (auto simp: spin_inv_def arch_spin_is_locked_def)
  then show ?thesis using spin_progress_step [OF inv] by auto
qed

definition spin_start :: spin_state where
  "spin_start = \<lparr>lock_word = 0, spin_pcs = \<lambda>_. Out\<rparr>"

lemma spin_example: "spin_step\<^sup>*\<^sup>* spin_start (spin_at spin_start 0 Held 1)"
proof -
  have "spin_step spin_start (spin_at spin_start 0 (if True then Held else Out) 1)"
    by (rule trylock) (simp_all add: spin_defs spin_start_def)
  then show ?thesis by simp
qed

theorem spin_lock_exclusive_witness:
  "arch_spin_is_locked (lock_word (spin_at spin_start 0 Held 1))
    \<and> (\<exists>h. spin_pcs (spin_at spin_start 0 Held 1) h = Held)"
  using spin_lock_exclusive [OF _ spin_example, of 0 5]
  by (simp add: spin_init_def spin_start_def spin_at_def arch_spin_is_locked_def split: if_splits)

section \<open>The reader-writer lock\<close>

definition arch_read_can_lock :: "u32 \<Rightarrow> bool" where
  "arch_read_can_lock lock \<longleftrightarrow> lock \<ge> 0"

definition arch_write_can_lock :: "u32 \<Rightarrow> bool" where
  "arch_write_can_lock lock \<longleftrightarrow> lock = 0"

definition arch_read_unlock :: "u32 \<Rightarrow> u32" where
  "arch_read_unlock lock = snd (amoadd (- 1) lock)"

definition arch_write_unlock :: "u32 \<Rightarrow> u32" where
  "arch_write_unlock lock = snd (amoswap 0 lock)"

text \<open>
  The four loops: whether the value that \<^verbatim>\<open>lr\<close> read sends the hart back (or out, for the
  \<^verbatim>\<open>trylock\<close> variants), and the value for the \<^verbatim>\<open>sc\<close>.
\<close>

datatype rw_op = Read_lock | Write_lock | Read_trylock | Write_trylock

fun is_read :: "rw_op \<Rightarrow> bool" where
  "is_read Read_lock = True"
| "is_read Read_trylock = True"
| "is_read Write_lock = False"
| "is_read Write_trylock = False"

fun is_try :: "rw_op \<Rightarrow> bool" where
  "is_try Read_lock = False"
| "is_try Read_trylock = True"
| "is_try Write_lock = False"
| "is_try Write_trylock = True"

definition rw_blocked :: "rw_op \<Rightarrow> u32 \<Rightarrow> bool" where
  "rw_blocked op v = (if is_read op then v <s 0 else v \<noteq> 0)"

definition rw_next :: "rw_op \<Rightarrow> u32 \<Rightarrow> u32" where
  "rw_next op v = (if is_read op then v + 1 else - 1)"

datatype rw_pc = Outside | Load rw_op | Store rw_op u32 | Reading | Writing

definition rw_held :: "rw_op \<Rightarrow> rw_pc" where
  "rw_held op = (if is_read op then Reading else Writing)"

record rw_state =
  rw_word :: u32
  rw_pcs :: "nat \<Rightarrow> rw_pc"
  reserved :: "nat \<Rightarrow> bool"

text \<open>A step that leaves the word alone, and one that writes it and so ends all reservations.\<close>

definition rw_move :: "rw_state \<Rightarrow> nat \<Rightarrow> rw_pc \<Rightarrow> bool \<Rightarrow> rw_state" where
  "rw_move s h pc resv = s\<lparr>rw_pcs := (rw_pcs s)(h := pc), reserved := (reserved s)(h := resv)\<rparr>"

definition rw_write :: "rw_state \<Rightarrow> nat \<Rightarrow> rw_pc \<Rightarrow> u32 \<Rightarrow> rw_state" where
  "rw_write s h pc v = s\<lparr>rw_word := v, rw_pcs := (rw_pcs s)(h := pc), reserved := (\<lambda>_. False)\<rparr>"

text \<open>
  The result of a \<^verbatim>\<open>trylock\<close> is \<^verbatim>\<open>!busy\<close>, where \<^verbatim>\<open>busy\<close> is the value that was
  loaded when the loop is left early.
\<close>

inductive rw_step :: "nat \<Rightarrow> rw_state \<Rightarrow> rw_state \<Rightarrow> bool" for N where
  rw_call: "h < N \<Longrightarrow> rw_pcs s h = Outside \<Longrightarrow> rw_step N s (rw_move s h (Load op) (reserved s h))"
| rw_blocked: "h < N \<Longrightarrow> rw_pcs s h = Load op \<Longrightarrow> rw_blocked op (rw_word s) \<Longrightarrow>
    rw_step N s (rw_move s h
      (if is_try op then if rw_word s = 0 then rw_held op else Outside else Load op) True)"
| rw_load: "h < N \<Longrightarrow> rw_pcs s h = Load op \<Longrightarrow> \<not> rw_blocked op (rw_word s) \<Longrightarrow>
    rw_step N s (rw_move s h (Store op (rw_next op (rw_word s))) True)"
| rw_store: "h < N \<Longrightarrow> rw_pcs s h = Store op v \<Longrightarrow> reserved s h \<Longrightarrow>
    rw_step N s (rw_write s h (rw_held op) v)"
| rw_retry: "h < N \<Longrightarrow> rw_pcs s h = Store op v \<Longrightarrow> rw_step N s (rw_move s h (Load op) False)"
| rw_read_unlock: "h < N \<Longrightarrow> rw_pcs s h = Reading \<Longrightarrow>
    rw_step N s (rw_write s h Outside (arch_read_unlock (rw_word s)))"
| rw_write_unlock: "h < N \<Longrightarrow> rw_pcs s h = Writing \<Longrightarrow>
    rw_step N s (rw_write s h Outside (arch_write_unlock (rw_word s)))"

inductive_cases rw_stepE: "rw_step N s t"

definition rw_init :: "nat \<Rightarrow> rw_state \<Rightarrow> bool" where
  "rw_init N s \<longleftrightarrow> N < 2 ^ 31 \<and> rw_word s = 0 \<and> rw_pcs s = (\<lambda>_. Outside) \<and> reserved s = (\<lambda>_. False)"

definition readers :: "nat \<Rightarrow> rw_state \<Rightarrow> nat set" where
  "readers N s = {h. h < N \<and> rw_pcs s h = Reading}"

definition writers :: "nat \<Rightarrow> rw_state \<Rightarrow> nat set" where
  "writers N s = {h. h < N \<and> rw_pcs s h = Writing}"

text \<open>
  The word counts the readers or is \<open>-1\<close> for the one writer, and a hart that still has its
  reservation holds the value that follows the present one.
\<close>

definition rw_word_ok :: "nat \<Rightarrow> rw_state \<Rightarrow> bool" where
  "rw_word_ok N s \<longleftrightarrow>
     writers N s = {} \<and> rw_word s = of_nat (card (readers N s))
     \<or> (\<exists>h. writers N s = {h}) \<and> readers N s = {} \<and> rw_word s = - 1"

definition rw_store_ok :: "rw_state \<Rightarrow> bool" where
  "rw_store_ok s \<longleftrightarrow> (\<forall>h op v. rw_pcs s h = Store op v \<longrightarrow> reserved s h \<longrightarrow>
     \<not> rw_blocked op (rw_word s) \<and> v = rw_next op (rw_word s))"

definition rw_inv :: "nat \<Rightarrow> rw_state \<Rightarrow> bool" where
  "rw_inv N s \<longleftrightarrow> N < 2 ^ 31 \<and> rw_word_ok N s \<and> rw_store_ok s"

lemma rw_sets_simps [simp]:
  "rw_word (rw_move s h pc r) = rw_word s"
  "rw_word (rw_write s h pc v) = v"
  "readers N (rw_move s h pc r) = (if h < N \<and> pc = Reading then insert h (readers N s) else readers N s - {h})"
  "writers N (rw_move s h pc r) = (if h < N \<and> pc = Writing then insert h (writers N s) else writers N s - {h})"
  "readers N (rw_write s h pc v) = (if h < N \<and> pc = Reading then insert h (readers N s) else readers N s - {h})"
  "writers N (rw_write s h pc v) = (if h < N \<and> pc = Writing then insert h (writers N s) else writers N s - {h})"
  by (auto simp: rw_move_def rw_write_def readers_def writers_def)

lemma readers_card: "card (readers N s) \<le> N" and readers_finite [simp]: "finite (readers N s)"
  using card_mono [of "{..<N}" "readers N s"] finite_subset [of "readers N s" "{..<N}"]
  by (auto simp: readers_def)

lemma count_not_negative:
  assumes "n < 2 ^ 31"
  shows "\<not> (of_nat n :: u32) <s 0"
proof -
  have "signed_take_bit 31 (int n) = int n"
    using assms by (intro signed_take_bit_int_eq_self) simp_all
  then have "sint (of_nat n :: u32) = int n" using assms
    by (simp add: sint_uint unsigned_of_nat take_bit_nat_eq_self)
  then show ?thesis by (simp add: word_sless_alt)
qed

lemma count_zero: "n < 2 ^ 31 \<Longrightarrow> (of_nat n :: u32) = 0 \<longleftrightarrow> n = 0"
  by (auto simp: word_of_nat_eq_0_iff dest: dvd_imp_le)

text \<open>The value a loop may replace says which harts hold the lock.\<close>

lemma unblocked_no_writer:
  assumes "rw_word_ok N s" and "N < 2 ^ 31" and "\<not> rw_blocked op (rw_word s)"
  shows "writers N s = {} \<and> rw_word s = of_nat (card (readers N s)) \<and> (\<not> is_read op \<longrightarrow> readers N s = {})"
proof -
  have small: "card (readers N s) < 2 ^ 31" using readers_card [of N s] assms(2) by simp
  have "(- 1 :: u32) <s 0" by (simp add: word_sless_alt)
  then show ?thesis
    using assms(1,3) count_zero [OF small] by (auto simp: rw_word_ok_def rw_blocked_def split: if_splits)
qed

lemma rw_store_ok_move:
  assumes "rw_store_ok s" and "\<And>op v. pc = Store op v \<Longrightarrow> r \<Longrightarrow> \<not> rw_blocked op (rw_word s) \<and> v = rw_next op (rw_word s)"
  shows "rw_store_ok (rw_move s h pc r)"
  using assms by (auto simp: rw_store_ok_def rw_move_def)

lemma rw_store_ok_write [simp]: "rw_store_ok (rw_write s h pc v)"
  by (simp add: rw_store_ok_def rw_write_def)

lemma rw_word_ok_move:
  assumes "rw_word_ok N s" and "rw_pcs s h \<noteq> Reading" and "rw_pcs s h \<noteq> Writing"
    and "pc \<noteq> Reading" and "pc \<noteq> Writing"
  shows "rw_word_ok N (rw_move s h pc r)"
proof -
  have "readers N s - {h} = readers N s" and "writers N s - {h} = writers N s"
    using assms by (auto simp: readers_def writers_def)
  then show ?thesis using assms by (simp add: rw_word_ok_def)
qed

lemma rw_word_ok_take:
  assumes "rw_word_ok N s" and "N < 2 ^ 31" and "h < N" and "rw_pcs s h = Store op v"
    and "\<not> rw_blocked op (rw_word s)" and "v = rw_next op (rw_word s)"
  shows "rw_word_ok N (rw_write s h (rw_held op) v)"
proof -
  have sets: "writers N s = {}" "rw_word s = of_nat (card (readers N s))" "\<not> is_read op \<Longrightarrow> readers N s = {}"
    using unblocked_no_writer [OF assms(1,2,5)] by auto
  have "h \<notin> readers N s" using assms(4) by (simp add: readers_def)
  then show ?thesis
    using sets assms(3,6) by (cases "is_read op") (simp_all add: rw_word_ok_def rw_held_def rw_next_def)
qed

lemma rw_word_ok_read_unlock:
  assumes "rw_word_ok N s" and "h < N" and "rw_pcs s h = Reading"
  shows "rw_word_ok N (rw_write s h Outside (arch_read_unlock (rw_word s)))"
proof -
  have h: "h \<in> readers N s" using assms by (simp add: readers_def)
  then have sets: "writers N s = {}" "rw_word s = of_nat (card (readers N s))"
    using assms(1) by (auto simp: rw_word_ok_def)
  have "card (readers N s) = Suc (card (readers N s - {h}))"
    using h by (simp only: readers_finite card_Suc_Diff1)
  then have "rw_word s + - 1 = of_nat (card (readers N s - {h}))" by (simp add: sets(2))
  then show ?thesis using sets(1) by (simp add: rw_word_ok_def arch_read_unlock_def amoadd_def)
qed

lemma rw_word_ok_write_unlock:
  assumes "rw_word_ok N s" and "h < N" and "rw_pcs s h = Writing"
  shows "rw_word_ok N (rw_write s h Outside (arch_write_unlock (rw_word s)))"
proof -
  have "h \<in> writers N s" using assms by (simp add: writers_def)
  then show ?thesis
    using assms(1) by (auto simp: rw_word_ok_def arch_write_unlock_def amoswap_def)
qed

text \<open>A loop that is left early has a non-zero \<^verbatim>\<open>busy\<close>, so it reports failure.\<close>

lemma blocked_nonzero: "rw_blocked op v \<Longrightarrow> v \<noteq> 0"
  by (auto simp: rw_blocked_def split: if_splits)

lemma rw_step_inv:
  assumes "rw_step N s t" and "rw_inv N s"
  shows "rw_inv N t"
  using assms(1)
proof cases
  case (rw_call h op)
  then show ?thesis using assms(2) by (auto simp: rw_inv_def intro!: rw_word_ok_move rw_store_ok_move)
next
  case (rw_blocked h op)
  then show ?thesis using assms(2) blocked_nonzero [of op "rw_word s"]
    by (auto simp: rw_inv_def intro!: rw_word_ok_move rw_store_ok_move)
next
  case (rw_load h op)
  then show ?thesis using assms(2) by (auto simp: rw_inv_def intro!: rw_word_ok_move rw_store_ok_move)
next
  case (rw_store h op v)
  then have "\<not> rw_blocked op (rw_word s)" and "v = rw_next op (rw_word s)"
    using assms(2) by (auto simp: rw_inv_def rw_store_ok_def)
  then show ?thesis using rw_store assms(2) by (simp add: rw_inv_def rw_word_ok_take)
next
  case (rw_retry h op v)
  then show ?thesis using assms(2) by (auto simp: rw_inv_def intro!: rw_word_ok_move rw_store_ok_move)
next
  case (rw_read_unlock h)
  then show ?thesis using assms(2) by (simp add: rw_inv_def rw_word_ok_read_unlock)
next
  case (rw_write_unlock h)
  then show ?thesis using assms(2) by (simp add: rw_inv_def rw_word_ok_write_unlock)
qed

interpretation rw: stepping "rw_init N" "rw_step N" "rw_inv N"
proof
  show "rw_inv N s" if "rw_init N s" for s
    using that by (simp add: rw_init_def rw_inv_def rw_word_ok_def rw_store_ok_def readers_def writers_def)
qed (rule rw_step_inv)

text \<open>
  C28: the reader-writer lock with fewer than \<open>2 ^ 31\<close> harts: however the harts interleave and
  however often a \<^verbatim>\<open>sc\<close> fails, a writer excludes every other holder, and the lock word is
  the number of readers, or \<open>-1\<close> while there is a writer, so
  \<^verbatim>\<open>arch_write_can_lock\<close> reports exactly the free lock; but \<^verbatim>\<open>arch_read_can_lock\<close>, which compares an unsigned
  number with 0, is true even then.
\<close>

theorem rw_lock_exclusive:
  assumes "rw_init N s" and "(rw_step N)\<^sup>*\<^sup>* s t"
  shows "(h \<in> writers N t \<and> k \<in> readers N t \<union> writers N t \<longrightarrow> k = h)
    \<and> rw_word t = (if writers N t = {} then of_nat (card (readers N t)) else - 1)
    \<and> (arch_write_can_lock (rw_word t) \<longleftrightarrow> readers N t = {} \<and> writers N t = {})
    \<and> arch_read_can_lock (rw_word t)"
proof -
  have ok: "rw_word_ok N t" and N: "N < 2 ^ 31"
    using rw.reachable_inv [OF assms] by (simp_all add: rw_inv_def)
  have small: "card (readers N t) < 2 ^ 31" using readers_card [of N t] N by simp
  show ?thesis
    using ok count_zero [OF small] by (auto simp: rw_word_ok_def arch_write_can_lock_def arch_read_can_lock_def)
qed

definition rw_start :: rw_state where
  "rw_start = \<lparr>rw_word = 0, rw_pcs = \<lambda>_. Outside, reserved = \<lambda>_. False\<rparr>"

text \<open>Hart 1 of two takes the lock for writing.\<close>

definition rw_written :: rw_state where
  "rw_written = rw_write (rw_move (rw_move rw_start 1 (Load Write_lock) False) 1 (Store Write_lock (- 1)) True)
    1 Writing (- 1)"

lemma rw_example: "(rw_step 2)\<^sup>*\<^sup>* rw_start rw_written"
proof -
  let ?a = "rw_move rw_start 1 (Load Write_lock) (reserved rw_start 1)"
  let ?b = "rw_move ?a 1 (Store Write_lock (rw_next Write_lock (rw_word ?a))) True"
  have "rw_step 2 rw_start ?a" by (rule rw_call) (simp_all add: rw_start_def)
  moreover have "rw_step 2 ?a ?b"
    by (rule rw_load) (simp_all add: rw_start_def rw_move_def rw_blocked_def)
  moreover have "rw_step 2 ?b (rw_write ?b 1 (rw_held Write_lock) (rw_next Write_lock (rw_word ?a)))"
    by (rule rw_store) (simp_all add: rw_move_def)
  ultimately have "(rw_step 2)\<^sup>*\<^sup>* rw_start (rw_write ?b 1 (rw_held Write_lock) (rw_next Write_lock (rw_word ?a)))"
    by (meson r_into_rtranclp rtranclp_trans)
  then show ?thesis by (simp add: rw_written_def rw_next_def rw_held_def rw_start_def)
qed

theorem rw_lock_exclusive_witness:
  "\<not> arch_write_can_lock (rw_word rw_written) \<and> arch_read_can_lock (rw_word rw_written)
    \<and> rw_word rw_written = - 1"
  using rw_lock_exclusive [OF _ rw_example, of 1 0]
  by (simp add: rw_init_def rw_start_def rw_written_def arch_write_can_lock_def)

end
