(* ===== verification/Signal.thy ===== *)
theory Signal
  imports Regs
begin

text \<open>
  Signal delivery: \<^verbatim>\<open>kernel/signal.c\<close>, with the part of the system call path of
  \<^verbatim>\<open>kernel/entry.S\<close> that it relies on. The frame on the user stack is an object at its
  address; every copy from or to the user may fault, which an oracle decides, and a copy of the
  registers from the user that faults has replaced the first \<open>words_read\<close> of them. The stacks of a
  task (\<^verbatim>\<open>on_sig_stack\<close>, \<^verbatim>\<open>sigsp\<close>), the page of \<^verbatim>\<open>rt_sigreturn\<close> and the error
  numbers belong to the kernel proper and are parameters.
\<close>

section \<open>State\<close>

record ('a, 'f, 's, 'i) rt_sigframe =
  fr_info :: 'i
  uc_flags :: 'a
  uc_link :: 'a
  uc_stack :: 'a
  sc_regs :: "'a list"
  sc_fpregs :: 'f
  uc_sigmask :: 's

datatype field = F_info | F_flags | F_link | F_stack | F_regs | F_fpregs | F_sigmask

record 'a errnos =
  ERESTARTSYS :: 'a
  ERESTARTNOINTR :: 'a
  ERESTARTNOHAND :: 'a
  ERESTART_RESTARTBLOCK :: 'a
  EINTR :: 'a
  NR_restart_syscall :: 'a

record 'a signal_env =
  access_ok :: "'a \<Rightarrow> bool"
  frame_size :: 'a
  info_offset :: 'a
  uc_offset :: 'a
  on_sig_stack :: "'a \<Rightarrow> bool"
  sigsp :: "'a \<Rightarrow> 'a"
  write_faults :: "field \<Rightarrow> bool"
  read_faults :: "field \<Rightarrow> bool"
  words_read :: nat
  rt_sigreturn_addr :: 'a
  errs :: "'a errnos"

text \<open>What the kernel proper is told, in this order.\<close>

datatype 's sig_event =
  Setup_done bool
| Set_blocked 's
| Restore_altstack
| Force_sigsegv
| Restore_saved_sigmask
| No_restart_block
| Clear_notify_resume
| Notify_resume

record ('a, 'f, 's, 'i) sig_state =
  current_task :: "('a, 'f) task"
  fpu :: 'f
  user_frames :: "'a \<Rightarrow> ('a, 'f, 's, 'i) rt_sigframe"
  sig_events :: "'s sig_event list"

record ('a, 'i) ksignal =
  ks_sig :: 'a
  ks_handler :: 'a
  ks_restart :: bool
  ks_info :: 'i

definition regs_of :: "('a, 'f, 's, 'i) sig_state \<Rightarrow> 'a pt_regs" where
  "regs_of st = pt_regs_of (current_task st)"

definition set_regs :: "'a pt_regs \<Rightarrow> ('a, 'f, 's, 'i) sig_state \<Rightarrow> ('a, 'f, 's, 'i) sig_state" where
  "set_regs regs st = st\<lparr>current_task := (current_task st)\<lparr>pt_regs_of := regs\<rparr>\<rparr>"

definition emit :: "'s sig_event \<Rightarrow> ('a, 'f, 's, 'i) sig_state \<Rightarrow> ('a, 'f, 's, 'i) sig_state" where
  "emit e st = st\<lparr>sig_events := sig_events st @ [e]\<rparr>"

text \<open>
  A copy to a field of the frame at \<open>addr\<close>: whether it failed, and the state behind it. A
  copy that faults leaves the field as it was.
\<close>

definition put_frame ::
    "'a signal_env \<Rightarrow> 'a \<Rightarrow> field
      \<Rightarrow> (('a, 'f, 's, 'i) rt_sigframe \<Rightarrow> ('a, 'f, 's, 'i) rt_sigframe)
      \<Rightarrow> ('a, 'f, 's, 'i) sig_state \<Rightarrow> bool \<times> ('a, 'f, 's, 'i) sig_state" where
  "put_frame env addr fld upd st =
    (if write_faults env fld then (True, st)
     else (False, st\<lparr>user_frames := (user_frames st)(addr := upd (user_frames st addr))\<rparr>))"

section \<open>Delivery\<close>

definition get_sigframe :: "'w::len word signal_env \<Rightarrow> 'w word pt_regs \<Rightarrow> 'w word" where
  "get_sigframe env regs =
    (let stack = sp regs
     in if on_sig_stack env stack \<and> \<not> on_sig_stack env (stack - frame_size env) then - 1
        else (sigsp env stack - frame_size env) AND NOT 0xf)"

definition setup_sigcontext ::
    "'w::len word signal_env \<Rightarrow> 'w word \<Rightarrow> ('w word, 'f, 's, 'i) sig_state
      \<Rightarrow> bool \<times> ('w word, 'f, 's, 'i) sig_state" where
  "setup_sigcontext env addr st =
    (let (err, st) = put_frame env addr F_regs (sc_regs_update (\<lambda>_. take 32 (regs_words (regs_of st)))) st;
         st = st\<lparr>current_task := fstate_save (fpu st) (current_task st)\<rparr>;
         (err', st) = put_frame env addr F_fpregs (sc_fpregs_update (\<lambda>_. fstate (current_task st))) st
     in (err \<or> err', st))"

definition setup_rt_frame ::
    "'w::len word signal_env \<Rightarrow> ('w word, 'i) ksignal \<Rightarrow> 's \<Rightarrow> ('w word, 'f, 's, 'i) sig_state
      \<Rightarrow> bool \<times> ('w word, 'f, 's, 'i) sig_state" where
  "setup_rt_frame env ksig oldset st =
    (let frame = get_sigframe env (regs_of st)
     in if \<not> access_ok env frame then (True, st)
        else
          (let (e1, st) = put_frame env frame F_info (fr_info_update (\<lambda>_. ks_info ksig)) st;
               (e2, st) = put_frame env frame F_flags (uc_flags_update (\<lambda>_. 0)) st;
               (e3, st) = put_frame env frame F_link (uc_link_update (\<lambda>_. 0)) st;
               (e4, st) = put_frame env frame F_stack (uc_stack_update (\<lambda>_. sp (regs_of st))) st;
               (e5, st) = setup_sigcontext env frame st;
               (e6, st) = put_frame env frame F_sigmask (uc_sigmask_update (\<lambda>_. oldset)) st
           in if e1 \<or> e2 \<or> e3 \<or> e4 \<or> e5 \<or> e6 then (True, st)
              else (False, set_regs ((regs_of st)
                \<lparr>ra := rt_sigreturn_addr env, sepc := ks_handler ksig, sp := frame, a0 := ks_sig ksig,
                  a1 := frame + info_offset env, a2 := frame + uc_offset env\<rparr>) st)))"

text \<open>The two switches on a system call's result.\<close>

definition restart_for_handler :: "'w::len word errnos \<Rightarrow> bool \<Rightarrow> 'w word pt_regs \<Rightarrow> 'w word pt_regs" where
  "restart_for_handler e sa_restart regs =
    (if scause regs = EXC_SYSCALL then
       if a0 regs = - ERESTART_RESTARTBLOCK e \<or> a0 regs = - ERESTARTNOHAND e then regs\<lparr>a0 := - EINTR e\<rparr>
       else if a0 regs = - ERESTARTSYS e then
         (if \<not> sa_restart then regs\<lparr>a0 := - EINTR e\<rparr> else regs\<lparr>sepc := sepc regs - 4\<rparr>)
       else if a0 regs = - ERESTARTNOINTR e then regs\<lparr>sepc := sepc regs - 4\<rparr>
       else regs
     else regs)"

definition restart_no_handler :: "'w::len word errnos \<Rightarrow> 'w word pt_regs \<Rightarrow> 'w word pt_regs" where
  "restart_no_handler e regs =
    (if scause regs = EXC_SYSCALL then
       if a0 regs = - ERESTARTNOHAND e \<or> a0 regs = - ERESTARTSYS e \<or> a0 regs = - ERESTARTNOINTR e
       then regs\<lparr>sepc := sepc regs - 4\<rparr>
       else if a0 regs = - ERESTART_RESTARTBLOCK e
       then regs\<lparr>a7 := NR_restart_syscall e, sepc := sepc regs - 4\<rparr>
       else regs
     else regs)"

definition handle_signal ::
    "'w::len word signal_env \<Rightarrow> ('w word, 'i) ksignal \<Rightarrow> 's \<Rightarrow> ('w word, 'f, 's, 'i) sig_state
      \<Rightarrow> ('w word, 'f, 's, 'i) sig_state" where
  "handle_signal env ksig oldset st =
    (let st = set_regs (restart_for_handler (errs env) (ks_restart ksig) (regs_of st)) st;
         (ret, st) = setup_rt_frame env ksig oldset st
     in emit (Setup_done ret) st)"

text \<open>\<open>pending\<close> is the answer of \<^verbatim>\<open>get_signal\<close>.\<close>

definition do_signal ::
    "'w::len word signal_env \<Rightarrow> ('w word, 'i) ksignal option \<Rightarrow> 's \<Rightarrow> ('w word, 'f, 's, 'i) sig_state
      \<Rightarrow> ('w word, 'f, 's, 'i) sig_state" where
  "do_signal env pending oldset st =
    (case pending of
       Some ksig \<Rightarrow> handle_signal env ksig oldset st
     | None \<Rightarrow> emit Restore_saved_sigmask (set_regs (restart_no_handler (errs env) (regs_of st)) st))"

definition do_notify_resume ::
    "'w::len word signal_env \<Rightarrow> bool \<Rightarrow> bool \<Rightarrow> ('w word, 'i) ksignal option \<Rightarrow> 's
      \<Rightarrow> ('w word, 'f, 's, 'i) sig_state \<Rightarrow> ('w word, 'f, 's, 'i) sig_state" where
  "do_notify_resume env sigpending notify pending oldset st =
    (let st = (if sigpending then do_signal env pending oldset st else st)
     in if notify then emit Notify_resume (emit Clear_notify_resume st) else st)"

section \<open>Return\<close>

definition restore_sigcontext ::
    "'w::len word signal_env \<Rightarrow> ('w word, 'f, 's, 'i) rt_sigframe \<Rightarrow> ('w word, 'f, 's, 'i) sig_state
      \<Rightarrow> bool \<times> ('w word, 'f, 's, 'i) sig_state" where
  "restore_sigcontext env frame st =
    (let e1 = read_faults env F_regs; e2 = read_faults env F_fpregs;
         n = (if e1 then min 32 (words_read env) else 32);
         st = set_regs (words_regs (take n (sc_regs frame) @ drop n (regs_words (regs_of st)))) st;
         st = (if e2 then st
               else st\<lparr>current_task := (current_task st)\<lparr>fstate := sc_fpregs frame\<rparr>\<rparr>)
     in if \<not> (e1 \<or> e2)
        then (let (f, t) = fstate_restore (fpu st) (current_task st)
              in (False, st\<lparr>fpu := f, current_task := t\<rparr>))
        else (True, st))"

definition badframe :: "('w::len word, 'f, 's, 'i) sig_state \<Rightarrow> 'w word \<times> ('w word, 'f, 's, 'i) sig_state" where
  "badframe st = (0, emit Force_sigsegv st)"

definition rt_sigreturn ::
    "'w::len word signal_env \<Rightarrow> ('w word, 'f, 's, 'i) sig_state
      \<Rightarrow> 'w word \<times> ('w word, 'f, 's, 'i) sig_state" where
  "rt_sigreturn env st =
    (let st = emit No_restart_block st; addr = sp (regs_of st); frame = user_frames st addr
     in if \<not> access_ok env addr then badframe st
        else if read_faults env F_sigmask then badframe st
        else
          (let st = emit (Set_blocked (uc_sigmask frame)) st; (err, st) = restore_sigcontext env frame st
           in if err then badframe st
              else if read_faults env F_stack then badframe st
              else (let st = emit Restore_altstack st in (a0 (regs_of st), st))))"

section \<open>The system call path\<close>

text \<open>
  \<^verbatim>\<open>handle_syscall\<close> of \<^verbatim>\<open>entry.S\<close> moves the saved program counter behind the
  \<^verbatim>\<open>scall\<close> instruction, and \<^verbatim>\<open>ret_from_syscall\<close> stores the result into the saved
  \<^verbatim>\<open>a0\<close>.
\<close>

definition syscall_enter :: "'w::len word pt_regs \<Rightarrow> 'w word pt_regs" where
  "syscall_enter regs = regs\<lparr>sepc := sepc regs + 4\<rparr>"

definition syscall_leave :: "'w::len word \<Rightarrow> 'w word pt_regs \<Rightarrow> 'w word pt_regs" where
  "syscall_leave ret regs = regs\<lparr>a0 := ret\<rparr>"

section \<open>Lemmas\<close>

lemma regs_of_simps [simp]:
  "regs_of (set_regs r st) = r"
  "regs_of (emit e st) = regs_of st"
  "regs_of (st\<lparr>user_frames := m\<rparr>) = regs_of st"
  "regs_of (st\<lparr>fpu := f\<rparr>) = regs_of st"
  by (simp_all add: regs_of_def set_regs_def emit_def)

lemma sig_events_emit [simp]: "sig_events (emit e st) = sig_events st @ [e]"
  by (simp add: emit_def)

lemma frame_simps [simp]:
  "user_frames (set_regs r st) = user_frames st" "fpu (set_regs r st) = fpu st"
  "user_frames (emit e st) = user_frames st" "fpu (emit e st) = fpu st"
  "current_task (emit e st) = current_task st"
  "fstate (current_task (set_regs r st)) = fstate (current_task st)"
  by (simp_all add: set_regs_def emit_def)

lemma fstate_save_regs:
  "pt_regs_of (fstate_save f t) = pt_regs_of t
    \<or> pt_regs_of (fstate_save f t) = fstate_clean (pt_regs_of t)"
  by (simp add: fstate_save_def asm_fstate_save_def)

lemma fstate_clean_a0 [simp]: "a0 (fstate_clean r) = a0 r"
  by (simp add: fstate_clean_def)

lemma user_words_clean: "take 32 (regs_words (fstate_clean r)) = take 32 (regs_words r)"
  by (simp add: regs_words_def fstate_clean_def)

text \<open>A frame that was written completely.\<close>

lemma setup_rt_frame_ok:
  assumes ok: "access_ok env (get_sigframe env (regs_of st))" and faults: "\<And>f. \<not> write_faults env f"
  defines "addr \<equiv> get_sigframe env (regs_of st)"
    and "t \<equiv> fstate_save (fpu st) (current_task st)"
  shows "setup_rt_frame env ksig oldset st = (False, set_regs ((pt_regs_of t)
      \<lparr>ra := rt_sigreturn_addr env, sepc := ks_handler ksig, sp := addr, a0 := ks_sig ksig,
        a1 := addr + info_offset env, a2 := addr + uc_offset env\<rparr>)
      (st\<lparr>current_task := t, user_frames := (user_frames st)(addr :=
        \<lparr>fr_info = ks_info ksig, uc_flags = 0, uc_link = 0, uc_stack = sp (regs_of st),
          sc_regs = take 32 (regs_words (regs_of st)), sc_fpregs = fstate t, uc_sigmask = oldset\<rparr>)\<rparr>))"
  using ok faults
  by (cases "user_frames st addr")
    (simp add: setup_rt_frame_def setup_sigcontext_def put_frame_def Let_def addr_def t_def regs_of_def)

lemma put_frame_simps [simp]:
  "fst (put_frame env addr fld upd st) = write_faults env fld"
  "current_task (snd (put_frame env addr fld upd st)) = current_task st"
  "regs_of (snd (put_frame env addr fld upd st)) = regs_of st"
  by (simp_all add: put_frame_def)

lemma setup_sigcontext_simps [simp]:
  "fst (setup_sigcontext env addr st) \<longleftrightarrow> write_faults env F_regs \<or> write_faults env F_fpregs"
  "take 32 (regs_words (regs_of (snd (setup_sigcontext env addr st)))) = take 32 (regs_words (regs_of st))"
proof -
  show "fst (setup_sigcontext env addr st) \<longleftrightarrow> write_faults env F_regs \<or> write_faults env F_fpregs"
    by (simp add: setup_sigcontext_def case_prod_beta Let_def)
  let ?t = "fstate_save (fpu (snd (put_frame env addr F_regs
    (sc_regs_update (\<lambda>_. take 32 (regs_words (regs_of st)))) st))) (current_task st)"
  have "take 32 (regs_words (pt_regs_of ?t)) = take 32 (regs_words (pt_regs_of (current_task st)))"
    using fstate_save_regs user_words_clean by metis
  then show "take 32 (regs_words (regs_of (snd (setup_sigcontext env addr st)))) = take 32 (regs_words (regs_of st))"
    by (simp add: setup_sigcontext_def case_prod_beta Let_def) (simp add: regs_of_def)
qed

lemma setup_rt_frame_fails:
  assumes "\<not> access_ok env (get_sigframe env (regs_of st)) \<or> (\<exists>f. write_faults env f)"
  shows "fst (setup_rt_frame env ksig oldset st)
    \<and> take 32 (regs_words (regs_of (snd (setup_rt_frame env ksig oldset st)))) = take 32 (regs_words (regs_of st))"
proof -
  have "(\<exists>f. write_faults env f) \<longleftrightarrow> write_faults env F_info \<or> write_faults env F_flags \<or> write_faults env F_link
      \<or> write_faults env F_stack \<or> write_faults env F_regs \<or> write_faults env F_fpregs \<or> write_faults env F_sigmask"
    by (metis field.exhaust)
  then show ?thesis
    using assms by (simp add: setup_rt_frame_def case_prod_beta Let_def)
qed

section \<open>Properties\<close>

text \<open>A task with one interrupted system call, and a machine whose copies succeed.\<close>

definition example_env :: "u32 signal_env" where
  "example_env = \<lparr>access_ok = (\<lambda>a. a < 0x9fffffff), frame_size = 0x200, info_offset = 0, uc_offset = 0x80,
    on_sig_stack = (\<lambda>_. False), sigsp = (\<lambda>sp. sp), write_faults = (\<lambda>_. False), read_faults = (\<lambda>_. False),
    words_read = 0, rt_sigreturn_addr = 0x800,
    errs = \<lparr>ERESTARTSYS = 512, ERESTARTNOINTR = 513, ERESTARTNOHAND = 514, ERESTART_RESTARTBLOCK = 516,
      EINTR = 4, NR_restart_syscall = 128\<rparr>\<rparr>"

definition example_regs :: "u32 pt_regs" where
  "example_regs = words_regs ([0x1000, 0x2000, 0x7fff0f8] @ replicate 7 0 @ [0xfffffe00]
    @ replicate 21 0 @ [SR_FS_DIRTY, 0, EXC_SYSCALL])"

definition example_state :: "(u32, nat, nat, nat) sig_state" where
  "example_state = \<lparr>current_task = \<lparr>thread_ra = 0, thread_sp = 0, thread_s = replicate 12 0,
      fstate = 0, pt_regs_of = example_regs, pt_regs_addr = 0, kthread = False\<rparr>, fpu = 7,
    user_frames = (\<lambda>_. \<lparr>fr_info = 0, uc_flags = 0, uc_link = 0, uc_stack = 0, sc_regs = replicate 32 1,
      sc_fpregs = 3, uc_sigmask = 0\<rparr>), sig_events = []\<rparr>"

lemma example_simps:
  "regs_of example_state = example_regs" "sp example_regs = 0x7fff0f8" "sstatus example_regs = SR_FS_DIRTY"
  "scause example_regs = EXC_SYSCALL" "access_ok example_env a = (a < 0x9fffffff)"
  "write_faults example_env f = False" "read_faults example_env f = False"
  "get_sigframe example_env example_regs = 0x7ffeef0"
  by (simp_all add: example_state_def regs_of_def example_env_def get_sigframe_def Let_def example_regs_def
      words_regs_def numeral_eq_Suc)

text \<open>Reading a frame back.\<close>

lemma user_words:
  assumes "length words = 32"
  shows "take 32 (regs_words (words_regs (words @ drop 32 (regs_words r)))) = words"
    and "sstatus (words_regs (words @ drop 32 (regs_words r))) = sstatus r"
    and "scause (words_regs (words @ drop 32 (regs_words r))) = scause r"
  using assms by (simp_all add: regs_words_regs) (simp_all add: words_regs_def nth_append regs_words_def)

lemma restore_sigcontext_ok:
  fixes s :: "('w::len word, 'f, 's, 'i) sig_state"
  assumes "\<And>f. \<not> read_faults env f" and "length (sc_regs fr) = 32"
  defines "r \<equiv> restore_sigcontext env fr s"
  shows "fst r = False" and "sig_events (snd r) = sig_events s" and "fpu (snd r) = fpu s"
    and "fstate (current_task (snd r)) = sc_fpregs fr" and "take 32 (regs_words (regs_of (snd r))) = sc_regs fr"
proof -
  let ?r = "words_regs (sc_regs fr @ drop 32 (regs_words (regs_of s)))"
  have "regs_of (snd r) = ?r \<or> regs_of (snd r) = fstate_clean ?r"
    using assms(1,2) by (simp add: r_def restore_sigcontext_def fstate_restore_def set_regs_def regs_of_def Let_def)
  then show "take 32 (regs_words (regs_of (snd r))) = sc_regs fr"
    using user_words(1) [OF assms(2), of "regs_of s"] user_words_clean by metis
qed (use assms(1,2) in \<open>simp_all add: r_def restore_sigcontext_def fstate_restore_def asm_fstate_restore_def set_regs_def Let_def\<close>)

lemma rt_sigreturn_ok:
  fixes st :: "('w::len word, 'f, 's, 'i) sig_state"
  assumes fr: "user_frames st (sp (regs_of st)) = fr"
    and "access_ok env (sp (regs_of st))" and "\<And>f. \<not> read_faults env f" and "length (sc_regs fr) = 32"
  shows "take 32 (regs_words (regs_of (snd (rt_sigreturn env st)))) = sc_regs fr
    \<and> fst (rt_sigreturn env st) = a0 (regs_of (snd (rt_sigreturn env st)))
    \<and> fstate (current_task (snd (rt_sigreturn env st))) = sc_fpregs fr \<and> fpu (snd (rt_sigreturn env st)) = fpu st
    \<and> Set_blocked (uc_sigmask fr) \<in> set (sig_events (snd (rt_sigreturn env st)))"
proof -
  let ?s = "emit (Set_blocked (uc_sigmask fr)) (emit No_restart_block st)"
  have run: "rt_sigreturn env st = (let s = emit Restore_altstack (snd (restore_sigcontext env fr ?s)) in (a0 (regs_of s), s))"
    using restore_sigcontext_ok(1) [OF assms(3,4), of ?s] assms(1-3)
    by (simp add: rt_sigreturn_def Let_def case_prod_beta)
  show ?thesis
    unfolding run using restore_sigcontext_ok(2-5) [OF assms(3,4), of ?s] by (simp add: Let_def)
qed

text \<open>What a return from a signal may not touch.\<close>

definition kept_apart_fs :: "u32 pt_regs \<Rightarrow> u32 pt_regs \<Rightarrow> bool" where
  "kept_apart_fs r r' \<longleftrightarrow> sstatus r' AND NOT SR_FS = sstatus r AND NOT SR_FS \<and> scause r' = scause r"

lemma kept_apart_fs_clean: "kept_apart_fs r r' \<Longrightarrow> kept_apart_fs r (fstate_clean r')"
  by (simp add: kept_apart_fs_def sstatus_clean bit.conj_disj_distrib2 SR_FS_def SR_FS_CLEAN_def)
    (simp add: fstate_clean_def)

lemma user_words_kept:
  assumes "length words = 32" "n \<le> 32"
  shows "sstatus (words_regs (take n words @ drop n (regs_words r))) = sstatus r"
    and "scause (words_regs (take n words @ drop n (regs_words r))) = scause r"
proof -
  have "take n words @ drop n (regs_words r) = (take n words @ drop n (take 32 (regs_words r))) @ drop 32 (regs_words r)"
    using assms(2) by (simp add: drop_take) (metis add_diff_inverse_nat append_take_drop_id drop_drop not_less add.commute)
  then show "sstatus (words_regs (take n words @ drop n (regs_words r))) = sstatus r"
    and "scause (words_regs (take n words @ drop n (regs_words r))) = scause r"
    using user_words(2,3) [of "take n words @ drop n (take 32 (regs_words r))" r] assms
    by (simp_all add: regs_words_length min_absorb2)
qed

lemma restore_keeps:
  assumes "length (sc_regs fr) = 32"
  shows "kept_apart_fs (regs_of s) (regs_of (snd (restore_sigcontext env fr s)))"
proof -
  let ?n = "if read_faults env F_regs then min 32 (words_read env) else 32"
  let ?r = "words_regs (take ?n (sc_regs fr) @ drop ?n (regs_words (regs_of s)))"
  have r: "kept_apart_fs (regs_of s) ?r"
    using user_words_kept [OF assms, of ?n "regs_of s"] by (simp add: kept_apart_fs_def)
  have "regs_of (snd (restore_sigcontext env fr s)) = ?r
      \<or> regs_of (snd (restore_sigcontext env fr s)) = fstate_clean ?r"
    by (simp add: restore_sigcontext_def Let_def fstate_restore_def)
      (simp add: regs_of_def set_regs_def)
  then show ?thesis using r kept_apart_fs_clean by metis
qed

lemma restore_sigcontext_fails [simp]:
  "fst (restore_sigcontext env fr s) \<longleftrightarrow> read_faults env F_regs \<or> read_faults env F_fpregs"
  by (simp add: restore_sigcontext_def Let_def case_prod_beta)

lemma sigreturn_kills:
  assumes "\<not> access_ok env (sp (regs_of st)) \<or> read_faults env F_sigmask \<or> read_faults env F_regs
    \<or> read_faults env F_fpregs \<or> read_faults env F_stack"
  shows "Force_sigsegv \<in> set (sig_events (snd (rt_sigreturn env st)))"
  using assms by (auto simp: rt_sigreturn_def badframe_def Let_def case_prod_beta)

lemma user_a0: "take 32 (regs_words r) = take 32 (regs_words r') \<Longrightarrow> a0 r = a0 r'"
  by (simp add: regs_words_def)

text \<open>
  C16: a signal handler returns to where it interrupted the program: when a frame was set up and the
  handler calls \<^verbatim>\<open>rt_sigreturn\<close> on it, whatever it did to the registers in between, all 32
  user registers are as they were, with \<^verbatim>\<open>a0\<close> as the result of the call that returns, the blocked
  signals are those of before, and so is the floating-point state stored in the task, provided that the
  frame can be read. The registers of the floating-point unit are not: they go to the program
  as the handler left them, because \<^verbatim>\<open>__fstate_save\<close> and \<^verbatim>\<open>__fstate_restore\<close> do nothing.
\<close>

theorem signal_roundtrip:
  fixes st st1 st2 st3 :: "(u32, 'f, 's, 'i) sig_state"
  assumes delivered: "setup_rt_frame env ksig oldset st = (False, st1)"
    and reads: "\<And>f. \<not> read_faults env f"
    and handler: "user_frames st2 = user_frames st1" "sp (regs_of st2) = sp (regs_of st1)"
    and return: "rt_sigreturn env st2 = (ret, st3)"
  shows "take 32 (regs_words (regs_of st3)) = take 32 (regs_words (regs_of st))
    \<and> ret = a0 (regs_of st) \<and> Set_blocked oldset \<in> set (sig_events st3)
    \<and> fstate (current_task st3) = fstate (current_task st) \<and> fpu st1 = fpu st \<and> fpu st3 = fpu st2"
proof -
  let ?addr = "get_sigframe env (regs_of st)"
  have ok: "access_ok env ?addr" and writes: "\<And>f. \<not> write_faults env f"
    using setup_rt_frame_fails [of env st ksig oldset] delivered by auto
  note st1 = setup_rt_frame_ok [OF ok writes, of ksig oldset, unfolded delivered]
  have sp: "sp (regs_of st2) = ?addr" using handler(2) st1 by simp
  have fr: "sc_regs (user_frames st2 ?addr) = take 32 (regs_words (regs_of st))"
    "sc_fpregs (user_frames st2 ?addr) = fstate (current_task st)" "uc_sigmask (user_frames st2 ?addr) = oldset"
    using handler(1) st1 by simp_all
  have restored: "take 32 (regs_words (regs_of st3)) = take 32 (regs_words (regs_of st))"
      "ret = a0 (regs_of st3)" "fstate (current_task st3) = fstate (current_task st)" "fpu st3 = fpu st2"
      "Set_blocked oldset \<in> set (sig_events st3)"
    using rt_sigreturn_ok [OF refl, of env st2, unfolded sp, OF ok reads] fr return by simp_all
  moreover have "fpu st1 = fpu st" using st1 by simp
  ultimately show ?thesis using user_a0 by metis
qed

theorem signal_roundtrip_witness:
  "take 32 (regs_words (regs_of (snd (rt_sigreturn example_env
      (snd (setup_rt_frame example_env \<lparr>ks_sig = 2, ks_handler = 0x3000, ks_restart = False, ks_info = 5\<rparr> 9 example_state)\<lparr>fpu := 8\<rparr>)))))
    = take 32 (regs_words (regs_of example_state))
    \<and> fst (rt_sigreturn example_env
      (snd (setup_rt_frame example_env \<lparr>ks_sig = 2, ks_handler = 0x3000, ks_restart = False, ks_info = 5\<rparr> 9 example_state)\<lparr>fpu := 8\<rparr>))
      = a0 (regs_of example_state)
    \<and> fpu (snd (rt_sigreturn example_env
      (snd (setup_rt_frame example_env \<lparr>ks_sig = 2, ks_handler = 0x3000, ks_restart = False, ks_info = 5\<rparr> 9 example_state)\<lparr>fpu := 8\<rparr>))) = 8
    \<and> fpu example_state = 7"
proof -
  let ?s = "setup_rt_frame example_env \<lparr>ks_sig = 2, ks_handler = 0x3000, ks_restart = False, ks_info = 5\<rparr> 9 example_state"
  have ok: "access_ok example_env (get_sigframe example_env (regs_of example_state))"
    "\<And>f. \<not> write_faults example_env f" by (simp_all add: example_simps)
  have delivered: "?s = (False, snd ?s)" by (simp add: setup_rt_frame_ok [OF ok])
  have handler: "user_frames (snd ?s\<lparr>fpu := 8\<rparr>) = user_frames (snd ?s)" "sp (regs_of (snd ?s\<lparr>fpu := 8\<rparr>)) = sp (regs_of (snd ?s))"
    by (simp_all add: regs_of_def)
  have "fpu example_state = 7" by (simp add: example_state_def)
  then show ?thesis
    using signal_roundtrip [OF delivered _ handler prod.collapse [symmetric]] by (simp add: example_simps)
qed

text \<open>
  A forged frame gains nothing: whatever a program leaves on its stack,
  \<^verbatim>\<open>rt_sigreturn\<close> takes the user registers only, so the status register keeps every bit but those of the
  floating-point state, and the task stays in its mode; a frame that cannot be read costs the task
  its life.
\<close>

theorem sigreturn_keeps_status:
  fixes st :: "(u32, 'f, 's, 'i) sig_state"
  assumes "length (sc_regs (user_frames st (sp (regs_of st)))) = 32"
  shows "sstatus (regs_of (snd (rt_sigreturn env st))) AND NOT SR_FS = sstatus (regs_of st) AND NOT SR_FS
    \<and> user_mode (regs_of (snd (rt_sigreturn env st))) = user_mode (regs_of st)
    \<and> scause (regs_of (snd (rt_sigreturn env st))) = scause (regs_of st)
    \<and> (\<not> access_ok env (sp (regs_of st)) \<or> read_faults env F_sigmask \<or> read_faults env F_regs
        \<or> read_faults env F_fpregs \<or> read_faults env F_stack
      \<longrightarrow> Force_sigsegv \<in> set (sig_events (snd (rt_sigreturn env st))))"
proof -
  let ?st' = "snd (rt_sigreturn env st)"
  have keep: "kept_apart_fs (regs_of st) (regs_of ?st')"
    using restore_keeps [OF assms, of "emit (Set_blocked (uc_sigmask (user_frames st (sp (regs_of st))))) (emit No_restart_block st)" env]
    by (auto simp: rt_sigreturn_def badframe_def Let_def case_prod_beta kept_apart_fs_def)
  have user: "user_mode r \<longleftrightarrow> (sstatus r AND NOT SR_FS) AND SR_PS = 0" for r :: "u32 pt_regs"
    by (simp add: user_mode_def word_bw_assocs SR_FS_def SR_PS_def)
  show ?thesis
    using keep sigreturn_kills [of env st] by (auto simp: user kept_apart_fs_def)
qed

theorem sigreturn_keeps_status_witness:
  "user_mode (regs_of (snd (rt_sigreturn example_env example_state))) = user_mode example_regs"
  using sigreturn_keeps_status [of example_state example_env] by (simp add: example_simps)
    (simp add: example_state_def)

text \<open>
  A restarted system call loses its first argument: the result has overwritten the saved
  \<^verbatim>\<open>a0\<close> when \<^verbatim>\<open>do_signal\<close> finds that no handler runs and steps the program
  counter back, so the instruction is executed again with every register as it was but
  \<^verbatim>\<open>a0\<close>, which holds the code of the restart.
\<close>

theorem restart_loses_argument:
  fixes r :: "u32 pt_regs" and st :: "(u32, 'f, 's, 'i) sig_state"
  assumes "scause r = EXC_SYSCALL"
    and "code \<in> {ERESTARTNOHAND (errs env), ERESTARTSYS (errs env), ERESTARTNOINTR (errs env)}"
  shows "regs_of (do_signal env None oldset (set_regs (syscall_leave (- code) (syscall_enter r)) st))
    = r\<lparr>a0 := - code\<rparr>"
  using assms by (auto simp: do_signal_def restart_no_handler_def syscall_leave_def syscall_enter_def)

theorem restart_loses_argument_witness:
  "regs_of (do_signal example_env None 0 (set_regs (syscall_leave (- 513) (syscall_enter example_regs)) example_state))
    = example_regs\<lparr>a0 := - 513\<rparr>"
  by (rule restart_loses_argument) (simp_all add: example_simps, simp add: example_env_def)

end
