(* ===== verification/Driver.thy ===== *)
theory Driver
  imports Prelude
begin

text \<open>
  What the memory-mapped drivers share: a device answers each read as a function of everything
  that was done to it before, so a run of a driver is the list of its accesses; a loop that waits
  for a device is a partial function, whose value \<open>None\<close> is a loop that does not end. The locale
  \<open>sender\<close> is the contract of an operation that hands one datum at a time to a device.
\<close>

section \<open>Accesses\<close>

text \<open>Registers are words of 32 bits at a word index; a block copy names its byte offset.\<close>

datatype access = Rd nat u32 | Wr nat u32 | Rd_bytes nat "u8 list" | Wr_bytes nat "u8 list"

record device =
  word_at :: "access list \<Rightarrow> nat \<Rightarrow> u32"
  bytes_at :: "access list \<Rightarrow> nat \<Rightarrow> u8"

definition mmio_read :: "device \<Rightarrow> nat \<Rightarrow> access list \<Rightarrow> u32 \<times> access list" where
  "mmio_read dev a h = (let v = word_at dev h a in (v, h @ [Rd a v]))"

definition mmio_write :: "nat \<Rightarrow> u32 \<Rightarrow> access list \<Rightarrow> access list" where
  "mmio_write a v h = h @ [Wr a v]"

definition memcpy_fromio :: "device \<Rightarrow> nat \<Rightarrow> nat \<Rightarrow> access list \<Rightarrow> u8 list \<times> access list" where
  "memcpy_fromio dev a n h = (let bs = map (bytes_at dev h) [a..<a + n] in (bs, h @ [Rd_bytes a bs]))"

definition memcpy_toio :: "nat \<Rightarrow> u8 list \<Rightarrow> access list \<Rightarrow> access list" where
  "memcpy_toio a bs h = h @ [Wr_bytes a bs]"

datatype irqreturn = IRQ_NONE | IRQ_HANDLED

section \<open>Waiting\<close>

partial_function (option) poll ::
    "device \<Rightarrow> nat \<Rightarrow> (u32 \<Rightarrow> bool) \<Rightarrow> access list \<Rightarrow> (u32 \<times> access list) option" where
  "poll dev a busy h =
    (let (v, h) = mmio_read dev a h in if busy v then poll dev a busy h else Some (v, h))"

text \<open>The history behind a number of reads, and a device that does not stay busy for ever.\<close>

fun reads :: "device \<Rightarrow> nat \<Rightarrow> nat \<Rightarrow> access list \<Rightarrow> access list" where
  "reads dev a 0 h = h"
| "reads dev a (Suc n) h = reads dev a n (h @ [Rd a (word_at dev h a)])"

definition responds :: "device \<Rightarrow> nat \<Rightarrow> (u32 \<Rightarrow> bool) \<Rightarrow> bool" where
  "responds dev a busy \<longleftrightarrow> (\<forall>h. \<exists>n. \<not> busy (word_at dev (reads dev a n h) a))"

lemma poll_unfold:
  "poll dev a busy h = (let v = word_at dev h a in
    if busy v then poll dev a busy (h @ [Rd a v]) else Some (v, h @ [Rd a v]))"
  by (subst poll.simps) (simp add: mmio_read_def Let_def)

lemma poll_reaches:
  "\<not> busy (word_at dev (reads dev a n h) a) \<Longrightarrow> poll dev a busy h \<noteq> None"
proof (induction n arbitrary: h)
  case 0
  then show ?case by (subst poll_unfold) (simp add: Let_def)
next
  case (Suc n)
  then show ?case by (subst poll_unfold) (simp add: Let_def del: not_None_eq)
qed

lemma poll_returns: "responds dev a busy \<Longrightarrow> \<exists>v h'. poll dev a busy h = Some (v, h')"
  unfolding responds_def using poll_reaches by fast

text \<open>A wait adds reads of its register only, and the last one is not busy.\<close>

definition waited :: "nat \<Rightarrow> (u32 \<Rightarrow> bool) \<Rightarrow> u32 \<Rightarrow> access list \<Rightarrow> bool" where
  "waited a busy v w \<longleftrightarrow> (\<exists>vs. w = map (Rd a) (vs @ [v]) \<and> (\<forall>x \<in> set vs. busy x) \<and> \<not> busy v)"

lemma waited_now: "\<not> busy v \<Longrightarrow> waited a busy v [Rd a v]"
  unfolding waited_def by (rule exI [of _ "[]"]) simp

lemma waited_more:
  assumes "busy x" "waited a busy v w"
  shows "waited a busy v (Rd a x # w)"
proof -
  obtain vs where "w = map (Rd a) (vs @ [v])" "\<forall>x \<in> set vs. busy x" "\<not> busy v"
    using assms(2) unfolding waited_def by blast
  then show ?thesis
    using assms(1) unfolding waited_def by (intro exI [of _ "x # vs"]) simp
qed

lemma poll_waited_pair:
  "poll dev a busy h = Some r \<Longrightarrow> \<exists>w. snd r = h @ w \<and> waited a busy (fst r) w"
proof (induction rule: poll.raw_induct [rotated, consumes 1, case_names step])
  case (step p dev a busy h r)
  let ?v = "word_at dev h a"
  show ?case
  proof (cases "busy ?v")
    case True
    then have "p dev a busy (h @ [Rd a ?v]) = Some r"
      using step(2) by (simp add: mmio_read_def Let_def)
    from step(1) [OF this] show ?thesis using waited_more [of busy ?v, OF True] by auto
  next
    case False
    then show ?thesis
      using step(2) waited_now [of busy ?v a]
      by (intro exI [of _ "[Rd a ?v]"]) (auto simp: mmio_read_def Let_def)
  qed
qed

lemma poll_waited: "poll dev a busy h = Some (v, h') \<Longrightarrow> \<exists>w. h' = h @ w \<and> waited a busy v w"
  using poll_waited_pair [of dev a busy h "(v, h')"] by simp

text \<open>The words written to a register.\<close>

fun write_to :: "nat \<Rightarrow> access \<Rightarrow> u32 list" where
  "write_to a (Wr b v) = (if b = a then [v] else [])"
| "write_to a _ = []"

definition written :: "nat \<Rightarrow> access list \<Rightarrow> u32 list" where
  "written a w = concat (map (write_to a) w)"

lemma written_simps [simp]:
  "written a [] = []" "written a (x # w) = write_to a x @ written a w" "written a (v @ w) = written a v @ written a w"
  by (simp_all add: written_def)

lemma written_waited: "waited a busy v w \<Longrightarrow> written b w = []"
proof -
  have "written b (map (Rd a) vs) = []" for vs by (induction vs) simp_all
  then show "waited a busy v w \<Longrightarrow> written b w = []" unfolding waited_def by blast
qed

section \<open>Handing data over\<close>

text \<open>A sequence of operations, as far as each returns.\<close>

fun put_all :: "('b \<Rightarrow> 's \<Rightarrow> 's option) \<Rightarrow> 'b list \<Rightarrow> 's \<Rightarrow> 's option" where
  "put_all put [] s = Some s"
| "put_all put (x # xs) s = (case put x s of None \<Rightarrow> None | Some s' \<Rightarrow> put_all put xs s')"

text \<open>
  \<open>put\<close> hands one datum over, as the message \<open>msg\<close>; \<open>safe\<close> is what the driver owes the device, \<open>sent\<close> what the
  device has got, and \<open>live\<close> what the driver relies on to return at all.
\<close>

locale sender =
  fixes put :: "'b \<Rightarrow> 's \<Rightarrow> 's option"
    and msg :: "'b \<Rightarrow> 'm"
    and safe :: "'s \<Rightarrow> bool"
    and sent :: "'s \<Rightarrow> 'm list"
    and live :: bool
  assumes put_total: "live \<Longrightarrow> \<exists>s'. put x s = Some s'"
    and put_safe: "safe s \<Longrightarrow> put x s = Some s' \<Longrightarrow> safe s'"
    and put_sent: "safe s \<Longrightarrow> put x s = Some s' \<Longrightarrow> sent s' = sent s @ [msg x]"
begin

lemma put_all_total: "live \<Longrightarrow> \<exists>s'. put_all put xs s = Some s'"
proof (induction xs arbitrary: s)
  case (Cons x xs)
  then show ?case using put_total [of x s] by auto
qed simp

lemma put_all_sent: "safe s \<Longrightarrow> put_all put xs s = Some s' \<Longrightarrow> safe s' \<and> sent s' = sent s @ map msg xs"
proof (induction xs arbitrary: s)
  case (Cons x xs)
  then show ?case using put_safe put_sent by (fastforce split: option.splits)
qed simp

end

end
