(* ===== verification/Uart.thy ===== *)
theory Uart
  imports Driver
begin

text \<open>
  The serial port, \<^verbatim>\<open>drivers/uart.c\<close>: register 4 takes a byte to send, 7 tells how many
  more it may take, 8 holds a received byte and 10 their number. The tty layer, the console list
  and the resources of the platform device belong to the kernel proper: the calls to them are
  events, their results parameters.
\<close>

section \<open>Sending\<close>

text \<open>
  The loop of \<^verbatim>\<open>rv_uart_put_string\<close> keeps the number of bytes the port may still take in
  \<^verbatim>\<open>hw_buffer_space\<close>, a signed number; one round waits for space and sends.
\<close>

definition wait_space :: "device \<Rightarrow> int \<times> access list \<Rightarrow> (int \<times> access list) option" where
  "wait_space dev s = (case s of (hw_buffer_space, h) \<Rightarrow>
    if hw_buffer_space < 1
    then map_option (\<lambda>(v, h). (sint v, h)) (poll dev 7 (\<lambda>v. sint v < 1) h)
    else Some (hw_buffer_space, h))"

definition put_byte :: "device \<Rightarrow> u8 \<Rightarrow> int \<times> access list \<Rightarrow> (int \<times> access list) option" where
  "put_byte dev c s = map_option (\<lambda>(hw_buffer_space, h). (hw_buffer_space - 1, mmio_write 4 (ucast c) h))
    (wait_space dev s)"

definition rv_uart_put_string ::
    "device \<Rightarrow> u8 list \<Rightarrow> int \<Rightarrow> access list \<Rightarrow> (int \<times> access list) option" where
  "rv_uart_put_string dev buf count h =
    map_option (\<lambda>(_, h). (count, h)) (put_all (put_byte dev) (take (nat count) buf) (0, h))"

definition rv_uart_tty_write :: "device \<Rightarrow> u8 list \<Rightarrow> int \<Rightarrow> access list \<Rightarrow> (int \<times> access list) option" where
  "rv_uart_tty_write dev buf count h = rv_uart_put_string dev buf count h"

definition rv_uart_tty_write_room :: int where
  "rv_uart_tty_write_room = 1024"

text \<open>The console's length is unsigned and becomes the signed \<^verbatim>\<open>count\<close>.\<close>

definition rv_uart_console_write :: "device \<Rightarrow> u8 list \<Rightarrow> u32 \<Rightarrow> access list \<Rightarrow> access list option" where
  "rv_uart_console_write dev buf n h = map_option snd (rv_uart_put_string dev buf (sint n) h)"

section \<open>Receiving\<close>

datatype tty_event = Port_lock | Insert_flip_char u8 | Flip_buffer_push | Port_unlock

definition rv_uart_console_isr :: "device \<Rightarrow> access list \<Rightarrow> irqreturn \<times> tty_event list \<times> access list" where
  "rv_uart_console_isr dev h =
    (let (bytes_available, h) = mmio_read dev 10 h
     in if bytes_available = 0 then (IRQ_NONE, [], h)
        else (let (ch, h) = mmio_read dev 8 h
              in (IRQ_HANDLED, [Port_lock, Insert_flip_char (ucast ch), Flip_buffer_push, Port_unlock], h)))"

section \<open>Setting up\<close>

datatype setup_event =
  Register_console
| Unregister_console
| Alloc_driver
| Tty_port_init
| Register_driver
| Unregister_driver
| Put_driver
| Get_memory
| Ioremap
| Kzalloc
| Get_irq
| Set_drvdata
| Request_irq

text \<open>\<open>alloc\<close> is the answer of \<^verbatim>\<open>tty_alloc_driver\<close>, \<open>reg\<close> that of \<^verbatim>\<open>tty_register_driver\<close>.\<close>

definition rv_uart_console_setup :: "int \<Rightarrow> int \<Rightarrow> int" where
  "rv_uart_console_setup ENODEV index = (if index \<noteq> 0 then - ENODEV else 0)"

definition rv_uart_console_init :: "int + unit \<Rightarrow> int \<Rightarrow> int \<times> setup_event list" where
  "rv_uart_console_init alloc reg =
    (case alloc of
       Inl err \<Rightarrow> (err, [Register_console, Alloc_driver])
     | Inr _ \<Rightarrow>
         if reg \<noteq> 0 then (reg, [Register_console, Alloc_driver, Tty_port_init, Register_driver, Put_driver])
         else (reg, [Register_console, Alloc_driver, Tty_port_init, Register_driver]))"

definition rv_uart_console_exit :: "setup_event list" where
  "rv_uart_console_exit = [Unregister_console, Unregister_driver, Put_driver]"

text \<open>
  The answers \<^verbatim>\<open>rv_uart_probe\<close> gets; \<open>base\<close> is the mapped address, and an error number or an
  address is returned as the low 32 bits of it. \<open>None\<close> is the store through a null pointer.
\<close>

record 'a uart_answers =
  ioremapped :: "int + 'a"
  kzalloced :: bool
  irq_resource :: "u32 option"
  driver_alloced :: "int + unit"
  driver_registered :: int
  irq_requested :: int

definition rv_uart_probe :: "'w::len word uart_answers \<Rightarrow> (int \<times> setup_event list) option" where
  "rv_uart_probe ans =
    (case ioremapped ans of
       Inl err \<Rightarrow> Some (err, [Get_memory, Ioremap])
     | Inr base \<Rightarrow>
         if \<not> kzalloced ans then None
         else (case irq_resource ans of
             None \<Rightarrow> Some (sint (ucast base :: u32), [Get_memory, Ioremap, Kzalloc, Get_irq])
           | Some irq \<Rightarrow>
               let (ret, events) = rv_uart_console_init (driver_alloced ans) (driver_registered ans);
                   events = [Get_memory, Ioremap, Kzalloc, Get_irq, Set_drvdata] @ events @ [Request_irq];
                   err = irq_requested ans
               in if err \<noteq> 0 then Some (err, events) else Some (ret, events)))"

definition rv_uart_remove :: "setup_event list" where
  "rv_uart_remove = rv_uart_console_exit"

section \<open>The port is never overrun\<close>

text \<open>
  What a run of accesses owes the port: every byte is sent while the last number read from
  register 7, less the bytes sent since, is positive. The fold keeps that number, \<open>None\<close> is an
  overrun.
\<close>

fun credit_step :: "access \<Rightarrow> int option \<Rightarrow> int option" where
  "credit_step _ None = None"
| "credit_step (Rd a v) (Some c) = Some (if a = 7 then sint v else c)"
| "credit_step (Wr a v) (Some c) = (if a = 4 then if 1 \<le> c then Some (c - 1) else None else Some c)"
| "credit_step _ (Some c) = Some c"

definition credit :: "access list \<Rightarrow> int option" where
  "credit w = fold credit_step w (Some 0)"

definition sent_bytes :: "access list \<Rightarrow> u8 list" where
  "sent_bytes w = map ucast (written 4 w)"

text \<open>A state of the loop behind the history \<open>h\<close>.\<close>

definition uart_safe :: "access list \<Rightarrow> int \<times> access list \<Rightarrow> bool" where
  "uart_safe h s \<longleftrightarrow> (\<exists>w. snd s = h @ w \<and> credit w = Some (fst s))"

definition uart_sent :: "access list \<Rightarrow> int \<times> access list \<Rightarrow> u8 list" where
  "uart_sent h s = sent_bytes (drop (length h) (snd s))"

lemma credit_reads: "fold credit_step (map (Rd 7) (vs @ [v])) (Some c) = Some (sint v)"
  by (induction vs arbitrary: c) simp_all

lemma wait_space_safe:
  assumes "uart_safe h s" "wait_space dev s = Some s'"
  shows "uart_safe h s' \<and> uart_sent h s' = uart_sent h s \<and> 1 \<le> fst s'"
proof -
  obtain c h1 c' h2 where s: "s = (c, h1)" "s' = (c', h2)" by (cases s, cases s')
  obtain w where w: "h1 = h @ w" "credit w = Some c" using assms(1) unfolding uart_safe_def s by auto
  show ?thesis
  proof (cases "c < 1")
    case True
    then obtain v where v: "poll dev 7 (\<lambda>v. sint v < 1) h1 = Some (v, h2)" "c' = sint v"
      using assms(2) unfolding wait_space_def s by auto
    obtain w' where w': "h2 = h1 @ w'" "waited 7 (\<lambda>v. sint v < 1) v w'"
      using poll_waited [OF v(1)] by blast
    then have "credit (w @ w') = Some c'" "1 \<le> sint v"
      using w(2) v(2) credit_reads unfolding credit_def waited_def by auto
    then show ?thesis
      using w w' v(2) written_waited [OF w'(2)] unfolding uart_safe_def uart_sent_def sent_bytes_def s by auto
  next
    case False
    then show ?thesis using assms unfolding wait_space_def s by auto
  qed
qed

lemma put_byte_safe:
  assumes "uart_safe h s" "put_byte dev c s = Some s'"
  shows "uart_safe h s' \<and> uart_sent h s' = uart_sent h s @ [c]"
proof -
  obtain s1 where s1: "wait_space dev s = Some s1" "s' = (fst s1 - 1, mmio_write 4 (ucast c) (snd s1))"
    using assms(2) unfolding put_byte_def by auto
  note w1 = wait_space_safe [OF assms(1) s1(1)]
  then obtain w where w: "snd s1 = h @ w" "credit w = Some (fst s1)" unfolding uart_safe_def by blast
  have "credit (w @ [Wr 4 (ucast c)]) = Some (fst s1 - 1)"
    using w(2) w1 unfolding credit_def by simp
  moreover have "ucast (ucast c :: u32) = c"
    by (rule bit_word_eqI) (auto simp: bit_simps)
  ultimately show ?thesis
    using w w1 unfolding uart_safe_def uart_sent_def s1 mmio_write_def
    by (auto simp: sent_bytes_def)
qed

lemma put_byte_total:
  assumes "responds dev 7 (\<lambda>v. sint v < 1)"
  shows "\<exists>s'. put_byte dev c s = Some s'"
  using poll_returns [OF assms, of "snd s"]
  by (cases s) (auto simp: put_byte_def wait_space_def)

interpretation port: sender "put_byte dev" "\<lambda>c. c" "uart_safe h" "uart_sent h" "responds dev 7 (\<lambda>v. sint v < 1)"
  for dev h
  by unfold_locales (use put_byte_total put_byte_safe in blast)+

lemma put_string_runs:
  assumes "rv_uart_put_string dev buf count h = Some (ret, h')"
  shows "ret = count \<and> (\<exists>w c. h' = h @ w \<and> credit w = Some c \<and> sent_bytes w = take (nat count) buf)"
proof -
  obtain s where s: "put_all (put_byte dev) (take (nat count) buf) (0, h) = Some s" "ret = count" "h' = snd s"
    using assms unfolding rv_uart_put_string_def map_option_eq_Some by (metis (no_types, lifting) case_prod_beta prod.inject)
  have start: "uart_safe h (0, h)" "uart_sent h (0, h) = []"
    by (simp_all add: uart_safe_def uart_sent_def credit_def sent_bytes_def)
  have "uart_safe h s" and sent: "uart_sent h s = take (nat count) buf"
    using port.put_all_sent [OF start(1) s(1)] start(2) by simp_all
  then obtain w where w: "snd s = h @ w" "credit w = Some (fst s)"
    unfolding uart_safe_def by blast
  show ?thesis using s(2,3) w sent by (simp add: uart_sent_def)
qed

section \<open>Properties\<close>

text \<open>
  C32: a write to the serial port sends exactly the bytes of the buffer, in order, and returns their
  number; between two reads of the space register it sends at most as many bytes as the port said
  it could take, so no byte is lost to an overrun.
\<close>

theorem put_string_sends:
  assumes "rv_uart_put_string dev buf count h = Some (ret, h')"
  shows "ret = count \<and> take (length h) h' = h
    \<and> sent_bytes (drop (length h) h') = take (nat count) buf \<and> credit (drop (length h) h') \<noteq> None"
  using put_string_runs [OF assms] by auto

definition roomy_port :: device where
  "roomy_port = \<lparr>word_at = (\<lambda>_ _. 2), bytes_at = (\<lambda>_ _. 0)\<rparr>"

lemma roomy_port_run:
  "rv_uart_put_string roomy_port [65, 66, 67] 3 [] = Some (3, [Rd 7 2, Wr 4 65, Wr 4 66, Rd 7 2, Wr 4 67])"
  by (simp add: rv_uart_put_string_def put_byte_def wait_space_def poll_unfold roomy_port_def mmio_write_def
      Let_def)

theorem put_string_sends_witness:
  "sent_bytes [Rd 7 2, Wr 4 65, Wr 4 66, Rd 7 2, Wr 4 67] = [65, 66, 67]"
  using put_string_sends [OF roomy_port_run] by simp

text \<open>
  A write to the serial port returns, provided that the port never stays full for ever.
\<close>

theorem put_string_returns:
  assumes "responds dev 7 (\<lambda>v. sint v < 1)"
  shows "\<exists>h'. rv_uart_tty_write dev buf count h = Some (count, h')"
  using port.put_all_total [OF assms, of "take (nat count) buf" "(0, h)"]
  by (auto simp: rv_uart_tty_write_def rv_uart_put_string_def)

theorem put_string_returns_witness:
  "\<exists>h'. rv_uart_tty_write roomy_port [65, 66] 2 [] = Some (2, h')"
  by (rule put_string_returns) (simp add: responds_def roomy_port_def)

text \<open>
  The error paths of \<^verbatim>\<open>rv_uart_probe\<close>: when the tty driver cannot be allocated or
  registered the probe fails with the console still registered; when the interrupt resource is
  missing the result is the mapped address, a success whenever its low half is zero; when the
  allocation fails the null pointer is written through.
\<close>

theorem uart_probe_errors:
  fixes ans :: "u64 uart_answers"
  assumes "ioremapped ans = Inr base"
  shows "(\<not> kzalloced ans \<longrightarrow> rv_uart_probe ans = None)
    \<and> (kzalloced ans \<and> irq_resource ans = None \<longrightarrow>
      map_option fst (rv_uart_probe ans) = Some (sint (ucast base :: u32)))
    \<and> (kzalloced ans \<and> irq_resource ans = Some irq \<and> driver_alloced ans = Inl err \<and> irq_requested ans = 0 \<longrightarrow>
      rv_uart_probe ans = Some (err,
        [Get_memory, Ioremap, Kzalloc, Get_irq, Set_drvdata, Register_console, Alloc_driver, Request_irq]))"
  using assms by (auto simp: rv_uart_probe_def rv_uart_console_init_def)

definition example_answers :: "u64 uart_answers" where
  "example_answers = \<lparr>ioremapped = Inr 0xffffffe000000000, kzalloced = True, irq_resource = None,
    driver_alloced = Inr (), driver_registered = 0, irq_requested = 0\<rparr>"

theorem uart_probe_errors_witness:
  "map_option fst (rv_uart_probe example_answers) = Some 0"
  using uart_probe_errors [of example_answers "0xffffffe000000000"]
  by (simp add: example_answers_def)

end
