(* ===== verification/Frenox.thy ===== *)
theory Frenox
  imports Driver
begin

text \<open>
  The Ethernet driver, \<^verbatim>\<open>drivers/frenox_eth.c\<close> with the register offsets of
  \<^verbatim>\<open>drivers/frenox_eth.h\<close>, built without \<^verbatim>\<open>USE_TX_ISR\<close> as the file has it. The network
  stack, the allocation of socket buffers and the resources of the platform device belong to the
  kernel proper: the calls to them are events, their results parameters.
\<close>

section \<open>Registers\<close>

definition RX_BUFFER_OFFSET :: nat where "RX_BUFFER_OFFSET = 0x0"
definition TX_BUFFER_OFFSET :: nat where "TX_BUFFER_OFFSET = 0x1000"
definition CONTROL_OFFSET :: nat where "CONTROL_OFFSET = 0x2000"
definition MDIO_OFFSET :: nat where "MDIO_OFFSET = 0x2100"
definition TX_SEND_NOW_OFFSET :: nat where "TX_SEND_NOW_OFFSET = 0x0"
definition TX_BUSY_OFFSET :: nat where "TX_BUSY_OFFSET = 0x4"
definition TX_LEN_OFFSET :: nat where "TX_LEN_OFFSET = 0xC"
definition RX_ACK_PKT_OFFSET :: nat where "RX_ACK_PKT_OFFSET = 0x20"
definition RX_NEW_PKT_OFFSET :: nat where "RX_NEW_PKT_OFFSET = 0x24"
definition RX_LEN_OFFSET :: nat where "RX_LEN_OFFSET = 0x2C"
definition RX_BAD_PKT_OFFSET :: nat where "RX_BAD_PKT_OFFSET = 0x30"
definition MY_MAC_LO_OFFSET :: nat where "MY_MAC_LO_OFFSET = 0x44"
definition MY_MAC_HI_OFFSET :: nat where "MY_MAC_HI_OFFSET = 0x48"

text \<open>The word index of a control register and of an MDIO register.\<close>

definition control_reg :: "nat \<Rightarrow> nat" where
  "control_reg offset = (CONTROL_OFFSET + offset) div 4"

definition mdio_reg :: "nat \<Rightarrow> nat" where
  "mdio_reg k = MDIO_OFFSET div 4 + k"

definition PHY_READCMD :: u32 where "PHY_READCMD = 0b0110"
definition PHY_WRITECMD :: u32 where "PHY_WRITECMD = 0b0101"
definition PHY_TURNAROUND :: u32 where "PHY_TURNAROUND = 0b10"
definition PHY_ADDR :: u32 where "PHY_ADDR = 0b10010"

lemmas register_defs = RX_BUFFER_OFFSET_def TX_BUFFER_OFFSET_def CONTROL_OFFSET_def MDIO_OFFSET_def
  TX_SEND_NOW_OFFSET_def TX_BUSY_OFFSET_def TX_LEN_OFFSET_def RX_ACK_PKT_OFFSET_def
  RX_NEW_PKT_OFFSET_def RX_LEN_OFFSET_def RX_BAD_PKT_OFFSET_def MY_MAC_LO_OFFSET_def
  MY_MAC_HI_OFFSET_def control_reg_def mdio_reg_def

section \<open>State\<close>

record 'a netdev =
  dev_addr :: "u8 list"
  rx_packets :: 'a
  rx_bytes :: 'a
  rx_dropped :: 'a
  rx_errors :: 'a
  tx_packets :: 'a
  tx_bytes :: 'a
  tx_dropped :: 'a

datatype net_event = Netif_rx "u8 list" | Kfree_skb | Register_netdevice | Request_irq u32

definition ETH_ALEN :: nat where "ETH_ALEN = 6"
definition NET_IP_ALIGN :: u32 where "NET_IP_ALIGN = 2"

section \<open>Receiving\<close>

text \<open>
  \<open>nd\<close> is the device of the handler's argument, \<open>None\<close> a null pointer, which
  \<^verbatim>\<open>priv->reg\<close> goes through before it is tested; \<open>alloc\<close> tells whether a socket buffer of
  a size can be had. The length is a signed 32-bit number that \<^verbatim>\<open>memcpy_fromio\<close> takes as a
  \<^verbatim>\<open>size_t\<close>; the outcome \<open>None\<close> is a fault: the null pointer, or a copy that is larger than
  the buffer.
\<close>

definition frenox_eth_rx_isr ::
    "device \<Rightarrow> (u32 \<Rightarrow> bool) \<Rightarrow> 'w::len word netdev option \<Rightarrow> access list
      \<Rightarrow> (irqreturn \<times> 'w word netdev \<times> net_event list \<times> access list) option" where
  "frenox_eth_rx_isr hw alloc dev h =
    (case dev of None \<Rightarrow> None | Some nd \<Rightarrow>
      (let (packet_available, h) = mmio_read hw (control_reg RX_NEW_PKT_OFFSET) h
       in if packet_available = 0 then Some (IRQ_NONE, nd, [], h)
          else
            (let (len, h) = mmio_read hw (control_reg RX_LEN_OFFSET) h;
                 packet_len = len - 4;
                 size = packet_len + NET_IP_ALIGN
             in if \<not> alloc size then Some (IRQ_HANDLED, nd\<lparr>rx_dropped := rx_dropped nd + 1\<rparr>, [], h)
                else
                  (let n = unat (scast packet_len :: 'w word)
                   in if unat size < unat NET_IP_ALIGN + n then None
                      else
                        (let (bs, h) = memcpy_fromio hw RX_BUFFER_OFFSET n h;
                             nd = nd\<lparr>rx_packets := rx_packets nd + 1, rx_bytes := rx_bytes nd + scast packet_len\<rparr>;
                             h = mmio_write (control_reg RX_ACK_PKT_OFFSET) 1 h
                         in Some (IRQ_HANDLED, nd, [Netif_rx bs], h))))))"

section \<open>The management bus of the PHY\<close>

definition mdio_busy :: "u32 \<Rightarrow> bool" where
  "mdio_busy v \<longleftrightarrow> v AND push_bit 16 1 \<noteq> 0"

definition mdio_write_command :: "u32 \<Rightarrow> u32" where
  "mdio_write_command address =
    push_bit 12 PHY_WRITECMD OR push_bit 7 PHY_ADDR OR push_bit 2 address OR PHY_TURNAROUND"

definition mdio_read_command :: "u32 \<Rightarrow> u32" where
  "mdio_read_command address =
    push_bit 14 PHY_TURNAROUND OR push_bit 9 address OR push_bit 4 PHY_ADDR OR PHY_READCMD"

definition mdio_frame :: "u32 \<Rightarrow> u32 \<Rightarrow> u32" where
  "mdio_frame address data = push_bit 16 (mdio_write_command address) OR (data AND 0xFFFF)"

definition frenox_mdio_write :: "device \<Rightarrow> u32 \<times> u32 \<Rightarrow> access list \<Rightarrow> access list option" where
  "frenox_mdio_write hw c h = (case c of (address, data) \<Rightarrow>
    case poll hw (mdio_reg 1) mdio_busy h of
      None \<Rightarrow> None
    | Some (_, h) \<Rightarrow>
        (let h = mmio_write (mdio_reg 3) (mdio_frame address data) h
         in map_option snd (poll hw (mdio_reg 1) mdio_busy h)))"

definition frenox_mdio_read :: "device \<Rightarrow> u32 \<Rightarrow> access list \<Rightarrow> (u32 \<times> access list) option" where
  "frenox_mdio_read hw address h =
    (case poll hw (mdio_reg 1) mdio_busy h of
      None \<Rightarrow> None
    | Some (_, h) \<Rightarrow>
        (let h = mmio_write (mdio_reg 2) (mdio_read_command address AND 0xFFFF) h;
             h = mmio_write (mdio_reg 0) (push_bit 0 1 OR push_bit 1 1) h
         in case poll hw (mdio_reg 1) mdio_busy h of
              None \<Rightarrow> None
            | Some (_, h) \<Rightarrow> (let (v, h) = mmio_read hw (mdio_reg 1) h in Some (v AND 0xFFFF, h))))"

section \<open>Sending\<close>

datatype netdev_tx = NETDEV_TX_OK | NETDEV_TX_BUSY

definition frenox_eth_xmit ::
    "device \<Rightarrow> u8 list \<Rightarrow> 'w::len word netdev \<Rightarrow> access list
      \<Rightarrow> (netdev_tx \<times> 'w word netdev \<times> net_event list \<times> access list) option" where
  "frenox_eth_xmit hw skb nd h =
    (case poll hw (control_reg TX_BUSY_OFFSET) (\<lambda>v. v \<noteq> 0) h of
       None \<Rightarrow> None
     | Some (_, h) \<Rightarrow>
        (let (busy, h) = mmio_read hw (control_reg TX_BUSY_OFFSET) h
         in if busy \<noteq> 0 then Some (NETDEV_TX_BUSY, nd\<lparr>tx_dropped := tx_dropped nd + 1\<rparr>, [], h)
            else
              (let h = memcpy_toio TX_BUFFER_OFFSET skb h;
                   h = mmio_write (control_reg TX_LEN_OFFSET) (of_nat (length skb)) h;
                   h = mmio_write (control_reg TX_SEND_NOW_OFFSET) 1 h;
                   nd = nd\<lparr>tx_packets := tx_packets nd + 1, tx_bytes := tx_bytes nd + of_nat (length skb)\<rparr>
               in Some (NETDEV_TX_OK, nd, [Kfree_skb], h))))"

section \<open>Addresses\<close>

text \<open>\<^verbatim>\<open>is_valid_ether_addr\<close> and \<^verbatim>\<open>eth_random_addr\<close> are of the network stack.\<close>

definition mac_lo :: "u8 list \<Rightarrow> u32" where
  "mac_lo a = ucast (a ! 5) OR push_bit 8 (ucast (a ! 4)) OR push_bit 16 (ucast (a ! 3)) OR push_bit 24 (ucast (a ! 2))"

definition mac_hi :: "u8 list \<Rightarrow> u32" where
  "mac_hi a = ucast (a ! 1) OR push_bit 8 (ucast (a ! 0))"

definition frenox_set_mac_address_bytes ::
    "(u8 list \<Rightarrow> bool) \<Rightarrow> u8 list \<Rightarrow> u8 list option \<Rightarrow> 'w::len word netdev \<Rightarrow> access list
      \<Rightarrow> 'w word netdev \<times> access list" where
  "frenox_set_mac_address_bytes valid random address nd h =
    (let nd = (case address of None \<Rightarrow> nd | Some a \<Rightarrow> nd\<lparr>dev_addr := take ETH_ALEN a\<rparr>);
         nd = (if \<not> valid (dev_addr nd) then nd\<lparr>dev_addr := random\<rparr> else nd);
         h = mmio_write (control_reg MY_MAC_LO_OFFSET) (mac_lo (dev_addr nd)) h;
         h = mmio_write (control_reg MY_MAC_HI_OFFSET) (mac_hi (dev_addr nd)) h
     in (nd, h))"

definition frenox_set_mac_address ::
    "(u8 list \<Rightarrow> bool) \<Rightarrow> u8 list \<Rightarrow> u8 list \<Rightarrow> 'w::len word netdev \<Rightarrow> access list
      \<Rightarrow> int \<times> 'w word netdev \<times> access list" where
  "frenox_set_mac_address valid random sa_data nd h =
    (0, frenox_set_mac_address_bytes valid random (Some sa_data) nd h)"

definition frenox_eth_validate :: "(u8 list \<Rightarrow> bool) \<Rightarrow> int \<Rightarrow> int \<Rightarrow> u8 list option \<Rightarrow> int" where
  "frenox_eth_validate valid EINVAL EADDRNOTAVAIL tb_address =
    (case tb_address of
       None \<Rightarrow> 0
     | Some a \<Rightarrow> if length a \<noteq> ETH_ALEN then - EINVAL else if \<not> valid a then - EADDRNOTAVAIL else 0)"

definition frenox_eth_stats :: "device \<Rightarrow> 'w::len word netdev \<Rightarrow> access list \<Rightarrow> 'w word netdev \<times> access list" where
  "frenox_eth_stats hw nd h =
    (let (bad, h) = mmio_read hw (control_reg RX_BAD_PKT_OFFSET) h in (nd\<lparr>rx_errors := ucast bad\<rparr>, h))"

section \<open>Setting up\<close>

definition frenox_eth_setup :: "'w::len word netdev \<Rightarrow> 'w word netdev" where
  "frenox_eth_setup nd = nd\<lparr>dev_addr := [0x02, 0x13, 0xE6, 0x01, 0x02, 0x03]\<rparr>"

text \<open>The registers of the PHY and what is written to them, in order.\<close>

definition phy_config :: "(u32 \<times> u32) list" where
  "phy_config =
    [(22, 0),
     (0, push_bit 12 1 OR push_bit 8 1 OR push_bit 6 1),
     (4, push_bit 0 1),
     (9, push_bit 9 1 OR push_bit 8 1),
     (16, push_bit 6 1 OR push_bit 5 1),
     (27, push_bit 15 1 OR 0b1111),
     (0, push_bit 15 1 OR push_bit 12 1 OR push_bit 8 1 OR push_bit 6 1)]"

text \<open>\<open>err\<close> is the answer of \<^verbatim>\<open>register_netdevice\<close>.\<close>

definition frenox_eth_init :: "device \<Rightarrow> int \<Rightarrow> access list \<Rightarrow> (int \<times> net_event list \<times> access list) option" where
  "frenox_eth_init hw err h =
    (if err < 0 then Some (err, [Register_netdevice], h)
     else
       (case put_all (frenox_mdio_write hw) phy_config h of
          None \<Rightarrow> None
        | Some h \<Rightarrow> Some (err, [Register_netdevice], mmio_write (control_reg RX_ACK_PKT_OFFSET) 1 h)))"

record 'a eth_answers =
  netdev_alloced :: bool
  eth_ioremapped :: "int + 'a"
  eth_irq_resource :: "u32 option"
  eth_registered :: int
  eth_irq_requested :: int

definition frenox_eth_probe ::
    "int \<Rightarrow> device \<Rightarrow> 'w::len word eth_answers \<Rightarrow> access list \<Rightarrow> (int \<times> net_event list \<times> access list) option" where
  "frenox_eth_probe ENOMEM hw ans h =
    (if \<not> netdev_alloced ans then Some (- ENOMEM, [], h)
     else case eth_ioremapped ans of
       Inl err \<Rightarrow> Some (err, [], h)
     | Inr base \<Rightarrow>
        (case eth_irq_resource ans of
           None \<Rightarrow> Some (sint (ucast base :: u32), [], h)
         | Some start \<Rightarrow>
            (case frenox_eth_init hw (eth_registered ans) h of
               None \<Rightarrow> None
             | Some (ret, events, h) \<Rightarrow>
                (let events = events @ [Request_irq start]; err = eth_irq_requested ans
                 in if err \<noteq> 0 then Some (err, events, h) else Some (ret, events, h)))))"

section \<open>The bus is never written while it is busy\<close>

text \<open>
  What a run of accesses owes the management bus: a frame is written only while the last status
  read was idle and nothing was written since. The fold keeps whether the bus is known to be idle,
  \<open>None\<close> is a frame that was lost.
\<close>

fun mdio_step :: "access \<Rightarrow> bool option \<Rightarrow> bool option" where
  "mdio_step _ None = None"
| "mdio_step (Rd a v) (Some idle) = Some (if a = mdio_reg 1 then \<not> mdio_busy v else idle)"
| "mdio_step (Wr a v) (Some idle) = (if a = mdio_reg 3 then if idle then Some False else None else Some idle)"
| "mdio_step _ (Some idle) = Some idle"

definition mdio_idle :: "access list \<Rightarrow> bool option" where
  "mdio_idle w = fold mdio_step w (Some False)"

definition mdio_safe :: "access list \<Rightarrow> access list \<Rightarrow> bool" where
  "mdio_safe h0 h \<longleftrightarrow> (\<exists>w. h = h0 @ w \<and> mdio_idle w \<noteq> None)"

definition mdio_sent :: "access list \<Rightarrow> access list \<Rightarrow> u32 list" where
  "mdio_sent h0 h = written (mdio_reg 3) (drop (length h0) h)"

lemma mdio_reads_idle:
  "waited (mdio_reg 1) mdio_busy v w \<Longrightarrow> fold mdio_step w (Some idle) = Some True"
proof -
  have "fold mdio_step (map (Rd (mdio_reg 1)) (vs @ [v])) (Some idle) = Some (\<not> mdio_busy v)" for vs
    by (induction vs arbitrary: idle) simp_all
  then show "waited (mdio_reg 1) mdio_busy v w \<Longrightarrow> fold mdio_step w (Some idle) = Some True"
    unfolding waited_def by auto
qed

lemma mdio_write_accesses:
  assumes "frenox_mdio_write hw (address, data) h = Some h'"
  obtains v1 w1 v2 w2 where "h' = h @ w1 @ [Wr (mdio_reg 3) (mdio_frame address data)] @ w2"
    "waited (mdio_reg 1) mdio_busy v1 w1" "waited (mdio_reg 1) mdio_busy v2 w2"
proof -
  obtain v1 h1 v2 where v: "poll hw (mdio_reg 1) mdio_busy h = Some (v1, h1)"
    "poll hw (mdio_reg 1) mdio_busy (mmio_write (mdio_reg 3) (mdio_frame address data) h1) = Some (v2, h')"
    using assms unfolding frenox_mdio_write_def by (auto simp: Let_def split: option.splits)
  obtain w1 where w1: "h1 = h @ w1" "waited (mdio_reg 1) mdio_busy v1 w1"
    using poll_waited [OF v(1)] by blast
  obtain w2 where w2: "h' = mmio_write (mdio_reg 3) (mdio_frame address data) h1 @ w2"
    "waited (mdio_reg 1) mdio_busy v2 w2"
    using poll_waited [OF v(2)] by blast
  show thesis
    using that w1 w2 unfolding mmio_write_def by simp
qed

lemma mdio_write_safe:
  assumes "mdio_safe h0 h" "frenox_mdio_write hw c h = Some h'"
  shows "mdio_safe h0 h' \<and> mdio_sent h0 h' = mdio_sent h0 h @ [mdio_frame (fst c) (snd c)]"
proof -
  obtain w idle where w: "h = h0 @ w" "mdio_idle w = Some idle"
    using assms(1) unfolding mdio_safe_def by blast
  have c: "frenox_mdio_write hw (fst c, snd c) h = Some h'" using assms(2) by simp
  obtain v1 w1 v2 w2 where a: "h' = h @ w1 @ [Wr (mdio_reg 3) (mdio_frame (fst c) (snd c))] @ w2"
    "waited (mdio_reg 1) mdio_busy v1 w1" "waited (mdio_reg 1) mdio_busy v2 w2"
    using mdio_write_accesses [OF c] .
  have "mdio_idle (w @ w1 @ [Wr (mdio_reg 3) (mdio_frame (fst c) (snd c))] @ w2) = Some True"
    using w(2) mdio_reads_idle [OF a(2)] mdio_reads_idle [OF a(3)] unfolding mdio_idle_def by simp
  then show ?thesis
    using w(1) a(1) written_waited [OF a(2)] written_waited [OF a(3)]
    unfolding mdio_safe_def mdio_sent_def by auto
qed

lemma mdio_write_total:
  assumes "responds hw (mdio_reg 1) mdio_busy"
  shows "\<exists>h'. frenox_mdio_write hw c h = Some h'"
proof -
  obtain v h1 where "poll hw (mdio_reg 1) mdio_busy h = Some (v, h1)"
    using poll_returns [OF assms] by blast
  then show ?thesis
    using poll_returns [OF assms, of "mmio_write (mdio_reg 3) (mdio_frame (fst c) (snd c)) h1"]
    by (auto simp: frenox_mdio_write_def Let_def split: prod.split)
qed

interpretation phy: sender "frenox_mdio_write hw" "\<lambda>(a, d). mdio_frame a d" "mdio_safe h0" "mdio_sent h0"
  "responds hw (mdio_reg 1) mdio_busy" for hw h0
  by unfold_locales (use mdio_write_total mdio_write_safe in \<open>auto simp: case_prod_beta\<close>)

text \<open>The fields of a frame, as the management bus numbers them.\<close>

lemma low_half: "(0xFFFF :: u32) = mask 16"
  by (simp add: mask_eq_exp_minus_1)

lemma frame_halves:
  "drop_bit 16 (mdio_frame a d) = take_bit 16 (mdio_write_command a)"
  "take_bit 16 (mdio_frame a d) = take_bit 16 d"
  unfolding mdio_frame_def low_half by (rule bit_word_eqI, auto simp: bit_simps)+

lemma small_word:
  fixes a :: u32
  assumes "a < 32"
  shows "a \<in> of_nat ` set [0..<32]"
proof
  show "unat a \<in> set [0..<32]" using assms by (simp add: word_less_nat_alt)
  show "a = of_nat (unat a)" by simp
qed

lemma command_fields:
  "a < 32 \<Longrightarrow> mdio_write_command a = 0b0101 * 2 ^ 12 + PHY_ADDR * 2 ^ 7 + a * 2 ^ 2 + 0b10"
  by (drule small_word)
    (auto simp: upt_rec mdio_write_command_def PHY_WRITECMD_def PHY_ADDR_def PHY_TURNAROUND_def)

definition mac_of :: "u32 \<Rightarrow> u32 \<Rightarrow> u8 list" where
  "mac_of lo hi = [ucast (drop_bit 8 hi), ucast hi, ucast (drop_bit 24 lo), ucast (drop_bit 16 lo),
    ucast (drop_bit 8 lo), ucast lo]"

lemma mac_of_registers:
  assumes "length a = 6"
  shows "mac_of (mac_lo a) (mac_hi a) = a"
proof -
  obtain a0 a1 a2 a3 a4 a5 where a: "a = [a0, a1, a2, a3, a4, a5]"
    using assms by (auto simp: numeral_eq_Suc length_Suc_conv)
  show ?thesis
    unfolding a mac_of_def mac_lo_def mac_hi_def
    by (simp, intro conjI; rule bit_word_eqI; auto simp: bit_simps dest: bit_imp_le_length)
qed

definition zero_netdev :: "u8 list \<Rightarrow> u32 netdev" where
  "zero_netdev a = \<lparr>dev_addr = a, rx_packets = 0, rx_bytes = 0, rx_dropped = 0, rx_errors = 0,
    tx_packets = 0, tx_bytes = 0, tx_dropped = 0\<rparr>"

section \<open>Properties\<close>

text \<open>
  C37: the PHY is configured by the seven frames of \<^verbatim>\<open>frenox_eth_init\<close>, in order and one at a
  time: a frame is written only while the bus was last seen idle, and received packets are
  acknowledged once, after all of them.
\<close>

theorem eth_init_configures:
  assumes "0 \<le> err" and "frenox_eth_init hw err h = Some (ret, events, h')"
  shows "ret = err \<and> (\<exists>w. h' = h @ w @ [Wr (control_reg RX_ACK_PKT_OFFSET) 1]
    \<and> mdio_idle w \<noteq> None \<and> written (mdio_reg 3) w = map (\<lambda>(a, d). mdio_frame a d) phy_config)"
proof -
  obtain h1 where h1: "put_all (frenox_mdio_write hw) phy_config h = Some h1" "ret = err"
    "h' = h1 @ [Wr (control_reg RX_ACK_PKT_OFFSET) 1]"
    using assms unfolding frenox_eth_init_def mmio_write_def by (auto split: option.splits)
  have "mdio_safe h h" "mdio_sent h h = []"
    by (simp_all add: mdio_safe_def mdio_sent_def mdio_idle_def del: not_None_eq)
  then have "mdio_safe h h1" "mdio_sent h h1 = map (\<lambda>(a, d). mdio_frame a d) phy_config"
    using phy.put_all_sent [OF _ h1(1), of h] by simp_all
  then show ?thesis using h1(2,3) by (auto simp: mdio_safe_def mdio_sent_def)
qed

text \<open>A device that is never busy and holds a packet of 64 bytes.\<close>

definition idle_hw :: device where
  "idle_hw = \<lparr>word_at = (\<lambda>_ a. if a = control_reg RX_NEW_PKT_OFFSET then 1
      else if a = control_reg RX_LEN_OFFSET then 6 else 0), bytes_at = (\<lambda>_ i. of_nat i)\<rparr>"

lemma idle_hw_responds: "responds idle_hw (mdio_reg 1) mdio_busy"
  unfolding responds_def by (intro allI exI [of _ 0]) (simp add: idle_hw_def mdio_busy_def register_defs)

theorem eth_init_configures_witness:
  "\<exists>w h'. frenox_eth_init idle_hw 0 [] = Some (0, [Register_netdevice], h')
    \<and> written (mdio_reg 3) w = map (\<lambda>(a, d). mdio_frame a d) phy_config \<and> mdio_idle w \<noteq> None"
proof -
  obtain s where s: "put_all (frenox_mdio_write idle_hw) phy_config [] = Some s"
    using phy.put_all_total [OF idle_hw_responds] by blast
  then have run: "frenox_eth_init idle_hw 0 [] =
      Some (0, [Register_netdevice], mmio_write (control_reg RX_ACK_PKT_OFFSET) 1 s)"
    by (simp add: frenox_eth_init_def)
  show ?thesis
    using eth_init_configures [OF order_refl run] run by blast
qed

text \<open>
  Probing ends, provided that the management bus never stays busy for ever.
\<close>

theorem eth_probe_returns:
  assumes "responds hw (mdio_reg 1) mdio_busy"
  shows "frenox_eth_probe ENOMEM hw ans h \<noteq> None"
  using phy.put_all_total [OF assms, of phy_config h]
  by (auto simp: frenox_eth_probe_def frenox_eth_init_def Let_def split: sum.split option.split)

theorem eth_probe_returns_witness:
  "frenox_eth_probe 12 idle_hw \<lparr>netdev_alloced = True, eth_ioremapped = Inr (0xc0000000 :: u32),
    eth_irq_resource = Some 3, eth_registered = 0, eth_irq_requested = 0\<rparr> [] \<noteq> None"
  by (rule eth_probe_returns [OF idle_hw_responds])

text \<open>
  A frame carries what the management bus expects where it expects it: the start and write
  codes, the address of the PHY, the register and the turnaround in the upper half, the low half of
  the datum below.
\<close>

theorem mdio_frame_fields:
  assumes "a < 32"
  shows "unat (mdio_frame a d) =
    ((0b0101 * 2 ^ 5 + 0b10010) * 2 ^ 5 + unat a) * 2 ^ 18 + 0b10 * 2 ^ 16 + unat d mod 2 ^ 16"
proof -
  have small: "unat a < 32" using assms by (simp add: word_less_nat_alt)
  then have "unat (mdio_write_command a) = (0b0101 * 2 ^ 5 + 0b10010) * 2 ^ 7 + unat a * 2 ^ 2 + 0b10"
    by (simp add: command_fields [OF assms] PHY_ADDR_def word_nat)
  then have "unat (mdio_frame a d) div 2 ^ 16 = (0b0101 * 2 ^ 5 + 0b10010) * 2 ^ 7 + unat a * 2 ^ 2 + 0b10"
    using small frame_halves(1) [of a d] by (simp add: unat_eq_word unat_drop_bit_word unat_take_bit_word)
  moreover have "unat (mdio_frame a d) mod 2 ^ 16 = unat d mod 2 ^ 16"
    using frame_halves(2) [of a d] by (simp add: unat_eq_word unat_take_bit_word)
  moreover have "unat (mdio_frame a d) = unat (mdio_frame a d) div 2 ^ 16 * 2 ^ 16 + unat (mdio_frame a d) mod 2 ^ 16"
    by simp
  ultimately show ?thesis by simp
qed

theorem mdio_frame_fields_witness: "unat (mdio_frame 22 0) = 0x595A0000"
  using mdio_frame_fields [of 22 0] by simp

text \<open>
  The two address registers hold the address of the device, byte for byte, and the address is a
  valid one.
\<close>

theorem set_mac_registers:
  fixes nd :: "u32 netdev"
  assumes "length (dev_addr nd) = 6" and "valid random" "length random = 6"
    and "case address of None \<Rightarrow> True | Some a \<Rightarrow> 6 \<le> length a"
    and "frenox_set_mac_address_bytes valid random address nd h = (nd', h')"
  shows "\<exists>lo hi. h' = h @ [Wr (control_reg MY_MAC_LO_OFFSET) lo, Wr (control_reg MY_MAC_HI_OFFSET) hi]
    \<and> mac_of lo hi = dev_addr nd' \<and> valid (dev_addr nd')
    \<and> (valid (case address of None \<Rightarrow> dev_addr nd | Some a \<Rightarrow> take 6 a) \<longrightarrow>
        dev_addr nd' = (case address of None \<Rightarrow> dev_addr nd | Some a \<Rightarrow> take 6 a))"
proof -
  let ?a = "case address of None \<Rightarrow> dev_addr nd | Some a \<Rightarrow> take 6 a"
  have nd': "dev_addr nd' = (if valid ?a then ?a else random)"
    and h': "h' = h @ [Wr (control_reg MY_MAC_LO_OFFSET) (mac_lo (dev_addr nd')),
      Wr (control_reg MY_MAC_HI_OFFSET) (mac_hi (dev_addr nd'))]"
    using assms(5) by (auto simp: frenox_set_mac_address_bytes_def Let_def ETH_ALEN_def mmio_write_def
        split: option.splits if_splits)
  have "length (dev_addr nd') = 6"
    using assms(1,3,4) nd' by (simp split: option.splits)
  then show ?thesis using h' nd' assms(2) mac_of_registers by auto
qed

theorem set_mac_registers_witness:
  "\<exists>lo hi. snd (frenox_set_mac_address_bytes (\<lambda>a. a ! 0 = 2) [2, 0, 0, 0, 0, 1] (Some [2, 19, 230, 1, 2, 3, 9])
      (zero_netdev [2, 0, 0, 0, 0, 0]) []) =
      [Wr (control_reg MY_MAC_LO_OFFSET) lo, Wr (control_reg MY_MAC_HI_OFFSET) hi]
    \<and> mac_of lo hi = [2, 19, 230, 1, 2, 3]"
proof -
  let ?r = "frenox_set_mac_address_bytes (\<lambda>a. a ! 0 = 2) [2, 0, 0, 0, 0, 1] (Some [2, 19, 230, 1, 2, 3, 9])
    (zero_netdev [2, 0, 0, 0, 0, 0]) []"
  show ?thesis
    using set_mac_registers [of "zero_netdev [2, 0, 0, 0, 0, 0]" "\<lambda>a. a ! 0 = 2" "[2, 0, 0, 0, 0, 1]"
        "Some [2, 19, 230, 1, 2, 3, 9]" "[]" "fst ?r" "snd ?r"]
    by (fastforce simp: zero_netdev_def)
qed

text \<open>
  Every received packet is passed on byte for byte without its checksum, counted and
  acknowledged by the last access; without memory it is counted as dropped but not acknowledged, so
  the device still holds it.
\<close>

theorem rx_isr_outcomes:
  fixes nd :: "u32 netdev"
  assumes "word_at hw h (control_reg RX_NEW_PKT_OFFSET) \<noteq> 0"
  defines "h1 \<equiv> h @ [Rd (control_reg RX_NEW_PKT_OFFSET) (word_at hw h (control_reg RX_NEW_PKT_OFFSET))]"
  defines "len \<equiv> word_at hw h1 (control_reg RX_LEN_OFFSET)"
  defines "h2 \<equiv> h1 @ [Rd (control_reg RX_LEN_OFFSET) len]"
  defines "bs \<equiv> map (bytes_at hw h2) [0..<unat len - 4]"
  shows "(alloc (len - 2) \<and> 4 \<le> len \<longrightarrow> frenox_eth_rx_isr hw alloc (Some nd) h =
      Some (IRQ_HANDLED, nd\<lparr>rx_packets := rx_packets nd + 1, rx_bytes := rx_bytes nd + len - 4\<rparr>,
        [Netif_rx bs], h2 @ [Rd_bytes RX_BUFFER_OFFSET bs, Wr (control_reg RX_ACK_PKT_OFFSET) 1]))
    \<and> (\<not> alloc (len - 2) \<longrightarrow> frenox_eth_rx_isr hw alloc (Some nd) h =
      Some (IRQ_HANDLED, nd\<lparr>rx_dropped := rx_dropped nd + 1\<rparr>, [], h2))
    \<and> (alloc (len - 2) \<and> (len = 2 \<or> len = 3) \<longrightarrow> frenox_eth_rx_isr hw alloc (Some nd) h = None)"
proof -
  have size: "len - 4 + NET_IP_ALIGN = len - 2" by (simp add: NET_IP_ALIGN_def)
  have big: "\<not> unat (len - 2) < 2 + unat (len - 4)" "unat (len - 4) = unat len - 4" if "4 \<le> len"
  proof -
    have "4 \<le> unat len" using that by (simp add: word_le_nat_alt)
    moreover have "unat (len - 4) = unat len - 4" "unat (len - 2) = unat len - 2"
      using that calculation by (simp_all add: unat_sub word_le_nat_alt)
    ultimately show "\<not> unat (len - 2) < 2 + unat (len - 4)" "unat (len - 4) = unat len - 4" by simp_all
  qed
  note run = frenox_eth_rx_isr_def mmio_read_def memcpy_fromio_def mmio_write_def Let_def RX_BUFFER_OFFSET_def
  show ?thesis
    using assms(1) big size
    by (auto simp: run h1_def [symmetric] len_def [symmetric] h2_def [symmetric] bs_def NET_IP_ALIGN_def)
qed

theorem rx_isr_outcomes_witness:
  "map_option (\<lambda>(r, nd, ev, h). (r, rx_packets nd, ev)) (frenox_eth_rx_isr idle_hw (\<lambda>_. True) (Some (zero_netdev [])) [])
    = Some (IRQ_HANDLED, 1, [Netif_rx [0, 1]])"
proof -
  have "word_at idle_hw h (control_reg RX_NEW_PKT_OFFSET) = 1" "word_at idle_hw h (control_reg RX_LEN_OFFSET) = 6"
    "bytes_at idle_hw h i = of_nat i" for h i
    by (simp_all add: idle_hw_def register_defs)
  then show ?thesis
    using rx_isr_outcomes [of idle_hw "[]" "\<lambda>_. True" "zero_netdev []"]
    by (simp add: zero_netdev_def upt_rec)
qed

text \<open>
  A packet is handed to the device only directly after the device said twice that it is idle,
  first the bytes, then the length, then the start; a device that got busy in between costs the
  packet a count as dropped, but leaves it to the caller.
\<close>

theorem xmit_waits:
  fixes nd :: "u32 netdev"
  assumes "frenox_eth_xmit hw skb nd h = Some (ret, nd', events, h')"
  shows "\<exists>w v. h' = h @ w @ [Rd (control_reg TX_BUSY_OFFSET) v] @ (if v = 0
      then [Wr_bytes TX_BUFFER_OFFSET skb, Wr (control_reg TX_LEN_OFFSET) (of_nat (length skb)),
        Wr (control_reg TX_SEND_NOW_OFFSET) 1] else [])
    \<and> waited (control_reg TX_BUSY_OFFSET) (\<lambda>v. v \<noteq> 0) 0 w
    \<and> (if v = 0 then ret = NETDEV_TX_OK \<and> events = [Kfree_skb] \<and> tx_packets nd' = tx_packets nd + 1
       else ret = NETDEV_TX_BUSY \<and> events = [] \<and> tx_dropped nd' = tx_dropped nd + 1)"
proof -
  obtain v0 h1 where p: "poll hw (control_reg TX_BUSY_OFFSET) (\<lambda>v. v \<noteq> 0) h = Some (v0, h1)"
    using assms unfolding frenox_eth_xmit_def by (auto split: option.splits)
  obtain w where w: "h1 = h @ w" "waited (control_reg TX_BUSY_OFFSET) (\<lambda>v. v \<noteq> 0) v0 w"
    using poll_waited [OF p] by blast
  moreover have "v0 = 0" using w(2) unfolding waited_def by blast
  ultimately show ?thesis
    using assms p by (intro exI [of _ w] exI [of _ "word_at hw h1 (control_reg TX_BUSY_OFFSET)"])
      (auto simp: frenox_eth_xmit_def mmio_read_def mmio_write_def memcpy_toio_def Let_def split: if_splits)
qed

end
