(* ===== verification/RawIo.thy ===== *)
theory RawIo
  imports Prelude
begin

text \<open>
  Raw access to devices, \<^verbatim>\<open>drivers/rawio.c\<close>: the linked list of devices lives in an explicit
  store of nodes, which \<^verbatim>\<open>rawio_remove\<close> walks with a pointer to a pointer. A missing node is a
  freed one: an access to it is the outcome \<open>None\<close>.
\<close>

section \<open>The list of devices\<close>

record 'd rawio_t =
  rawio_index :: u32
  p_device :: 'd
  p_next :: "nat option"

record 'd rawio_state =
  nodes :: "nat \<Rightarrow> 'd rawio_t option"
  p_rawio_list :: "nat option"
  next_index :: u32

text \<open>The two loops: the search of \<^verbatim>\<open>rawio_open\<close>, and the removal.\<close>

partial_function (option) find_device ::
    "(nat \<Rightarrow> 'd rawio_t option) \<Rightarrow> u32 \<Rightarrow> nat option \<Rightarrow> nat option option" where
  "find_device h idx p =
    (case p of
       None \<Rightarrow> Some None
     | Some a \<Rightarrow> (case h a of
           None \<Rightarrow> None
         | Some n \<Rightarrow> if rawio_index n \<noteq> idx then find_device h idx (p_next n) else Some (Some a)))"

text \<open>A result is an error number or, for an open file, its \<^verbatim>\<open>private_data\<close>.\<close>

definition rawio_open :: "int \<Rightarrow> u32 \<Rightarrow> 'd rawio_state \<Rightarrow> (int + nat) option" where
  "rawio_open ENODEV minor st =
    (case find_device (nodes st) minor (p_rawio_list st) of
       None \<Rightarrow> None
     | Some None \<Rightarrow> Some (Inl (- ENODEV))
     | Some (Some a) \<Rightarrow> Some (Inr a))"

text \<open>\<open>fresh\<close> is the memory of \<^verbatim>\<open>kcalloc\<close>, \<open>None\<close> if there is none.\<close>

definition rawio_probe ::
    "int \<Rightarrow> int \<Rightarrow> bool \<Rightarrow> nat option \<Rightarrow> 'd \<Rightarrow> 'd rawio_state \<Rightarrow> int \<times> 'd rawio_state" where
  "rawio_probe ENODEV ENOMEM has_memory fresh dev st =
    (if \<not> has_memory then (- ENODEV, st)
     else case fresh of
       None \<Rightarrow> (- ENOMEM, st)
     | Some a \<Rightarrow> (0, st\<lparr>nodes := (nodes st)(a \<mapsto> \<lparr>rawio_index = next_index st, p_device = dev,
         p_next = p_rawio_list st\<rparr>), next_index := next_index st + 1, p_rawio_list := Some a\<rparr>))"

text \<open>The pointer to a pointer is the head or the link of a node.\<close>

datatype link = Head | Next nat

definition read_link :: "link \<Rightarrow> 'd rawio_state \<Rightarrow> nat option option" where
  "read_link l st = (case l of Head \<Rightarrow> Some (p_rawio_list st) | Next a \<Rightarrow> map_option p_next (nodes st a))"

definition write_link :: "link \<Rightarrow> nat option \<Rightarrow> 'd rawio_state \<Rightarrow> 'd rawio_state option" where
  "write_link l p st =
    (case l of
       Head \<Rightarrow> Some (st\<lparr>p_rawio_list := p\<rparr>)
     | Next a \<Rightarrow> map_option (\<lambda>n. st\<lparr>nodes := (nodes st)(a \<mapsto> n\<lparr>p_next := p\<rparr>)\<rparr>) (nodes st a))"

partial_function (option) remove_loop :: "'d \<Rightarrow> link \<Rightarrow> 'd rawio_state \<Rightarrow> 'd rawio_state option" where
  "remove_loop dev l st =
    (case read_link l st of
       None \<Rightarrow> None
     | Some None \<Rightarrow> Some st
     | Some (Some a) \<Rightarrow>
        (case nodes st a of
           None \<Rightarrow> None
         | Some n \<Rightarrow>
             if p_device n = dev
             then (case write_link l (p_next n) (st\<lparr>nodes := (nodes st)(a := None)\<rparr>) of
                     None \<Rightarrow> None
                   | Some st \<Rightarrow> remove_loop dev l st)
             else remove_loop dev (Next a) st))"

definition rawio_remove :: "'d \<Rightarrow> 'd rawio_state \<Rightarrow> (int \<times> 'd rawio_state) option" where
  "rawio_remove dev st = map_option (Pair 0) (remove_loop dev Head st)"

section \<open>Mapping\<close>

record 'a vm_area =
  vm_start :: 'a
  vm_end :: 'a
  vm_pgoff :: 'a
  vm_page_prot :: 'a
  vm_flags :: 'a

text \<open>
  \<open>resource\<close> gives the first and the last address of a device, \<open>remapped\<close> tells whether
  \<^verbatim>\<open>io_remap_pfn_range\<close> succeeds; the second result is the frame it is called with, the third
  the area as it is then. \<open>pgprot_noncached\<close> and the flag are the kernel proper's.
\<close>

record 'a mmap_env =
  page_mask :: 'a
  page_shift :: nat
  pgprot_noncached :: "'a \<Rightarrow> 'a"
  VM_IO :: 'a
  ENODEV_no :: int
  EINVAL_no :: int
  EAGAIN_no :: int

definition rawio_mmap ::
    "'w::len word mmap_env \<Rightarrow> ('d \<Rightarrow> ('w word \<times> 'w word) option) \<Rightarrow> bool \<Rightarrow> nat \<Rightarrow> 'w word vm_area
      \<Rightarrow> 'd rawio_state \<Rightarrow> (int \<times> 'w word option \<times> 'w word vm_area) option" where
  "rawio_mmap env resource remapped private_data vma st =
    (case nodes st private_data of
       None \<Rightarrow> None
     | Some n \<Rightarrow>
        (case resource (p_device n) of
           None \<Rightarrow> Some (- ENODEV_no env, None, vma)
         | Some (start, stop) \<Rightarrow>
             if vm_pgoff vma \<noteq> 0 then Some (- EINVAL_no env, None, vma)
             else if (vm_end vma - vm_start vma) AND NOT (page_mask env) \<noteq> 0 then Some (- EINVAL_no env, None, vma)
             else if stop - start < vm_end vma - vm_start vma then Some (- EINVAL_no env, None, vma)
             else let vma = vma\<lparr>vm_page_prot := pgprot_noncached env (vm_page_prot vma), vm_flags := vm_flags vma OR VM_IO env\<rparr>
                  in Some (if remapped then 0 else - EAGAIN_no env, Some (drop_bit (page_shift env) start), vma)))"

section \<open>The list and what it stands for\<close>

text \<open>The nodes behind a link, each with its address, its index and its device.\<close>

fun rlist :: "(nat \<Rightarrow> 'd rawio_t option) \<Rightarrow> nat option \<Rightarrow> (nat \<times> u32 \<times> 'd) list \<Rightarrow> bool" where
  "rlist h p [] = (p = None)"
| "rlist h p ((a, i, d) # xs) =
    (p = Some a \<and> (\<exists>q. h a = Some \<lparr>rawio_index = i, p_device = d, p_next = q\<rparr> \<and> rlist h q xs))"

lemma rlist_cong: "(\<And>a. a \<in> fst ` set xs \<Longrightarrow> h' a = h a) \<Longrightarrow> rlist h' p xs = rlist h p xs"
  by (induction xs arbitrary: p) auto

lemma find_device_rlist:
  "rlist h p xs \<Longrightarrow> find_device h idx p = Some (map_option fst (find (\<lambda>(a, i, d). i = idx) xs))"
proof (induction xs arbitrary: p)
  case (Cons x xs)
  then show ?case by (cases x) (subst find_device.simps, auto)
qed (subst find_device.simps, simp)

text \<open>What a removal behind a link leaves.\<close>

definition unlinked ::
    "'d \<Rightarrow> link \<Rightarrow> (nat \<times> u32 \<times> 'd) list \<Rightarrow> 'd rawio_state \<Rightarrow> nat option \<Rightarrow> 'd rawio_state \<Rightarrow> bool" where
  "unlinked dev l xs st p' st' \<longleftrightarrow>
    read_link l st' = Some p' \<and> rlist (nodes st') p' (filter (\<lambda>(a, i, d). d \<noteq> dev) xs)
    \<and> (\<forall>x. x \<notin> fst ` set xs \<and> l \<noteq> Next x \<longrightarrow> nodes st' x = nodes st x)
    \<and> (\<forall>b n. l = Next b \<and> nodes st b = Some n \<longrightarrow> nodes st' b = Some (n\<lparr>p_next := p'\<rparr>))
    \<and> (l \<noteq> Head \<longrightarrow> p_rawio_list st' = p_rawio_list st) \<and> next_index st' = next_index st
    \<and> (\<forall>(a, i, d) \<in> set xs. d = dev \<longrightarrow> nodes st' a = None)"

text \<open>Taking one node out.\<close>

lemma write_link_out:
  assumes "read_link l st = Some (Some a)" and "l \<noteq> Next a"
  shows "\<exists>st1. write_link l q (st\<lparr>nodes := (nodes st)(a := None)\<rparr>) = Some st1 \<and> read_link l st1 = Some q
    \<and> nodes st1 a = None \<and> (\<forall>x. x \<noteq> a \<and> l \<noteq> Next x \<longrightarrow> nodes st1 x = nodes st x)
    \<and> (\<forall>b n. l = Next b \<and> nodes st b = Some n \<longrightarrow> nodes st1 b = Some (n\<lparr>p_next := q\<rparr>))
    \<and> (l \<noteq> Head \<longrightarrow> p_rawio_list st1 = p_rawio_list st) \<and> next_index st1 = next_index st"
  using assms by (cases l) (auto simp: read_link_def write_link_def)

lemma remove_loop_unlinks:
  assumes "read_link l st = Some p" and "rlist (nodes st) p xs" and "distinct (map fst xs)"
    and "\<And>b. l = Next b \<Longrightarrow> b \<notin> fst ` set xs"
  shows "\<exists>st' p'. remove_loop dev l st = Some st' \<and> unlinked dev l xs st p' st'"
  using assms
proof (induction xs arbitrary: l st p)
  case Nil
  then have "remove_loop dev l st = Some st" by (subst remove_loop.simps) simp
  moreover have "unlinked dev l [] st None st"
    using Nil by (auto simp: unlinked_def read_link_def)
  ultimately show ?case by blast
next
  case (Cons x xs)
  obtain a i d where x: "x = (a, i, d)" by (cases x)
  obtain q where q: "nodes st a = Some \<lparr>rawio_index = i, p_device = d, p_next = q\<rparr>" "rlist (nodes st) q xs"
    and p: "p = Some a"
    using Cons.prems(2) x by auto
  have a: "a \<notin> fst ` set xs" "l \<noteq> Next a" using Cons.prems(3,4) x by auto
  have link: "\<And>b. l = Next b \<Longrightarrow> b \<notin> fst ` set xs" using Cons.prems(4) by auto
  show ?case
  proof (cases "d = dev")
    case True
    obtain st1 where st1: "write_link l q (st\<lparr>nodes := (nodes st)(a := None)\<rparr>) = Some st1"
      "read_link l st1 = Some q" "nodes st1 a = None" "\<forall>x. x \<noteq> a \<and> l \<noteq> Next x \<longrightarrow> nodes st1 x = nodes st x"
      "\<forall>b n. l = Next b \<and> nodes st b = Some n \<longrightarrow> nodes st1 b = Some (n\<lparr>p_next := q\<rparr>)"
      "l \<noteq> Head \<longrightarrow> p_rawio_list st1 = p_rawio_list st" "next_index st1 = next_index st"
      using write_link_out [OF _ a(2), of st q] Cons.prems(1) p by blast
    have "nodes st1 y = nodes st y" if "y \<in> fst ` set xs" for y
      using st1(4) a(1) link [of y] that by metis
    then have "rlist (nodes st1) q xs"
      using q(2) rlist_cong [of xs "nodes st1" "nodes st"] by blast
    then obtain st' p' where st': "remove_loop dev l st1 = Some st'" "unlinked dev l xs st1 p' st'"
      using Cons.IH [OF st1(2) _ _ link] Cons.prems(3) by auto
    have "remove_loop dev l st = Some st'"
      using Cons.prems(1) p q(1) True st1(1) st'(1) by (subst remove_loop.simps) simp
    moreover have "unlinked dev l (x # xs) st p' st'"
      using st'(2) st1(3-7) a x True unfolding unlinked_def by auto
    ultimately show ?thesis by blast
  next
    case False
    have next_link: "read_link (Next a) st = Some q" using q(1) by (simp add: read_link_def)
    obtain st' p' where st': "remove_loop dev (Next a) st = Some st'" "unlinked dev (Next a) xs st p' st'"
      using Cons.IH [OF next_link q(2)] Cons.prems(3) a(1) by auto
    have "remove_loop dev l st = Some st'"
      using Cons.prems(1) p q(1) False st'(1) by (subst remove_loop.simps) simp
    moreover have "unlinked dev l (x # xs) st (Some a) st'"
    proof -
      have node: "nodes st' a = Some \<lparr>rawio_index = i, p_device = d, p_next = p'\<rparr>"
        and other: "\<And>y. y \<notin> fst ` set xs \<Longrightarrow> y \<noteq> a \<Longrightarrow> nodes st' y = nodes st y"
        and head: "p_rawio_list st' = p_rawio_list st"
        using st'(2) q(1) unfolding unlinked_def by auto
      have link_node: "nodes st' b = nodes st b" if "l = Next b" for b
        using other [of b] link [OF that] a(2) that by blast
      have "read_link l st' = Some (Some a)"
        using Cons.prems(1) p head link_node by (cases l) (simp_all add: read_link_def)
      moreover have "nodes st' b = Some (n\<lparr>p_next := Some a\<rparr>)" if "l = Next b" "nodes st b = Some n" for b n
        using Cons.prems(1) p link_node [OF that(1)] that by (simp add: read_link_def)
      ultimately show ?thesis
        using st'(2) node other head x False unfolding unlinked_def by auto
    qed
    ultimately show ?thesis by blast
  qed
qed

lemma rawio_remove_frees:
  assumes "rlist (nodes st) (p_rawio_list st) xs" and "distinct (map fst xs)" and "rawio_remove dev st = Some (0, st')"
  shows "(a, i, dev) \<in> set xs \<Longrightarrow> nodes st' a = None"
proof -
  have head: "read_link Head st = Some (p_rawio_list st)" by (simp add: read_link_def)
  obtain st1 p' where st1: "remove_loop dev Head st = Some st1" "unlinked dev Head xs st p' st1"
    using remove_loop_unlinks [OF head assms(1,2)] by blast
  then show "(a, i, dev) \<in> set xs \<Longrightarrow> nodes st' a = None"
    using assms(3) by (auto simp: unlinked_def rawio_remove_def)
qed

section \<open>The life of the list\<close>

text \<open>
  Devices come and go. Memory that \<^verbatim>\<open>kcalloc\<close> gives is no node yet; the counter of the indices
  does not run over.
\<close>

inductive rawio_step :: "'d rawio_state \<Rightarrow> 'd rawio_state \<Rightarrow> bool" where
  probed: "nodes st a = None \<Longrightarrow> unat (next_index st) + 1 < 2 ^ 32 \<Longrightarrow>
    rawio_probe ENODEV ENOMEM True (Some a) dev st = (err, st') \<Longrightarrow> rawio_step st st'"
| refused: "rawio_probe ENODEV ENOMEM has_memory None dev st = (err, st') \<Longrightarrow> rawio_step st st'"
| removed: "rawio_remove dev st = Some (err, st') \<Longrightarrow> rawio_step st st'"

definition rawio_init :: "'d rawio_state \<Rightarrow> bool" where
  "rawio_init st \<longleftrightarrow> p_rawio_list st = None"

definition listed :: "'d rawio_state \<Rightarrow> (nat \<times> u32 \<times> 'd) list \<Rightarrow> bool" where
  "listed st xs \<longleftrightarrow> rlist (nodes st) (p_rawio_list st) xs \<and> distinct (map fst xs) \<and> distinct (map (fst \<circ> snd) xs)
    \<and> (\<forall>x \<in> set xs. unat (fst (snd x)) < unat (next_index st))"

lemma rlist_nodes: "rlist h p xs \<Longrightarrow> x \<in> set xs \<Longrightarrow> h (fst x) \<noteq> None"
  by (induction xs arbitrary: p) auto

lemma probe_listed:
  assumes "listed st xs" and "nodes st a = None" and "unat (next_index st) + 1 < 2 ^ 32"
    and "rawio_probe ENODEV ENOMEM True (Some a) dev st = (err, st')"
  shows "listed st' ((a, next_index st, dev) # xs)"
proof -
  have st': "st' = st\<lparr>nodes := (nodes st)(a \<mapsto> \<lparr>rawio_index = next_index st, p_device = dev, p_next = p_rawio_list st\<rparr>),
      next_index := next_index st + 1, p_rawio_list := Some a\<rparr>"
    using assms(4) by (simp add: rawio_probe_def)
  have new: "a \<notin> fst ` set xs"
    using assms(1,2) rlist_nodes [of "nodes st" "p_rawio_list st" xs] unfolding listed_def by force
  then have "rlist (nodes st') (p_rawio_list st) xs = rlist (nodes st) (p_rawio_list st) xs"
    by (intro rlist_cong) (auto simp: st')
  then have "rlist (nodes st') (p_rawio_list st) xs" using assms(1) by (simp add: listed_def)
  moreover have next_i: "unat (next_index st') = unat (next_index st) + 1"
    using assms(3) by (simp add: st' unat_add_word)
  moreover have "next_index st \<notin> (fst \<circ> snd) ` set xs"
    using assms(1) unfolding listed_def by force
  ultimately show ?thesis
    using assms(1) new unfolding listed_def by (auto simp: st')
qed

lemma remove_listed:
  assumes "listed st xs"
  shows "\<exists>st'. rawio_remove dev st = Some (0, st') \<and> listed st' (filter (\<lambda>(a, i, d). d \<noteq> dev) xs)"
proof -
  have head: "read_link Head st = Some (p_rawio_list st)" by (simp add: read_link_def)
  have l: "rlist (nodes st) (p_rawio_list st) xs" "distinct (map fst xs)" using assms by (simp_all add: listed_def)
  obtain st1 p' where st1: "remove_loop dev Head st = Some st1" "unlinked dev Head xs st p' st1"
    using remove_loop_unlinks [OF head l] by blast
  have "listed st1 (filter (\<lambda>(a, i, d). d \<noteq> dev) xs)"
    using assms st1(2) by (auto simp: listed_def unlinked_def read_link_def distinct_map_filter)
  then show ?thesis using st1(1) by (simp add: rawio_remove_def)
qed

interpretation rawio: stepping rawio_init rawio_step "\<lambda>st. \<exists>xs. listed st xs"
proof unfold_locales
  fix s t :: "'d rawio_state"
  show "rawio_init s \<Longrightarrow> \<exists>xs. listed s xs"
    by (rule exI [of _ "[]"]) (simp add: rawio_init_def listed_def)
  assume "rawio_step s t" "\<exists>xs. listed s xs"
  then show "\<exists>xs. listed t xs"
  proof (induction rule: rawio_step.induct)
    case (probed st a ENODEV ENOMEM dev err st')
    then obtain xs where "listed st xs" by blast
    from probe_listed [OF this probed(1-3)] show ?case by blast
  next
    case (refused ENODEV ENOMEM has_memory dev st err st')
    then show ?case by (auto simp: rawio_probe_def split: if_splits)
  next
    case (removed dev st err st')
    then obtain xs where "listed st xs" by blast
    from remove_listed [OF this, of dev] removed(1) show ?case by auto
  qed
qed

section \<open>Properties\<close>

text \<open>
  C35: the list of devices is a list in every state that probes and removals lead to: it ends, its
  nodes are allocated and distinct, and so are their indices, so neither \<^verbatim>\<open>rawio_open\<close> nor
  \<^verbatim>\<open>rawio_remove\<close> ever touches a freed node or runs for ever.
\<close>

theorem rawio_list_well_formed:
  assumes "rawio_init st" and "rawio_step\<^sup>*\<^sup>* st st'"
  shows "(\<exists>xs. rlist (nodes st') (p_rawio_list st') xs \<and> distinct (map fst xs) \<and> distinct (map (fst \<circ> snd) xs))
    \<and> rawio_open ENODEV idx st' \<noteq> None \<and> rawio_remove dev st' \<noteq> None"
proof -
  obtain xs where xs: "listed st' xs" using rawio.reachable_inv [OF assms] by blast
  then have l: "rlist (nodes st') (p_rawio_list st') xs" by (simp add: listed_def)
  have "rawio_open ENODEV idx st' \<noteq> None"
    unfolding rawio_open_def find_device_rlist [OF l] by (simp split: option.split)
  moreover have "rawio_remove dev st' \<noteq> None" using remove_listed [OF xs, of dev] by auto
  ultimately show ?thesis using xs unfolding listed_def by blast
qed

definition no_devices :: "nat rawio_state" where
  "no_devices = \<lparr>nodes = Map.empty, p_rawio_list = None, next_index = 0\<rparr>"

theorem rawio_list_well_formed_witness:
  "rawio_remove 7 (snd (rawio_probe 19 12 True (Some 1) 7 no_devices)) \<noteq> None"
proof -
  have "rawio_step no_devices (snd (rawio_probe 19 12 True (Some 1) 7 no_devices))"
    by (rule probed [of _ 1, OF _ _ prod.collapse [symmetric]]) (simp_all add: no_devices_def)
  then have "rawio_step\<^sup>*\<^sup>* no_devices (snd (rawio_probe 19 12 True (Some 1) 7 no_devices))" by blast
  moreover have "rawio_init no_devices" by (simp add: rawio_init_def no_devices_def)
  ultimately show ?thesis using rawio_list_well_formed [of no_devices _ 19 0 7] by simp
qed

text \<open>
  Removing a device takes exactly its nodes out of the list and frees them: the other devices
  keep their order, their index and their node, and the walk ends. Opening finds the node of an
  index, or reports that there is none.
\<close>

theorem rawio_remove_filters:
  assumes "rlist (nodes st) (p_rawio_list st) xs" and "distinct (map fst xs)"
  shows "\<exists>st'. rawio_remove dev st = Some (0, st')
    \<and> rlist (nodes st') (p_rawio_list st') (filter (\<lambda>(a, i, d). d \<noteq> dev) xs)
    \<and> (\<forall>(a, i, d) \<in> set xs. d = dev \<longrightarrow> nodes st' a = None)
    \<and> rawio_open ENODEV idx st' =
      Some (case find (\<lambda>(a, i, d). i = idx) (filter (\<lambda>(a, i, d). d \<noteq> dev) xs) of
        None \<Rightarrow> Inl (- ENODEV) | Some x \<Rightarrow> Inr (fst x))"
proof -
  have head: "read_link Head st = Some (p_rawio_list st)" by (simp add: read_link_def)
  obtain st' p' where st': "remove_loop dev Head st = Some st'" "unlinked dev Head xs st p' st'"
    using remove_loop_unlinks [OF head assms] by blast
  have l: "rlist (nodes st') (p_rawio_list st') (filter (\<lambda>(a, i, d). d \<noteq> dev) xs)"
    and gone: "\<forall>(a, i, d) \<in> set xs. d = dev \<longrightarrow> nodes st' a = None"
    using st'(2) by (auto simp: unlinked_def read_link_def)
  have "rawio_open ENODEV idx st' =
      Some (case find (\<lambda>(a, i, d). i = idx) (filter (\<lambda>(a, i, d). d \<noteq> dev) xs) of
        None \<Rightarrow> Inl (- ENODEV) | Some x \<Rightarrow> Inr (fst x))"
    unfolding rawio_open_def find_device_rlist [OF l] by (simp split: option.split)
  then show ?thesis using st'(1) l gone by (simp add: rawio_remove_def)
qed

definition two_devices :: "nat rawio_state" where
  "two_devices = \<lparr>nodes = [1 \<mapsto> \<lparr>rawio_index = 1, p_device = 7, p_next = Some 0\<rparr>,
    0 \<mapsto> \<lparr>rawio_index = 0, p_device = 9, p_next = None\<rparr>], p_rawio_list = Some 1, next_index = 2\<rparr>"

lemma two_devices_list: "rlist (nodes two_devices) (p_rawio_list two_devices) [(1, 1, 7), (0, 0, 9)]"
  by (simp add: two_devices_def)

theorem rawio_remove_filters_witness:
  "\<exists>st'. rawio_remove 7 two_devices = Some (0, st') \<and> rlist (nodes st') (p_rawio_list st') [(0, 0, 9)]
    \<and> rawio_open 19 1 st' = Some (Inl (- 19))"
  using rawio_remove_filters [OF two_devices_list, of 7 19 1] by auto

text \<open>
  The size check of \<^verbatim>\<open>rawio_mmap\<close> is one short: the end of a resource is its last address, so a
  request to map the whole resource is refused.
\<close>

theorem rawio_mmap_refuses_whole:
  fixes env :: "u32 mmap_env"
  assumes "nodes st a = Some n" and "resource (p_device n) = Some (start, stop)"
    and "stop - start \<noteq> - 1" and "vm_end vma - vm_start vma = stop - start + 1"
  shows "rawio_mmap env resource ok a vma st = Some (- EINVAL_no env, None, vma)"
proof -
  have "1 + (stop - start) \<noteq> 0"
    using assms(3) by (simp add: add_eq_0_iff minus_equation_iff)
  then have "stop - start < 1 + (stop - start)"
    by (simp add: word_less_nat_alt unatSuc)
  then have "stop - start < stop - start + 1" by (simp only: add.commute)
  then show ?thesis using assms by (simp add: rawio_mmap_def)
qed

theorem rawio_mmap_refuses_whole_witness:
  "rawio_mmap \<lparr>page_mask = 0xfffff000, page_shift = 12, pgprot_noncached = id, VM_IO = 0x4000, ENODEV_no = 19, EINVAL_no = 22, EAGAIN_no = 11\<rparr>
      (\<lambda>_. Some (0x40000000 :: u32, 0x40000fff)) True 1 \<lparr>vm_start = 0x1000, vm_end = 0x2000, vm_pgoff = 0, vm_page_prot = 3, vm_flags = 1\<rparr> two_devices
    = Some (- 22, None, \<lparr>vm_start = 0x1000, vm_end = 0x2000, vm_pgoff = 0, vm_page_prot = 3, vm_flags = 1\<rparr>)"
  using rawio_mmap_refuses_whole [where st = two_devices and a = 1
      and n = "\<lparr>rawio_index = 1, p_device = 7, p_next = Some 0\<rparr>" and start = "0x40000000" and stop = "0x40000fff"
      and resource = "\<lambda>_. Some (0x40000000, 0x40000fff)" and ok = True
      and vma = "\<lparr>vm_start = 0x1000, vm_end = 0x2000, vm_pgoff = 0, vm_page_prot = 3, vm_flags = 1\<rparr>"
      and env = "\<lparr>page_mask = 0xfffff000, page_shift = 12, pgprot_noncached = id, VM_IO = 0x4000, ENODEV_no = 19, EINVAL_no = 22, EAGAIN_no = 11\<rparr>"]
  by (simp add: two_devices_def)

text \<open>A file that was opened before its device was removed leads to a freed node.\<close>

theorem rawio_mmap_after_remove:
  assumes "rlist (nodes st) (p_rawio_list st) xs" and "distinct (map fst xs)" and "(a, i, dev) \<in> set xs"
    and "rawio_remove dev st = Some (0, st')"
  shows "rawio_mmap env resource ok a vma st' = None"
proof -
  have "nodes st' a = None"
    using rawio_remove_frees [OF assms(1,2,4)] assms(3) by blast
  then show ?thesis by (simp add: rawio_mmap_def)
qed

end
