(* ===== verification/Ipi.thy ===== *)
theory Ipi
  imports Atomics
begin

text \<open>
  Interrupts between harts, \<^verbatim>\<open>kernel/smp.c\<close>: any number of senders and the handlers of all
  harts interleave in single accesses to the message bits and the firmware. The firmware's two
  calls are parameters with the contract \<open>ipi_contract\<close>; barriers are no steps.
\<close>

section \<open>Messages\<close>

datatype ipi_message_type = IPI_RESCHEDULE | IPI_CALL_FUNC

fun ipi_number :: "ipi_message_type \<Rightarrow> nat" where
  "ipi_number IPI_RESCHEDULE = 0"
| "ipi_number IPI_CALL_FUNC = 1"

definition IPI_MAX :: nat where "IPI_MAX = 2"

text \<open>The bits of one hart are an array of one word.\<close>

definition set_message :: "ipi_message_type \<Rightarrow> u32 \<Rightarrow> u32" where
  "set_message operation bits = set_bit_at (ipi_number operation) [bits] ! 0"

text \<open>The body of the loop of \<^verbatim>\<open>handle_ipi\<close>: what it serves, and whether it hits the \<^verbatim>\<open>BUG_ON\<close>.\<close>

definition serve_ops :: "u32 \<Rightarrow> ipi_message_type list \<times> bool" where
  "serve_ops ops =
    ((if ops AND push_bit (ipi_number IPI_RESCHEDULE) 1 \<noteq> 0 then [IPI_RESCHEDULE] else []) @
     (if ops AND push_bit (ipi_number IPI_CALL_FUNC) 1 \<noteq> 0 then [IPI_CALL_FUNC] else []),
     drop_bit IPI_MAX ops \<noteq> 0)"

section \<open>Harts\<close>

record 'f sbi =
  sbi_send_ipi :: "nat \<Rightarrow> 'f \<Rightarrow> 'f"
  sbi_clear_ipi :: "nat \<Rightarrow> 'f \<Rightarrow> u32 \<times> 'f"

text \<open>
  A sender in \<^verbatim>\<open>send_ipi_message\<close> has harts left to set the bit of, then harts left to
  interrupt. A handler is outside \<^verbatim>\<open>handle_ipi\<close>, in front of \<^verbatim>\<open>sbi_clear_ipi\<close>, in front of
  the \<^verbatim>\<open>xchg\<close> of its loop, in the body of the loop, or at the \<^verbatim>\<open>BUG_ON\<close>.
\<close>

datatype sender = S_idle | S_set ipi_message_type "nat list" "nat list" | S_kick "nat list"

datatype handler = H_out | H_clear | H_loop | H_run u32 | H_bug

record 'f ipi_state =
  ipi_data :: "nat \<Rightarrow> u32"
  firmware :: 'f
  senders :: "nat \<Rightarrow> sender"
  handlers :: "nat \<Rightarrow> handler"
  served :: "(nat \<times> ipi_message_type) list"

inductive ipi_step :: "'f sbi \<Rightarrow> 'f ipi_state \<Rightarrow> 'f ipi_state \<Rightarrow> bool" for sbi where
  send: "senders s i = S_idle \<Longrightarrow>
    ipi_step sbi s (s\<lparr>senders := (senders s)(i := S_set operation to_whom to_whom)\<rparr>)"
| set: "senders s i = S_set operation (c # cs) to_whom \<Longrightarrow>
    ipi_step sbi s (s\<lparr>ipi_data := (ipi_data s)(c := set_message operation (ipi_data s c)),
      senders := (senders s)(i := S_set operation cs to_whom)\<rparr>)"
| set_done: "senders s i = S_set operation [] to_whom \<Longrightarrow>
    ipi_step sbi s (s\<lparr>senders := (senders s)(i := S_kick to_whom)\<rparr>)"
| kick: "senders s i = S_kick (c # cs) \<Longrightarrow>
    ipi_step sbi s (s\<lparr>firmware := sbi_send_ipi sbi c (firmware s), senders := (senders s)(i := S_kick cs)\<rparr>)"
| kick_done: "senders s i = S_kick [] \<Longrightarrow>
    ipi_step sbi s (s\<lparr>senders := (senders s)(i := S_idle)\<rparr>)"
| interrupt: "handlers s c = H_out \<Longrightarrow>
    ipi_step sbi s (s\<lparr>handlers := (handlers s)(c := H_clear)\<rparr>)"
| clear: "handlers s c = H_clear \<Longrightarrow> sbi_clear_ipi sbi c (firmware s) = (was, fw) \<Longrightarrow>
    ipi_step sbi s (s\<lparr>firmware := fw, handlers := (handlers s)(c := if was = 0 then H_out else H_loop)\<rparr>)"
| swap: "handlers s c = H_loop \<Longrightarrow> xchg 0 (ipi_data s c) = (ops, bits) \<Longrightarrow>
    ipi_step sbi s (s\<lparr>ipi_data := (ipi_data s)(c := bits),
      handlers := (handlers s)(c := if ops = 0 then H_out else H_run ops)\<rparr>)"
| run: "handlers s c = H_run ops \<Longrightarrow> serve_ops ops = (msgs, bug) \<Longrightarrow>
    ipi_step sbi s (s\<lparr>served := served s @ map (Pair c) msgs,
      handlers := (handlers s)(c := if bug then H_bug else H_loop)\<rparr>)"

definition ipi_init :: "'f ipi_state \<Rightarrow> bool" where
  "ipi_init s \<longleftrightarrow> ipi_data s = (\<lambda>_. 0) \<and> senders s = (\<lambda>_. S_idle) \<and> handlers s = (\<lambda>_. H_out)"

text \<open>What the firmware promises: \<open>pending\<close> is the state of its interrupt lines.\<close>

definition ipi_contract :: "'f sbi \<Rightarrow> (nat \<Rightarrow> 'f \<Rightarrow> bool) \<Rightarrow> bool" where
  "ipi_contract sbi pending \<longleftrightarrow>
    (\<forall>c d f. pending d (sbi_send_ipi sbi c f) = (d = c \<or> pending d f))
    \<and> (\<forall>c f. fst (sbi_clear_ipi sbi c f) \<noteq> 0 \<longleftrightarrow> pending c f)
    \<and> (\<forall>c d f. d \<noteq> c \<longrightarrow> pending d (snd (sbi_clear_ipi sbi c f)) = pending d f)"

section \<open>No message is forgotten\<close>

fun will_kick :: "sender \<Rightarrow> nat \<Rightarrow> bool" where
  "will_kick (S_set _ todo to_whom) c = (c \<in> set to_whom)"
| "will_kick (S_kick todo) c = (c \<in> set todo)"
| "will_kick S_idle c = False"

fun sender_ok :: "sender \<Rightarrow> bool" where
  "sender_ok (S_set _ todo to_whom) = (set todo \<subseteq> set to_whom)"
| "sender_ok _ = True"

fun in_loop :: "handler \<Rightarrow> bool" where
  "in_loop H_loop = True"
| "in_loop (H_run _) = True"
| "in_loop _ = False"

fun handler_ok :: "handler \<Rightarrow> bool" where
  "handler_ok (H_run ops) = (drop_bit IPI_MAX ops = 0)"
| "handler_ok H_bug = False"
| "handler_ok _ = True"

definition owed :: "(nat \<Rightarrow> 'f \<Rightarrow> bool) \<Rightarrow> 'f ipi_state \<Rightarrow> nat \<Rightarrow> bool" where
  "owed pending s c \<longleftrightarrow> pending c (firmware s) \<or> in_loop (handlers s c) \<or> (\<exists>i. will_kick (senders s i) c)"

definition ipi_inv :: "(nat \<Rightarrow> 'f \<Rightarrow> bool) \<Rightarrow> 'f ipi_state \<Rightarrow> bool" where
  "ipi_inv pending s \<longleftrightarrow>
    (\<forall>c. (ipi_data s c \<noteq> 0 \<longrightarrow> owed pending s c) \<and> drop_bit IPI_MAX (ipi_data s c) = 0 \<and> handler_ok (handlers s c))
    \<and> (\<forall>i. sender_ok (senders s i))"

lemma set_message_or: "set_message op bits = bits OR push_bit (ipi_number op) 1"
  by (cases op) (simp_all add: set_message_def set_bit_at_def bit_op_defs BIT_MASK_def)

lemma set_message_high: "drop_bit IPI_MAX bits = 0 \<Longrightarrow> drop_bit IPI_MAX (set_message op bits) = 0"
  by (cases op) (simp_all add: set_message_or IPI_MAX_def drop_bit_or)

lemma serve_ops_bit:
  "op \<in> set (fst (serve_ops ops)) \<longleftrightarrow> bit ops (ipi_number op)"
proof -
  have "ops AND push_bit n 1 \<noteq> 0 \<longleftrightarrow> bit ops n" if "n < 32" for n
    using that and_mask_bit [of ops n] by (simp add: BIT_MASK_def)
  from this [of 0] this [of 1] show ?thesis by (cases op) (auto simp: serve_ops_def)
qed

lemma ipi_inv_sender:
  assumes "ipi_inv pending s" and "sender_ok x"
    and "\<And>c. will_kick (senders s i) c \<Longrightarrow> will_kick x c \<or> pending c fw"
    and "\<And>c. pending c (firmware s) \<Longrightarrow> pending c fw"
    and "\<And>c. ipi_data s c \<noteq> bits c \<Longrightarrow> will_kick x c \<and> drop_bit IPI_MAX (bits c) = 0"
  shows "ipi_inv pending (s\<lparr>ipi_data := bits, firmware := fw, senders := (senders s)(i := x)\<rparr>)"
proof -
  have "owed pending (s\<lparr>ipi_data := bits, firmware := fw, senders := (senders s)(i := x)\<rparr>) c"
    if "bits c \<noteq> 0" for c
  proof (cases "ipi_data s c = bits c")
    case True
    then have "owed pending s c" using assms(1) that by (simp add: ipi_inv_def)
    then show ?thesis using assms(3,4) [of c] by (fastforce simp: owed_def)
  next
    case False
    then show ?thesis using assms(5) by (auto simp: owed_def)
  qed
  moreover have "drop_bit IPI_MAX (bits c) = 0" for c
    using assms(1) assms(5) [of c] unfolding ipi_inv_def by (cases "ipi_data s c = bits c") metis+
  ultimately show ?thesis using assms(1,2) by (auto simp: ipi_inv_def)
qed

lemma ipi_inv_handler:
  assumes "ipi_inv pending s" and "handler_ok x"
    and "\<And>d. d \<noteq> c \<Longrightarrow> pending d fw = pending d (firmware s)" and "drop_bit IPI_MAX bits = 0"
    and "bits \<noteq> 0 \<Longrightarrow> owed pending s c \<Longrightarrow> in_loop x \<or> pending c fw \<or> (\<exists>i. will_kick (senders s i) c)"
    and "bits \<noteq> 0 \<Longrightarrow> ipi_data s c \<noteq> 0"
  shows "ipi_inv pending (s\<lparr>ipi_data := (ipi_data s)(c := bits), firmware := fw, served := sv, handlers := (handlers s)(c := x)\<rparr>)"
  using assms unfolding ipi_inv_def owed_def by auto

lemma ipi_step_inv:
  assumes "ipi_contract sbi pending" and "ipi_step sbi s t" and "ipi_inv pending s"
  shows "ipi_inv pending t"
  using assms(2)
proof cases
  case (set i op c cs to_whom)
  have c: "c \<in> set to_whom" "set cs \<subseteq> set to_whom"
    using assms(3) set(2) unfolding ipi_inv_def by (metis list.set_intros(1) sender_ok.simps(1) subsetD, metis
        list.simps(15) insert_subset sender_ok.simps(1))
  have "drop_bit IPI_MAX (ipi_data s c) = 0" using assms(3) by (simp add: ipi_inv_def)
  then have "ipi_inv pending (s\<lparr>ipi_data := (ipi_data s)(c := set_message op (ipi_data s c)),
      firmware := firmware s, senders := (senders s)(i := S_set op cs to_whom)\<rparr>)"
    using c set(2) by (intro ipi_inv_sender [OF assms(3)]) (auto simp: set_message_high)
  then show ?thesis using set(1) by simp
next
  case (send i op to_whom)
  then show ?thesis
    using ipi_inv_sender [OF assms(3), of "S_set op to_whom to_whom" i "firmware s" "ipi_data s"] by simp
next
  case (set_done i op to_whom)
  then show ?thesis
    using ipi_inv_sender [OF assms(3), of "S_kick to_whom" i "firmware s" "ipi_data s"] by simp
next
  case (kick i c cs)
  then show ?thesis
    using ipi_inv_sender [OF assms(3), of "S_kick cs" i "sbi_send_ipi sbi c (firmware s)" "ipi_data s"] assms(1)
    by (auto simp: ipi_contract_def)
next
  case (kick_done i)
  then show ?thesis
    using ipi_inv_sender [OF assms(3), of S_idle i "firmware s" "ipi_data s"] by simp
next
  case (interrupt c)
  then show ?thesis
    using ipi_inv_handler [OF assms(3), of H_clear c "firmware s" "ipi_data s c" "served s"] assms(3)
    by (auto simp: ipi_inv_def owed_def)
next
  case (clear c was fw)
  have "was \<noteq> 0 \<longleftrightarrow> pending c (firmware s)" "\<And>d. d \<noteq> c \<Longrightarrow> pending d fw = pending d (firmware s)"
    using assms(1) clear(3) unfolding ipi_contract_def by (metis fst_conv, metis snd_conv)
  then show ?thesis
    using ipi_inv_handler [OF assms(3), of "if was = 0 then H_out else H_loop" c fw "ipi_data s c" "served s"]
      assms(3) clear by (auto simp: ipi_inv_def owed_def)
next
  case (swap c ops bits)
  then have ops: "ops = ipi_data s c" "bits = 0" by (simp_all add: xchg_def amoswap_def)
  then show ?thesis
    using ipi_inv_handler [OF assms(3), of "if ops = 0 then H_out else H_run ops" c "firmware s" 0 "served s"]
      assms(3) swap by (auto simp: ipi_inv_def)
next
  case (run c ops msgs bug)
  have "drop_bit IPI_MAX ops = 0" using assms(3) run(2) unfolding ipi_inv_def by (metis handler_ok.simps(1))
  then have "\<not> bug" using run(3) by (auto simp: serve_ops_def)
  then show ?thesis
    using ipi_inv_handler [OF assms(3), of H_loop c "firmware s" "ipi_data s c" "served s @ map (Pair c) msgs"]
      assms(3) run by (auto simp: ipi_inv_def)
qed

lemma ipi_init_inv: "ipi_init s \<Longrightarrow> ipi_inv pending s"
  by (simp add: ipi_init_def ipi_inv_def)

interpretation ipi: stepping ipi_init "ipi_step sbi" "\<lambda>s. ipi_contract sbi pending \<longrightarrow> ipi_inv pending s"
  for sbi pending
  by unfold_locales (use ipi_init_inv ipi_step_inv in blast)+

text \<open>A handler that is entered on a hart with messages serves them.\<close>

lemma handler_serves:
  assumes "ipi_contract sbi pending" and "handlers s c = H_out" and "pending c (firmware s)"
    and "bit (ipi_data s c) (ipi_number op)" and "drop_bit IPI_MAX (ipi_data s c) = 0"
  shows "\<exists>t. (ipi_step sbi)\<^sup>*\<^sup>* s t \<and> (c, op) \<in> set (served t) \<and> handlers t c = H_out \<and> ipi_data t c = 0"
proof -
  obtain was fw where fw: "sbi_clear_ipi sbi c (firmware s) = (was, fw)" by fastforce
  have "was \<noteq> 0" using assms(1,3) fw unfolding ipi_contract_def by (metis fst_conv)
  let ?s1 = "s\<lparr>handlers := (handlers s)(c := H_clear)\<rparr>"
  let ?s2 = "?s1\<lparr>firmware := fw, handlers := (handlers s)(c := H_loop)\<rparr>"
  let ?s3 = "?s2\<lparr>ipi_data := (ipi_data s)(c := 0), handlers := (handlers s)(c := H_run (ipi_data s c))\<rparr>"
  let ?msgs = "fst (serve_ops (ipi_data s c))"
  let ?s4 = "?s3\<lparr>served := served s @ map (Pair c) ?msgs, handlers := (handlers s)(c := H_loop)\<rparr>"
  let ?s5 = "?s4\<lparr>ipi_data := (ipi_data s)(c := 0), handlers := (handlers s)(c := H_out)\<rparr>"
  have nonzero: "ipi_data s c \<noteq> 0" using assms(4) by auto
  have "ipi_step sbi s ?s1" using assms(2) by (rule interrupt)
  moreover have "ipi_step sbi ?s1 ?s2"
    using clear [of ?s1 c sbi was fw] fw \<open>was \<noteq> 0\<close> by simp
  moreover have "ipi_step sbi ?s2 ?s3"
    using swap [of ?s2 c "ipi_data s c" 0 sbi] nonzero by (simp add: xchg_def amoswap_def)
  moreover have "ipi_step sbi ?s3 ?s4"
    using run [of ?s3 c "ipi_data s c" ?msgs False sbi] assms(5) by (simp add: serve_ops_def)
  moreover have "ipi_step sbi ?s4 ?s5"
    using swap [of ?s4 c 0 0 sbi] by (simp add: xchg_def amoswap_def)
  ultimately have "(ipi_step sbi)\<^sup>*\<^sup>* s ?s5"
    by (meson rtranclp.rtrancl_into_rtrancl r_into_rtranclp)
  then show ?thesis
    using assms(4) by (intro exI [of _ ?s5]) (simp add: serve_ops_bit)
qed

section \<open>No message is lost\<close>

text \<open>
  A message waits while its bit is set, or once the handler has taken the bits and not yet served
  them. It stays so, whatever else is sent, until it is served.
\<close>

definition message_waits :: "'f ipi_state \<Rightarrow> nat \<Rightarrow> ipi_message_type \<Rightarrow> bool" where
  "message_waits s c op \<longleftrightarrow>
    bit (ipi_data s c) (ipi_number op)
    \<or> (case handlers s c of H_run ops \<Rightarrow> bit ops (ipi_number op) | _ \<Rightarrow> False)"

lemma set_message_bit: "bit bits k \<Longrightarrow> bit (set_message op bits) k" "bit (set_message op bits) (ipi_number op)"
  by (cases op; simp add: set_message_or bit_or_iff bit_simps)+

lemma step_served: "ipi_step sbi s t \<Longrightarrow> \<exists>more. served t = served s @ more"
  by (cases rule: ipi_step.cases) auto

lemma step_waits:
  assumes "ipi_step sbi s t" "message_waits s c op"
  shows "message_waits t c op \<or> (c, op) \<in> set (drop (length (served s)) (served t))"
  using assms(1)
proof cases
  case (swap d ops bits)
  then show ?thesis using assms(2) by (auto simp: message_waits_def xchg_def amoswap_def)
next
  case (run d ops msgs bug)
  then show ?thesis
    using assms(2) serve_ops_bit [of op ops] by (cases "d = c") (auto simp: message_waits_def)
qed (use assms(2) in \<open>auto simp: message_waits_def set_message_bit\<close>)

lemma run_waits:
  assumes "(ipi_step sbi)\<^sup>*\<^sup>* s t" "message_waits s c op"
  shows "(\<exists>more. served t = served s @ more)
    \<and> (message_waits t c op \<or> (c, op) \<in> set (drop (length (served s)) (served t)))"
  using assms(1)
proof (induction rule: rtranclp_induct)
  case base
  then show ?case using assms(2) by simp
next
  case (step t u)
  obtain more where "served u = served t @ more" using step_served [OF step.hyps(2)] by blast
  then show ?case using step.IH step_waits [OF step.hyps(2), of c op] by auto
qed

lemma set_step_waits:
  assumes "ipi_step sbi s t" "senders s i = S_set op (c # cs) to_whom" "senders t i = S_set op cs to_whom"
  shows "bit (ipi_data t c) (ipi_number op)"
  using assms(1)
proof cases
  case (set j op' d ds to_whom')
  then show ?thesis using assms(2,3) by (auto simp: set_message_bit split: if_splits)
qed (use assms(2,3) in \<open>auto split: if_splits\<close>)

section \<open>Property\<close>

text \<open>
  C9: no message between harts is lost or forgotten and none is unknown. However senders and handlers
  interleave, the step of a sender for a hart leaves the bit of its message set there; a message that
  is set, or taken by the handler and not yet served, is so after any further steps, sends of other
  messages to the hart included, or was served in them; bits that are set are owed a handler, which
  is already in its loop or will be interrupted; the \<^verbatim>\<open>BUG_ON\<close> is never reached; and when all senders
  are done and the handler of a hart is outside, it is interrupted and serves every message that is
  set for it.
\<close>

theorem ipi_delivered:
  assumes "ipi_contract sbi pending" and "ipi_init s" and "(ipi_step sbi)\<^sup>*\<^sup>* s t"
  shows "(\<forall>i cs to_whom u. senders t i = S_set op (c # cs) to_whom \<and> ipi_step sbi t u
        \<and> senders u i = S_set op cs to_whom \<longrightarrow> bit (ipi_data u c) (ipi_number op))
    \<and> (\<forall>u. message_waits t c op \<and> (ipi_step sbi)\<^sup>*\<^sup>* t u \<longrightarrow>
        message_waits u c op \<or> (c, op) \<in> set (drop (length (served t)) (served u)))
    \<and> (ipi_data t c \<noteq> 0 \<longrightarrow> owed pending t c) \<and> handlers t c \<noteq> H_bug
    \<and> ((\<forall>i. senders t i = S_idle) \<and> handlers t c = H_out \<and> bit (ipi_data t c) (ipi_number op) \<longrightarrow>
      (\<exists>u. (ipi_step sbi)\<^sup>*\<^sup>* t u \<and> (c, op) \<in> set (served u) \<and> ipi_data u c = 0))"
proof -
  have inv: "ipi_inv pending t" using ipi.reachable_inv [OF assms(2,3)] assms(1) by blast
  then have high: "drop_bit IPI_MAX (ipi_data t c) = 0" and owed: "ipi_data t c \<noteq> 0 \<Longrightarrow> owed pending t c"
    and no_bug: "handlers t c \<noteq> H_bug"
    unfolding ipi_inv_def by (blast, blast, metis handler_ok.simps(2))
  have "\<exists>u. (ipi_step sbi)\<^sup>*\<^sup>* t u \<and> (c, op) \<in> set (served u) \<and> ipi_data u c = 0"
    if quiet: "\<forall>i. senders t i = S_idle" "handlers t c = H_out" and msg: "bit (ipi_data t c) (ipi_number op)"
  proof -
    have "ipi_data t c \<noteq> 0" using msg by auto
    then have "pending c (firmware t)" using owed quiet by (simp add: owed_def)
    then show ?thesis using handler_serves [OF assms(1) quiet(2) _ msg high] by blast
  qed
  then show ?thesis using owed no_bug set_step_waits [of sbi t] run_waits [of sbi t _ c op] by blast
qed

text \<open>A firmware with a line per hart, and one message sent to two harts.\<close>

definition lines_sbi :: "(nat \<Rightarrow> bool) sbi" where
  "lines_sbi = \<lparr>sbi_send_ipi = (\<lambda>c f. f(c := True)), sbi_clear_ipi = (\<lambda>c f. (of_bool (f c), f(c := False)))\<rparr>"

definition ipi_start :: "(nat \<Rightarrow> bool) ipi_state" where
  "ipi_start = \<lparr>ipi_data = (\<lambda>_. 0), firmware = (\<lambda>_. False), senders = (\<lambda>_. S_idle), handlers = (\<lambda>_. H_out), served = []\<rparr>"

definition ipi_sent :: "(nat \<Rightarrow> bool) ipi_state" where
  "ipi_sent = ipi_start\<lparr>ipi_data := (\<lambda>_. 0)(1 := 2), senders := (\<lambda>_. S_idle)(0 := S_set IPI_CALL_FUNC [] [1])\<rparr>"

lemma lines_contract: "ipi_contract lines_sbi (\<lambda>c f. f c)"
  by (auto simp: ipi_contract_def lines_sbi_def)

lemma ipi_example: "(ipi_step lines_sbi)\<^sup>*\<^sup>* ipi_start ipi_sent"
proof -
  let ?s = "ipi_start\<lparr>senders := (senders ipi_start)(0 := S_set IPI_CALL_FUNC [1] [1])\<rparr>"
  have "ipi_step lines_sbi ipi_start ?s" by (rule send) (simp add: ipi_start_def)
  moreover have "ipi_step lines_sbi ?s ipi_sent"
    using set [of ?s 0 IPI_CALL_FUNC 1 "[]" "[1]" lines_sbi]
    by (simp add: ipi_start_def ipi_sent_def set_message_or)
  ultimately show ?thesis by (meson converse_rtranclp_into_rtranclp r_into_rtranclp)
qed

text \<open>The other message to the same hart does not overwrite it.\<close>

definition ipi_sent_both :: "(nat \<Rightarrow> bool) ipi_state" where
  "ipi_sent_both = ipi_sent\<lparr>ipi_data := (ipi_data ipi_sent)(1 := set_message IPI_RESCHEDULE (ipi_data ipi_sent 1)),
    senders := (senders ipi_sent)(2 := S_set IPI_RESCHEDULE [] [1])\<rparr>"

lemma ipi_example_both: "(ipi_step lines_sbi)\<^sup>*\<^sup>* ipi_sent ipi_sent_both"
proof -
  let ?s = "ipi_sent\<lparr>senders := (senders ipi_sent)(2 := S_set IPI_RESCHEDULE [1] [1])\<rparr>"
  have "ipi_step lines_sbi ipi_sent ?s" by (rule send) (simp add: ipi_start_def ipi_sent_def)
  moreover have "ipi_step lines_sbi ?s ipi_sent_both"
    using set [of ?s 2 IPI_RESCHEDULE 1 "[]" "[1]" lines_sbi] by (simp add: ipi_sent_both_def)
  ultimately show ?thesis by (meson converse_rtranclp_into_rtranclp r_into_rtranclp)
qed

theorem ipi_delivered_witness:
  "owed (\<lambda>c f. f c) ipi_sent 1 \<and> handlers ipi_sent 1 \<noteq> H_bug \<and> message_waits ipi_sent_both 1 IPI_CALL_FUNC"
proof -
  have start: "ipi_init ipi_start" "ipi_data ipi_sent 1 = 2" "served ipi_sent = []" "served ipi_sent_both = []"
    by (simp_all add: ipi_init_def ipi_start_def ipi_sent_def ipi_sent_both_def)
  have "message_waits ipi_sent 1 IPI_CALL_FUNC" unfolding message_waits_def start(2) by (simp add: bit_iff_odd)
  note life = ipi_delivered [OF lines_contract start(1) ipi_example, of IPI_CALL_FUNC 1]
  have "message_waits ipi_sent_both 1 IPI_CALL_FUNC"
    using conjunct1 [OF conjunct2 [OF life]] \<open>message_waits ipi_sent 1 IPI_CALL_FUNC\<close> ipi_example_both start(3,4) by force
  moreover have "ipi_data ipi_sent 1 \<noteq> 0" using start(2) by simp
  ultimately show ?thesis using life by blast
qed

end
