(* ===== verification/Timer.thy ===== *)
theory Timer
  imports Div64 Regs
begin

text \<open>
  Time: \<^verbatim>\<open>get_cycles\<close> of \<^verbatim>\<open>asm/timex.h\<close>, \<^verbatim>\<open>lib/delay.c\<close> and
  \<^verbatim>\<open>kernel/time.c\<close>. The counter is a function of the number of instructions executed so far;
  a read takes the ticks of its instructions and returns the tick behind it.
\<close>

section \<open>Reading the counter\<close>

definition get_cycles64 :: "(nat \<Rightarrow> u64) \<Rightarrow> nat \<Rightarrow> (u64 \<times> nat) option" where
  "get_cycles64 clock t = Some (clock t, t + 1)"

text \<open>The 32-bit machine reads the high half on both sides of the low half.\<close>

partial_function (option) get_cycles32 :: "(nat \<Rightarrow> u64) \<Rightarrow> nat \<Rightarrow> (u64 \<times> nat) option" where
  "get_cycles32 clock t =
    (let hi = ucast (drop_bit 32 (clock t)) :: u32;
         lo = ucast (clock (t + 1)) :: u32;
         tmp = ucast (drop_bit 32 (clock (t + 2))) :: u32
     in if hi \<noteq> tmp then get_cycles32 clock (t + 4)
        else Some (push_bit 32 (ucast hi) OR ucast lo, t + 4))"

definition read_current_timer :: "(nat \<Rightarrow> (u64 \<times> nat) option) \<Rightarrow> nat \<Rightarrow> (int \<times> 'w::len word \<times> nat) option" where
  "read_current_timer get_cycles t = map_option (\<lambda>(c, t). (0, ucast c, t)) (get_cycles t)"

section \<open>Delays\<close>

partial_function (option) delay_loop ::
    "(nat \<Rightarrow> (u64 \<times> nat) option) \<Rightarrow> u64 \<Rightarrow> 'w::len word \<Rightarrow> nat \<Rightarrow> nat option" where
  "delay_loop get_cycles start cycles t =
    (case get_cycles t of
       None \<Rightarrow> None
     | Some (now, t) \<Rightarrow> if ucast (now - start) < cycles then delay_loop get_cycles start cycles t else Some t)"

definition delay :: "(nat \<Rightarrow> (u64 \<times> nat) option) \<Rightarrow> 'w::len word \<Rightarrow> nat \<Rightarrow> nat option" where
  "delay get_cycles cycles t =
    (case get_cycles t of None \<Rightarrow> None | Some (start, t) \<Rightarrow> delay_loop get_cycles start cycles t)"

text \<open>What \<^verbatim>\<open>udelay\<close> and \<^verbatim>\<open>ndelay\<close> hand to \<^verbatim>\<open>__delay\<close> is the value of \<^verbatim>\<open>do_div\<close>.\<close>

definition udelay ::
    "math_env \<Rightarrow> (nat \<Rightarrow> (u64 \<times> nat) option) \<Rightarrow> u32 \<Rightarrow> u32 \<Rightarrow> nat \<Rightarrow> nat option" where
  "udelay E get_cycles timebase usecs t =
    (let dt = ucast usecs * ucast timebase :: u64 in delay get_cycles (snd (do_div E True dt 1000000)) t)"

definition ndelay ::
    "math_env \<Rightarrow> (nat \<Rightarrow> (u64 \<times> nat) option) \<Rightarrow> u32 \<Rightarrow> u32 \<Rightarrow> nat \<Rightarrow> nat option" where
  "ndelay E get_cycles timebase nsecs t =
    (let dt = ucast nsecs * ucast timebase :: u64 in delay get_cycles (snd (do_div E True dt 1000000000)) t)"

section \<open>The clock\<close>

definition SIE_STIE :: "'w::len word" where "SIE_STIE = 0x20"

record time_state =
  timebase :: u32
  lpj_fine :: u32
  sie :: u32

text \<open>The argument of \<^verbatim>\<open>sbi_set_timer\<close>, and the tick behind.\<close>

definition riscv_timer_set_next_event ::
    "(nat \<Rightarrow> (u64 \<times> nat) option) \<Rightarrow> u32 \<Rightarrow> nat \<Rightarrow> (u64 \<times> nat) option" where
  "riscv_timer_set_next_event get_cycles delta t = map_option (\<lambda>(c, t). (c + ucast delta, t)) (get_cycles t)"

definition riscv_rdtime :: "(nat \<Rightarrow> (u64 \<times> nat) option) \<Rightarrow> nat \<Rightarrow> (u64 \<times> nat) option" where
  "riscv_rdtime get_cycles t = get_cycles t"

text \<open>Registration of the clock with the kernel proper is not part of the state.\<close>

definition time_init :: "math_env \<Rightarrow> u32 \<Rightarrow> u32 \<Rightarrow> time_state \<Rightarrow> time_state" where
  "time_init E HZ sbi_timebase st =
    (let st = st\<lparr>timebase := sbi_timebase\<rparr>; tb = ucast (timebase st) :: u64;
         (tb, _) = do_div E True tb HZ
     in st\<lparr>lpj_fine := ucast tb, sie := csr_set SIE_STIE (sie st)\<rparr>)"

section \<open>Lemmas\<close>

lemma get_cycles32_unfold:
  "get_cycles32 clock t = (if unat (clock t) div 2 ^ 32 \<noteq> unat (clock (t + 2)) div 2 ^ 32
    then get_cycles32 clock (t + 4)
    else Some (push_bit 32 (ucast (ucast (drop_bit 32 (clock t)) :: u32)) OR ucast (ucast (clock (t + 1)) :: u32), t + 4))"
proof -
  have "unat (ucast (drop_bit 32 x) :: u32) = unat x div 2 ^ 32" for x :: u64
    using unat_bound [of x] by (simp add: unat_ucast_word unat_drop_bit_word)
  then show ?thesis
    by (subst get_cycles32.simps) (simp add: Let_def word_unat_eq_iff)
qed

lemma join_halves:
  fixes x y :: u64
  assumes "unat x div 2 ^ 32 = unat y div 2 ^ 32"
  shows "push_bit 32 (ucast (ucast (drop_bit 32 x) :: u32)) OR ucast (ucast y :: u32) = y"
proof -
  have "unat (drop_bit 32 x) = unat (drop_bit 32 y)"
    unfolding unat_drop_bit_word by (rule assms)
  then have x: "drop_bit 32 x = drop_bit 32 y" by (simp only: word_unat_eq_iff)
  have narrow: "ucast (ucast w :: u32) = take_bit 32 w" for w :: u64
    by (simp add: unat_eq_word unat_ucast_word unat_take_bit_word)
  have high: "take_bit 32 (drop_bit 32 y) = drop_bit 32 y"
    using unat_bound [of y] by (simp add: unat_eq_word unat_drop_bit_word unat_take_bit_word)
  show ?thesis
    unfolding x narrow high
    by (rule bit_word_eqI) (auto simp: bit_push_bit_iff bit_or_iff bit_take_bit_iff bit_drop_bit_eq)
qed

lemma get_cycles32_hit:
  assumes "unat (clock t) div 2 ^ 32 = unat (clock (t + 1)) div 2 ^ 32"
    and "unat (clock t) div 2 ^ 32 = unat (clock (t + 2)) div 2 ^ 32"
  shows "get_cycles32 clock t = Some (clock (t + 1), t + 4)"
  unfolding get_cycles32_unfold [of clock t] join_halves [OF assms(1)] by (rule if_not_P) (use assms(2) in blast)

lemma get_cycles32_miss:
  assumes "unat (clock t) div 2 ^ 32 \<noteq> unat (clock (t + 2)) div 2 ^ 32"
  shows "get_cycles32 clock t = get_cycles32 clock (t + 4)"
  unfolding get_cycles32_unfold [of clock t] using assms by (rule if_P)

lemma step_once:
  fixes a b c d e f g :: nat
  assumes "a \<noteq> c" "g \<le> a + 1" "a \<le> b" "b \<le> c" "c \<le> d" "d \<le> e" "e \<le> f" "f \<le> g"
  shows "d = e \<and> d = f"
  using assms by linarith

section \<open>Properties\<close>

text \<open>
  The two halves of the counter fit together: on a counter that only grows and does not run
  through a whole low half during two rounds, \<^verbatim>\<open>get_cycles\<close> of the 32-bit machine returns within
  two rounds the value the counter had when its low half was read.
\<close>

theorem get_cycles_consistent:
  assumes "\<And>i j. t \<le> i \<Longrightarrow> i \<le> j \<Longrightarrow> j \<le> t + 6 \<Longrightarrow> clock i \<le> clock j"
    and "unat (clock (t + 6)) < unat (clock t) + 2 ^ 32"
  shows "get_cycles32 clock t = Some (clock (t + 1), t + 4) \<or> get_cycles32 clock t = Some (clock (t + 5), t + 8)"
proof -
  let ?h = "\<lambda>i. unat (clock i) div 2 ^ 32"
  have mono: "?h i \<le> ?h j" if "t \<le> i" "i \<le> j" "j \<le> t + 6" for i j
    using assms(1) [OF that] by (simp add: word_le_nat_alt div_le_mono)
  have last: "?h (t + 6) \<le> ?h t + 1"
  proof -
    have "?h (t + 6) \<le> (unat (clock t) + 2 ^ 32) div 2 ^ 32"
      using assms(2) by (intro div_le_mono) simp
    then show ?thesis by simp
  qed
  have steps: "?h t \<le> ?h (t + 1)" "?h (t + 1) \<le> ?h (t + 2)" "?h (t + 2) \<le> ?h (t + 4)"
    "?h (t + 4) \<le> ?h (t + 4 + 1)" "?h (t + 4 + 1) \<le> ?h (t + 4 + 2)" "?h (t + 4 + 2) \<le> ?h (t + 6)"
    by (rule mono; simp)+
  show ?thesis
  proof (cases "?h t = ?h (t + 2)")
    case True
    then have "?h t = ?h (t + 1)" using steps(1,2) by (simp only: order_antisym)
    then show ?thesis using get_cycles32_hit [of clock t] True by blast
  next
    case False
    have "?h (t + 4) = ?h (t + 4 + 1)" "?h (t + 4) = ?h (t + 4 + 2)"
      using step_once [OF False last steps] by blast+
    then have "get_cycles32 clock (t + 4) = Some (clock (t + 4 + 1), t + 4 + 4)"
      by (rule get_cycles32_hit)
    then show ?thesis using get_cycles32_miss [of clock t, OF False] by (simp add: add.commute)
  qed
qed

definition slow_clock :: "nat \<Rightarrow> u64" where
  "slow_clock i = 0xFFFFFFFE + of_nat (min i 9)"

lemma unat_slow_clock: "unat (slow_clock i) = 0xFFFFFFFE + min i 9"
proof -
  have "unat (of_nat (min i 9) :: u64) = min i 9" by (simp add: unat_of_nat)
  then show ?thesis by (simp add: slow_clock_def unat_add_word)
qed

theorem get_cycles_consistent_witness:
  "get_cycles32 slow_clock 0 = Some (slow_clock 1, 4) \<or> get_cycles32 slow_clock 0 = Some (slow_clock 5, 8)"
  using get_cycles_consistent [of 0 slow_clock] by (simp add: word_le_nat_alt unat_slow_clock)

text \<open>
  \<^verbatim>\<open>udelay\<close> waits for the remainder in place of the quotient: with a counter of a whole number
  of megahertz it returns after two reads of the counter, however long it was to wait.
\<close>

theorem udelay_returns_at_once:
  assumes "math_env_ok E" and "1000000 dvd unat hz"
  shows "udelay E (get_cycles64 clock) hz usecs t = Some (t + 2)"
proof -
  have "unat (ucast usecs * ucast hz :: u64) = unat usecs * unat hz"
  proof -
    have "unat usecs * unat hz < 2 ^ 32 * 2 ^ 32"
      using unat_bound [of usecs] unat_bound [of hz] by (intro mult_strict_mono) simp_all
    then show ?thesis by (simp add: unat_mult_word unat_widen32)
  qed
  then have "unat (snd (do_div E True (ucast usecs * ucast hz) 1000000)) = 0"
    using do_div_spec(2) [OF assms(1), of 1000000 True "ucast usecs * ucast hz"] assms(2)
    by (simp add: dvd_imp_mod_0)
  then have "snd (do_div E True (ucast usecs * ucast hz) 1000000) = 0"
    by (simp add: unat_eq_0)
  then show ?thesis
    by (simp add: udelay_def delay_def get_cycles64_def Let_def)
      (subst delay_loop.simps, simp add: get_cycles64_def)
qed

theorem udelay_returns_at_once_witness:
  "udelay ref_env (get_cycles64 (\<lambda>t. of_nat t)) 10000000 1000 0 = Some 2"
  using udelay_returns_at_once [OF ref_env_ok, of 10000000 "\<lambda>t. of_nat t" 1000 0]
  by (simp add: dvd_def)

text \<open>A wait that returns has waited: the counter has advanced by the cycles it was asked for.\<close>

lemma delay_loop_waits:
  "delay_loop (get_cycles64 clock) start cycles t = Some t' \<Longrightarrow>
    \<exists>n. t' = n + 1 \<and> t \<le> n \<and> cycles \<le> (ucast (clock n - start) :: 'w::len word)"
proof (induction "get_cycles64 clock" start cycles t t' rule: delay_loop.raw_induct [rotated, consumes 1, case_names step])
  case (step f start cycles t t')
  show ?case
  proof (cases "ucast (clock t - start) < cycles")
    case True
    then have "f (get_cycles64 clock) start cycles (t + 1) = Some t'"
      using step(2) by (simp add: get_cycles64_def)
    then show ?thesis using step(1) by (metis Suc_eq_plus1 Suc_leD)
  next
    case False
    then show ?thesis
      using step(2) by (intro exI [of _ t]) (simp add: get_cycles64_def)
  qed
qed

end
