(* ===== verification/Stacktrace.thy ===== *)
theory Stacktrace
  imports Regs
begin

text \<open>
  Walking the kernel stack, \<^verbatim>\<open>kernel/stacktrace.c\<close>, on the 32-bit machine and in both
  builds: along the frame pointers and, without them, over every word of the stack. Memory is a
  function from addresses to words; the call-back is a function of the program counter and its
  argument, which returns whether to stop. The predicates on addresses (\<^verbatim>\<open>__kernel_text_address\<close>,
  \<^verbatim>\<open>in_sched_functions\<close>, \<^verbatim>\<open>kstack_end\<close>) belong to the kernel proper and are parameters.
\<close>

section \<open>Along the frame pointers\<close>

definition STACK_SIZE :: u32 where "STACK_SIZE = 0x2000"

text \<open>\<^verbatim>\<open>ALIGN\<close> of \<^verbatim>\<open>linux/kernel.h\<close>.\<close>

definition ALIGN :: "u32 \<Rightarrow> u32 \<Rightarrow> u32" where
  "ALIGN x a = (x + (a - 1)) AND NOT (a - 1)"

text \<open>Whether a frame pointer is good, seen from a stack pointer.\<close>

definition frame_ok :: "u32 \<Rightarrow> u32 \<Rightarrow> bool" where
  "frame_ok fp ksp =
    (let low = ksp + 8; high = ALIGN ksp STACK_SIZE in \<not> (fp < low \<or> high < fp \<or> fp AND 7 \<noteq> 0))"

lemma unat_align: "unat (ALIGN x STACK_SIZE) = unat (x + 8191) div 8192 * 8192"
proof -
  have m: "(8191 :: u32) = mask 13" by (simp add: mask_eq_exp_minus_1)
  show ?thesis using unat_round_down [of "x + mask 13" 13] by (simp add: ALIGN_def STACK_SIZE_def m)
qed

text \<open>The measure of the walk: a good frame is above the stack pointer, or the walk ends at 0.\<close>

definition stack_left :: "u32 \<Rightarrow> nat" where
  "stack_left ksp = (if ksp = 0 then 0 else 2 ^ 32 - unat ksp)"

lemma frame_ok_left:
  assumes "frame_ok fp ksp"
  shows "stack_left fp < stack_left ksp"
proof -
  have low: "unat (ksp + 8) \<le> unat fp" and high: "unat fp \<le> unat (ksp + 8191) div 8192 * 8192"
    using assms unat_align [of ksp] by (simp_all add: frame_ok_def Let_def not_less word_le_nat_alt)
  have b: "unat ksp < 2 ^ 32" "unat fp < 2 ^ 32" using unat_bound [of ksp] unat_bound [of fp] by simp_all
  show ?thesis
  proof (cases "unat ksp + 8 < 2 ^ 32")
    case True
    then have "unat ksp + 8 \<le> unat fp" using low by (simp add: unat_add_word)
    moreover from this have "fp \<noteq> 0" by auto
    moreover have "ksp \<noteq> 0" using high calculation by auto
    ultimately show ?thesis using b by (simp add: stack_left_def)
  next
    case False
    then have "unat (ksp + 8191) = unat ksp + 8191 - 2 ^ 32" using b by (simp add: unat_add_word mod_if)
    then have "unat (ksp + 8191) div 8192 = 0" using b by simp
    then have "fp = 0" using high by (simp add: unat_eq_0)
    moreover have "ksp \<noteq> 0" using False by auto
    ultimately show ?thesis using b by (simp add: stack_left_def)
  qed
qed

text \<open>The loop returns the argument of the call-back and the frame pointers it has read through.\<close>

function walk_frames ::
    "(u32 \<Rightarrow> bool) \<Rightarrow> (u32 \<Rightarrow> u32) \<Rightarrow> (u32 \<Rightarrow> 'a \<Rightarrow> bool \<times> 'a) \<Rightarrow> 'a \<Rightarrow> u32 \<Rightarrow> u32 \<Rightarrow> u32 \<Rightarrow> 'a \<times> u32 list" where
  "walk_frames ktext mem fn arg fp ksp pc =
    (if \<not> ktext pc then (arg, [])
     else (let (stop, arg) = fn pc arg
           in if stop then (arg, [])
              else if frame_ok fp ksp
              then (let (arg, fps) = walk_frames ktext mem fn arg (mem (fp - 8)) fp (mem (fp - 4) - 4)
                    in (arg, fp # fps))
              else (arg, [])))"
  by pat_completeness simp
termination
  by (relation "measure (\<lambda>(ktext, mem, fn, arg, fp, ksp, pc). stack_left ksp)") (simp_all add: frame_ok_left)

declare walk_frames.simps [simp del]

text \<open>
  Where a walk starts: from saved registers, from the caller's own frame, or from a task that is
  blocked in \<^verbatim>\<open>__switch_to\<close>.
\<close>

datatype 'f walk_start = From_regs "u32 pt_regs" | From_here u32 u32 u32 | From_task "(u32, 'f) task"

fun start_of :: "'f walk_start \<Rightarrow> u32 \<times> u32 \<times> u32" where
  "start_of (From_regs regs) = (frame_pointer regs, user_stack_pointer regs, instruction_pointer regs)"
| "start_of (From_here fp ksp pc) = (fp, ksp, pc)"
| "start_of (From_task t) = (thread_s t ! 0, thread_sp t, thread_ra t)"

definition walk_stackframe ::
    "(u32 \<Rightarrow> bool) \<Rightarrow> (u32 \<Rightarrow> u32) \<Rightarrow> 'f walk_start \<Rightarrow> (u32 \<Rightarrow> 'a \<Rightarrow> bool \<times> 'a) \<Rightarrow> 'a \<Rightarrow> 'a \<times> u32 list" where
  "walk_stackframe ktext mem from fn arg = (case start_of from of (fp, ksp, pc) \<Rightarrow> walk_frames ktext mem fn arg fp ksp pc)"

section \<open>Over every word\<close>

partial_function (option) scan_stack ::
    "(u32 \<Rightarrow> bool) \<Rightarrow> (u32 \<Rightarrow> bool) \<Rightarrow> (u32 \<Rightarrow> u32) \<Rightarrow> (u32 \<Rightarrow> 'a \<Rightarrow> bool \<times> 'a) \<Rightarrow> 'a \<Rightarrow> u32 \<Rightarrow> u32 \<Rightarrow> 'a option" where
  "scan_stack kstack_end ktext mem fn arg ksp pc =
    (if kstack_end ksp then Some arg
     else (let (stop, arg) = (if ktext pc then fn pc arg else (False, arg))
           in if stop then Some arg
              else scan_stack kstack_end ktext mem fn arg (ksp + 4) (mem ksp - 4)))"

definition walk_stack_words ::
    "(u32 \<Rightarrow> bool) \<Rightarrow> (u32 \<Rightarrow> bool) \<Rightarrow> (u32 \<Rightarrow> u32) \<Rightarrow> 'f walk_start \<Rightarrow> (u32 \<Rightarrow> 'a \<Rightarrow> bool \<times> 'a) \<Rightarrow> 'a \<Rightarrow> 'a option" where
  "walk_stack_words kstack_end ktext mem from fn arg =
    (case start_of from of (_, ksp, pc) \<Rightarrow>
      if ksp AND 7 \<noteq> 0 then Some arg else scan_stack kstack_end ktext mem fn arg ksp pc)"

section \<open>The call-backs\<close>

definition print_trace_address :: "u32 \<Rightarrow> u32 list \<Rightarrow> bool \<times> u32 list" where
  "print_trace_address pc printed = (False, printed @ [pc])"

definition save_wchan :: "(u32 \<Rightarrow> bool) \<Rightarrow> u32 \<Rightarrow> u32 \<Rightarrow> bool \<times> u32" where
  "save_wchan in_sched_functions pc p = (if \<not> in_sched_functions pc then (True, pc) else (False, p))"

text \<open>\<open>waiting\<close>: there is a task, it is not the current one and it does not run.\<close>

definition get_wchan ::
    "(u32 \<Rightarrow> bool) \<Rightarrow> (u32 \<Rightarrow> bool) \<Rightarrow> (u32 \<Rightarrow> u32) \<Rightarrow> bool \<Rightarrow> (u32, 'f) task \<Rightarrow> u32" where
  "get_wchan in_sched_functions ktext mem waiting t =
    (if waiting then fst (walk_stackframe ktext mem (From_task t) (save_wchan in_sched_functions) 0) else 0)"

text \<open>A trace buffer; \<open>None\<close> is a store behind it.\<close>

record stack_trace =
  nr_entries :: nat
  max_entries :: nat
  entries :: "u32 list"
  skip_entries :: int

definition put_entry :: "u32 \<Rightarrow> stack_trace \<Rightarrow> stack_trace option" where
  "put_entry pc tr =
    (if nr_entries tr < length (entries tr)
     then Some (tr\<lparr>entries := (entries tr)[nr_entries tr := pc], nr_entries := nr_entries tr + 1\<rparr>) else None)"

text \<open>A trace that has overflown stays so, and stops the walk.\<close>

definition save_trace_nosched ::
    "(u32 \<Rightarrow> bool) \<Rightarrow> bool \<Rightarrow> u32 \<Rightarrow> stack_trace option \<Rightarrow> bool \<times> stack_trace option" where
  "save_trace_nosched in_sched_functions nosched pc trace =
    (case trace of
       None \<Rightarrow> (True, None)
     | Some tr \<Rightarrow>
        if nosched \<and> in_sched_functions pc then (False, Some tr)
        else if skip_entries tr > 0 then (False, Some (tr\<lparr>skip_entries := skip_entries tr - 1\<rparr>))
        else (case put_entry pc tr of
                None \<Rightarrow> (True, None)
              | Some tr \<Rightarrow> (nr_entries tr \<ge> max_entries tr, Some tr)))"

definition save_trace :: "(u32 \<Rightarrow> bool) \<Rightarrow> u32 \<Rightarrow> stack_trace option \<Rightarrow> bool \<times> stack_trace option" where
  "save_trace in_sched_functions pc trace = save_trace_nosched in_sched_functions False pc trace"

definition save_stack_trace_tsk ::
    "(u32 \<Rightarrow> bool) \<Rightarrow> (u32 \<Rightarrow> bool) \<Rightarrow> (u32 \<Rightarrow> u32) \<Rightarrow> 'f walk_start \<Rightarrow> stack_trace \<Rightarrow> stack_trace option" where
  "save_stack_trace_tsk in_sched_functions ktext mem from trace =
    (case fst (walk_stackframe ktext mem from (save_trace in_sched_functions) (Some trace)) of
       None \<Rightarrow> None
     | Some tr \<Rightarrow> if nr_entries tr < max_entries tr then put_entry (- 1) tr else Some tr)"

section \<open>The walk stays on the stack\<close>

text \<open>The end of the stack that holds an address.\<close>

definition stack_top :: "nat \<Rightarrow> nat" where
  "stack_top a = (a + 8191) div 8192 * 8192"

lemma stack_top_bounds: "a \<le> stack_top a" "stack_top a < a + 8192"
proof -
  have "a + 8191 = (a + 8191) div 8192 * 8192 + (a + 8191) mod 8192" "(a + 8191) mod 8192 < 8192" by simp_all
  then show "a \<le> stack_top a" "stack_top a < a + 8192" unfolding stack_top_def by linarith+
qed

lemma stack_top_same:
  assumes "a \<le> b" "b \<le> stack_top a"
  shows "stack_top b = stack_top a"
proof -
  have "(b + 8191) div 8192 = (a + 8191) div 8192"
  proof (rule div_nat_eqI)
    show "8192 * ((a + 8191) div 8192) \<le> b + 8191"
      using assms(1) stack_top_bounds(2) [of a] by (simp add: stack_top_def mult.commute)
    show "b + 8191 < 8192 * Suc ((a + 8191) div 8192)"
      using assms(2) by (simp add: stack_top_def mult.commute)
  qed
  then show ?thesis by (simp add: stack_top_def)
qed

lemma stack_top_room:
  assumes "a + 8191 < 2 ^ 32" "b \<le> stack_top a"
  shows "b + 8191 < 2 ^ 32"
proof -
  have "(a + 8191) div 8192 < 524288" using assms(1) by (intro less_mult_imp_div_less) simp
  then show ?thesis using assms(2) by (simp add: stack_top_def)
qed

lemma frame_ok_bounds:
  assumes "frame_ok fp ksp" and "unat ksp + 8191 < 2 ^ 32"
  shows "unat ksp + 8 \<le> unat fp" and "unat fp \<le> stack_top (unat ksp)" and "fp AND 7 = 0"
  using assms unat_align [of ksp]
  by (simp_all add: frame_ok_def Let_def not_less word_le_nat_alt unat_add_word stack_top_def)

lemma walk_frames_stop:
  "\<not> (ktext pc \<and> \<not> fst (fn pc arg) \<and> frame_ok fp ksp) \<Longrightarrow>
    walk_frames ktext mem fn arg fp ksp pc = (if ktext pc then snd (fn pc arg) else arg, [])"
  by (subst walk_frames.simps) (auto simp: case_prod_beta Let_def)

lemma walk_frames_next:
  "ktext pc \<Longrightarrow> \<not> fst (fn pc arg) \<Longrightarrow> frame_ok fp ksp \<Longrightarrow>
    walk_frames ktext mem fn arg fp ksp pc = (let r = walk_frames ktext mem fn (snd (fn pc arg)) (mem (fp - 8)) fp (mem (fp - 4) - 4)
      in (fst r, fp # snd r))"
  by (subst walk_frames.simps) (simp add: case_prod_beta Let_def)

lemma walk_frames_bounds:
  assumes "unat ksp + 8191 < 2 ^ 32" and "walk_frames ktext mem fn arg fp ksp pc = (arg', fps)"
  shows "(\<forall>f \<in> set fps. unat ksp + 8 \<le> unat f \<and> unat f \<le> stack_top (unat ksp) \<and> f AND 7 = 0)
    \<and> 8 * length fps \<le> stack_top (unat ksp) - unat ksp
    \<and> sorted_wrt (\<lambda>f g. unat f + 8 \<le> unat g) (ksp # fps)
    \<and> successively (\<lambda>f g. g = mem (f - 8)) fps \<and> (fps \<noteq> [] \<longrightarrow> hd fps = fp)"
  using assms
proof (induction ktext mem fn arg fp ksp pc arbitrary: arg' fps rule: walk_frames.induct)
  case (1 ktext mem fn arg fp ksp pc)
  show ?case
  proof (cases "ktext pc \<and> \<not> fst (fn pc arg) \<and> frame_ok fp ksp")
    case False
    then have "fps = []" using 1(3) walk_frames_stop [of ktext pc fn arg fp ksp mem] False by simp
    then show ?thesis by simp
  next
    case True
    let ?w = "walk_frames ktext mem fn (snd (fn pc arg)) (mem (fp - 8)) fp (mem (fp - 4) - 4)"
    define r where "r = snd ?w"
    then have r: "?w = (arg', r)" "fps = fp # r"
      using 1(3) walk_frames_next [of ktext pc fn arg fp ksp mem] True by (simp_all add: Let_def prod_eq_iff)
    note b = frame_ok_bounds [OF _ 1(2), of fp]
    have room: "unat fp + 8191 < 2 ^ 32" using stack_top_room [OF 1(2)] b(2) True by blast
    have top: "stack_top (unat fp) = stack_top (unat ksp)" using stack_top_same b(1,2) True by simp
    have rest: "\<forall>f \<in> set r. unat fp + 8 \<le> unat f \<and> unat f \<le> stack_top (unat fp) \<and> f AND 7 = 0"
        "8 * length r \<le> stack_top (unat fp) - unat fp" "sorted_wrt (\<lambda>f g. unat f + 8 \<le> unat g) (fp # r)"
        "successively (\<lambda>f g. g = mem (f - 8)) r" "r \<noteq> [] \<Longrightarrow> hd r = mem (fp - 8)"
      using 1(1) [OF _ refl prod.collapse _ _ room r(1)] True by simp_all
    have good: "unat ksp + 8 \<le> unat fp" "unat fp \<le> stack_top (unat ksp)" "fp AND 7 = 0" using b True by blast+
    have "\<forall>f \<in> set fps. unat ksp + 8 \<le> unat f \<and> unat f \<le> stack_top (unat ksp) \<and> f AND 7 = 0"
      using rest(1) good top r(2) by fastforce
    moreover have "8 * length fps \<le> stack_top (unat ksp) - unat ksp" using rest(2) good top r(2) by simp
    moreover have "successively (\<lambda>f g. g = mem (f - 8)) fps"
      using rest(4,5) r(2) by (cases r) simp_all
    ultimately show ?thesis using rest(3) r(2) by simp
  qed
qed

text \<open>An invariant of the call-back, which may give way to another when it stops the walk.\<close>

lemma walk_frames_keeps:
  assumes "\<And>pc a. I a \<Longrightarrow> (if fst (fn pc a) then J (snd (fn pc a)) else I (snd (fn pc a)))" and "I arg"
  shows "I (fst (walk_frames ktext mem fn arg fp ksp pc)) \<or> J (fst (walk_frames ktext mem fn arg fp ksp pc))"
  using assms
proof (induction ktext mem fn arg fp ksp pc rule: walk_frames.induct)
  case (1 ktext mem fn arg fp ksp pc)
  have call: "if fst (fn pc arg) then J (snd (fn pc arg)) else I (snd (fn pc arg))" by (rule 1(2) [OF 1(3)])
  show ?case
  proof (cases "ktext pc \<and> \<not> fst (fn pc arg) \<and> frame_ok fp ksp")
    case False
    then show ?thesis using call 1(3) walk_frames_stop [of ktext pc fn arg fp ksp mem] False by (auto split: if_splits)
  next
    case True
    then show ?thesis
      using 1(1) [OF _ refl prod.collapse _ _ 1(2)] call walk_frames_next [of ktext pc fn arg fp ksp mem]
      by (simp add: Let_def)
  qed
qed

definition has_room :: "nat \<Rightarrow> stack_trace option \<Rightarrow> bool" where
  "has_room m t \<longleftrightarrow> (\<exists>tr. t = Some tr \<and> nr_entries tr < m \<and> max_entries tr = m \<and> length (entries tr) = m)"

definition is_full :: "nat \<Rightarrow> stack_trace option \<Rightarrow> bool" where
  "is_full m t \<longleftrightarrow> (\<exists>tr. t = Some tr \<and> nr_entries tr = m \<and> max_entries tr = m \<and> length (entries tr) = m)"

lemma save_trace_room:
  assumes "has_room m t"
  shows "if fst (save_trace sched pc t) then is_full m (snd (save_trace sched pc t))
    else has_room m (snd (save_trace sched pc t))"
  using assms by (auto simp: save_trace_def save_trace_nosched_def put_entry_def has_room_def is_full_def)

text \<open>Without frame pointers the walk ends at the end of the stack.\<close>

lemma scan_stack_returns:
  "kstack_end (ksp + of_nat (4 * n)) \<Longrightarrow> scan_stack kstack_end ktext mem fn arg ksp pc \<noteq> None"
proof (induction n arbitrary: ksp arg pc)
  case 0
  then show ?case by (subst scan_stack.simps) simp
next
  case (Suc n)
  have next_word: "kstack_end (ksp + 4 + of_nat (4 * n))"
    using Suc.prems by (simp add: algebra_simps)
  show ?case
    by (subst scan_stack.simps) (use Suc.IH [OF next_word] in \<open>auto simp: Let_def case_prod_beta\<close>)
qed

section \<open>Properties\<close>

text \<open>
  C38: a walk along the frame pointers ends, whatever the stack holds, and reads only inside the
  kernel stack it started on, which does not reach the end of the address space: every frame is aligned and not beyond the end of the stack, each is at
  least the two words of a frame above the one before, the first so above the stack pointer of the
  start, and after the first each is the one that the frame before holds. So there are less than
  1024 of them.
\<close>

theorem walk_stays_on_stack:
  assumes "start_of from = (fp, ksp, pc)" and "unat ksp + 8191 < 2 ^ 32"
    and "walk_stackframe ktext mem from fn arg = (arg', fps)"
  shows "(\<forall>f \<in> set fps. unat ksp + 8 \<le> unat f \<and> unat f \<le> stack_top (unat ksp) \<and> f AND 7 = 0)
    \<and> sorted_wrt (\<lambda>f g. unat f + 8 \<le> unat g) (ksp # fps)
    \<and> successively (\<lambda>f g. g = mem (f - 8)) fps \<and> (fps \<noteq> [] \<longrightarrow> hd fps = fp) \<and> length fps < 1024"
proof -
  have run: "walk_frames ktext mem fn arg fp ksp pc = (arg', fps)"
    using assms(1,3) by (simp add: walk_stackframe_def)
  have "8 * length fps < 8192"
    using walk_frames_bounds [OF assms(2) run] stack_top_bounds [of "unat ksp"] by linarith
  then show ?thesis using walk_frames_bounds [OF assms(2) run] by simp
qed

text \<open>A stack of three frames, the last of which holds a pointer back to the first.\<close>

definition three_frames :: "u32 \<Rightarrow> u32" where
  "three_frames = (\<lambda>_. 0)(0x7008 := 0x7020, 0x700C := 0x104, 0x7018 := 0x7040, 0x701C := 0x204, 0x7038 := 0x7010)"

lemma three_frames_walk:
  "walk_stackframe (\<lambda>pc. pc \<noteq> 0) three_frames (From_here 0x7010 0x7000 0x100 :: unit walk_start) print_trace_address [] =
    ([0x100, 0x100, 0x200, 0xFFFFFFFC], [0x7010, 0x7020, 0x7040])"
  by (simp add: walk_stackframe_def walk_frames.simps frame_ok_def ALIGN_def STACK_SIZE_def three_frames_def
      print_trace_address_def Let_def)

theorem walk_stays_on_stack_witness:
  "sorted_wrt (\<lambda>f g. unat f + 8 \<le> unat g) [0x7000, 0x7010, 0x7020, 0x7040 :: u32]
    \<and> successively (\<lambda>f g. g = three_frames (f - 8)) [0x7010, 0x7020, 0x7040]"
  using walk_stays_on_stack [OF start_of.simps(2) _ three_frames_walk] by simp

text \<open>
  A trace is saved without a store behind its buffer when it has room for one entry at the
  start: the walk stops when the buffer is full, and the end mark is added only if there is still
  room.
\<close>

theorem save_trace_fits:
  assumes "nr_entries trace < max_entries trace" and "length (entries trace) = max_entries trace"
  shows "\<exists>tr. save_stack_trace_tsk sched ktext mem from trace = Some tr \<and> nr_entries tr \<le> max_entries trace
    \<and> length (entries tr) = max_entries trace
    \<and> (nr_entries tr = max_entries trace \<or> entries tr ! (nr_entries tr - 1) = - 1)"
proof -
  let ?m = "max_entries trace"
  let ?w = "fst (walk_stackframe ktext mem from (save_trace sched) (Some trace))"
  have "has_room ?m (Some trace)" using assms by (simp add: has_room_def)
  then have "has_room ?m ?w \<or> is_full ?m ?w"
    unfolding walk_stackframe_def case_prod_beta by (intro walk_frames_keeps save_trace_room)
  then show ?thesis
    by (auto simp: save_stack_trace_tsk_def has_room_def is_full_def put_entry_def)
qed

text \<open>A task of one frame, whose saved frame pointer ends the walk.\<close>

definition blocked_task :: "(u32, unit) task" where
  "blocked_task = \<lparr>thread_ra = 0x100, thread_sp = 0x7000, thread_s = [0x7010], fstate = (),
    pt_regs_of = words_regs (replicate 35 0), pt_regs_addr = 0, kthread = True\<rparr>"

theorem save_trace_fits_witness:
  "\<exists>tr. save_stack_trace_tsk (\<lambda>_. False) (\<lambda>pc. pc = 0x100) (\<lambda>_. 0) (From_task blocked_task)
      \<lparr>nr_entries = 0, max_entries = 4, entries = [0, 0, 0, 0], skip_entries = 0\<rparr> = Some tr \<and> nr_entries tr \<le> 4"
  using save_trace_fits [of "\<lparr>nr_entries = 0, max_entries = 4, entries = [0, 0, 0, 0], skip_entries = 0\<rparr>"
      "\<lambda>_. False" "\<lambda>pc. pc = 0x100" "\<lambda>_. 0" "From_task blocked_task"] by fastforce

end
