(* ===== verification/Uaccess.thy ===== *)
theory Uaccess
  imports Prelude "HOL-Library.While_Combinator"
begin

text \<open>
  Access to user memory on the 32-bit machine: \<^verbatim>\<open>asm/uaccess.h\<close> and \<^verbatim>\<open>__copy_user\<close> of
  \<^verbatim>\<open>lib/uaccess.S\<close>. Memory is a function from addresses to bytes; whether an access of an
  address faults is given by two predicates. The switch \<^verbatim>\<open>CONFIG_RV_PUM\<close> is off.
\<close>

section \<open>The checked range\<close>

type_synonym memory = "u32 \<Rightarrow> u8"

record user_env =
  addr_limit :: u32
  read_fault :: "u32 \<Rightarrow> bool"
  write_fault :: "u32 \<Rightarrow> bool"
  EFAULT :: int

definition user_access_ok :: "user_env \<Rightarrow> u32 \<Rightarrow> u32 \<Rightarrow> bool" where
  "user_access_ok env addr sz \<longleftrightarrow> (let fs = addr_limit env in sz \<le> fs \<and> addr \<le> fs - sz)"

section \<open>Single values\<close>

text \<open>The bytes of a value, the lowest first; whether one of some bytes faults.\<close>

definition load_le :: "memory \<Rightarrow> u32 \<Rightarrow> nat \<Rightarrow> u64" where
  "load_le mem a n = foldr (\<lambda>i v. push_bit 8 v OR ucast (mem (a + of_nat i))) [0..<n] 0"

definition store_le :: "nat \<Rightarrow> u32 \<Rightarrow> u64 \<Rightarrow> memory \<Rightarrow> memory" where
  "store_le n a v mem = (\<lambda>b. if unat (b - a) < n then ucast (drop_bit (8 * unat (b - a)) v) else mem b)"

definition faults :: "(u32 \<Rightarrow> bool) \<Rightarrow> u32 \<Rightarrow> nat \<Rightarrow> bool" where
  "faults f a n \<longleftrightarrow> list_ex (\<lambda>i. f (a + of_nat i)) [0..<n]"

text \<open>One load with its fixup: the error and the value, sign-extended from its width.\<close>

definition get_user_asm :: "user_env \<Rightarrow> nat \<Rightarrow> memory \<Rightarrow> u32 \<Rightarrow> int \<times> u64" where
  "get_user_asm env n mem ptr =
    (if faults (read_fault env) ptr n then (- EFAULT env, 0)
     else (0, word_of_int (signed_take_bit (8 * n - 1) (uint (load_le mem ptr n)))))"

text \<open>Two loads of 32 bits with one fixup.\<close>

definition get_user_8 :: "user_env \<Rightarrow> memory \<Rightarrow> u32 \<Rightarrow> int \<times> u64" where
  "get_user_8 env mem ptr =
    (if faults (read_fault env) ptr 4 then (- EFAULT env, 0)
     else let lo = load_le mem ptr 4
          in if faults (read_fault env) (ptr + 4) 4 then (- EFAULT env, 0)
             else let hi = load_le mem (ptr + 4) 4 in (0, push_bit 32 hi OR lo))"

definition get_user_unchecked :: "user_env \<Rightarrow> nat \<Rightarrow> memory \<Rightarrow> u32 \<Rightarrow> (int \<times> u64) option" where
  "get_user_unchecked env sz mem ptr =
    (if sz \<in> {1, 2, 4} then Some (get_user_asm env sz mem ptr)
     else if sz = 8 then Some (get_user_8 env mem ptr) else None)"

definition get_user :: "user_env \<Rightarrow> nat \<Rightarrow> memory \<Rightarrow> u32 \<Rightarrow> (int \<times> u64) option" where
  "get_user env sz mem ptr =
    (if user_access_ok env ptr (of_nat sz) then get_user_unchecked env sz mem ptr
     else Some (- EFAULT env, 0))"

definition put_user_asm :: "user_env \<Rightarrow> nat \<Rightarrow> u64 \<Rightarrow> u32 \<Rightarrow> memory \<Rightarrow> int \<times> memory" where
  "put_user_asm env n x ptr mem =
    (if faults (write_fault env) ptr n then (- EFAULT env, mem) else (0, store_le n ptr x mem))"

text \<open>
  Two stores of 32 bits, at the labels 1 and 2, with one fixup at label 4, which ends in a jump back
  to label 2, not behind the second store: a fault of the first word is followed by the store of
  the second, and one of the second word by the same store again. The code is left at label 3;
  \<open>None\<close> is a run that never gets there.
\<close>

definition put_user_8_step :: "user_env \<Rightarrow> u64 \<Rightarrow> u32 \<Rightarrow> nat \<times> int \<times> memory \<Rightarrow> nat \<times> int \<times> memory" where
  "put_user_8_step env x ptr = (\<lambda>(label, err, mem).
    if label = 1 then
      (if faults (write_fault env) ptr 4 then (4, err, mem) else (2, err, store_le 4 ptr x mem))
    else if label = 2 then
      (if faults (write_fault env) (ptr + 4) 4 then (4, err, mem) else (3, err, store_le 4 (ptr + 4) (drop_bit 32 x) mem))
    else if label = 4 then (2, - EFAULT env, mem)
    else (label, err, mem))"

definition put_user_8 :: "user_env \<Rightarrow> u64 \<Rightarrow> u32 \<Rightarrow> memory \<Rightarrow> (int \<times> memory) option" where
  "put_user_8 env x ptr mem =
    map_option snd (while_option (\<lambda>(label, _). label \<noteq> 3) (put_user_8_step env x ptr) (1, 0, mem))"

text \<open>\<open>None\<close> is also the \<^verbatim>\<open>BUILD_BUG\<close> for any other size.\<close>

definition put_user_unchecked :: "user_env \<Rightarrow> nat \<Rightarrow> u64 \<Rightarrow> u32 \<Rightarrow> memory \<Rightarrow> (int \<times> memory) option" where
  "put_user_unchecked env sz x ptr mem =
    (if sz \<in> {1, 2, 4} then Some (put_user_asm env sz x ptr mem)
     else if sz = 8 then put_user_8 env x ptr mem else None)"

definition put_user :: "user_env \<Rightarrow> nat \<Rightarrow> u64 \<Rightarrow> u32 \<Rightarrow> memory \<Rightarrow> (int \<times> memory) option" where
  "put_user env sz x ptr mem =
    (if user_access_ok env ptr (of_nat sz) then put_user_unchecked env sz x ptr mem
     else Some (- EFAULT env, mem))"

section \<open>Copies\<close>

text \<open>\<open>n\<close> bytes, read at once and written at once.\<close>

definition move :: "nat \<Rightarrow> memory \<Rightarrow> u32 \<Rightarrow> u32 \<Rightarrow> memory" where
  "move n mem to from' = (\<lambda>a. if unat (a - to) < n then mem (from' + (a - to)) else mem a)"

text \<open>
  A loop of \<^verbatim>\<open>__copy_user\<close> copies units of \<open>w\<close> bytes until the source register reaches a
  bound; it tests behind the copy. The outcome tells whether it left by the fixup; \<open>None\<close> is a
  loop that does not end.
\<close>

partial_function (option) copy_loop ::
    "user_env \<Rightarrow> nat \<Rightarrow> u32 \<Rightarrow> memory \<Rightarrow> u32 \<Rightarrow> u32 \<Rightarrow> (bool \<times> memory \<times> u32 \<times> u32) option" where
  "copy_loop env w bound mem a0 a1 =
    (if faults (read_fault env) a1 w \<or> faults (write_fault env) a0 w then Some (True, mem, a0, a1)
     else if a1 + of_nat w < bound
     then copy_loop env w bound (move w mem a0 a1) (a0 + of_nat w) (a1 + of_nat w)
     else Some (False, move w mem a0 a1, a0 + of_nat w, a1 + of_nat w))"

text \<open>\<^verbatim>\<open>__clear_user\<close> has the same loops with stores alone.\<close>

partial_function (option) clear_loop :: "user_env \<Rightarrow> nat \<Rightarrow> u32 \<Rightarrow> memory \<Rightarrow> u32 \<Rightarrow> (bool \<times> memory \<times> u32) option" where
  "clear_loop env w bound mem a0 =
    (if faults (write_fault env) a0 w then Some (True, mem, a0)
     else if a0 + of_nat w < bound then clear_loop env w bound (store_le w a0 0 mem) (a0 + of_nat w)
     else Some (False, store_le w a0 0 mem, a0 + of_nat w))"

text \<open>A stage runs its loop when its condition holds and the stages before did not fault.\<close>

definition stage :: "('s \<Rightarrow> bool) \<Rightarrow> ('s \<Rightarrow> (bool \<times> 's) option) \<Rightarrow> (bool \<times> 's) option \<Rightarrow> (bool \<times> 's) option" where
  "stage c loop r =
    (case r of
       None \<Rightarrow> None
     | Some (fault, s) \<Rightarrow> if fault \<or> \<not> c s then r else loop s)"

definition copy_user :: "user_env \<Rightarrow> u32 \<Rightarrow> u32 \<Rightarrow> u32 \<Rightarrow> memory \<Rightarrow> (u32 \<times> memory) option" where
  "copy_user env to from' n mem =
    (let a3 = from' + n;
         t0 = (from' + 3) AND NOT 3; t1 = a3 AND NOT 3;
         words = (to AND 3 = from' AND 3 \<and> t0 < t1);
         r = Some (False, mem, to, from');
         r = stage (\<lambda>(mem, a0, a1). words \<and> a1 < t0) (\<lambda>(mem, a0, a1). copy_loop env 1 t0 mem a0 a1) r;
         r = stage (\<lambda>_. words) (\<lambda>(mem, a0, a1). copy_loop env 4 t1 mem a0 a1) r;
         r = stage (\<lambda>(mem, a0, a1). a1 < a3) (\<lambda>(mem, a0, a1). copy_loop env 1 a3 mem a0 a1) r
     in map_option (\<lambda>(fault, mem, a0, a1). (if fault then a3 - a0 else 0, mem)) r)"

definition clear_user_range :: "user_env \<Rightarrow> u32 \<Rightarrow> u32 \<Rightarrow> memory \<Rightarrow> (u32 \<times> memory) option" where
  "clear_user_range env to n mem =
    (let a3 = to + n;
         t0 = (to + 3) AND NOT 3; t1 = a3 AND NOT 3;
         words = (t0 < t1);
         r = Some (False, mem, to);
         r = stage (\<lambda>(mem, a0). words \<and> a0 < t0) (\<lambda>(mem, a0). clear_loop env 1 t0 mem a0) r;
         r = stage (\<lambda>_. words) (\<lambda>(mem, a0). clear_loop env 4 t1 mem a0) r;
         r = stage (\<lambda>(mem, a0). a0 < a3) (\<lambda>(mem, a0). clear_loop env 1 a3 mem a0) r
     in map_option (\<lambda>(fault, mem, a0). (if fault then a3 - a0 else 0, mem)) r)"

definition clear_user :: "user_env \<Rightarrow> u32 \<Rightarrow> u32 \<Rightarrow> memory \<Rightarrow> (u32 \<times> memory) option" where
  "clear_user env to n mem =
    (if user_access_ok env to n then clear_user_range env to n mem else Some (n, mem))"

definition copy_from_user :: "user_env \<Rightarrow> u32 \<Rightarrow> u32 \<Rightarrow> u32 \<Rightarrow> memory \<Rightarrow> (u32 \<times> memory) option" where
  "copy_from_user env to from' n mem =
    (if user_access_ok env from' n then copy_user env to from' n mem else Some (n, mem))"

definition copy_to_user :: "user_env \<Rightarrow> u32 \<Rightarrow> u32 \<Rightarrow> u32 \<Rightarrow> memory \<Rightarrow> (u32 \<times> memory) option" where
  "copy_to_user env to from' n mem =
    (if user_access_ok env to n then copy_user env to from' n mem else Some (n, mem))"

section \<open>Loops over units\<close>

text \<open>What a run from byte \<open>j\<close> to byte \<open>m\<close> leaves at byte \<open>i\<close>, with or without a fault.\<close>

definition ran :: "(nat \<Rightarrow> bool) \<Rightarrow> nat \<Rightarrow> nat \<Rightarrow> nat \<Rightarrow> bool \<Rightarrow> bool" where
  "ran bad j m i fault \<longleftrightarrow>
    (if fault then j \<le> i \<and> i < m \<and> (\<exists>b. i \<le> b \<and> b < i + 4 \<and> b < m \<and> bad b)
     else i = m \<and> (\<forall>b. j \<le> b \<and> b < m \<longrightarrow> \<not> bad b))"

lemma ran_0: "ran bad 0 0 0 False"
  by (simp add: ran_def)

lemma ran_append: "ran bad j m i fault \<Longrightarrow> ran bad 0 j j False \<Longrightarrow> ran bad 0 m i fault"
  unfolding ran_def by (cases fault) (simp, metis not_less)

lemma ran_fault_mono: "ran bad j m i True \<Longrightarrow> m \<le> m' \<Longrightarrow> ran bad j m' i True"
  unfolding ran_def by fastforce

text \<open>
  Both assembly routines have such loops: one unit of \<open>w\<close> bytes goes on, ends the loop or
  faults. \<open>st\<close> is the state behind some bytes.
\<close>

locale unit_loop =
  fixes loop :: "nat \<Rightarrow> nat \<Rightarrow> nat \<Rightarrow> (bool \<times> 's) option"
    and st :: "nat \<Rightarrow> 's"
    and bad :: "nat \<Rightarrow> bool"
    and n :: nat
  assumes unit_step: "0 < w \<Longrightarrow> j + w \<le> m \<Longrightarrow> m \<le> n \<Longrightarrow> loop w m j =
    (if \<exists>b. j \<le> b \<and> b < j + w \<and> bad b then Some (True, st j)
     else if j + w < m then loop w m (j + w) else Some (False, st (j + w)))"
begin

lemma runs:
  assumes "m \<le> n" and "0 < w" "w \<le> 4"
  shows "m = j + w * Suc k \<Longrightarrow> \<exists>i fault. loop w m j = Some (fault, st i) \<and> ran bad j m i fault"
proof (induction k arbitrary: j)
  case (0 j)
  have m: "m = j + w" using 0 by simp
  note step = unit_step [OF assms(2) _ assms(1), of j]
  show ?case
  proof (cases "\<exists>b. j \<le> b \<and> b < j + w \<and> bad b")
    case True
    then have "ran bad j m j True" using assms(2,3) m unfolding ran_def by fastforce
    then show ?thesis using step True m by auto
  next
    case False
    then have "ran bad j m m False" using m unfolding ran_def by auto
    then show ?thesis using step False m by auto
  qed
next
  case (Suc k)
  have m: "m = j + w + w * Suc k" using Suc.prems by simp
  then have less: "j + w \<le> m" "j + w < m" using assms(2) by simp_all
  note step = unit_step [OF assms(2) less(1) assms(1)]
  obtain i fault where i: "loop w m (j + w) = Some (fault, st i)" "ran bad (j + w) m i fault"
    using Suc.IH [OF m] by blast
  show ?case
  proof (cases "\<exists>b. j \<le> b \<and> b < j + w \<and> bad b")
    case True
    then have "ran bad j m j True" using assms(3) less unfolding ran_def by fastforce
    then show ?thesis using step True by metis
  next
    case False
    have "ran bad j m i fault"
      using i(2) False unfolding ran_def by (cases fault) (simp, metis not_less)
    then show ?thesis using step False less(2) i(1) by metis
  qed
qed

lemma stage_runs:
  assumes "m \<le> n" and "0 < w" "w \<le> 4" and before: "ran bad 0 j i fault"
    and m: "m = j + w * k" and c: "c (st j) \<longleftrightarrow> 0 < k" and l: "0 < k \<Longrightarrow> l (st j) = loop w m j"
  shows "\<exists>i' fault'. stage c l (Some (fault, st i)) = Some (fault', st i') \<and> ran bad 0 m i' fault'"
proof (cases fault)
  case True
  then have "ran bad 0 j i True" using before by simp
  moreover have "j \<le> m" unfolding m by (rule le_add1)
  ultimately have "ran bad 0 m i True" by (rule ran_fault_mono)
  moreover have "stage c l (Some (fault, st i)) = Some (True, st i)" using True by (simp add: stage_def)
  ultimately show ?thesis by blast
next
  case False
  then have i: "i = j" using before by (simp add: ran_def)
  show ?thesis
  proof (cases k)
    case 0
    then have "stage c l (Some (fault, st i)) = Some (fault, st i)" using c i by (simp add: stage_def)
    moreover have "m = j" using m 0 by simp
    ultimately show ?thesis using before by blast
  next
    case (Suc k')
    obtain i' fault' where r: "loop w m j = Some (fault', st i')" "ran bad j m i' fault'"
      using runs [OF assms(1-3) m [unfolded Suc]] by blast
    have "stage c l (Some (fault, st i)) = Some (fault', st i')"
      using r(1) False i c l Suc by (simp add: stage_def)
    moreover have "ran bad 0 m i' fault'"
      by (rule ran_append [OF r(2)]) (use before False i in simp)
    ultimately show ?thesis by blast
  qed
qed

end

section \<open>Moving bytes\<close>

text \<open>The destination has no byte of the source.\<close>

definition apart :: "u32 \<Rightarrow> u32 \<Rightarrow> nat \<Rightarrow> bool" where
  "apart to from' n \<longleftrightarrow> (\<forall>i < n. n \<le> unat (from' + of_nat i - to))"

lemma unat_minus_of_nat:
  fixes x :: u32
  assumes "j < 2 ^ 32"
  shows "unat (x - of_nat j) = (if j \<le> unat x then unat x - j else unat x + 2 ^ 32 - j)"
proof -
  have "unat (of_nat j :: u32) = j" using assms by (simp add: unat_of_nat)
  then show ?thesis using unat_sub_if' [of x "of_nat j"] by simp
qed

lemma move_0 [simp]: "move 0 mem to from' = mem"
  by (simp add: move_def)

lemma move_move:
  assumes "apart to from' n" and "j + w \<le> n" and "n < 2 ^ 32"
  shows "move w (move j mem to from') (to + of_nat j) (from' + of_nat j) = move (j + w) mem to from'"
proof
  fix a
  define d where "d = unat (a - to)"
  have d: "d < 2 ^ 32" "of_nat d = a - to" using unat_bound [of "a - to"] by (simp_all add: d_def)
  have off: "unat (a - (to + of_nat j)) = (if j \<le> d then d - j else d + 2 ^ 32 - j)"
    using unat_minus_of_nat [of j "a - to"] assms(2,3) by (simp add: d_def algebra_simps)
  have src: "from' + of_nat j + (a - (to + of_nat j)) = from' + (a - to)" by simp
  show "move w (move j mem to from') (to + of_nat j) (from' + of_nat j) a = move (j + w) mem to from' a"
  proof (cases "d < j + w \<and> j \<le> d")
    case True
    then have "n \<le> unat (from' + (a - to) - to)"
      using assms(1,2) d(2) unfolding apart_def by (metis order_less_le_trans)
    then have "\<not> unat (from' + (a - to) - to) < j" using assms(2) by linarith
    moreover have "d - j < w" using True by linarith
    ultimately show ?thesis using True off src by (simp add: move_def d_def [symmetric])
  next
    case False
    then have "\<not> unat (a - (to + of_nat j)) < w" using off assms(2,3) d(1) by auto
    then show ?thesis using False by (auto simp: move_def d_def [symmetric])
  qed
qed

text \<open>An address of the ranges that faults when it is read or written.\<close>

definition bad_byte :: "user_env \<Rightarrow> u32 \<Rightarrow> u32 \<Rightarrow> nat \<Rightarrow> bool" where
  "bad_byte env to from' i \<longleftrightarrow> read_fault env (from' + of_nat i) \<or> write_fault env (to + of_nat i)"

lemma faults_bad:
  "faults (read_fault env) (from' + of_nat j) w \<or> faults (write_fault env) (to + of_nat j) w
    \<longleftrightarrow> (\<exists>i. j \<le> i \<and> i < j + w \<and> bad_byte env to from' i)"
proof -
  have split: "(\<exists>i. j \<le> i \<and> i < j + w \<and> P i) \<longleftrightarrow> (\<exists>i < w. P (j + i))" for P
    by (metis add_less_cancel_left le_add1 le_add_diff_inverse)
  show ?thesis
    unfolding split faults_def list_ex_iff bad_byte_def by (auto simp: algebra_simps)
qed

lemma copy_loop_unfold:
  "copy_loop env w bound mem a0 a1 =
    (if faults (read_fault env) a1 w \<or> faults (write_fault env) a0 w then Some (True, mem, a0, a1)
     else if a1 + of_nat w < bound
     then copy_loop env w bound (move w mem a0 a1) (a0 + of_nat w) (a1 + of_nat w)
     else Some (False, move w mem a0 a1, a0 + of_nat w, a1 + of_nat w))"
  by (rule copy_loop.simps)

lemma add_bytes_less:
  fixes x :: u32
  assumes "unat x + j < 2 ^ 32" "unat x + k < 2 ^ 32"
  shows "x + of_nat j < x + of_nat k \<longleftrightarrow> j < k"
proof -
  have "unat (x + of_nat j) = unat x + j" "unat (x + of_nat k) = unat x + k"
    using assms by (simp_all add: unat_add_word unat_of_nat mod_if)
  then show ?thesis by (simp add: word_less_nat_alt)
qed

text \<open>The number of bytes that a copy is proved for: none unless the ranges are apart and do not wrap.\<close>

definition copy_range :: "u32 \<Rightarrow> u32 \<Rightarrow> nat \<Rightarrow> nat" where
  "copy_range to from' n = (if apart to from' n \<and> unat from' + n < 2 ^ 32 then n else 0)"

interpretation copying: unit_loop
    "\<lambda>w m j. copy_loop env w (from' + of_nat m) (move j mem to from') (to + of_nat j) (from' + of_nat j)"
    "\<lambda>j. (move j mem to from', to + of_nat j, from' + of_nat j)" "bad_byte env to from'" "copy_range to from' n"
  for env mem to from' n
proof unfold_locales
  fix w j m :: nat
  assume w: "0 < w" "j + w \<le> m" "m \<le> copy_range to from' n"
  then have range: "apart to from' n" "unat from' + n < 2 ^ 32" "m \<le> n"
    by (auto simp: copy_range_def split: if_splits)
  then have n: "j + w \<le> n" "n < 2 ^ 32" using w by simp_all
  have regs: "to + of_nat j + of_nat w = to + of_nat (j + w)" "from' + of_nat j + of_nat w = from' + of_nat (j + w)"
    by simp_all
  have less: "from' + of_nat (j + w) < from' + of_nat m \<longleftrightarrow> j + w < m"
    using range w by (intro add_bytes_less) simp_all
  show "copy_loop env w (from' + of_nat m) (move j mem to from') (to + of_nat j) (from' + of_nat j) =
    (if \<exists>b. j \<le> b \<and> b < j + w \<and> bad_byte env to from' b then Some (True, move j mem to from', to + of_nat j, from' + of_nat j)
     else if j + w < m
     then copy_loop env w (from' + of_nat m) (move (j + w) mem to from') (to + of_nat (j + w)) (from' + of_nat (j + w))
     else Some (False, move (j + w) mem to from', to + of_nat (j + w), from' + of_nat (j + w)))"
    by (subst copy_loop_unfold) (simp only: faults_bad move_move [OF range(1) n] regs less)
qed

text \<open>The bounds of the word loop, as numbers of bytes.\<close>

lemma unat_align4: "unat (x AND NOT 3 :: u32) = unat x div 4 * 4"
proof -
  have m: "(3 :: u32) = mask 2" by (simp add: mask_eq_exp_minus_1)
  show ?thesis unfolding m unat_round_down by simp
qed

lemma word_bounds:
  fixes from' n :: u32
  assumes "unat from' + unat n + 3 < 2 ^ 32" and "(from' + 3) AND NOT 3 < (from' + n) AND NOT 3"
  obtains p k where "(from' + 3) AND NOT 3 = from' + of_nat p" "(from' + n) AND NOT 3 = from' + of_nat (p + 4 * Suc k)"
    "p + 4 * Suc k \<le> unat n"
proof -
  let ?f = "unat from'"
  have t0: "unat ((from' + 3) AND NOT 3) = (?f + 3) div 4 * 4" and t1: "unat ((from' + n) AND NOT 3) = (?f + unat n) div 4 * 4"
    unfolding unat_align4 using assms(1) by (simp_all add: unat_add_word)
  have less: "(?f + 3) div 4 < (?f + unat n) div 4" using assms(2) unfolding word_less_nat_alt t0 t1 by simp
  define p where "p = (?f + 3) div 4 * 4 - ?f"
  define k where "k = (?f + unat n) div 4 - (?f + 3) div 4 - 1"
  have p: "?f + p = (?f + 3) div 4 * 4" unfolding p_def by simp
  have k: "?f + (p + 4 * Suc k) = (?f + unat n) div 4 * 4" using p less unfolding k_def by simp
  have "(?f + unat n) div 4 * 4 \<le> ?f + unat n" by simp
  then have b: "p + 4 * Suc k \<le> unat n" using k by linarith
  have word: "x = from' + of_nat j" if "unat x = ?f + j" for x j
    using that by (metis of_nat_add of_nat_unat ucast_id)
  show thesis using that [of p k] word [of _ p] word [of _ "p + 4 * Suc k"] p k b t0 t1 by metis
qed

text \<open>The three stages together.\<close>

lemma stage_skip: "(\<And>s. \<not> c s) \<Longrightarrow> stage c l (Some r) = Some r"
  by (cases r) (simp add: stage_def)

lemma copy_user_runs:
  assumes "apart to from' (unat n)" and "unat from' + unat n + 3 < 2 ^ 32"
  shows "\<exists>i fault. copy_user env to from' n mem =
      Some (if fault then from' + n - (to + of_nat i) else 0, move i mem to from')
    \<and> ran (bad_byte env to from') 0 (unat n) i fault"
proof -
  let ?t0 = "(from' + 3) AND NOT 3" and ?t1 = "(from' + n) AND NOT 3"
  let ?words = "to AND 3 = from' AND 3 \<and> ?t0 < ?t1"
  let ?S = "\<lambda>j. (move j mem to from', to + of_nat j, from' + of_nat j)"
  let ?loop = "\<lambda>w bound (mem, a0, a1). copy_loop env w bound mem a0 a1"
  let ?ran = "ran (bad_byte env to from')"
  have room: "unat from' + unat n < 2 ^ 32" using assms(2) by simp
  then have range: "copy_range to from' (unat n) = unat n" using assms(1) by (simp add: copy_range_def)
  note run = copying.stage_runs [of _ to from' "unat n" _ env _ _ _ _ _ mem, unfolded range]
  let ?r1 = "stage (\<lambda>(mem, a0, a1). ?words \<and> a1 < ?t0) (?loop 1 ?t0) (Some (False, ?S 0))"
  let ?r2 = "stage (\<lambda>_. ?words) (?loop 4 ?t1) ?r1"
  let ?r3 = "stage (\<lambda>(mem, a0, a1). a1 < from' + n) (?loop 1 (from' + n)) ?r2"
  have "\<exists>q i fault. q \<le> unat n \<and> ?r2 = Some (fault, ?S i) \<and> ?ran 0 q i fault"
  proof (cases ?words)
    case True
    obtain p k where p: "?t0 = from' + of_nat p" "?t1 = from' + of_nat (p + 4 * Suc k)" "p + 4 * Suc k \<le> unat n"
      using word_bounds [OF assms(2)] True by blast
    have first: "from' < ?t0 \<longleftrightarrow> 0 < p"
      using add_bytes_less [of from' 0 p] assms(2) p(1,3) by simp
    have "\<exists>i fault. ?r1 = Some (fault, ?S i) \<and> ?ran 0 p i fault"
      by (rule run [OF _ _ _ ran_0, of p 1 p]) (use True first p(1,3) in simp_all)
    then obtain i fault where r1: "?r1 = Some (fault, ?S i)" "?ran 0 p i fault" by blast
    have "\<exists>i fault. ?r2 = Some (fault, ?S i) \<and> ?ran 0 (p + 4 * Suc k) i fault"
      unfolding r1(1) by (rule run [OF p(3) _ _ r1(2), of 4 "Suc k"]) (use True p(2) in simp_all)
    then show ?thesis using p(3) by blast
  next
    case False
    then have "?r1 = Some (False, ?S 0)" "stage (\<lambda>_. ?words) (?loop 4 ?t1) (Some (False, ?S 0)) = Some (False, ?S 0)"
      by (auto intro!: stage_skip)
    then have "?r2 = Some (False, ?S 0)" by (simp only:)
    then show ?thesis using ran_0 le0 by blast
  qed
  then obtain q i fault where q: "q \<le> unat n" "?r2 = Some (fault, ?S i)" "?ran 0 q i fault" by blast
  have n: "from' + n = from' + of_nat (unat n)" by simp
  have less: "from' + of_nat q < from' + n \<longleftrightarrow> 0 < unat n - q"
    unfolding n using q(1) room by (subst add_bytes_less) simp_all
  have "\<exists>i fault. ?r3 = Some (fault, ?S i) \<and> ?ran 0 (unat n) i fault"
    unfolding q(2) by (rule run [OF order_refl _ _ q(3), of 1 "unat n - q"]) (use q(1) less in simp_all)
  then obtain i fault where r3: "?r3 = Some (fault, ?S i)" "?ran 0 (unat n) i fault" by blast
  have "copy_user env to from' n mem = map_option (\<lambda>(fault, mem, a0, a1). (if fault then from' + n - a0 else 0, mem)) ?r3"
    unfolding copy_user_def Let_def by simp
  then have "copy_user env to from' n mem =
      Some (if fault then from' + n - (to + of_nat i) else 0, move i mem to from')"
    unfolding r3(1) by simp
  then show ?thesis using r3(2) by blast
qed

section \<open>Clearing\<close>

lemma clear_clear:
  fixes to :: u32
  assumes "j + w < 2 ^ 32"
  shows "store_le w (to + of_nat j) 0 (store_le j to 0 mem) = store_le (j + w) to 0 mem"
proof
  fix a
  define d where "d = unat (a - to)"
  have d: "d < 2 ^ 32" using unat_bound [of "a - to"] by (simp add: d_def)
  have off: "unat (a - (to + of_nat j)) = (if j \<le> d then d - j else d + 2 ^ 32 - j)"
    using unat_minus_of_nat [of j "a - to"] assms by (simp add: d_def algebra_simps)
  have z: "store_le k b 0 mem' a = (if unat (a - b) < k then 0 else mem' a)" for k b mem'
    by (simp add: store_le_def)
  show "store_le w (to + of_nat j) 0 (store_le j to 0 mem) a = store_le (j + w) to 0 mem a"
  proof (cases "j \<le> d")
    case True
    then show ?thesis unfolding z off d_def [symmetric] by auto
  next
    case False
    then show ?thesis unfolding z off d_def [symmetric] using assms d by auto
  qed
qed

lemma clear_0 [simp]: "store_le 0 to x mem = mem"
  by (simp add: store_le_def)

lemma clear_loop_unfold:
  "clear_loop env w bound mem a0 =
    (if faults (write_fault env) a0 w then Some (True, mem, a0)
     else if a0 + of_nat w < bound then clear_loop env w bound (store_le w a0 0 mem) (a0 + of_nat w)
     else Some (False, store_le w a0 0 mem, a0 + of_nat w))"
  by (rule clear_loop.simps)

definition bad_store :: "user_env \<Rightarrow> u32 \<Rightarrow> nat \<Rightarrow> bool" where
  "bad_store env to i \<longleftrightarrow> write_fault env (to + of_nat i)"

lemma faults_store:
  "faults (write_fault env) (to + of_nat j) w \<longleftrightarrow> (\<exists>b. j \<le> b \<and> b < j + w \<and> bad_store env to b)"
  using faults_bad [of "env\<lparr>read_fault := \<lambda>_. False\<rparr>" to j w to]
  by (simp add: bad_byte_def bad_store_def faults_def list_ex_iff)

definition clear_range :: "u32 \<Rightarrow> nat \<Rightarrow> nat" where
  "clear_range to n = (if unat to + n < 2 ^ 32 then n else 0)"

interpretation clearing: unit_loop
    "\<lambda>w m j. clear_loop env w (to + of_nat m) (store_le j to 0 mem) (to + of_nat j)"
    "\<lambda>j. (store_le j to 0 mem, to + of_nat j)" "bad_store env to" "clear_range to n"
  for env mem to n
proof unfold_locales
  fix w j m :: nat
  assume w: "0 < w" "j + w \<le> m" "m \<le> clear_range to n"
  then have range: "unat to + n < 2 ^ 32" "m \<le> n"
    by (auto simp: clear_range_def split: if_splits)
  have reg: "to + of_nat j + of_nat w = to + of_nat (j + w)" by simp
  have n: "j + w < 2 ^ 32" using range w by simp
  have less: "to + of_nat (j + w) < to + of_nat m \<longleftrightarrow> j + w < m"
    using range w by (intro add_bytes_less) simp_all
  show "clear_loop env w (to + of_nat m) (store_le j to 0 mem) (to + of_nat j) =
    (if \<exists>b. j \<le> b \<and> b < j + w \<and> bad_store env to b then Some (True, store_le j to 0 mem, to + of_nat j)
     else if j + w < m then clear_loop env w (to + of_nat m) (store_le (j + w) to 0 mem) (to + of_nat (j + w))
     else Some (False, store_le (j + w) to 0 mem, to + of_nat (j + w)))"
    by (subst clear_loop_unfold) (simp only: faults_store clear_clear [OF n] reg less)
qed

lemma clear_user_runs:
  assumes "unat to + unat n + 3 < 2 ^ 32"
  shows "\<exists>i fault. clear_user_range env to n mem =
      Some (if fault then to + n - (to + of_nat i) else 0, store_le i to 0 mem)
    \<and> ran (bad_store env to) 0 (unat n) i fault"
proof -
  let ?t0 = "(to + 3) AND NOT 3" and ?t1 = "(to + n) AND NOT 3"
  let ?words = "?t0 < ?t1"
  let ?S = "\<lambda>j. (store_le j to 0 mem, to + of_nat j)"
  let ?loop = "\<lambda>w bound (mem, a0). clear_loop env w bound mem a0"
  let ?ran = "ran (bad_store env to)"
  have room: "unat to + unat n < 2 ^ 32" using assms by simp
  then have range: "clear_range to (unat n) = unat n" by (simp add: clear_range_def)
  note run = clearing.stage_runs [of _ to "unat n" _ env _ _ _ _ _ mem, unfolded range]
  let ?r1 = "stage (\<lambda>(mem, a0). ?words \<and> a0 < ?t0) (?loop 1 ?t0) (Some (False, ?S 0))"
  let ?r2 = "stage (\<lambda>_. ?words) (?loop 4 ?t1) ?r1"
  let ?r3 = "stage (\<lambda>(mem, a0). a0 < to + n) (?loop 1 (to + n)) ?r2"
  have "\<exists>q i fault. q \<le> unat n \<and> ?r2 = Some (fault, ?S i) \<and> ?ran 0 q i fault"
  proof (cases ?words)
    case True
    obtain p k where p: "?t0 = to + of_nat p" "?t1 = to + of_nat (p + 4 * Suc k)" "p + 4 * Suc k \<le> unat n"
      using word_bounds [OF assms True] by blast
    have first: "to < ?t0 \<longleftrightarrow> 0 < p"
      using add_bytes_less [of to 0 p] assms p(1,3) by simp
    have "\<exists>i fault. ?r1 = Some (fault, ?S i) \<and> ?ran 0 p i fault"
      by (rule run [OF _ _ _ ran_0, of p 1 p]) (use True first p(1,3) in simp_all)
    then obtain i fault where r1: "?r1 = Some (fault, ?S i)" "?ran 0 p i fault" by blast
    have "\<exists>i fault. ?r2 = Some (fault, ?S i) \<and> ?ran 0 (p + 4 * Suc k) i fault"
      unfolding r1(1) by (rule run [OF p(3) _ _ r1(2), of 4 "Suc k"]) (use True p(2) in simp_all)
    then show ?thesis using p(3) by blast
  next
    case False
    then have "?r1 = Some (False, ?S 0)" "stage (\<lambda>_. ?words) (?loop 4 ?t1) (Some (False, ?S 0)) = Some (False, ?S 0)"
      by (auto intro!: stage_skip)
    then have "?r2 = Some (False, ?S 0)" by (simp only:)
    then show ?thesis using ran_0 le0 by blast
  qed
  then obtain q i fault where q: "q \<le> unat n" "?r2 = Some (fault, ?S i)" "?ran 0 q i fault" by blast
  have n: "to + n = to + of_nat (unat n)" by simp
  have less: "to + of_nat q < to + n \<longleftrightarrow> 0 < unat n - q"
    unfolding n using q(1) room by (subst add_bytes_less) simp_all
  have "\<exists>i fault. ?r3 = Some (fault, ?S i) \<and> ?ran 0 (unat n) i fault"
    unfolding q(2) by (rule run [OF order_refl _ _ q(3), of 1 "unat n - q"]) (use q(1) less in simp_all)
  then obtain i fault where r3: "?r3 = Some (fault, ?S i)" "?ran 0 (unat n) i fault" by blast
  have "clear_user_range env to n mem = map_option (\<lambda>(fault, mem, a0). (if fault then to + n - a0 else 0, mem)) ?r3"
    unfolding clear_user_range_def Let_def by simp
  then have "clear_user_range env to n mem =
      Some (if fault then to + n - (to + of_nat i) else 0, store_le i to 0 mem)"
    unfolding r3(1) by simp
  then show ?thesis using r3(2) by blast
qed

section \<open>What the limit promises\<close>

text \<open>The check, as a statement on numbers: the range ends below the limit and does not wrap.\<close>

lemma user_access_ok_iff:
  "user_access_ok env addr sz \<longleftrightarrow> unat addr + unat sz \<le> unat (addr_limit env)"
proof (cases "sz \<le> addr_limit env")
  case True
  then have "unat (addr_limit env - sz) = unat (addr_limit env) - unat sz" by (rule unat_sub)
  then show ?thesis using True by (auto simp: user_access_ok_def Let_def word_le_nat_alt)
next
  case False
  then show ?thesis by (auto simp: user_access_ok_def Let_def word_le_nat_alt)
qed

lemma inside_range:
  fixes a to :: u32
  assumes "unat (a - to) < n" and "unat to + n \<le> m" and "m < 2 ^ 32"
  shows "unat a < m"
proof -
  have "unat (to + (a - to)) = unat to + unat (a - to)"
    using assms by (subst unat_add_word) simp
  then show ?thesis using assms by simp
qed

lemma move_outside: "\<not> unat (a - to) < n \<Longrightarrow> i \<le> n \<Longrightarrow> move i mem to from' a = mem a"
  by (simp add: move_def)

lemma store_outside: "\<not> unat (a - to) < n \<Longrightarrow> store_le n to x mem a = mem a"
  by (simp add: store_le_def)

lemma outside_upper_half:
  fixes a ptr :: u32
  assumes "\<not> unat (a - ptr) < 8"
  shows "\<not> unat (a - (ptr + 4)) < 4"
proof -
  have four: "a - (ptr + 4) = (a - ptr) - of_nat 4" by simp
  show ?thesis
    unfolding four using assms unat_minus_of_nat [of 4 "a - ptr"] by simp
qed

text \<open>
  What \<^verbatim>\<open>__put_user_8\<close> does on each of its four ways: it returns exactly when the second word does
  not fault, and a fault of the first leaves the second word stored all the same.
\<close>

lemma put_user_8_outcome:
  "put_user_8 env x ptr mem =
    (if faults (write_fault env) (ptr + 4) 4 then None
     else Some (if faults (write_fault env) ptr 4 then (- EFAULT env, store_le 4 (ptr + 4) (drop_bit 32 x) mem)
       else (0, store_le 4 (ptr + 4) (drop_bit 32 x) (store_le 4 ptr x mem))))"
proof (cases "faults (write_fault env) (ptr + 4) 4")
  case True
  have "while_option (\<lambda>(label, _). label \<noteq> 3) (put_user_8_step env x ptr) (1, 0, mem) \<noteq> Some t" for t
  proof
    assume run: "while_option (\<lambda>(label, _). label \<noteq> 3) (put_user_8_step env x ptr) (1, 0, mem) = Some t"
    have "fst t \<in> {1, 2, 4}"
      by (rule while_option_rule [OF _ run, where P = "\<lambda>s. fst s \<in> {1, 2, 4}"]) (use True in \<open>auto simp: put_user_8_step_def\<close>)
    then show False using while_option_stop [OF run] by auto
  qed
  then have "while_option (\<lambda>(label, _). label \<noteq> 3) (put_user_8_step env x ptr) (1, 0, mem) = None" by fast
  then show ?thesis using True by (simp add: put_user_8_def)
next
  case False
  then show ?thesis
    by (simp add: put_user_8_def put_user_8_step_def while_option_unfold)
qed

lemma put_user_8_steps_outside:
  assumes "\<not> unat (a - ptr) < 8"
  shows "snd (snd ((put_user_8_step env x ptr ^^ k) (1, 0, mem))) a = mem a"
proof (induction k)
  case (Suc k)
  have out: "\<not> unat (a - ptr) < 4" "\<not> unat (a - (ptr + 4)) < 4" using assms outside_upper_half by auto
  have "snd (snd (put_user_8_step env x ptr t)) a = snd (snd t) a" for t
    using out by (simp add: put_user_8_step_def store_outside split: prod.splits)
  then show ?case using Suc.IH by simp
qed simp

lemma put_user_unchecked_outside:
  assumes "\<not> unat (a - ptr) < sz" and "put_user_unchecked env sz x ptr mem = Some (err, mem')"
  shows "mem' a = mem a"
proof (cases "sz = 8")
  case True
  then have "\<not> unat (a - ptr) < 4" "\<not> unat (a - (ptr + 4)) < 4"
    using assms(1) outside_upper_half by auto
  then show ?thesis
    using assms(2) True by (auto simp: put_user_unchecked_def put_user_8_outcome store_outside split: if_splits)
next
  case False
  then have "mem' = mem \<or> mem' = store_le sz ptr x mem"
    using assms(2) by (auto simp: put_user_unchecked_def put_user_asm_def split: if_splits)
  then show ?thesis using store_outside [OF assms(1)] by metis
qed

section \<open>Properties\<close>

text \<open>
  C17: \<^verbatim>\<open>__copy_user\<close> copies every byte and returns 0 when none faults; when one does, it has copied up
  to the unit of at most four bytes that holds it, but the number it returns is off by the distance
  of source and destination: the fixup subtracts the destination register from the end of the
  source.
\<close>

theorem copy_user_outcome:
  assumes "apart to from' (unat n)" and "unat from' + unat n + 3 < 2 ^ 32"
  shows "\<exists>i \<le> unat n. \<exists>ret. copy_user env to from' n mem = Some (ret, move i mem to from')
    \<and> (if \<exists>b < unat n. bad_byte env to from' b
       then ret = of_nat (unat n - i) + (from' - to) \<and> (\<exists>b. i \<le> b \<and> b < i + 4 \<and> b < unat n \<and> bad_byte env to from' b)
       else ret = 0 \<and> i = unat n)"
proof -
  obtain i fault where r: "copy_user env to from' n mem =
      Some (if fault then from' + n - (to + of_nat i) else 0, move i mem to from')" "ran (bad_byte env to from') 0 (unat n) i fault"
    using copy_user_runs [OF assms] by blast
  have bad: "(\<exists>b < unat n. bad_byte env to from' b) \<longleftrightarrow> fault" and i: "i \<le> unat n"
    using r(2) unfolding ran_def by (auto split: if_splits)
  have "from' + n - (to + of_nat i) = of_nat (unat n - i) + (from' - to)"
    using i by (simp add: of_nat_diff algebra_simps)
  then show ?thesis
    using r i bad unfolding ran_def by (intro exI [of _ i]) auto
qed

theorem copy_user_outcome_witness:
  "\<exists>i \<le> 4. \<exists>ret. copy_user \<lparr>addr_limit = 0x80000000, read_fault = (\<lambda>_. False), write_fault = (\<lambda>a. a = 0x1002), EFAULT = 14\<rparr>
      0x1000 0x90000000 4 (\<lambda>_. 0) = Some (ret, move i (\<lambda>_. 0) 0x1000 0x90000000) \<and> ret = of_nat (4 - i) + 0x8FFFF000"
proof -
  let ?env = "\<lparr>addr_limit = 0x80000000, read_fault = (\<lambda>_. False), write_fault = (\<lambda>a. a = 0x1002), EFAULT = 14\<rparr>"
  have small: "i < 4 \<longleftrightarrow> i \<in> {0, 1, 2, 3}" for i :: nat by auto
  have "apart 0x1000 0x90000000 (unat (4 :: u32))"
    unfolding apart_def by (simp add: small)
  moreover have "bad_byte ?env 0x1000 0x90000000 2" by (simp add: bad_byte_def)
  then have "\<exists>b < unat (4 :: u32). bad_byte ?env 0x1000 0x90000000 b" by (intro exI [of _ 2]) simp
  ultimately show ?thesis
    using copy_user_outcome [of "0x1000" "0x90000000" 4 ?env "\<lambda>_. 0"] by (simp add: small) fastforce
qed

text \<open>
  C18: what the kernel writes for a user stays below the user's limit: \<^verbatim>\<open>copy_to_user\<close> and
  \<^verbatim>\<open>put_user\<close> change no byte from the limit on, also when an access faults half way; the ranges of the copy do not overlap and the
  source does not wrap. For 8 bytes on
  the 32-bit machine that holds after every single step, because \<^verbatim>\<open>__put_user_8\<close> need not return:
  it never does when its second word faults, and otherwise it stores the second word even when the
  first has faulted and it returns the error.
\<close>

theorem user_writes_confined:
  assumes "apart to from' (unat n)" and "unat from' + unat n + 3 < 2 ^ 32" and "addr_limit env \<le> a"
    and "copy_to_user env to from' n mem = Some (ret, mem1)" and "put_user env sz x ptr mem = Some (err, mem2)"
  shows "mem1 a = mem a \<and> mem2 a = mem a
    \<and> (user_access_ok env p 8 \<longrightarrow> snd (snd ((put_user_8_step env x p ^^ k) (1, 0, mem))) a = mem a
        \<and> put_user env 8 x p mem =
          (if faults (write_fault env) (p + 4) 4 then None
           else Some (if faults (write_fault env) p 4 then (- EFAULT env, store_le 4 (p + 4) (drop_bit 32 x) mem)
             else (0, store_le 4 (p + 4) (drop_bit 32 x) (store_le 4 p x mem)))))"
proof (intro conjI impI)
  have above: "\<not> unat (a - b) < k" if "unat b + k \<le> unat (addr_limit env)" for b k
    using inside_range [of a b k, OF _ that] assms(3) unat_bound [of "addr_limit env"]
    by (auto simp: word_le_nat_alt)
  show "mem1 a = mem a"
  proof (cases "user_access_ok env to n")
    case True
    then obtain i where "mem1 = move i mem to from'" "i \<le> unat n"
      using copy_user_runs [OF assms(1,2), of env mem] assms(4)
      by (auto simp: copy_to_user_def ran_def split: if_splits)
    then show ?thesis
      using move_outside above [of to "unat n"] True by (simp add: user_access_ok_iff)
  qed (use assms(4) in \<open>simp add: copy_to_user_def\<close>)
  show "mem2 a = mem a"
  proof (cases "user_access_ok env ptr (of_nat sz)")
    case True
    have sz: "sz \<in> {1, 2, 4, 8}"
      using assms(5) True by (auto simp: put_user_def put_user_unchecked_def split: if_splits)
    then have "unat (of_nat sz :: u32) = sz" by auto
    then have "unat ptr + sz \<le> unat (addr_limit env)" using True by (simp add: user_access_ok_iff)
    then have "\<not> unat (a - ptr) < sz" by (rule above)
    then show ?thesis
      using put_user_unchecked_outside [of a ptr sz env x mem err mem2] assms(5) True by (simp add: put_user_def)
  qed (use assms(5) in \<open>simp add: put_user_def\<close>)
  assume ok: "user_access_ok env p 8"
  then have "\<not> unat (a - p) < 8" by (intro above) (simp add: user_access_ok_iff)
  then show "snd (snd ((put_user_8_step env x p ^^ k) (1, 0, mem))) a = mem a" by (rule put_user_8_steps_outside)
  show "put_user env 8 x p mem =
      (if faults (write_fault env) (p + 4) 4 then None
       else Some (if faults (write_fault env) p 4 then (- EFAULT env, store_le 4 (p + 4) (drop_bit 32 x) mem)
         else (0, store_le 4 (p + 4) (drop_bit 32 x) (store_le 4 p x mem))))"
    using ok by (simp add: put_user_def put_user_unchecked_def put_user_8_outcome)
qed

theorem user_writes_confined_witness:
  "move 4 (\<lambda>_. 5) 0x1000 0x90000000 0x80000000 = (5 :: u8)
    \<and> store_le 2 0x2000 7 (\<lambda>_. 5) 0x80000000 = (5 :: u8)
    \<and> put_user \<lparr>addr_limit = 0x80000000, read_fault = (\<lambda>_. False), write_fault = (\<lambda>a. a = 0x7004), EFAULT = 14\<rparr>
        8 7 0x7000 (\<lambda>_. 5) = None"
proof -
  let ?env = "\<lparr>addr_limit = 0x80000000, read_fault = (\<lambda>_. False), write_fault = (\<lambda>a. a = 0x7004), EFAULT = 14\<rparr>"
  let ?mem = "\<lambda>_ :: u32. 5 :: u8"
  have small: "i < 4 \<longleftrightarrow> i \<in> {0, 1, 2, 3}" for i :: nat by auto
  have apart: "apart 0x1000 0x90000000 (unat (4 :: u32))"
    unfolding apart_def by (simp add: small)
  have "\<not> bad_byte ?env 0x1000 0x90000000 b" if "b < 4" for b using that by (auto simp: bad_byte_def small)
  then have "\<not> (\<exists>b < unat (4 :: u32). bad_byte ?env 0x1000 0x90000000 b)" by auto
  then have "copy_user ?env 0x1000 0x90000000 4 ?mem = Some (0, move 4 ?mem 0x1000 0x90000000)"
    using copy_user_runs [OF apart, of ?env ?mem] by (auto simp: ran_def)
  then have 1: "copy_to_user ?env 0x1000 0x90000000 4 ?mem = Some (0, move 4 ?mem 0x1000 0x90000000)"
    by (simp add: copy_to_user_def user_access_ok_def)
  have 2: "put_user ?env 2 7 0x2000 ?mem = Some (0, store_le 2 0x2000 7 ?mem)"
    by (simp add: put_user_def user_access_ok_def put_user_unchecked_def put_user_asm_def faults_def upt_rec)
  have 3: "user_access_ok ?env 0x7000 8" by (simp add: user_access_ok_def)
  have 4: "faults (write_fault ?env) (0x7000 + 4) 4" by (simp add: faults_def upt_rec)
  have 5: "addr_limit ?env \<le> 0x80000000" and 6: "unat (0x90000000 :: u32) + unat (4 :: u32) + 3 < 2 ^ 32" by simp_all
  note confined = user_writes_confined [OF apart 6 5 1 2, where p = "0x7000" and k = 0]
  have "put_user ?env 8 7 0x7000 ?mem = None" using confined 3 4 by presburger
  then show ?thesis using confined by blast
qed

text \<open>
  \<^verbatim>\<open>clear_user\<close> zeroes a range that lies below the limit and returns exactly the number of
  bytes it has not zeroed, 0 when none faults; a fault stops it at the unit of at most four bytes
  that holds the fault.
\<close>

theorem clear_user_outcome:
  assumes "user_access_ok env to n" and "unat to + unat n + 3 < 2 ^ 32"
  shows "\<exists>i \<le> unat n. clear_user env to n mem = Some (of_nat (unat n - i), store_le i to 0 mem)
    \<and> (if \<exists>b < unat n. write_fault env (to + of_nat b)
       then \<exists>b. i \<le> b \<and> b < i + 4 \<and> b < unat n \<and> write_fault env (to + of_nat b)
       else i = unat n)"
proof -
  obtain i fault where r: "clear_user_range env to n mem =
      Some (if fault then to + n - (to + of_nat i) else 0, store_le i to 0 mem)" "ran (bad_store env to) 0 (unat n) i fault"
    using clear_user_runs [OF assms(2)] by blast
  have bad: "(\<exists>b < unat n. write_fault env (to + of_nat b)) \<longleftrightarrow> fault" and i: "i \<le> unat n"
    using r(2) unfolding ran_def bad_store_def by (auto split: if_splits)
  have "to + n - (to + of_nat i) = of_nat (unat n - i)"
    using i by (simp add: of_nat_diff)
  then show ?thesis
    using r i bad assms(1) unfolding ran_def bad_store_def clear_user_def by (intro exI [of _ i]) auto
qed

theorem clear_user_outcome_witness:
  "\<exists>i \<le> 4. clear_user \<lparr>addr_limit = 0x80000000, read_fault = (\<lambda>_. False), write_fault = (\<lambda>a. a = 0x1001), EFAULT = 14\<rparr>
      0xfff 4 (\<lambda>_. 5) = Some (of_nat (4 - i), store_le i 0xfff 0 (\<lambda>_. 5)) \<and> i \<le> 2"
proof -
  let ?env = "\<lparr>addr_limit = 0x80000000, read_fault = (\<lambda>_. False), write_fault = (\<lambda>a. a = 0x1001), EFAULT = 14\<rparr>"
  have ok: "user_access_ok ?env 0xfff 4" by (simp add: user_access_ok_def)
  have bad: "\<exists>b < unat (4 :: u32). write_fault ?env (0xfff + of_nat b)" by (intro exI [of _ 2]) simp
  have two: "b = 2" if "b < 4" "write_fault ?env (0xfff + of_nat b)" for b
  proof -
    have "b \<in> {0, 1, 2, 3}" using that(1) by auto
    then show ?thesis using that(2) by auto
  qed
  obtain i b where i: "i \<le> unat (4 :: u32)" "clear_user ?env 0xfff 4 (\<lambda>_. 5) = Some (of_nat (unat (4 :: u32) - i), store_le i 0xfff 0 (\<lambda>_. 5))"
    "i \<le> b" "b < unat (4 :: u32)" "write_fault ?env (0xfff + of_nat b)"
    using clear_user_outcome [OF ok, of "\<lambda>_. 5"] unfolding if_P [OF bad] by auto
  have "i \<le> 2" using i(3-5) two [of b] by simp
  then show ?thesis using i(1,2) by (intro exI [of _ i]) simp
qed

end
