(* ===== verification/SysRiscv.thy ===== *)
theory SysRiscv
  imports Uaccess Regs
begin

text \<open>
  The system calls of \<^verbatim>\<open>kernel/sys_riscv.c\<close> on the 32-bit machine: the two that map memory and
  the atomic exchange for machines without atomic instructions.
\<close>

section \<open>Mapping\<close>

text \<open>\<^verbatim>\<open>sys_mmap_pgoff\<close> is the kernel proper's; the offset is signed.\<close>

definition sys_mmap :: "int \<Rightarrow> ('w::len word \<Rightarrow> int) \<Rightarrow> nat \<Rightarrow> 'w word \<Rightarrow> int" where
  "sys_mmap EINVAL sys_mmap_pgoff page_shift offset =
    (let page_mask = NOT (push_bit page_shift 1 - 1)
     in if offset AND NOT page_mask \<noteq> 0 then - EINVAL
        else sys_mmap_pgoff (signed_drop_bit page_shift offset))"

definition sys_mmap2 :: "int \<Rightarrow> ('w::len word \<Rightarrow> int) \<Rightarrow> nat \<Rightarrow> 'w word \<Rightarrow> int" where
  "sys_mmap2 EINVAL sys_mmap_pgoff page_shift offset =
    (let page_mask = NOT (push_bit page_shift 1 - 1)
     in if offset AND drop_bit 12 (NOT page_mask) \<noteq> 0 then - EINVAL
        else sys_mmap_pgoff (signed_drop_bit (page_shift - 12) offset))"

section \<open>Compare and exchange\<close>

record user_machine =
  user_memory :: memory
  machine_status :: u32
  preempt_count :: nat

definition preempt_disable :: "user_machine \<Rightarrow> user_machine" where
  "preempt_disable m = m\<lparr>preempt_count := preempt_count m + 1\<rparr>"

definition preempt_enable :: "user_machine \<Rightarrow> user_machine" where
  "preempt_enable m = m\<lparr>preempt_count := preempt_count m - 1\<rparr>"

text \<open>What both commands do with their pointer to \<^verbatim>\<open>unsigned int\<close>; they check a size of their own.\<close>

definition exchange :: "user_env \<Rightarrow> u32 \<Rightarrow> u32 \<Rightarrow> u32 \<Rightarrow> u32 \<Rightarrow> user_machine \<Rightarrow> u32 \<times> user_machine" where
  "exchange env sz ptr arg2 arg3 m =
    (if \<not> user_access_ok env ptr sz then (word_of_int (- EFAULT env), m)
     else
       let m = preempt_disable m;
           (flags, st) = arch_local_irq_save (machine_status m); m = m\<lparr>machine_status := st\<rparr>;
           (err, prev) = get_user_asm env 4 (user_memory m) ptr;
           err = word_of_int err :: u32; prev = ucast prev :: u32;
           (err, m) = (if err = 0 \<and> prev = arg2
                       then let (err, mem) = put_user_asm env 4 (ucast arg3) ptr (user_memory m)
                            in (word_of_int err, m\<lparr>user_memory := mem\<rparr>)
                       else (err, m));
           m = m\<lparr>machine_status := arch_local_irq_restore flags (machine_status m)\<rparr>;
           m = preempt_enable m
       in (if err \<noteq> 0 then err else prev, m))"

datatype riscv_command = RISCV_ATOMIC_CMPXCHG | RISCV_ATOMIC_CMPXCHG64 | Other_command

definition sysriscv ::
    "user_env \<Rightarrow> int \<Rightarrow> riscv_command \<Rightarrow> u32 \<Rightarrow> u32 \<Rightarrow> u32 \<Rightarrow> user_machine \<Rightarrow> u32 \<times> user_machine" where
  "sysriscv env EINVAL cmd arg1 arg2 arg3 m =
    (case cmd of
       RISCV_ATOMIC_CMPXCHG \<Rightarrow> exchange env 4 arg1 arg2 arg3 m
     | RISCV_ATOMIC_CMPXCHG64 \<Rightarrow> exchange env 4 arg1 arg2 arg3 m
     | Other_command \<Rightarrow> (word_of_int (- EINVAL), m))"

section \<open>Properties\<close>

lemma irq_section:
  fixes st :: u32
  shows "arch_local_irq_restore (fst (arch_local_irq_save st)) (snd (arch_local_irq_save st)) = st"
  by (rule bit_eqI)
    (auto simp: arch_local_irq_restore_def arch_local_irq_save_def csr_set_def csr_read_clear_def bit_simps)

text \<open>With pages of 4 kilobytes \<^verbatim>\<open>mmap2\<close> refuses no offset and passes it on as it is.\<close>

lemma mmap2_passes: "sys_mmap2 EINVAL pgoff 12 (offset :: u32) = pgoff offset"
  by (simp add: sys_mmap2_def push_bit_eq_mult drop_bit_eq_div)

text \<open>The word a user pointer leads to.\<close>

definition user_word :: "memory \<Rightarrow> u32 \<Rightarrow> u32" where
  "user_word mem ptr = ucast (load_le mem ptr 4)"

lemma signed_word: "ucast (word_of_int (signed_take_bit 31 (uint x)) :: u64) = (ucast x :: u32)" for x :: u64
proof (rule bit_word_eqI)
  fix n :: nat
  assume "n < LENGTH(32)"
  then have "n < 32" by simp
  then show "bit (ucast (word_of_int (signed_take_bit 31 (uint x)) :: u64) :: u32) n \<longleftrightarrow> bit (ucast x :: u32) n"
    by (cases "n = 31") (auto simp: bit_simps bit_signed_take_bit_iff min_def)
qed

text \<open>
  C40: the atomic exchange is one: it returns the old word and stores the new one if and only if the
  old one is what the caller expects; when the range is refused or an access faults it returns the
  error and changes nothing. On every path it leaves interrupts and preemption as they were.
\<close>

theorem sysriscv_exchange:
  assumes "0 < EFAULT env" and "EFAULT env < 4096" and "cmd \<noteq> Other_command"
  shows "sysriscv env EINVAL cmd ptr expected new m =
    (let old = user_word (user_memory m) ptr
     in if \<not> user_access_ok env ptr 4 \<or> faults (read_fault env) ptr 4 then (word_of_int (- EFAULT env), m)
        else if old \<noteq> expected then (old, m)
        else if faults (write_fault env) ptr 4 then (word_of_int (- EFAULT env), m)
        else (old, m\<lparr>user_memory := store_le 4 ptr (ucast new) (user_memory m)\<rparr>))"
proof -
  have e: "word_of_int (- EFAULT env) \<noteq> (0 :: u32)"
  proof
    assume "word_of_int (- EFAULT env) = (0 :: u32)"
    then have "uint (word_of_int (EFAULT env) :: u32) = 0" by simp
    then have "2 ^ 32 dvd EFAULT env" by (simp add: uint_word_of_int dvd_eq_mod_eq_0)
    then have "2 ^ 32 \<le> EFAULT env" using assms(1) by (rule zdvd_imp_le)
    then show False using assms(2) by simp
  qed
  have "sysriscv env EINVAL cmd ptr expected new m = exchange env 4 ptr expected new m"
    using assms(3) by (cases cmd) (simp_all add: sysriscv_def)
  then show ?thesis
    using irq_section [of "machine_status m"] e signed_word
    by (auto simp: exchange_def get_user_asm_def put_user_asm_def preempt_disable_def preempt_enable_def
        user_word_def Let_def case_prod_beta)
qed

theorem sysriscv_exchange_witness:
  "sysriscv \<lparr>addr_limit = 0x80000000, read_fault = (\<lambda>_. False), write_fault = (\<lambda>_. False), EFAULT = 14\<rparr> 22
      RISCV_ATOMIC_CMPXCHG 0x1000 0 7 \<lparr>user_memory = (\<lambda>_. 0), machine_status = 2, preempt_count = 0\<rparr> =
    (0, \<lparr>user_memory = store_le 4 0x1000 7 (\<lambda>_. 0), machine_status = 2, preempt_count = 0\<rparr>)"
  using sysriscv_exchange [of "\<lparr>addr_limit = 0x80000000, read_fault = (\<lambda>_. False), write_fault = (\<lambda>_. False), EFAULT = 14\<rparr>"
      RISCV_ATOMIC_CMPXCHG 22 "0x1000" 0 7 "\<lparr>user_memory = (\<lambda>_. 0), machine_status = 2, preempt_count = 0\<rparr>"]
  by (simp add: user_word_def load_le_def faults_def user_access_ok_def list_ex_iff upt_rec)

end
