(* ===== verification/WordOps.thy ===== *)
theory WordOps
  imports Prelude
begin

text \<open>
  Word tricks: the 64-bit shifts that a 32-bit compiler calls, \<^verbatim>\<open>lib/ashldi3.c\<close>,
  \<^verbatim>\<open>lib/lshrdi3.c\<close> and \<^verbatim>\<open>lib/ashrdi3.c\<close>, and the search for a zero byte of
  \<^verbatim>\<open>asm/word-at-a-time.h\<close>.
\<close>

section \<open>Shifts by halves\<close>

text \<open>The parts of a \<^verbatim>\<open>DWunion\<close>, and the union made of its parts.\<close>

definition dw_high :: "u64 \<Rightarrow> u32" where "dw_high u = ucast (drop_bit 32 u)"

definition dw_low :: "u64 \<Rightarrow> u32" where "dw_low u = ucast u"

definition dw_join :: "u32 \<Rightarrow> u32 \<Rightarrow> u64" where "dw_join high low = push_bit 32 (ucast high) OR ucast low"

definition ashldi3 :: "u64 \<Rightarrow> int \<Rightarrow> u64" where
  "ashldi3 u b =
    (if b = 0 then u
     else let bm = 32 - b
          in if bm \<le> 0 then dw_join (push_bit (nat (- bm)) (dw_low u)) 0
             else let carries = drop_bit (nat bm) (dw_low u)
                  in dw_join (push_bit (nat b) (dw_high u) OR carries) (push_bit (nat b) (dw_low u)))"

definition lshrdi3 :: "u64 \<Rightarrow> int \<Rightarrow> u64" where
  "lshrdi3 u b =
    (if b = 0 then u
     else let bm = 32 - b
          in if bm \<le> 0 then dw_join 0 (drop_bit (nat (- bm)) (dw_high u))
             else let carries = push_bit (nat bm) (dw_high u)
                  in dw_join (drop_bit (nat b) (dw_high u)) (drop_bit (nat b) (dw_low u) OR carries))"

text \<open>The high half is signed: its shifts copy the sign.\<close>

definition ashrdi3 :: "u64 \<Rightarrow> int \<Rightarrow> u64" where
  "ashrdi3 u b =
    (if b = 0 then u
     else let bm = 32 - b
          in if bm \<le> 0 then dw_join (signed_drop_bit 31 (dw_high u)) (signed_drop_bit (nat (- bm)) (dw_high u))
             else let carries = push_bit (nat bm) (dw_high u)
                  in dw_join (signed_drop_bit (nat b) (dw_high u)) (drop_bit (nat b) (dw_low u) OR carries))"

lemma bit_dw_low: "bit (dw_low u) i \<longleftrightarrow> i < 32 \<and> bit u i"
  by (simp add: dw_low_def bit_simps)

lemma bit_dw_high: "bit (dw_high u) i \<longleftrightarrow> i < 32 \<and> bit u (32 + i)"
  by (auto simp: dw_high_def bit_simps)

lemma bit_dw_join: "bit (dw_join high low) i \<longleftrightarrow> (if i < 32 then bit low i else i < 64 \<and> bit high (i - 32))"
  by (auto simp: dw_join_def bit_simps dest: bit_imp_le_length)

lemmas dw_bits = bit_dw_low bit_dw_high bit_dw_join bit_push_bit_iff bit_drop_bit_eq bit_or_iff bit_0_eq

lemma half_indices:
  "nat (int n - 32) = n - 32" "nat (32 - int n) = 32 - n"
  "32 \<le> i \<Longrightarrow> n < 32 \<Longrightarrow> 32 - n + i - 32 = i - n" "32 \<le> n \<Longrightarrow> i - (32 + (n - 32)) = i - n"
  by simp_all

lemma bit_ashrdi3_high:
  assumes "32 \<le> n" "n < 64" "i < 64"
  shows "bit (ashrdi3 u (int n)) i \<longleftrightarrow> bit u (if 64 - n \<le> i then 63 else n + i)"
proof -
  have e: "ashrdi3 u (int n) = dw_join (signed_drop_bit 31 (dw_high u)) (signed_drop_bit (n - 32) (dw_high u))"
    using assms by (simp add: ashrdi3_def Let_def half_indices)
  show ?thesis
  proof (cases "i = 32")
    case True
    moreover from this have "64 - n \<le> i" using assms(1) by linarith
    ultimately show ?thesis using assms unfolding e by (simp add: dw_bits bit_signed_drop_bit_iff)
  next
    case False
    then show ?thesis using assms unfolding e by (auto simp: dw_bits bit_signed_drop_bit_iff)
  qed
qed

lemma bit_ashrdi3_low:
  assumes "0 < n" "n < 32" "i < 64"
  shows "bit (ashrdi3 u (int n)) i \<longleftrightarrow> bit u (if 64 - n \<le> i then 63 else n + i)"
proof -
  have e: "ashrdi3 u (int n) =
      dw_join (signed_drop_bit n (dw_high u)) (drop_bit n (dw_low u) OR push_bit (32 - n) (dw_high u))"
    using assms by (simp add: ashrdi3_def Let_def half_indices)
  show ?thesis
  proof (cases "i < 32")
    case True
    then show ?thesis using assms unfolding e by (auto simp: dw_bits add.commute [of i n])
  next
    case False
    then show ?thesis using assms unfolding e by (auto simp: dw_bits bit_signed_drop_bit_iff)
  qed
qed

text \<open>
  The three shifts of 64 bits by halves of 32 bits are the 64-bit shifts, for every number of
  bits below 64.
\<close>

theorem shifts_by_halves:
  assumes "0 \<le> b" and "b < 64"
  shows "ashldi3 u b = push_bit (nat b) u \<and> lshrdi3 u b = drop_bit (nat b) u \<and> ashrdi3 u b = signed_drop_bit (nat b) u"
proof -
  obtain n where b: "b = int n" "n < 64" using assms by (metis nat_0_le nat_less_iff of_nat_numeral)
  have top: "bit u (i + n) \<Longrightarrow> i + n < 64" for i using bit_imp_le_length [of u "i + n"] by simp
  have "ashldi3 u b = push_bit (nat b) u"
    by (rule bit_eqI) (auto simp: b ashldi3_def Let_def dw_bits half_indices)
  moreover have "lshrdi3 u b = drop_bit (nat b) u"
    by (rule bit_eqI) (auto simp: b lshrdi3_def Let_def dw_bits half_indices add.commute dest: top)
  moreover have "ashrdi3 u b = signed_drop_bit (nat b) u"
  proof (cases "n = 0")
    case False
    then have "bit (ashrdi3 u (int n)) i \<longleftrightarrow> bit u (if 64 - n \<le> i then 63 else n + i)" if "i < 64" for i
      using bit_ashrdi3_high [OF _ b(2) that] bit_ashrdi3_low [OF _ _ that] by (cases "n < 32") simp_all
    then show ?thesis
      by (intro bit_eqI) (simp add: b bit_signed_drop_bit_iff)
  qed (simp add: b ashrdi3_def)
  ultimately show ?thesis by simp
qed

theorem shifts_by_halves_witness:
  "ashldi3 3 33 = 0x600000000 \<and> lshrdi3 0x600000000 33 = 3 \<and> ashrdi3 (- 2) 1 = signed_drop_bit 1 (- 2)"
  using shifts_by_halves [of 33 3] shifts_by_halves [of 33 "0x600000000"] shifts_by_halves [of 1 "- 2"]
  by (simp add: push_bit_eq_mult drop_bit_eq_div)

section \<open>The first zero byte\<close>

record 'a word_at_a_time =
  one_bits :: 'a
  high_bits :: 'a

text \<open>\<^verbatim>\<open>REPEAT_BYTE\<close> of \<^verbatim>\<open>linux/kernel.h\<close>.\<close>

definition repeat_byte :: "'w::len word \<Rightarrow> 'w word" where "repeat_byte x = (- 1 div 0xff) * x"

definition word_at_a_time_constants :: "'w::len word word_at_a_time" where
  "word_at_a_time_constants = \<lparr>one_bits = repeat_byte 0x01, high_bits = repeat_byte 0x80\<rparr>"

text \<open>The value and what \<^verbatim>\<open>bits\<close> points to.\<close>

definition has_zero :: "'w::len word \<Rightarrow> 'w word word_at_a_time \<Rightarrow> 'w word \<times> 'w word" where
  "has_zero val c = (let mask = ((val - one_bits c) AND NOT val) AND high_bits c in (mask, mask))"

definition prep_zero_mask :: "'w::len word \<Rightarrow> 'w word \<Rightarrow> 'w word" where
  "prep_zero_mask val bits = bits"

definition create_zero_mask :: "'w::len word \<Rightarrow> 'w word" where
  "create_zero_mask bits = (let bits = (bits - 1) AND NOT bits in drop_bit 7 bits)"

text \<open>\<^verbatim>\<open>fls64\<close> is generic code: one more than the highest bit, 0 for 0.\<close>

definition find_zero :: "(u64 \<Rightarrow> nat) \<Rightarrow> 'w::len word \<Rightarrow> nat" where
  "find_zero fls64 zeros = drop_bit 3 (fls64 (ucast zeros))"

definition fls64_ok :: "(u64 \<Rightarrow> nat) \<Rightarrow> bool" where
  "fls64_ok fls64 \<longleftrightarrow> fls64 0 = 0 \<and> (\<forall>x n. bit x n \<and> (\<forall>m > n. \<not> bit x m) \<longrightarrow> fls64 x = n + 1)"

definition byte_of :: "'w::len word \<Rightarrow> nat \<Rightarrow> 'w word" where
  "byte_of v j = take_bit 8 (drop_bit (8 * j) v)"

subsection \<open>On integers\<close>

text \<open>The subtraction byte by byte: up to the first zero byte nothing is borrowed.\<close>

fun ones :: "nat \<Rightarrow> int" where
  "ones 0 = 0"
| "ones (Suc k) = 1 + 256 * ones k"

lemma div_256: "(x :: int) div 256 = drop_bit 8 x"
  by (simp add: drop_bit_eq_div)

lemma mod_256: "(x :: int) mod 256 = take_bit 8 x"
  by (simp add: take_bit_eq_mod)

lemma bit_next_byte: "bit (x :: int) (8 * Suc j + i) \<longleftrightarrow> bit (x div 256) (8 * j + i)"
  unfolding div_256 bit_drop_bit_eq by (simp add: ac_simps)

lemma bit_7: "bit (x :: int) 7 \<longleftrightarrow> 128 \<le> x mod 256"
proof -
  have "bit x 7 \<longleftrightarrow> odd (x div 128)" by (simp add: bit_iff_odd)
  also have "\<dots> \<longleftrightarrow> 128 \<le> 128 * (x div 128 mod 2) + x mod 128"
    using pos_mod_bound [of 128 x] pos_mod_sign [of 128 x] by (cases "even (x div 128)") (simp_all add: mod_2_eq_odd)
  also have "128 * (x div 128 mod 2) + x mod 128 = x mod 256"
    using zmod_zmult2_eq [of 2 x 128] by simp
  finally show ?thesis .
qed

text \<open>Subtracting 1 from a byte, and 256 times something from the whole.\<close>

lemma less_one_byte:
  fixes v q :: int
  defines "x \<equiv> v - (1 + 256 * q)"
  shows "128 \<le> x mod 256 \<and> \<not> 128 \<le> v mod 256 \<longleftrightarrow> v mod 256 = 0"
    and "v mod 256 \<noteq> 0 \<Longrightarrow> x div 256 = v div 256 - q"
proof -
  let ?b = "v mod 256" and ?w = "v div 256 - q"
  have x: "x = 256 * ?w + (?b - 1)" unfolding x_def by (simp add: algebra_simps minus_mod_eq_mult_div [symmetric])
  have b: "0 \<le> ?b" "?b < 256" by simp_all
  have pos: "x div 256 = ?w" "x mod 256 = ?b - 1" if "?b \<noteq> 0"
  proof -
    have "x = (?b - 1) + ?w * 256" using x by simp
    moreover have "(?b - 1) div 256 = 0" "(?b - 1) mod 256 = ?b - 1" using b that by simp_all
    ultimately show "x div 256 = ?w" "x mod 256 = ?b - 1" by (simp_all only: div_mult_self1 mod_mult_self1)
  qed
  have zero: "x mod 256 = 255" if "?b = 0"
  proof -
    have "x = 255 + (?w - 1) * 256" using x that by simp
    then have "x mod 256 = 255 mod 256" by (simp only: mod_mult_self1)
    then show ?thesis by simp
  qed
  show "128 \<le> x mod 256 \<and> \<not> 128 \<le> ?b \<longleftrightarrow> ?b = 0"
    using pos(2) zero by (cases "?b = 0") auto
  show "?b \<noteq> 0 \<Longrightarrow> x div 256 = ?w" by (rule pos(1))
qed

lemma first_zero_byte:
  assumes "j < k" and "\<And>i. i < j \<Longrightarrow> take_bit 8 (drop_bit (8 * i) v) \<noteq> (0 :: int)"
  shows "bit (v - ones k) (8 * j + 7) \<and> \<not> bit v (8 * j + 7) \<longleftrightarrow> take_bit 8 (drop_bit (8 * j) v) = 0"
  using assms
proof (induction j arbitrary: k v)
  case 0
  then obtain k' where k: "k = Suc k'" by (cases k) simp_all
  show ?case
    using less_one_byte(1) [of v "ones k'"] unfolding mult_0_right add_0 bit_7 k ones.simps drop_bit_0 id_apply mod_256 .
next
  case (Suc j)
  then obtain k' where k: "k = Suc k'" "j < k'" by (cases k) simp_all
  have "v mod 256 \<noteq> 0" using Suc.prems(2) [of 0] by (simp add: mod_256)
  note rest = less_one_byte(2) [OF this, of "ones k'"]
  have next_byte: "take_bit 8 (drop_bit (8 * i) (v div 256)) = take_bit 8 (drop_bit (8 * Suc i) v)" for i
    unfolding div_256 by (simp add: ac_simps)
  have "take_bit 8 (drop_bit (8 * i) (v div 256)) \<noteq> 0" if "i < j" for i
    using Suc.prems(2) [of "Suc i"] that unfolding next_byte by simp
  note IH = Suc.IH [OF k(2) this]
  show ?case
    using IH unfolding bit_next_byte next_byte k(1) ones.simps rest .
qed

lemma ones_eq: "255 * ones k = 256 ^ k - 1"
  by (induction k) simp_all

lemma ones_nonneg: "0 \<le> ones k"
  by (induction k) simp_all

lemma bit_high_bits: "r < 8 \<Longrightarrow> bit (128 * ones k) (8 * j + r) \<longleftrightarrow> j < k \<and> r = 7"
proof (induction k arbitrary: j)
  case (Suc k)
  have e: "128 * ones (Suc k) = 128 + (128 * ones k) * 256" by simp
  have parts: "128 * ones (Suc k) mod 256 = 128" "128 * ones (Suc k) div 256 = 128 * ones k"
    unfolding e by (simp_all only: mod_mult_self1 div_mult_self1) simp_all
  show ?case
  proof (cases j)
    case 0
    have "bit (128 :: int) r \<longleftrightarrow> r = 7"
      using bit_exp_iff [of 7 r, where 'a = int] by simp
    then show ?thesis
      using bit_take_bit_iff [of 8 "128 * ones (Suc k)" r] Suc.prems parts(1)
      unfolding mod_256 [symmetric] by (simp add: 0)
  next
    case (Suc j')
    then show ?thesis using Suc.IH [OF Suc.prems, of j'] unfolding Suc bit_next_byte parts(2) by simp
  qed
qed simp

subsection \<open>On words\<close>

lemma repeat_bytes:
  assumes "LENGTH('w::len) = 8 * k"
  shows "uint (repeat_byte 0x01 :: 'w word) = ones k" and "uint (repeat_byte 0x80 :: 'w word) = 128 * ones k"
proof -
  have "0 < k" using assms by (cases k) auto
  then have l: "8 \<le> LENGTH('w)" using assms by simp
  have p: "2 ^ LENGTH('w) = 255 * ones k + (1 :: int)"
    unfolding assms ones_eq by (simp add: power_mult)
  have "(2 :: int) ^ 8 \<le> 2 ^ LENGTH('w)" using l by (rule power_increasing) simp
  then have small: "255 < (2 :: int) ^ LENGTH('w)" "128 < (2 :: int) ^ LENGTH('w)" by simp_all
  have "uint (- 1 :: 'w word) = 2 ^ LENGTH('w) - 1" "uint (0xff :: 'w word) = 255"
    using small by (simp_all add: unsigned_minus_1_eq_mask mask_eq_exp_minus_1 uint_numeral take_bit_int_eq_self)
  then have "uint (- 1 div 0xff :: 'w word) = (2 ^ LENGTH('w) - 1) div 255"
    unfolding uint_div by (simp only:)
  then have d: "uint (- 1 div 0xff :: 'w word) = ones k" using p by simp
  then show "uint (repeat_byte 0x01 :: 'w word) = ones k" by (simp add: repeat_byte_def)
  have "128 * ones k < 2 ^ LENGTH('w)" using p ones_nonneg [of k] by linarith
  moreover have "uint (0x80 :: 'w word) = 128" using small by (simp add: uint_numeral take_bit_int_eq_self)
  ultimately show "uint (repeat_byte 0x80 :: 'w word) = 128 * ones k"
    unfolding repeat_byte_def uint_word_ariths d using ones_nonneg [of k] by (simp add: mult.commute)
qed

lemma bit_has_zero:
  fixes v :: "'w::len word"
  assumes "LENGTH('w) = 8 * k" and "r < 8"
  shows "bit (fst (has_zero v word_at_a_time_constants)) (8 * j + r) \<longleftrightarrow>
    j < k \<and> r = 7 \<and> bit (uint v - ones k) (8 * j + 7) \<and> \<not> bit (uint v) (8 * j + 7)"
proof -
  have "bit (v - repeat_byte 0x01) i \<longleftrightarrow> bit (uint v - ones k) i" if "i < LENGTH('w)" for i
  proof -
    have "uint (v - repeat_byte 0x01) = take_bit LENGTH('w) (uint v - ones k)"
      by (simp add: uint_word_ariths repeat_bytes(1) [OF assms(1)] take_bit_eq_mod)
    then have "bit (uint (v - repeat_byte 0x01)) i \<longleftrightarrow> bit (uint v - ones k) i"
      using that by (simp add: bit_take_bit_iff)
    then show ?thesis using that by (simp add: bit_uint_iff)
  qed
  moreover have "bit (repeat_byte 0x80 :: 'w word) i \<longleftrightarrow> i < LENGTH('w) \<and> bit (128 * ones k) i" for i
    using repeat_bytes(2) [OF assms(1)] bit_uint_iff [of "repeat_byte 0x80 :: 'w word" i] bit_imp_le_length by metis
  moreover have "fst (has_zero v word_at_a_time_constants) = ((v - repeat_byte 0x01) AND NOT v) AND repeat_byte 0x80"
    by (simp add: has_zero_def word_at_a_time_constants_def Let_def)
  moreover have "8 * j + r < LENGTH('w) \<longleftrightarrow> j < k" using assms by auto
  ultimately show ?thesis
    using bit_high_bits [OF assms(2), of k j] by (auto simp: bit_and_iff bit_not_iff bit_uint_iff)
qed

lemma below_lowest_bit:
  fixes x :: "'w::len word"
  assumes "bit x n" and "\<And>i. i < n \<Longrightarrow> \<not> bit x i"
  shows "(x - 1) AND NOT x = mask n"
proof -
  define h where "h = x AND NOT (mask (Suc n))"
  have n: "n < LENGTH('w)" using assms(1) by (rule bit_imp_le_length)
  have hb: "bit h i \<longleftrightarrow> bit x i \<and> n < i" for i
    using bit_imp_le_length [of x i] by (auto simp: h_def bit_simps)
  have "x = h OR 2 ^ n"
    by (rule bit_eqI) (use assms hb in \<open>auto simp: bit_simps, (metis nat_neq_iff)+\<close>)
  also have "\<dots> = h + 2 ^ n" by (rule disjunctive_add [symmetric]) (auto simp: hb bit_simps)
  finally have "x - 1 = h + mask n" by (simp add: mask_eq_exp_minus_1)
  also have "\<dots> = h OR mask n" by (rule disjunctive_add) (auto simp: hb bit_simps)
  finally have e: "x - 1 = h OR mask n" .
  show ?thesis
    unfolding e by (rule bit_eqI) (use assms hb in \<open>auto simp: bit_simps\<close>)
qed

lemma byte_of_uint: "byte_of v j = 0 \<longleftrightarrow> take_bit 8 (drop_bit (8 * j) (uint v)) = 0"
proof -
  have "uint (byte_of v j) = take_bit 8 (drop_bit (8 * j) (uint v))"
    by (rule bit_eqI) (auto simp: byte_of_def bit_simps bit_uint_iff dest: bit_imp_le_length)
  then show ?thesis by (metis uint_0_iff)
qed

lemma marks_first:
  fixes v :: "'w::len word"
  assumes "LENGTH('w) = 8 * k" and "j < k" and "\<And>i. i < j \<Longrightarrow> byte_of v i \<noteq> 0"
  shows "bit (fst (has_zero v word_at_a_time_constants)) (8 * j + 7) \<longleftrightarrow> byte_of v j = 0"
  using first_zero_byte [of j k "uint v"] bit_has_zero [OF assms(1), of 7 v j] assms
  by (simp add: byte_of_uint)

lemma marks_high:
  fixes v :: "'w::len word"
  assumes w: "LENGTH('w) = 8 * k" and b: "bit (fst (has_zero v word_at_a_time_constants)) i"
  shows "i div 8 < k \<and> i mod 8 = 7 \<and> bit (fst (has_zero v word_at_a_time_constants)) (8 * (i div 8) + 7)"
proof -
  have "bit (fst (has_zero v word_at_a_time_constants)) (8 * (i div 8) + i mod 8)" using b by simp
  then show ?thesis
    using bit_has_zero [OF w, of "i mod 8" v "i div 8"] bit_has_zero [OF w, of 7 v "i div 8"] by simp
qed

lemma no_marks:
  fixes v :: "'w::len word"
  assumes w: "LENGTH('w) = 8 * k" and bytes: "\<And>j. j < k \<Longrightarrow> byte_of v j \<noteq> 0"
  shows "fst (has_zero v word_at_a_time_constants) = 0"
proof (rule bit_eqI)
  fix i :: nat
  show "bit (fst (has_zero v word_at_a_time_constants)) i \<longleftrightarrow> bit 0 i"
    using marks_high [OF w, of v i] marks_first [OF w, of "i div 8" v] bytes by auto
qed

lemma fls64_mask: "fls64_ok fls64 \<Longrightarrow> n \<le> 64 \<Longrightarrow> fls64 (mask n) = n"
  unfolding fls64_ok_def by (cases n) (auto simp: bit_simps)

lemma zero_byte_found:
  fixes v :: "'w::len word"
  assumes w: "LENGTH('w) = 8 * k" and z: "z < k" "byte_of v z = 0" and before: "\<And>j. j < z \<Longrightarrow> byte_of v j \<noteq> 0"
  shows "create_zero_mask (fst (has_zero v word_at_a_time_constants)) = mask (8 * z)"
proof -
  let ?m = "fst (has_zero v word_at_a_time_constants)"
  have "bit ?m (8 * z + 7)" using marks_first [OF w z(1) before] z(2) by simp
  moreover have "\<not> bit ?m i" if "i < 8 * z + 7" for i
  proof -
    have "i div 8 * 8 + i mod 8 = i" by simp
    then have "i div 8 < z \<or> i mod 8 \<noteq> 7" using that by linarith
    then show ?thesis
      using marks_high [OF w, of v i] marks_first [OF w, of "i div 8" v] z(1) before by auto
  qed
  ultimately have "(?m - 1) AND NOT ?m = mask (8 * z + 7)" by (rule below_lowest_bit)
  then show ?thesis
    using z(1) w by (auto simp: create_zero_mask_def Let_def intro!: bit_eqI simp: bit_simps)
qed

section \<open>Property\<close>

text \<open>
  C31: the search of a word for a zero byte is exact: \<^verbatim>\<open>has_zero\<close> is true if and only if some byte
  is zero, and then \<^verbatim>\<open>find_zero\<close> on the prepared mask is the number of the first one, although the
  subtraction may mark later bytes that are not zero.
\<close>

theorem first_zero_found:
  fixes v :: "'w::len word"
  assumes "LENGTH('w) = 8 * k" and "k \<le> 8" and "fls64_ok fls64"
    and "has_zero v word_at_a_time_constants = (found, bits)"
  shows "(found \<noteq> 0 \<longleftrightarrow> (\<exists>j < k. byte_of v j = 0))
    \<and> (\<forall>z < k. byte_of v z = 0 \<and> (\<forall>j < z. byte_of v j \<noteq> 0) \<longrightarrow>
        find_zero fls64 (create_zero_mask (prep_zero_mask v bits)) = z)"
proof
  have m: "found = fst (has_zero v word_at_a_time_constants)" "bits = found"
    using assms(4) by (auto simp: has_zero_def Let_def)
  have marked: "byte_of v j \<noteq> 0" if "found = 0" "j < k" for j
    using that(2)
  proof (induction j rule: less_induct)
    case (less j)
    have "\<not> bit found (8 * j + 7)" using that(1) by simp
    then show ?case using marks_first [OF assms(1), of j v] less unfolding m(1) by auto
  qed
  have "found = 0" if "\<And>j. j < k \<Longrightarrow> byte_of v j \<noteq> 0"
    unfolding m(1) by (rule no_marks [OF assms(1) that])
  then show "found \<noteq> 0 \<longleftrightarrow> (\<exists>j < k. byte_of v j = 0)"
    using marked by blast
  show "\<forall>z < k. byte_of v z = 0 \<and> (\<forall>j < z. byte_of v j \<noteq> 0) \<longrightarrow>
        find_zero fls64 (create_zero_mask (prep_zero_mask v bits)) = z"
  proof (intro allI impI)
    fix z
    assume z: "z < k" "byte_of v z = 0 \<and> (\<forall>j < z. byte_of v j \<noteq> 0)"
    then have "create_zero_mask (prep_zero_mask v bits) = mask (8 * z)"
      using zero_byte_found [OF assms(1) z(1)] by (simp add: m prep_zero_mask_def)
    moreover have "ucast (mask (8 * z) :: 'w word) = (mask (8 * z) :: u64)"
      by (rule bit_eqI) (use z(1) assms(1,2) in \<open>auto simp: bit_simps\<close>)
    ultimately show "find_zero fls64 (create_zero_mask (prep_zero_mask v bits)) = z"
      using fls64_mask [OF assms(3), of "8 * z"] z(1) assms(2) by (simp add: find_zero_def drop_bit_eq_div)
  qed
qed

text \<open>A search from the top, for the witness.\<close>

fun fls_below :: "u64 \<Rightarrow> nat \<Rightarrow> nat" where
  "fls_below x 0 = 0"
| "fls_below x (Suc n) = (if bit x n then Suc n else fls_below x n)"

lemma fls_below_bit: "bit x n \<Longrightarrow> n < m \<Longrightarrow> (\<And>i. n < i \<Longrightarrow> \<not> bit x i) \<Longrightarrow> fls_below x m = Suc n"
  by (induction m) (auto simp: less_Suc_eq)

lemma fls_below_0: "fls_below 0 m = 0"
  by (induction m) simp_all

lemma fls_below_ok: "fls64_ok (\<lambda>x. fls_below x 64)"
  unfolding fls64_ok_def using bit_imp_le_length [where 'a = 64] by (auto simp: fls_below_0 intro: fls_below_bit)

theorem first_zero_found_witness:
  "find_zero (\<lambda>x. fls_below x 64) (create_zero_mask (prep_zero_mask 0x01006162
    (snd (has_zero (0x01006162 :: u32) word_at_a_time_constants)))) = 2"
proof -
  have "byte_of (0x01006162 :: u32) 0 = 0x62" "byte_of (0x01006162 :: u32) 1 = 0x61" "byte_of (0x01006162 :: u32) 2 = 0"
    by (simp_all add: byte_of_def take_bit_eq_mod drop_bit_eq_div)
  then have "byte_of (0x01006162 :: u32) 2 = 0 \<and> (\<forall>j < 2. byte_of (0x01006162 :: u32) j \<noteq> 0)"
    by (auto simp: less_2_cases_iff)
  then show ?thesis
    using first_zero_found [OF _ _ fls_below_ok prod.collapse [symmetric], where v = "0x01006162 :: u32" and k = 4] by auto
qed

end
