(* ===== verification/Irq.thy ===== *)
theory Irq
  imports Regs Driver
begin

text \<open>
  Interrupts: \<^verbatim>\<open>do_IRQ\<close> and \<^verbatim>\<open>init_IRQ\<close> of \<^verbatim>\<open>kernel/irq.c\<close>, and the platform interrupt
  controller of \<^verbatim>\<open>drivers/plic.c\<close>. What the code asks of the device, of the firmware and of the
  kernel proper is the list of events of the state; the answer to a claim may depend on all of it.
\<close>

section \<open>State\<close>

datatype irq_event =
    Irq_enter | Irq_exit | Clock_event nat | Ipi nat
  | Claim nat u32 | Generic_irq u32 | Complete nat u32
  | Set_chip u32 | Mask_interrupt u32 | Unmask_interrupt u32 | Alloc_descs u32 | Free_descs u32

text \<open>\<open>plic_context\<close> holds the registers mapped for each hart, \<open>irq_regs\<close> those of the hart in \<^verbatim>\<open>do_IRQ\<close>.\<close>

record 'r irq_state =
  plic_irqs :: u32
  plic_context :: "nat \<Rightarrow> nat option"
  sie_csr :: u32
  irq_regs :: 'r
  irq_events :: "irq_event list"

text \<open>
  \<open>claim_of\<close> is the device, \<open>handle_ipi\<close> the result of \<^verbatim>\<open>handle_ipi\<close>, \<open>with_smp\<close> the switch
  \<^verbatim>\<open>CONFIG_SMP\<close>.
\<close>

record irq_env =
  claim_of :: "irq_event list \<Rightarrow> nat \<Rightarrow> u32"
  handle_ipi :: "irq_event list \<Rightarrow> irqreturn"
  with_smp :: bool

definition event :: "irq_event \<Rightarrow> 'r irq_state \<Rightarrow> 'r irq_state" where
  "event e st = st\<lparr>irq_events := irq_events st @ [e]\<rparr>"

definition SIE_SSIE :: u32 where "SIE_SSIE = 0x2"
definition SIE_SEIE :: u32 where "SIE_SEIE = 0x200"

definition INTERRUPT_CAUSE_SOFTWARE :: u32 where "INTERRUPT_CAUSE_SOFTWARE = 1"
definition INTERRUPT_CAUSE_TIMER :: u32 where "INTERRUPT_CAUSE_TIMER = 5"
definition INTERRUPT_CAUSE_EXTERNAL :: u32 where "INTERRUPT_CAUSE_EXTERNAL = 9"

section \<open>Handling\<close>

definition plic_interrupt :: "irq_env \<Rightarrow> nat \<Rightarrow> 'r irq_state \<Rightarrow> 'r irq_state" where
  "plic_interrupt env cpu st =
    (case plic_context st cpu of
       None \<Rightarrow> st
     | Some plic \<Rightarrow>
        (let irq = claim_of env (irq_events st) plic; st = event (Claim plic irq) st
         in if irq \<noteq> 0 then event (Complete plic irq) (event (Generic_irq (irq - 1)) st) else st))"

definition riscv_timer_interrupt :: "nat \<Rightarrow> 'r irq_state \<Rightarrow> 'r irq_state" where
  "riscv_timer_interrupt cpu st = event (Clock_event cpu) st"

text \<open>\<open>None\<close> is a \<^verbatim>\<open>BUG\<close>.\<close>

definition riscv_software_interrupt :: "irq_env \<Rightarrow> nat \<Rightarrow> 'r irq_state \<Rightarrow> 'r irq_state option" where
  "riscv_software_interrupt env cpu st =
    (if with_smp env
     then let ret = handle_ipi env (irq_events st); st = event (Ipi cpu) st
          in if ret \<noteq> IRQ_NONE then Some st else None
     else None)"

definition do_IRQ :: "irq_env \<Rightarrow> nat \<Rightarrow> u32 \<Rightarrow> 'r \<Rightarrow> 'r irq_state \<Rightarrow> 'r irq_state option" where
  "do_IRQ env cpu cause regs st =
    (let old_regs = irq_regs st; st = st\<lparr>irq_regs := regs\<rparr>;
         st = event Irq_enter st;
         r = (if cause = INTERRUPT_CAUSE_TIMER then Some (riscv_timer_interrupt cpu st)
              else if cause = INTERRUPT_CAUSE_SOFTWARE then riscv_software_interrupt env cpu st
              else if cause = INTERRUPT_CAUSE_EXTERNAL then Some (plic_interrupt env cpu st)
              else None)
     in map_option (\<lambda>st. (event Irq_exit st)\<lparr>irq_regs := old_regs\<rparr>) r)"

definition init_IRQ :: "'r irq_state \<Rightarrow> 'r irq_state" where
  "init_IRQ st = st\<lparr>sie_csr := csr_write SIE_SSIE (sie_csr st)\<rparr>"

section \<open>The controller\<close>

text \<open>A mask is asked of the firmware, which numbers interrupts from 1; its answer is only printed.\<close>

definition plic_irq_mask :: "u32 \<Rightarrow> 'r irq_state \<Rightarrow> 'r irq_state" where
  "plic_irq_mask irq st = event (Mask_interrupt (irq + 1)) st"

definition plic_irq_unmask :: "u32 \<Rightarrow> 'r irq_state \<Rightarrow> 'r irq_state" where
  "plic_irq_unmask irq st = event (Unmask_interrupt (irq + 1)) st"

text \<open>
  \<open>ndevs\<close> is the number in the configuration, \<open>first\<close> the first descriptor that could be had;
  \<open>mapped\<close> is the mapping of the resource of a hart, \<open>None\<close> if there is none or it fails.
\<close>

definition chips :: "u32 \<Rightarrow> 'r irq_state \<Rightarrow> 'r irq_state" where
  "chips n st = fold (\<lambda>irq. event (Set_chip (of_nat irq))) [0..<nat (sint n)] st"

definition map_hart :: "(nat \<Rightarrow> nat option) \<Rightarrow> nat \<Rightarrow> 'r irq_state \<Rightarrow> 'r irq_state" where
  "map_hart mapped hart st =
    (let st = st\<lparr>plic_context := (plic_context st)(hart := None)\<rparr>
     in case mapped hart of
          None \<Rightarrow> st
        | Some plic \<Rightarrow> st\<lparr>plic_context := (plic_context st)(hart := Some plic)\<rparr>)"

definition plic_probe ::
    "int \<Rightarrow> u64 \<Rightarrow> (u32 \<Rightarrow> int) \<Rightarrow> nat list \<Rightarrow> (nat \<Rightarrow> nat option) \<Rightarrow> 'r irq_state \<Rightarrow> int \<times> 'r irq_state" where
  "plic_probe ENODEV ndevs irq_alloc_descs possible mapped st =
    (let st = st\<lparr>plic_irqs := ucast ndevs\<rparr>;
         irq = irq_alloc_descs (plic_irqs st); st = event (Alloc_descs (plic_irqs st)) st
     in if irq \<noteq> 0 then (- ENODEV, st)
        else let st = chips (plic_irqs st) st;
                 st = fold (map_hart mapped) possible st
             in (0, st\<lparr>sie_csr := csr_set SIE_SEIE (sie_csr st)\<rparr>))"

definition plic_remove :: "nat list \<Rightarrow> 'r irq_state \<Rightarrow> int \<times> 'r irq_state" where
  "plic_remove possible st =
    (let st = st\<lparr>sie_csr := csr_clear SIE_SEIE (sie_csr st)\<rparr>;
         st = fold (\<lambda>hart st. st\<lparr>plic_context := (plic_context st)(hart := None)\<rparr>) possible st
     in (0, event (Free_descs (plic_irqs st)) st))"

section \<open>A run of interrupts\<close>

text \<open>Interrupts one behind the other, each with its hart, its cause and its registers.\<close>

fun do_IRQs :: "irq_env \<Rightarrow> (nat \<times> u32 \<times> 'r) list \<Rightarrow> 'r irq_state \<Rightarrow> 'r irq_state option" where
  "do_IRQs env [] st = Some st"
| "do_IRQs env ((cpu, cause, regs) # calls) st =
    (case do_IRQ env cpu cause regs st of None \<Rightarrow> None | Some st \<Rightarrow> do_IRQs env calls st)"

text \<open>
  What a history should be: entries and exits alternate, and inside, a claim that is not 0 is
  handed on under its number and then completed where it was claimed, before anything else.
\<close>

fun outside :: "irq_event list \<Rightarrow> bool" and inside :: "irq_event list \<Rightarrow> bool"
  and claimed :: "nat \<Rightarrow> u32 \<Rightarrow> irq_event list \<Rightarrow> bool" and handled :: "nat \<Rightarrow> u32 \<Rightarrow> irq_event list \<Rightarrow> bool" where
  "outside [] = True"
| "outside (Irq_enter # es) = inside es"
| "outside (Irq_exit # es) = False"
| "outside (Claim plic irq # es) = False"
| "outside (Generic_irq irq # es) = False"
| "outside (Complete plic irq # es) = False"
| "outside (e # es) = outside es"
| "inside (Irq_exit # es) = outside es"
| "inside (Claim plic irq # es) = (if irq = 0 then inside es else claimed plic irq es)"
| "inside (Clock_event cpu # es) = inside es"
| "inside (Ipi cpu # es) = inside es"
| "inside _ = False"
| "claimed plic irq (Generic_irq n # es) = (n = irq - 1 \<and> handled plic irq es)"
| "claimed plic irq _ = False"
| "handled plic irq (Complete plic' irq' # es) = (plic' = plic \<and> irq' = irq \<and> inside es)"
| "handled plic irq _ = False"

lemma outside_append: "outside xs \<Longrightarrow> outside ys \<Longrightarrow> outside (xs @ ys)"
  and inside_append: "inside xs \<Longrightarrow> outside ys \<Longrightarrow> inside (xs @ ys)"
  and claimed_append: "claimed plic irq xs \<Longrightarrow> outside ys \<Longrightarrow> claimed plic irq (xs @ ys)"
  and handled_append: "handled plic irq xs \<Longrightarrow> outside ys \<Longrightarrow> handled plic irq (xs @ ys)"
  by (induction xs and xs and plic irq xs and plic irq xs rule: outside_inside_claimed_handled.induct) auto

text \<open>What one interrupt adds.\<close>

definition irq_body :: "irq_env \<Rightarrow> nat \<Rightarrow> u32 \<Rightarrow> 'r irq_state \<Rightarrow> irq_event list" where
  "irq_body env cpu cause st =
    (if cause = INTERRUPT_CAUSE_TIMER then [Clock_event cpu]
     else if cause = INTERRUPT_CAUSE_SOFTWARE then [Ipi cpu]
     else case plic_context st cpu of
         None \<Rightarrow> []
       | Some plic \<Rightarrow>
          (let irq = claim_of env (irq_events st @ [Irq_enter]) plic
           in if irq = 0 then [Claim plic 0] else [Claim plic irq, Generic_irq (irq - 1), Complete plic irq]))"

definition no_bug :: "irq_env \<Rightarrow> u32 \<Rightarrow> 'r irq_state \<Rightarrow> bool" where
  "no_bug env cause st \<longleftrightarrow> cause \<in> {INTERRUPT_CAUSE_TIMER, INTERRUPT_CAUSE_EXTERNAL}
    \<or> cause = INTERRUPT_CAUSE_SOFTWARE \<and> with_smp env \<and> handle_ipi env (irq_events st @ [Irq_enter]) = IRQ_HANDLED"

lemmas cause_defs = INTERRUPT_CAUSE_SOFTWARE_def INTERRUPT_CAUSE_TIMER_def INTERRUPT_CAUSE_EXTERNAL_def

lemma do_IRQ_outcome:
  "do_IRQ env cpu cause regs st =
    (if no_bug env cause st
     then Some (st\<lparr>irq_events := irq_events st @ [Irq_enter] @ irq_body env cpu cause st @ [Irq_exit]\<rparr>) else None)"
proof -
  have two: "x \<noteq> IRQ_NONE \<longleftrightarrow> x = IRQ_HANDLED" for x by (cases x) simp_all
  show ?thesis
    by (auto simp: do_IRQ_def no_bug_def irq_body_def riscv_timer_interrupt_def riscv_software_interrupt_def
        plic_interrupt_def event_def Let_def two cause_defs split: option.splits)
qed

lemma body_inside: "inside (irq_body env cpu cause st @ [Irq_exit])"
  by (auto simp: irq_body_def Let_def split: option.split)

lemma do_IRQs_keep:
  "do_IRQs env calls st = Some st' \<Longrightarrow> outside (irq_events st) \<Longrightarrow>
    outside (irq_events st') \<and> st' = st\<lparr>irq_events := irq_events st'\<rparr>"
proof (induction calls arbitrary: st)
  case (Cons call calls)
  obtain cpu cause regs where call: "call = (cpu, cause, regs)" by (cases call) simp
  define st1 where "st1 = st\<lparr>irq_events := irq_events st @ [Irq_enter] @ irq_body env cpu cause st @ [Irq_exit]\<rparr>"
  have "do_IRQs env calls st1 = Some st'"
    using Cons.prems(1) by (simp add: call do_IRQ_outcome st1_def split: if_splits)
  moreover have "outside (irq_events st1)"
    unfolding st1_def using Cons.prems(2) body_inside [of env cpu cause st] by (simp add: outside_append)
  ultimately show ?case using Cons.IH [of st1] by (simp add: st1_def)
qed simp

lemma do_IRQs_returns:
  assumes "with_smp env" and "\<And>es. handle_ipi env es = IRQ_HANDLED"
    and "\<forall>(cpu, cause, regs) \<in> set calls. cause \<in> {INTERRUPT_CAUSE_TIMER, INTERRUPT_CAUSE_SOFTWARE, INTERRUPT_CAUSE_EXTERNAL}"
  shows "\<exists>st'. do_IRQs env calls st = Some st'"
  using assms(3)
proof (induction calls arbitrary: st)
  case (Cons call calls)
  then show ?case by (cases call) (auto simp: do_IRQ_outcome no_bug_def assms(1,2))
qed simp

section \<open>Properties\<close>

text \<open>
  C34: \<^verbatim>\<open>do_IRQ\<close> handles every interrupt of a known cause between \<^verbatim>\<open>irq_enter\<close> and
  \<^verbatim>\<open>irq_exit\<close> and puts the registers of the interrupted context back, and the controller never
  keeps a claim: what a hart claims it hands on under the number of the kernel and completes
  before the next event. Any other cause is a \<^verbatim>\<open>BUG\<close>, as is a software interrupt without a message.
\<close>

theorem irqs_served:
  assumes "outside (irq_events st)"
  shows "(do_IRQs env calls st = Some st' \<longrightarrow> outside (irq_events st') \<and> irq_regs st' = irq_regs st
      \<and> plic_context st' = plic_context st \<and> sie_csr st' = sie_csr st)
    \<and> (do_IRQ env cpu cause regs st = None \<longleftrightarrow>
      cause \<notin> {INTERRUPT_CAUSE_TIMER, INTERRUPT_CAUSE_SOFTWARE, INTERRUPT_CAUSE_EXTERNAL}
      \<or> cause = INTERRUPT_CAUSE_SOFTWARE \<and> \<not> (with_smp env \<and> handle_ipi env (irq_events st @ [Irq_enter]) = IRQ_HANDLED))"
proof
  show "do_IRQs env calls st = Some st' \<longrightarrow> outside (irq_events st') \<and> irq_regs st' = irq_regs st
      \<and> plic_context st' = plic_context st \<and> sie_csr st' = sie_csr st"
  proof
    assume "do_IRQs env calls st = Some st'"
    then have st': "outside (irq_events st')" "st' = st\<lparr>irq_events := irq_events st'\<rparr>"
      using do_IRQs_keep assms by blast+
    show "outside (irq_events st') \<and> irq_regs st' = irq_regs st \<and> plic_context st' = plic_context st \<and> sie_csr st' = sie_csr st"
      using st'(1) by (subst (2 3 4) st'(2)) simp
  qed
  show "do_IRQ env cpu cause regs st = None \<longleftrightarrow>
      cause \<notin> {INTERRUPT_CAUSE_TIMER, INTERRUPT_CAUSE_SOFTWARE, INTERRUPT_CAUSE_EXTERNAL}
      \<or> cause = INTERRUPT_CAUSE_SOFTWARE \<and> \<not> (with_smp env \<and> handle_ipi env (irq_events st @ [Irq_enter]) = IRQ_HANDLED)"
    by (auto simp: do_IRQ_outcome no_bug_def cause_defs)
qed

text \<open>A device with one pending source, which it hands out once.\<close>

definition one_source :: irq_env where
  "one_source = \<lparr>claim_of = (\<lambda>es plic. if Claim plic 3 \<in> set es then 0 else 3), handle_ipi = (\<lambda>_. IRQ_HANDLED), with_smp = True\<rparr>"

definition irq_start :: "nat irq_state" where
  "irq_start = \<lparr>plic_irqs = 4, plic_context = [0 \<mapsto> 7], sie_csr = 0x222, irq_regs = 0, irq_events = []\<rparr>"

theorem irqs_served_witness:
  "\<exists>st'. do_IRQs one_source [(0, 9, 1), (0, 9, 2), (1, 5, 3)] irq_start = Some st' \<and> outside (irq_events st')
    \<and> irq_regs st' = 0"
proof -
  obtain st' where st': "do_IRQs one_source [(0, 9, 1), (0, 9, 2), (1, 5, 3)] irq_start = Some st'"
    using do_IRQs_returns [of one_source "[(0, 9, 1), (0, 9, 2), (1, 5, 3)]" irq_start]
    by (auto simp: one_source_def cause_defs)
  have "outside (irq_events irq_start)" by (simp add: irq_start_def)
  from irqs_served [OF this, of one_source "[(0, 9, 1), (0, 9, 2), (1, 5, 3)]" st'] st' show ?thesis
    by (intro exI [of _ st'] conjI) (simp_all add: irq_start_def del: do_IRQs.simps)
qed

lemma fold_map_hart:
  "plic_context (fold (map_hart mapped) harts st) = (\<lambda>h. if h \<in> set harts then mapped h else plic_context st h)"
  "sie_csr (fold (map_hart mapped) harts st) = sie_csr st"
  "plic_irqs (fold (map_hart mapped) harts st) = plic_irqs st"
  by (induction harts arbitrary: st) (auto simp: map_hart_def Let_def split: option.split)

lemma fold_unmap:
  "plic_context (fold (\<lambda>hart st. st\<lparr>plic_context := (plic_context st)(hart := None)\<rparr>) harts st) =
    (\<lambda>h. if h \<in> set harts then None else plic_context st h)"
  "sie_csr (fold (\<lambda>hart st. st\<lparr>plic_context := (plic_context st)(hart := None)\<rparr>) harts st) = sie_csr st"
  by (induction harts arbitrary: st) auto

lemma fold_event:
  "plic_context (fold (\<lambda>x. event (f x)) xs st) = plic_context st" "sie_csr (fold (\<lambda>x. event (f x)) xs st) = sie_csr st"
  by (induction xs arbitrary: st) (simp_all add: event_def)

text \<open>
  The controller from \<^verbatim>\<open>plic_probe\<close> to \<^verbatim>\<open>plic_remove\<close>: a probe that succeeds gives every
  possible hart the mapping of its registers, or none, and enables external interrupts; one that
  fails leaves both alone. After the removal no possible hart has a mapping, external interrupts
  are off, and an interrupt that still comes claims nothing.
\<close>

theorem plic_lifecycle:
  assumes "plic_probe ENODEV ndevs irq_alloc_descs possible mapped st = (err, st1)" and "plic_remove possible st2 = (r, st3)"
  shows "(if irq_alloc_descs (ucast ndevs) = 0
      then err = 0 \<and> (\<forall>h \<in> set possible. plic_context st1 h = mapped h) \<and> sie_csr st1 AND SIE_SEIE = SIE_SEIE
      else err = - ENODEV \<and> plic_context st1 = plic_context st \<and> sie_csr st1 = sie_csr st)
    \<and> r = 0 \<and> sie_csr st3 AND SIE_SEIE = 0 \<and> (\<forall>h \<in> set possible. plic_interrupt env h st3 = st3)"
proof -
  have on: "(x OR SIE_SEIE) AND SIE_SEIE = SIE_SEIE" and off: "(x AND NOT SIE_SEIE) AND SIE_SEIE = 0" for x
    by (rule bit_eqI; auto simp: bit_simps)+
  show ?thesis
    using assms by (auto simp: plic_probe_def plic_remove_def Let_def chips_def csr_set_def csr_clear_def on off
        event_def fold_map_hart fold_unmap fold_event [unfolded event_def] plic_interrupt_def split: if_splits)
qed

theorem plic_lifecycle_witness:
  "plic_context (snd (plic_probe 19 2 (\<lambda>_. 0) [0, 1] [0 \<mapsto> 7] irq_start)) 0 = Some 7
    \<and> sie_csr (snd (plic_remove [0, 1] (snd (plic_probe 19 2 (\<lambda>_. 0) [0, 1] [0 \<mapsto> 7] irq_start)))) AND SIE_SEIE = 0"
  using plic_lifecycle [OF prod.collapse [symmetric] prod.collapse [symmetric], where ENODEV = 19 and ndevs = 2
      and irq_alloc_descs = "\<lambda>_. 0" and possible = "[0, 1]" and mapped = "[0 \<mapsto> 7]" and st = irq_start
      and ?st2.0 = "snd (plic_probe 19 2 (\<lambda>_. 0) [0, 1] [0 \<mapsto> 7] irq_start)"]
  by simp

end
