(* ===== verification/MemMaps.thy ===== *)
theory MemMaps
  imports PageTable
begin

text \<open>
  Mappings on the 32-bit machine: \<^verbatim>\<open>mm/ioremap.c\<close>, the page list and the mapping of the vDSO
  in \<^verbatim>\<open>kernel/vdso.c\<close>, and the change of the address space in \<^verbatim>\<open>asm/mmu_context.h\<close> with the
  flushes of \<^verbatim>\<open>asm/tlbflush.h\<close>.
\<close>

section \<open>Device memory\<close>

datatype map_call = Map_range u32 u32 u32 | Free_area u32 | Vunmap u32

text \<open>
  The kernel proper gives an area for a size, or none, and tells whether a range cannot be mapped;
  the calls are the second result.
\<close>

definition ioremap_caller ::
    "(u32 \<Rightarrow> u32 option) \<Rightarrow> (u32 \<Rightarrow> u32 \<Rightarrow> u32 \<Rightarrow> bool) \<Rightarrow> u32 \<Rightarrow> u32 \<Rightarrow> u32 option \<times> map_call list" where
  "ioremap_caller get_vm_area_caller ioremap_page_range addr sz =
    (let last_addr = addr + sz - 1
     in if sz = 0 \<or> last_addr < addr then (None, [])
        else let offset = addr AND NOT PAGE_MASK; addr = addr AND PAGE_MASK; sz = PAGE_UP (sz + offset)
             in case get_vm_area_caller sz of
                  None \<Rightarrow> (None, [])
                | Some vaddr \<Rightarrow>
                    if ioremap_page_range vaddr (vaddr + sz) addr
                    then (None, [Map_range vaddr (vaddr + sz) addr, Free_area vaddr])
                    else (Some (vaddr + offset), [Map_range vaddr (vaddr + sz) addr]))"

definition iounmap :: "u32 \<Rightarrow> map_call list" where
  "iounmap addr = [Vunmap (addr AND PAGE_MASK)]"

section \<open>The vDSO\<close>

record vdso_state =
  vdso_pages :: u32
  vdso_pagelist :: "u32 list option"

text \<open>
  A page is named by its frame, \<open>virt_to_page\<close> is a parameter and \<open>has_memory\<close> tells whether
  \<^verbatim>\<open>kzalloc\<close> succeeds. The second result are the pages whose reserved flag is cleared.
\<close>

definition vdso_init ::
    "int \<Rightarrow> (u32 \<Rightarrow> u32) \<Rightarrow> u32 \<Rightarrow> u32 \<Rightarrow> u32 \<Rightarrow> bool \<Rightarrow> vdso_state \<Rightarrow> int \<times> u32 list \<times> vdso_state" where
  "vdso_init ENOMEM virt_to_page vdso_start vdso_end vdso_data has_memory st =
    (let st = st\<lparr>vdso_pages := signed_drop_bit PAGE_SHIFT (vdso_end - vdso_start)\<rparr>
     in if \<not> has_memory then (- ENOMEM, [], st\<lparr>vdso_pagelist := None\<rparr>)
        else let pgs = map (\<lambda>i. virt_to_page (vdso_start + push_bit PAGE_SHIFT (of_nat i))) [0..<unat (vdso_pages st)]
             in (0, pgs, st\<lparr>vdso_pagelist := Some (pgs @ [virt_to_page vdso_data])\<rparr>))"

datatype vdso_event = Down_write | Up_write | Install u32 u32 "u32 list option"

text \<open>
  \<open>get_unmapped_area\<close> gives the address or the error for a length; the context keeps the address of
  the mapping, 0 for none.
\<close>

definition arch_setup_additional_pages ::
    "(u32 \<Rightarrow> int + u32) \<Rightarrow> (u32 \<Rightarrow> u32 \<Rightarrow> u32 list option \<Rightarrow> int) \<Rightarrow> vdso_state \<Rightarrow> u32 \<Rightarrow> int \<times> vdso_event list \<times> u32" where
  "arch_setup_additional_pages get_unmapped_area install_special_mapping st context_vdso =
    (let vdso_len = push_bit PAGE_SHIFT (vdso_pages st + 1); events = [Down_write];
         (ret, events, context_vdso) =
           (case get_unmapped_area vdso_len of
              Inl err \<Rightarrow> (err, events, context_vdso)
            | Inr vdso_base \<Rightarrow>
               (let context_vdso = vdso_base;
                    ret = install_special_mapping vdso_base vdso_len (vdso_pagelist st);
                    events = events @ [Install vdso_base vdso_len (vdso_pagelist st)];
                    context_vdso = (if ret \<noteq> 0 then 0 else context_vdso)
                in (ret, events, context_vdso)))
     in (ret, events @ [Up_write], context_vdso))"

text \<open>An area may belong to no address space.\<close>

definition arch_vma_name :: "u32 option \<Rightarrow> u32 \<Rightarrow> string option" where
  "arch_vma_name mm_vdso start =
    (case mm_vdso of Some v \<Rightarrow> if start = v then Some ''[vdso]'' else None | None \<Rightarrow> None)"

section \<open>The address space of a hart\<close>

text \<open>The translations a hart has cached, each with the root it came from.\<close>

record hart_mmu =
  sptbr :: u32
  cached :: "(u32 \<times> u32 \<times> u32 pte_t) set"

definition local_flush_tlb_all :: "hart_mmu \<Rightarrow> hart_mmu" where
  "local_flush_tlb_all h = h\<lparr>cached := {}\<rparr>"

definition local_flush_tlb_page :: "u32 \<Rightarrow> hart_mmu \<Rightarrow> hart_mmu" where
  "local_flush_tlb_page addr h = h\<lparr>cached := {(r, a, p) \<in> cached h. drop_bit PAGE_SHIFT a \<noteq> drop_bit PAGE_SHIFT addr}\<rparr>"

text \<open>An address space is the address of its directory; equal addresses are the same.\<close>

definition switch_mm :: "u32 mem_layout \<Rightarrow> u32 \<Rightarrow> u32 \<Rightarrow> hart_mmu \<Rightarrow> hart_mmu" where
  "switch_mm L prev next_pgd h =
    (if prev \<noteq> next_pgd then local_flush_tlb_all (h\<lparr>sptbr := virt_to_pfn L next_pgd\<rparr>) else h)"

definition activate_mm :: "u32 mem_layout \<Rightarrow> u32 \<Rightarrow> u32 \<Rightarrow> hart_mmu \<Rightarrow> hart_mmu" where
  "activate_mm L prev next_pgd h = switch_mm L prev next_pgd h"

text \<open>A hart with its current address space: it walks the tables, changes the space or flushes.\<close>

inductive mmu_step :: "u32 mem_layout \<Rightarrow> u32 \<times> hart_mmu \<Rightarrow> u32 \<times> hart_mmu \<Rightarrow> bool" for L where
  walk: "mmu_step L (mm, h) (mm, h\<lparr>cached := insert (sptbr h, a, p) (cached h)\<rparr>)"
| change: "mmu_step L (mm, h) (mm', switch_mm L mm mm' h)"
| flush_page: "mmu_step L (mm, h) (mm, local_flush_tlb_page a h)"
| flush_all: "mmu_step L (mm, h) (mm, local_flush_tlb_all h)"

definition mmu_inv :: "u32 mem_layout \<Rightarrow> u32 \<times> hart_mmu \<Rightarrow> bool" where
  "mmu_inv L s \<longleftrightarrow> sptbr (snd s) = virt_to_pfn L (fst s) \<and> (\<forall>(root, a, p) \<in> cached (snd s). root = virt_to_pfn L (fst s))"

interpretation mmu: stepping "\<lambda>s. sptbr (snd s) = virt_to_pfn L (fst s) \<and> cached (snd s) = {}" "mmu_step L" "mmu_inv L"
  for L
proof unfold_locales
  fix s t
  assume "mmu_step L s t" "mmu_inv L s"
  then show "mmu_inv L t"
    by (induction rule: mmu_step.induct)
      (auto simp: mmu_inv_def switch_mm_def local_flush_tlb_all_def local_flush_tlb_page_def)
qed (auto simp: mmu_inv_def)

section \<open>Lemmas\<close>

lemma page_parts: "(PAGE_SIZE - 1 :: u32) = mask 12"
  by (simp add: PAGE_SIZE_def PAGE_SHIFT_def mask_eq_exp_minus_1 push_bit_eq_mult)

lemma page_mask: "(PAGE_MASK :: u32) = NOT (mask 12)"
  by (simp add: PAGE_MASK_def page_parts)

lemma unat_offset: "unat (x AND NOT PAGE_MASK :: u32) = unat x mod 4096"
  unfolding page_mask using unat_and_mask_word [of x 12] by simp

lemma unat_base: "unat (x AND PAGE_MASK :: u32) = unat x div 4096 * 4096"
  unfolding page_mask using unat_round_down [of x 12] by simp

lemma unat_page_up:
  fixes x :: u32
  assumes "unat x + 4095 < 2 ^ 32"
  shows "unat (PAGE_UP x) = (unat x + 4095) div 4096 * 4096"
proof -
  have "unat (mask 12 :: u32) = 4095" by (simp add: mask_eq_exp_minus_1)
  then have "unat (x + mask 12) = unat x + 4095" using assms by (simp add: unat_add_word)
  then show ?thesis unfolding PAGE_UP_def page_parts using unat_round_down [of "x + mask 12" 12] by simp
qed

lemma page_split: "(x AND PAGE_MASK) + (x AND NOT PAGE_MASK) = (x :: u32)"
proof -
  have "(x AND PAGE_MASK) + (x AND NOT PAGE_MASK) = (x AND PAGE_MASK) OR (x AND NOT PAGE_MASK)"
    by (rule disjunctive_add) (auto simp: bit_simps)
  also have "\<dots> = x" by (rule bit_word_eqI) (auto simp: bit_simps)
  finally show ?thesis .
qed

lemma page_of_sum:
  fixes area offset :: u32
  assumes "area AND NOT PAGE_MASK = 0" and "unat offset < 4096" and "unat area + unat offset < 2 ^ 32"
  shows "(area + offset) AND PAGE_MASK = area"
proof -
  have "unat area mod 4096 = 0" using assms(1) unat_offset [of area] by simp
  then obtain q where q: "unat area = q * 4096" by (metis mod_0_imp_dvd dvd_def mult.commute)
  have "unat (area + offset) = q * 4096 + unat offset" using assms(3) q by (simp add: unat_add_word)
  then have "unat ((area + offset) AND PAGE_MASK) = unat area"
    unfolding unat_base q using assms(2) by simp
  then show ?thesis by (simp add: word_unat_eq_iff)
qed

lemma aligned_room:
  fixes area :: u32
  assumes "area AND NOT PAGE_MASK = 0" and "n < 4096"
  shows "unat area + n < 2 ^ 32"
proof -
  have "unat area mod 4096 = 0" using assms(1) unat_offset [of area] by simp
  then obtain q where q: "unat area = q * 4096" by (metis mod_0_imp_dvd dvd_def mult.commute)
  then have "q < 1048576" using unat_bound [of area] by simp
  then show ?thesis using assms(2) q by simp
qed

lemma page_up_wraps:
  fixes addr sz :: u32
  assumes "unat addr + unat sz \<le> 2 ^ 32" and "\<not> unat sz + unat (addr AND NOT PAGE_MASK) + 4095 < 2 ^ 32"
  shows "PAGE_UP (sz + (addr AND NOT PAGE_MASK)) = 0" and "addr AND PAGE_MASK = 0"
proof -
  let ?x = "sz + (addr AND NOT PAGE_MASK)"
  have parts: "unat addr = unat addr div 4096 * 4096 + unat addr mod 4096" by simp
  have small: "unat addr div 4096 = 0" using assms parts unfolding unat_offset by linarith
  then show "addr AND PAGE_MASK = 0" by (simp add: word_unat_eq_iff unat_base)
  have sum: "unat sz + unat (addr AND NOT PAGE_MASK) \<le> 2 ^ 32"
    using assms(1) parts small unfolding unat_offset by linarith
  have m: "unat (mask 12 :: u32) = 4095" by (simp add: mask_eq_exp_minus_1)
  have "unat (?x + mask 12) < 4096"
  proof (cases "unat sz + unat (addr AND NOT PAGE_MASK) = 2 ^ 32")
    case True
    then have "unat ?x = 2 ^ 32 mod 2 ^ 32" by (simp only: unat_add_word) simp
    then have "unat ?x = 0" by simp
    then have "?x = 0" by (simp only: unat_eq_0)
    then show ?thesis by (simp add: m)
  next
    case False
    then have "unat ?x = unat sz + unat (addr AND NOT PAGE_MASK)" using sum by (simp add: unat_add_word)
    moreover have "unat (?x + mask 12) = (unat ?x + 4095) mod 2 ^ 32" by (simp only: unat_add_word m) simp
    moreover have "(a + 4095) mod 2 ^ 32 < 4096" if "\<not> a + 4095 < 2 ^ 32" "a < 2 ^ 32" for a :: nat
      using that by (simp add: mod_if) arith
    ultimately show ?thesis using False sum assms(2) by (metis le_neq_implies_less)
  qed
  then show "PAGE_UP ?x = 0"
    unfolding PAGE_UP_def page_parts using unat_round_down [of "?x + mask 12" 12] by (simp add: word_unat_eq_iff)
qed

text \<open>The guard of \<open>ioremap\<close> catches exactly the ranges that run over the end.\<close>

lemma ioremap_guard: "sz \<noteq> 0 \<Longrightarrow> addr + sz - 1 < addr \<longleftrightarrow> 2 ^ 32 < unat addr + unat (sz :: u32)"
proof -
  assume "sz \<noteq> 0"
  then have sz: "unat (sz - 1) = unat sz - 1" "0 < unat sz" by (simp_all add: unat_minus_one unat_gt_0)
  have "addr + sz - 1 = addr + (sz - 1)" by simp
  then have "unat (addr + sz - 1) = (unat addr + (unat sz - 1)) mod 2 ^ 32" by (simp only: unat_add_word sz(1)) simp
  then show ?thesis
    using sz(2) unat_bound [of addr] unat_bound [of sz] unfolding word_less_nat_alt by (auto simp: mod_if)
qed

lemma ioremap_mapped:
  assumes "ioremap_caller get_area fails addr sz = (Some v, calls)"
    and "\<And>n area. get_area n = Some area \<Longrightarrow> area AND NOT PAGE_MASK = 0 \<and> unat area + unat n < 2 ^ 32"
  shows "\<exists>area n base. calls = [Map_range area (area + n) base] \<and> get_area n = Some area \<and> iounmap v = [Vunmap area]
    \<and> (if unat sz + unat (addr AND NOT PAGE_MASK) + 4095 < 2 ^ 32
       then \<forall>k < unat sz. area \<le> v + of_nat k \<and> v + of_nat k < area + n \<and> base + (v + of_nat k - area) = addr + of_nat k
       else n = 0 \<and> base = 0)"
proof -
  let ?o = "addr AND NOT PAGE_MASK" and ?b = "addr AND PAGE_MASK" and ?n = "PAGE_UP (sz + (addr AND NOT PAGE_MASK))"
  obtain area where r: "get_area ?n = Some area" "v = area + ?o" "calls = [Map_range area (area + ?n) ?b]"
    and fits: "unat addr + unat sz \<le> 2 ^ 32"
    using assms(1) ioremap_guard [of sz addr] by (auto simp: ioremap_caller_def Let_def not_less split: if_splits option.splits)
  have area: "area AND NOT PAGE_MASK = 0" "unat area + unat ?n < 2 ^ 32" using assms(2) [OF r(1)] by simp_all
  have "v AND PAGE_MASK = area"
    unfolding r(2) using aligned_room [OF area(1), of "unat ?o"] area(1) unat_offset [of addr] by (intro page_of_sum) simp_all
  then have un: "iounmap v = [Vunmap area]" by (simp add: iounmap_def)
  have split: "?b + ?o = addr" "unat ?b + unat ?o = unat addr" by (rule page_split) (simp add: unat_base unat_offset)
  have "\<forall>k < unat sz. area \<le> v + of_nat k \<and> v + of_nat k < area + ?n \<and> ?b + (v + of_nat k - area) = addr + of_nat k"
    if small: "unat sz + unat ?o + 4095 < 2 ^ 32"
  proof (intro allI impI)
    fix k assume k: "k < unat sz"
    have "unat ?n = (unat sz + unat ?o + 4095) div 4096 * 4096"
      using unat_page_up [of "sz + ?o"] small by (simp add: unat_add_word)
    then have n: "unat sz + unat ?o \<le> unat ?n" by linarith
    have "unat (area + ?n) = unat area + unat ?n" using area(2) by (simp add: unat_add_word)
    moreover have "unat (area + ?o + of_nat k) = unat area + unat ?o + k"
      using area(2) n k by (simp add: unat_add_word unat_of_nat)
    ultimately have "area \<le> v + of_nat k \<and> v + of_nat k < area + ?n"
      unfolding r(2) word_le_nat_alt word_less_nat_alt using n k by linarith
    then show "area \<le> v + of_nat k \<and> v + of_nat k < area + ?n \<and> ?b + (v + of_nat k - area) = addr + of_nat k"
      using split(1) unfolding r(2) by (simp add: algebra_simps)
  qed
  moreover have "?n = 0 \<and> ?b = 0" if large: "\<not> unat sz + unat ?o + 4095 < 2 ^ 32"
    using page_up_wraps [OF fits large] by blast
  ultimately show ?thesis using r(1,3) un by auto
qed

section \<open>Properties\<close>

text \<open>
  C39: \<^verbatim>\<open>ioremap\<close> maps what it was asked for. A range of no bytes, or one that runs over the end of
  the address space, is refused without a call. When an address is returned, an area was got and
  mapped and \<^verbatim>\<open>iounmap\<close> of the address gives it back; and through the address byte \<open>k\<close> of the caller's
  range is inside the area and the range mapped into it and meets byte \<open>k\<close> of the device's range,
  unless rounding the size up to pages wraps, which needs a range from the first page into the last:
  then an area of no bytes was asked for and mapped. When no address is returned, nothing was
  mapped or the area was given back. The area is page-aligned and does not wrap, which is what the
  kernel proper promises of it.
\<close>

theorem ioremap_maps:
  assumes "\<And>n area. get_area n = Some area \<Longrightarrow> area AND NOT PAGE_MASK = 0 \<and> unat area + unat n < 2 ^ 32"
  shows "((sz = 0 \<or> 2 ^ 32 < unat addr + unat sz) \<longrightarrow> ioremap_caller get_area fails addr sz = (None, []))
    \<and> (\<forall>v calls. ioremap_caller get_area fails addr sz = (Some v, calls) \<longrightarrow>
        (\<exists>area n base. calls = [Map_range area (area + n) base] \<and> get_area n = Some area \<and> iounmap v = [Vunmap area]
          \<and> (if unat sz + unat (addr AND NOT PAGE_MASK) + 4095 < 2 ^ 32
             then \<forall>k < unat sz. area \<le> v + of_nat k \<and> v + of_nat k < area + n \<and> base + (v + of_nat k - area) = addr + of_nat k
             else n = 0 \<and> base = 0)))
    \<and> (\<forall>calls. ioremap_caller get_area fails addr sz = (None, calls) \<longrightarrow>
        calls = [] \<or> (\<exists>area n base. calls = [Map_range area (area + n) base, Free_area area] \<and> get_area n = Some area))"
proof (intro conjI allI impI)
  show "ioremap_caller get_area fails addr sz = (None, [])" if "sz = 0 \<or> 2 ^ 32 < unat addr + unat sz"
    using that ioremap_guard [of sz addr] by (auto simp: ioremap_caller_def Let_def)
next
  fix v calls assume r: "ioremap_caller get_area fails addr sz = (Some v, calls)"
  show "\<exists>area n base. calls = [Map_range area (area + n) base] \<and> get_area n = Some area \<and> iounmap v = [Vunmap area]
      \<and> (if unat sz + unat (addr AND NOT PAGE_MASK) + 4095 < 2 ^ 32
         then \<forall>k < unat sz. area \<le> v + of_nat k \<and> v + of_nat k < area + n \<and> base + (v + of_nat k - area) = addr + of_nat k
         else n = 0 \<and> base = 0)"
    by (rule ioremap_mapped [OF r]) (use assms in blast)
qed (auto simp: ioremap_caller_def Let_def split: if_splits option.splits)

theorem ioremap_maps_witness:
  "iounmap 0xC0000100 = [Vunmap 0xC0000000]
    \<and> ioremap_caller (\<lambda>n. if n = 0x1000 then Some 0xC0000000 else None) (\<lambda>_ _ _. False) 0xFFFFF000 0x1001 = (None, [])"
proof -
  let ?get = "\<lambda>n. if n = (0x1000 :: u32) then Some (0xC0000000 :: u32) else None"
  have r: "ioremap_caller ?get (\<lambda>_ _ _. False) 0x40000100 0x20 = (Some 0xC0000100, [Map_range 0xC0000000 0xC0001000 0x40000000])"
    by (simp add: ioremap_caller_def PAGE_MASK_def PAGE_UP_def PAGE_SIZE_def PAGE_SHIFT_def push_bit_eq_mult)
  have get: "area AND NOT PAGE_MASK = 0 \<and> unat area + unat n < 2 ^ 32" if "?get n = Some area" for n area
    using that by (auto simp: PAGE_MASK_def PAGE_SIZE_def PAGE_SHIFT_def push_bit_eq_mult split: if_splits)
  note maps = ioremap_maps [of ?get, OF get]
  have "2 ^ 32 < unat (0xFFFFF000 :: u32) + unat (0x1001 :: u32)" by simp
  then have "ioremap_caller ?get (\<lambda>_ _ _. False) 0xFFFFF000 0x1001 = (None, [])"
    using conjunct1 [OF maps] by blast
  moreover have "\<forall>v calls. ioremap_caller ?get (\<lambda>_ _ _. False) 0x40000100 0x20 = (Some v, calls) \<longrightarrow>
      (\<exists>area n base. calls = [Map_range area (area + n) base] \<and> iounmap v = [Vunmap area])"
    using maps by blast
  from this [rule_format, OF r] have "iounmap 0xC0000100 = [Vunmap 0xC0000000]" by auto
  ultimately show ?thesis by blast
qed

text \<open>A size close to the whole address space wraps when it is rounded: an area of no bytes is mapped.\<close>

lemma ioremap_wraps:
  "ioremap_caller (\<lambda>n. if n = 0 then Some area else None) (\<lambda>_ _ _. False) 0 0xFFFFFFFF = (Some area, [Map_range area area 0])"
  by (simp add: ioremap_caller_def PAGE_MASK_def PAGE_UP_def PAGE_SIZE_def PAGE_SHIFT_def push_bit_eq_mult)

text \<open>
  The vDSO: after \<^verbatim>\<open>vdso_init\<close> a new program gets the pages of the image and then the data
  page, one behind the other, in a mapping of exactly their number, and the context knows the
  address; when there is no room or the mapping fails, the error is returned and no address stays
  in a new context. On every path \<^verbatim>\<open>mmap_sem\<close> is taken first and released last.
\<close>

theorem vdso_mapped:
  assumes "vdso_init ENOMEM virt_to_page start stop data True st = (err, pgs, st')"
    and "signed_drop_bit PAGE_SHIFT (stop - start) = of_nat n" and "n < 2 ^ 20 - 1"
    and "arch_setup_additional_pages get_area install st' 0 = (ret, events, vdso)"
  shows "err = 0 \<and> (\<exists>mid. events = [Down_write] @ mid @ [Up_write] \<and>
    (case get_area (of_nat ((n + 1) * 4096)) of
       Inl e \<Rightarrow> ret = e \<and> mid = [] \<and> vdso = 0
     | Inr base \<Rightarrow> \<exists>l. mid = [Install base (of_nat ((n + 1) * 4096)) (Some l)] \<and> length l = n + 1
         \<and> (\<forall>i < n. l ! i = virt_to_page (start + of_nat (i * 4096))) \<and> l ! n = virt_to_page data
         \<and> ret = install base (of_nat ((n + 1) * 4096)) (Some l) \<and> vdso = (if ret = 0 then base else 0)))"
proof -
  have page: "push_bit PAGE_SHIFT (of_nat i) = (of_nat (i * 4096) :: u32)" for i
    by (simp add: push_bit_eq_mult PAGE_SHIFT_def)
  have "unat (of_nat n :: u32) = n" using assms(3) by (simp add: unat_of_nat)
  then have st': "err = 0" "vdso_pages st' = of_nat n"
    "vdso_pagelist st' = Some (map (\<lambda>i. virt_to_page (start + of_nat (i * 4096))) [0..<n] @ [virt_to_page data])"
    using assms(1,2) by (auto simp: vdso_init_def Let_def page)
  have len: "push_bit PAGE_SHIFT (vdso_pages st' + 1) = of_nat ((n + 1) * 4096)"
    using page [of "n + 1"] by (simp add: st'(2) add.commute)
  show ?thesis
    using assms(4) st'(1) unfolding arch_setup_additional_pages_def len st'(3) Let_def
    by (auto simp: nth_append split: sum.splits)
qed

theorem vdso_mapped_witness:
  "\<exists>mid. snd (snd (vdso_init 12 (drop_bit 12) 0x80002000 0x80003000 0x80004000 True \<lparr>vdso_pages = 0, vdso_pagelist = None\<rparr>))
      = \<lparr>vdso_pages = 1, vdso_pagelist = Some [0x80002, 0x80004]\<rparr>
    \<and> fst (snd (arch_setup_additional_pages (\<lambda>_. Inr 0x40000000) (\<lambda>_ _ _. 0) \<lparr>vdso_pages = 1, vdso_pagelist = Some [0x80002, 0x80004]\<rparr> 0))
      = [Down_write] @ mid @ [Up_write]"
proof -
  have i: "vdso_init 12 (drop_bit 12) 0x80002000 0x80003000 0x80004000 True \<lparr>vdso_pages = 0, vdso_pagelist = None\<rparr> =
      (0, [0x80002], \<lparr>vdso_pages = 1, vdso_pagelist = Some [0x80002, 0x80004]\<rparr>)"
    by (simp add: vdso_init_def PAGE_SHIFT_def Let_def signed_drop_bit_word_numeral drop_bit_eq_div)
  let ?st = "\<lparr>vdso_pages = 1, vdso_pagelist = Some [0x80002, 0x80004]\<rparr>"
  let ?r = "arch_setup_additional_pages (\<lambda>_. Inr 0x40000000) (\<lambda>_ _ _. 0) ?st 0"
  have r: "?r = (fst ?r, fst (snd ?r), snd (snd ?r))" by simp
  have n: "signed_drop_bit PAGE_SHIFT (0x80003000 - 0x80002000 :: u32) = of_nat 1"
    by (simp add: PAGE_SHIFT_def signed_drop_bit_word_numeral)
  have "\<exists>mid. fst (snd ?r) = [Down_write] @ mid @ [Up_write]"
    using vdso_mapped [OF i n _ r] by auto
  then show ?thesis using i by simp
qed

text \<open>
  A hart never uses a translation of another address space: however it walks the page tables,
  flushes and changes the address space, every translation it has cached comes from the directory
  of the current one, which is the one in \<^verbatim>\<open>sptbr\<close>.
\<close>

theorem tlb_coherent:
  assumes "sptbr h = virt_to_pfn L mm" and "cached h = {}" and "(mmu_step L)\<^sup>*\<^sup>* (mm, h) (mm', h')"
  shows "sptbr h' = virt_to_pfn L mm' \<and> (\<forall>(root, a, p) \<in> cached h'. root = virt_to_pfn L mm')"
  using mmu.reachable_inv [OF _ assms(3)] assms(1,2) by (simp add: mmu_inv_def)

definition kernel_layout :: "u32 mem_layout" where
  "kernel_layout = \<lparr>va_pa_offset = 0x40000000, pfn_base = 0x80000, max_mapnr = 0x10000\<rparr>"

theorem tlb_coherent_witness:
  "\<exists>h'. (mmu_step kernel_layout)\<^sup>*\<^sup>* (0xC0001000, \<lparr>sptbr = 0x80001, cached = {}\<rparr>) (0xC0002000, h')
    \<and> sptbr h' = virt_to_pfn kernel_layout 0xC0002000"
proof -
  have step: "(mmu_step kernel_layout)\<^sup>*\<^sup>* (0xC0001000, \<lparr>sptbr = 0x80001, cached = {}\<rparr>)
      (0xC0002000, switch_mm kernel_layout 0xC0001000 0xC0002000 \<lparr>sptbr = 0x80001, cached = {}\<rparr>)"
    by (rule r_into_rtranclp, rule change)
  have root: "virt_to_pfn kernel_layout 0xC0001000 = 0x80001"
    by (simp add: virt_to_pfn_def phys_to_pfn_def pa_def kernel_layout_def PAGE_SHIFT_def drop_bit_eq_div)
  show ?thesis using tlb_coherent [OF _ _ step] step root by auto
qed

end
