(* ===== verification/Radix.thy ===== *)
theory Radix
  imports Prelude
begin

text \<open>
  Trees of page tables in memory, whatever the number of levels and the format of the entries: a
  locale whose laws both formats of the port fulfil, with the effect of a write of a leaf entry and
  of the entry of a new table on the function from addresses to entries that the tree stands for.
\<close>

section \<open>Entries and indices\<close>

lemma page_and_offset:
  fixes p x :: "'w::len word"
  assumes "take_bit k p = 0" and "unat x < 2 ^ k"
  shows "take_bit k (p + x) = x" and "p + x = p OR x"
proof -
  have x: "take_bit k x = x" using assms(2) by (simp add: word_unat_eq_iff unat_take_bit_word)
  have p: "\<not> bit p i" if "i < k" for i
    using assms(1) that by (metis bit_take_bit_iff bit_0_eq bot_apply bot_bool_def)
  have hi: "\<not> bit x i" if "k \<le> i" for i using x that by (metis bit_take_bit_iff not_le)
  show sum: "p + x = p OR x"
    using p hi by (intro disjunctive_add) (metis not_le)
  show "take_bit k (p + x) = x"
    unfolding sum using p hi by (intro bit_word_eqI) (auto simp: bit_simps; metis not_le)
qed

text \<open>Tables of \<open>2 ^ k\<close> entries of \<open>e\<close> bytes fill a page, so that two entries meet in one table only.\<close>

lemma same_entry:
  fixes p q i j :: "'w::len word"
  assumes "take_bit 12 p = 0" "take_bit 12 q = 0" and "e * 2 ^ k = 4096" "12 < LENGTH('w)"
  shows "p + of_nat e * (i AND mask k) = q + of_nat e * (j AND mask k) \<longleftrightarrow> p = q \<and> i AND mask k = j AND mask k"
proof
  have pos: "0 < e" "k < LENGTH('w)"
  proof -
    show "0 < e" using assms(3) by (cases e) simp_all
    have "(2 :: nat) ^ k \<le> 2 ^ 12" using assms(3) \<open>0 < e\<close> by (cases e) simp_all
    then have "k \<le> 12" by (rule power_le_imp_le_exp [rotated]) simp
    then show "k < LENGTH('w)" using assms(4) by simp
  qed
  have big: "(4096 :: nat) < 2 ^ LENGTH('w)"
    using power_strict_increasing [OF assms(4), of "2 :: nat"] by simp
  have small: "unat (of_nat e * (x AND mask k)) = e * unat (x AND mask k)"
      "unat (of_nat e * (x AND mask k)) < 2 ^ 12" for x :: "'w word"
  proof -
    have "unat (x AND mask k) < 2 ^ k" unfolding unat_and_mask_word using pos(2) by simp
    then have "e * unat (x AND mask k) < e * 2 ^ k" using pos(1) by simp
    moreover have "e < 2 ^ LENGTH('w)"
      using big assms(3) by (metis dvd_imp_le dvd_triv_left le_less_trans zero_less_numeral)
    ultimately show "unat (of_nat e * (x AND mask k)) = e * unat (x AND mask k)"
        "unat (of_nat e * (x AND mask k)) < 2 ^ 12"
      using big assms(3) by (simp_all add: unat_mult_word unat_of_nat)
  qed
  assume e: "p + of_nat e * (i AND mask k) = q + of_nat e * (j AND mask k)"
  have "of_nat e * (i AND mask k) = of_nat e * (j AND mask k)"
    using page_and_offset(1) [OF assms(1) small(2), of i] page_and_offset(1) [OF assms(2) small(2), of j] e by simp
  moreover from this have "p = q" using e by simp
  moreover have "e * unat (i AND mask k) = e * unat (j AND mask k)" using calculation(1) small(1) by metis
  ultimately show "p = q \<and> i AND mask k = j AND mask k" using pos(1) by (simp add: word_unat_eq_iff)
qed simp

lemma join_index:
  fixes a b :: "'w::len word"
  shows "drop_bit s a AND mask (k + l) = drop_bit s b AND mask (k + l) \<longleftrightarrow>
    drop_bit (s + l) a AND mask k = drop_bit (s + l) b AND mask k \<and> drop_bit s a AND mask l = drop_bit s b AND mask l"
    (is "?both \<longleftrightarrow> ?high \<and> ?low")
proof
  have bits: "(drop_bit s a AND mask k = drop_bit s b AND mask k) \<longleftrightarrow> (\<forall>n < k. bit a (s + n) \<longleftrightarrow> bit b (s + n))"
    for s k
  proof -
    have part: "bit (drop_bit s x AND mask k) n \<longleftrightarrow> n < k \<and> bit x (s + n)" for x :: "'w word" and n
      using bit_imp_le_length [of x "s + n"] by (auto simp: bit_simps)
    show ?thesis
    proof
      assume "drop_bit s a AND mask k = drop_bit s b AND mask k"
      then show "\<forall>n < k. bit a (s + n) \<longleftrightarrow> bit b (s + n)" using part by metis
    qed (intro bit_word_eqI, auto simp: part)
  qed
  show "?high \<and> ?low" if ?both
  proof -
    have all: "bit a (s + n) \<longleftrightarrow> bit b (s + n)" if "n < k + l" for n
      using \<open>?both\<close> that unfolding bits by blast
    have "bit a (s + l + n) \<longleftrightarrow> bit b (s + l + n)" if "n < k" for n
      using all [of "l + n"] that by (simp add: add.assoc)
    then show ?thesis unfolding bits using all by simp
  qed
  show ?both if "?high \<and> ?low"
    unfolding bits
  proof (intro allI impI)
    fix n assume n: "n < k + l"
    show "bit a (s + n) \<longleftrightarrow> bit b (s + n)"
    proof (cases "n < l")
      case True
      then show ?thesis using that unfolding bits by blast
    next
      case False
      then have "n - l < k" "s + l + (n - l) = s + n" using n by simp_all
      then show ?thesis using that unfolding bits by metis
    qed
  qed
qed

section \<open>Trees\<close>

text \<open>
  \<open>entry_slot p i a\<close> is the address of the entry for \<open>a\<close> in a table of level \<open>i\<close> at \<open>p\<close>; the root
  has level 0.
\<close>

record ('p, 'v) radix_format =
  entry_slot :: "'p \<Rightarrow> nat \<Rightarrow> 'v \<Rightarrow> 'p"
  entry_present :: "'p \<Rightarrow> bool"
  entry_table :: "'p \<Rightarrow> 'p"

primrec table_of :: "('p, 'v) radix_format \<Rightarrow> ('p \<Rightarrow> 'p) \<Rightarrow> 'p \<Rightarrow> nat \<Rightarrow> 'v \<Rightarrow> 'p option" where
  "table_of R m root 0 a = Some root"
| "table_of R m root (Suc i) a =
    (case table_of R m root i a of
       None \<Rightarrow> None
     | Some p \<Rightarrow> let e = m (entry_slot R p i a) in if entry_present R e then Some (entry_table R e) else None)"

definition leaf_of :: "('p, 'v) radix_format \<Rightarrow> nat \<Rightarrow> ('p \<Rightarrow> 'p) \<Rightarrow> 'p \<Rightarrow> 'v \<Rightarrow> 'p option" where
  "leaf_of R n m root a =
    (case table_of R m root n a of
       None \<Rightarrow> None
     | Some p \<Rightarrow> let e = m (entry_slot R p n a) in if entry_present R e then Some e else None)"

text \<open>No page is the table of two places in the tree; \<open>key i a\<close> is the part of \<open>a\<close> above level \<open>i\<close>.\<close>

definition tree_ok ::
    "('p, 'v) radix_format \<Rightarrow> (nat \<Rightarrow> 'v \<Rightarrow> 'k) \<Rightarrow> nat \<Rightarrow> ('p \<Rightarrow> 'p) \<Rightarrow> 'p \<Rightarrow> bool" where
  "tree_ok R key n m root \<longleftrightarrow>
    (\<forall>i j a b p. i \<le> n \<and> j \<le> n \<and> table_of R m root i a = Some p \<and> table_of R m root j b = Some p
       \<longrightarrow> i = j \<and> key i a = key j b)"

section \<open>The contract of a format\<close>

locale radix =
  fixes R :: "('p, 'v) radix_format" and aligned :: "'p \<Rightarrow> bool" and key :: "nat \<Rightarrow> 'v \<Rightarrow> 'k"
    and idx :: "nat \<Rightarrow> 'v \<Rightarrow> 'p" and n :: nat
  assumes slot_page: "aligned p \<Longrightarrow> aligned q \<Longrightarrow> entry_slot R p i a = entry_slot R q j b
      \<Longrightarrow> p = q \<and> (i = j \<longrightarrow> idx i a = idx i b)"
    and slot_idx: "idx i a = idx i b \<Longrightarrow> entry_slot R p i a = entry_slot R p i b"
    and key_0: "key 0 a = key 0 b"
    and key_Suc: "i \<le> n \<Longrightarrow> key (Suc i) a = key (Suc i) b \<longleftrightarrow> key i a = key i b \<and> idx i a = idx i b"
    and aligned_table: "aligned p \<Longrightarrow> aligned (entry_table R e)"
begin

lemma tables_aligned: "aligned root \<Longrightarrow> table_of R m root i a = Some p \<Longrightarrow> aligned p"
  by (induction i arbitrary: p) (auto simp: Let_def aligned_table split: option.splits if_splits)

lemma table_key: "i \<le> Suc n \<Longrightarrow> key i a = key i b \<Longrightarrow> table_of R m root i a = table_of R m root i b"
proof (induction i)
  case (Suc i)
  then have "key i a = key i b" "idx i a = idx i b" using key_Suc [of i a b] by simp_all
  then show ?case using Suc slot_idx [of i a b] by (auto split: option.split)
qed simp

lemma slots_meet:
  assumes "tree_ok R key n m root" "aligned root" "i \<le> n" "j \<le> n"
    and "table_of R m root i a = Some p" "table_of R m root j b = Some q"
    and "entry_slot R p i a = entry_slot R q j b"
  shows "i = j \<and> key (Suc i) a = key (Suc i) b"
proof -
  have al: "aligned p" "aligned q" using tables_aligned assms(2,5,6) by blast+
  have "p = q" using slot_page [OF al assms(7)] by simp
  then have "i = j" "key i a = key j b" using assms(1,3-6) unfolding tree_ok_def by blast+
  then show ?thesis using slot_page [OF al assms(7)] key_Suc [OF assms(3)] by simp
qed

text \<open>A write of an entry of a leaf table.\<close>

lemma leaf_keeps_tables:
  assumes "tree_ok R key n m root" "aligned root" "table_of R m root n a = Some p" "j \<le> n"
  shows "table_of R (m(entry_slot R p n a := v)) root j b = table_of R m root j b"
  using assms(4)
proof (induction j)
  case (Suc j)
  have "entry_slot R q j b \<noteq> entry_slot R p n a" if "table_of R m root j b = Some q" for q
    using slots_meet [OF assms(1,2) _ _ that assms(3)] Suc.prems by auto
  then show ?case using Suc by (auto simp: Let_def split: option.splits)
qed simp

lemma leaf_write:
  assumes "tree_ok R key n m root" "aligned root" "table_of R m root n a = Some p"
  shows "leaf_of R n (m(entry_slot R p n a := v)) root b =
    (if key (Suc n) b = key (Suc n) a then if entry_present R v then Some v else None
     else leaf_of R n m root b)"
    and "tree_ok R key n (m(entry_slot R p n a := v)) root"
proof -
  let ?m = "m(entry_slot R p n a := v)"
  note tables = leaf_keeps_tables [OF assms(1-3), of _ v]
  show "tree_ok R key n ?m root" using assms(1) by (simp add: tree_ok_def tables cong: conj_cong)
  show "leaf_of R n ?m root b =
    (if key (Suc n) b = key (Suc n) a then if entry_present R v then Some v else None else leaf_of R n m root b)"
  proof (cases "key (Suc n) b = key (Suc n) a")
    case True
    then have k: "key n b = key n a" "idx n b = idx n a" using key_Suc [of n b a] by simp_all
    have "table_of R m root n b = Some p" using table_key [OF _ k(1)] assms(3) by simp
    then show ?thesis using True slot_idx [OF k(2)] by (simp add: leaf_of_def tables)
  next
    case False
    have "entry_slot R q n b \<noteq> entry_slot R p n a" if "table_of R m root n b = Some q" for q
      using slots_meet [OF assms(1,2) _ _ that assms(3)] False by auto
    then show ?thesis using False by (auto simp: leaf_of_def tables Let_def split: option.splits)
  qed
qed

end

text \<open>
  The entry of a new table: a page of absent entries that is no table yet, entered where there was
  none.
\<close>

definition new_table :: "('p, 'v) radix_format \<Rightarrow> ('p \<Rightarrow> bool) \<Rightarrow> nat \<Rightarrow> ('p \<Rightarrow> 'p) \<Rightarrow> 'p \<Rightarrow> 'p \<Rightarrow> bool" where
  "new_table R aligned n m root page \<longleftrightarrow> aligned page
    \<and> (\<forall>j b. j \<le> n \<longrightarrow> table_of R m root j b \<noteq> Some page) \<and> (\<forall>j b. \<not> entry_present R (m (entry_slot R page j b)))"

context radix begin

lemma new_table_tables:
  assumes "tree_ok R key n m root" "aligned root" "table_of R m root i a = Some p" "i < n"
    and "\<not> entry_present R (m (entry_slot R p i a))" and "new_table R aligned n m root page"
    and "entry_present R v" "entry_table R v = page" and "j \<le> n"
  defines "m' \<equiv> m(entry_slot R p i a := v)"
  shows "j \<le> i \<or> key (Suc i) b \<noteq> key (Suc i) a \<Longrightarrow> table_of R m' root j b = table_of R m root j b"
    and "i < j \<Longrightarrow> key (Suc i) b = key (Suc i) a \<Longrightarrow>
      table_of R m root j b = None \<and> table_of R m' root j b = (if j = Suc i then Some page else None)"
proof -
  have upper: "table_of R m' root j b = table_of R m root j b"
    if "j \<le> n" "j \<le> i \<or> key (Suc i) b \<noteq> key (Suc i) a" for j b
    using that
  proof (induction j)
    case (Suc j)
    have "m' (entry_slot R q j b) = m (entry_slot R q j b)" if "table_of R m root j b = Some q" for q
      using slots_meet [OF assms(1,2) _ _ that assms(3)] Suc.prems assms(4) by (auto simp: m'_def)
    moreover have "table_of R m' root j b = table_of R m root j b" using Suc by auto
    ultimately show ?case by (cases "table_of R m root j b") auto
  qed simp
  have other: "m' (entry_slot R page j b) = m (entry_slot R page j b)" for j b
    using assms(3,4,6) slot_page [of page p j b i a] tables_aligned [OF assms(2,3)]
    by (auto simp: m'_def new_table_def)
  have lower: "table_of R m root j b = None \<and> table_of R m' root j b = (if j = Suc i then Some page else None)"
    if "Suc i \<le> j" "key (Suc i) b = key (Suc i) a" for j b
    using that(1)
  proof (induction j rule: dec_induct)
    case base
    have k: "key i b = key i a" "idx i b = idx i a" using that(2) key_Suc [of i b a] assms(4) by simp_all
    have "table_of R m root i b = Some p" using table_key [OF _ k(1)] assms(3,4) by simp
    moreover have "table_of R m' root i b = table_of R m root i b" using upper assms(4) by simp
    moreover have "m' (entry_slot R p i b) = v" "\<not> entry_present R (m (entry_slot R p i b))"
      using assms(5) slot_idx [OF k(2)] by (simp_all add: m'_def)
    ultimately show ?case using assms(7,8) by simp
  next
    case (step j)
    then show ?case using other [of j b] assms(6) by (auto simp: new_table_def)
  qed
  show "j \<le> i \<or> key (Suc i) b \<noteq> key (Suc i) a \<Longrightarrow> table_of R m' root j b = table_of R m root j b"
    using upper assms(9) by blast
  show "i < j \<Longrightarrow> key (Suc i) b = key (Suc i) a \<Longrightarrow>
      table_of R m root j b = None \<and> table_of R m' root j b = (if j = Suc i then Some page else None)"
    using lower by simp
qed

lemma new_table_maps_nothing:
  assumes "tree_ok R key n m root" "aligned root" "table_of R m root i a = Some p" "i < n"
    and "\<not> entry_present R (m (entry_slot R p i a))" and "new_table R aligned n m root page"
    and "entry_present R v" "entry_table R v = page"
  defines "m' \<equiv> m(entry_slot R p i a := v)"
  shows "leaf_of R n m' root b = leaf_of R n m root b" and "tree_ok R key n m' root"
    and "table_of R m' root (Suc i) a = Some page"
proof -
  note tables = new_table_tables [OF assms(1-8), folded m'_def]
  have p: "p \<noteq> page" "aligned p" "aligned page"
    using assms(3,4,6) tables_aligned [OF assms(2,3)] by (auto simp: new_table_def)
  show "table_of R m' root (Suc i) a = Some page" using tables(2) [of "Suc i" a] assms(4) by simp
  show "leaf_of R n m' root b = leaf_of R n m root b"
  proof (cases "key (Suc i) b = key (Suc i) a")
    case True
    have "m' (entry_slot R page n b) = m (entry_slot R page n b)"
      using slot_page [OF p(3,2), of n b i a] p(1) by (auto simp: m'_def)
    then show ?thesis using tables(2) [OF _ assms(4) True] assms(6) by (auto simp: leaf_of_def new_table_def Let_def)
  next
    case False
    have t: "table_of R m' root n b = table_of R m root n b" using tables(1) False by simp
    have "m' (entry_slot R q n b) = m (entry_slot R q n b)" if "table_of R m root n b = Some q" for q
      using slots_meet [OF assms(1,2) _ _ that assms(3)] assms(4) by (auto simp: m'_def)
    then show ?thesis by (auto simp: leaf_of_def t split: option.split)
  qed
  have old: "table_of R m' root j b = Some q \<Longrightarrow> q \<noteq> page \<Longrightarrow> j \<le> n \<Longrightarrow> table_of R m root j b = Some q" for j b q
    using tables [of j b] by (cases "j \<le> i \<or> key (Suc i) b \<noteq> key (Suc i) a") (auto split: if_splits)
  have new: "j = Suc i \<and> key (Suc i) b = key (Suc i) a" if "table_of R m' root j b = Some page" "j \<le> n" for j b
  proof -
    have "\<not> (j \<le> i \<or> key (Suc i) b \<noteq> key (Suc i) a)"
      using tables(1) [OF that(2)] that assms(6) unfolding new_table_def by force
    then show ?thesis using tables(2) [OF that(2)] that(1) by (auto split: if_splits)
  qed
  show "tree_ok R key n m' root"
    unfolding tree_ok_def
  proof (intro allI impI)
    fix j k a' b q
    assume h: "j \<le> n \<and> k \<le> n \<and> table_of R m' root j a' = Some q \<and> table_of R m' root k b = Some q"
    show "j = k \<and> key j a' = key k b"
    proof (cases "q = page")
      case True
      then show ?thesis using h new [of j a'] new [of k b] by auto
    next
      case False
      then show ?thesis using h old [of j a' q] old [of k b q] assms(1) unfolding tree_ok_def by blast
    qed
  qed
qed

end

declare table_of.simps(2) [simp del]

end
