(* ===== verification/PageWalk.thy ===== *)
theory PageWalk
  imports MemMaps Radix
begin

text \<open>
  Page tables in memory, on the 32-bit machine with its two levels: the operations of
  \<^verbatim>\<open>asm/pgtable.h\<close> and \<^verbatim>\<open>asm/pgalloc.h\<close> that read and write table entries, as a whole, against
  the partial function from addresses to entries that the tables stand for.
\<close>

section \<open>Operations\<close>

text \<open>Memory is a function from the addresses of words to words, of 32 bits on this machine.\<close>

type_synonym words = "u32 \<Rightarrow> u32"

definition set_pte :: "'w::len word \<Rightarrow> 'w word pte_t \<Rightarrow> ('w word \<Rightarrow> 'w word) \<Rightarrow> 'w word \<Rightarrow> 'w word" where
  "set_pte ptep pteval m = m(ptep := pte_val pteval)"

definition set_pte_at :: "'w::len word \<Rightarrow> 'w word pte_t \<Rightarrow> ('w word \<Rightarrow> 'w word) \<Rightarrow> 'w word \<Rightarrow> 'w word" where
  "set_pte_at ptep pteval m = set_pte ptep pteval m"

definition pte_clear :: "'w::len word \<Rightarrow> ('w word \<Rightarrow> 'w word) \<Rightarrow> 'w word \<Rightarrow> 'w word" where
  "pte_clear ptep m = set_pte_at ptep (Pte 0) m"

definition set_pmd :: "'w::len word \<Rightarrow> 'w word pmd_t \<Rightarrow> ('w word \<Rightarrow> 'w word) \<Rightarrow> 'w word \<Rightarrow> 'w word" where
  "set_pmd pmdp pmd m = m(pmdp := pmd_val pmd)"

definition pmd_clear :: "'w::len word \<Rightarrow> ('w word \<Rightarrow> 'w word) \<Rightarrow> 'w word \<Rightarrow> 'w word" where
  "pmd_clear pmdp m = set_pmd pmdp (Pmd 0) m"

text \<open>Pointer arithmetic is scaled by the size of an entry.\<close>

definition pgd_offset :: "'w::len word \<Rightarrow> 'w word \<Rightarrow> 'w word" where
  "pgd_offset pgd addr = pgd + of_nat (LENGTH('w) div 8) * pgd_index addr"

definition pmd_populate ::
    "'w::len word mem_layout \<Rightarrow> 'w word \<Rightarrow> 'w word \<Rightarrow> ('w word \<Rightarrow> 'w word) \<Rightarrow> 'w word \<Rightarrow> 'w word" where
  "pmd_populate L pmdp pte m =
    (let pfn = virt_to_pfn L pte in set_pmd pmdp (Pmd (push_bit PAGE_PFN_SHIFT pfn OR PAGE_TABLE)) m)"

text \<open>
  \<^verbatim>\<open>reserve_boot_page_table\<close> gives the pages it reserves. It recurses as deep as the tables go,
  which the first argument bounds.
\<close>

primrec reserve_boot_page_table :: "nat \<Rightarrow> u32 mem_layout \<Rightarrow> words \<Rightarrow> u32 \<Rightarrow> u32 list option" where
  "reserve_boot_page_table 0 L m table = None"
| "reserve_boot_page_table (Suc depth) L m table =
    map_option (\<lambda>rs. pa L table # concat rs)
      (those (map (\<lambda>i. let pte = Pte (m (table + 4 * of_nat i))
                       in if pte_present pte \<and> \<not> pte_huge pte
                          then reserve_boot_page_table depth L m (pfn_to_virt L (pte_pfn pte)) else Some [])
        [0..<1024]))"

section \<open>What the tables stand for\<close>

definition pmd_at :: "words \<Rightarrow> u32 \<Rightarrow> u32 \<Rightarrow> u32 pmd_t" where
  "pmd_at m pgd addr = Pmd (m (pgd_offset pgd addr))"

definition table_at :: "u32 mem_layout \<Rightarrow> words \<Rightarrow> u32 \<Rightarrow> u32 \<Rightarrow> u32" where
  "table_at L m pgd addr = pmd_page_vaddr L (pmd_at m pgd addr)"

definition walk_tables :: "u32 mem_layout \<Rightarrow> words \<Rightarrow> u32 \<Rightarrow> u32 \<Rightarrow> u32 pte_t option" where
  "walk_tables L m pgd addr =
    (let pmd = pmd_at m pgd addr
     in if pmd_none pmd \<or> pmd_bad pmd then None
        else let pte = Pte (m (pte_offset_kernel L pmd addr)) in if pte_present pte then Some pte else None)"

text \<open>Tables are pages of their own: no two entries of the directory share one, and none is the directory.\<close>

definition tables_ok :: "u32 mem_layout \<Rightarrow> words \<Rightarrow> u32 \<Rightarrow> bool" where
  "tables_ok L m pgd \<longleftrightarrow> va_pa_offset L AND NOT PAGE_MASK = 0 \<and> pgd AND NOT PAGE_MASK = 0
    \<and> (\<forall>a. pmd_present (pmd_at m pgd a) \<longrightarrow> table_at L m pgd a \<noteq> pgd)
    \<and> (\<forall>a b. pmd_present (pmd_at m pgd a) \<and> pmd_present (pmd_at m pgd b) \<and> pgd_index a \<noteq> pgd_index b
        \<longrightarrow> table_at L m pgd a \<noteq> table_at L m pgd b)"

section \<open>Slots\<close>

lemma index_mask: "pgd_index (a :: u32) = drop_bit 22 a AND mask 10" "pte_index (a :: u32) = drop_bit 12 a AND mask 10"
  by (simp_all add: pgd_index_def pte_index_def layout32 PGDIR_SHIFT_def PAGE_SHIFT_def mask_eq_exp_minus_1)

lemma page_aligned: "x AND NOT PAGE_MASK = 0 \<longleftrightarrow> take_bit 12 (x :: 'w::len word) = 0"
  by (simp add: PAGE_MASK_def PAGE_SIZE_def PAGE_SHIFT_def take_bit_eq_mask mask_eq_exp_minus_1 push_bit_eq_mult)

lemma same_slot:
  assumes "b AND NOT PAGE_MASK = (0 :: u32)" "c AND NOT PAGE_MASK = 0"
  shows "b + 4 * (i AND mask 10) = c + 4 * (j AND mask 10) \<longleftrightarrow> b = c \<and> i AND mask 10 = j AND mask 10"
  using same_entry [of b c 4 10 i j] assms by (simp add: page_aligned)

lemma same_page: "pgd_index a = pgd_index b \<and> pte_index a = pte_index b \<longleftrightarrow> drop_bit 12 a = drop_bit 12 (b :: u32)"
proof -
  have "drop_bit 12 x AND mask (10 + 10) = drop_bit 12 x" for x :: u32
    by (rule bit_word_eqI) (auto simp: bit_simps dest: bit_imp_le_length)
  then show ?thesis using join_index [of 12 a 10 10 b] by (simp add: index_mask)
qed

lemma take_bit_add_0:
  fixes a b :: "'w::len word"
  assumes "take_bit 12 b = 0" and "12 \<le> LENGTH('w)"
  shows "take_bit 12 (a + b) = take_bit 12 a"
proof -
  have b: "unat b mod 2 ^ 12 = 0" using assms(1) unat_take_bit_word [of 12 b] by simp
  have "unat (take_bit 12 (a + b)) = (unat a + unat b) mod 2 ^ LENGTH('w) mod 2 ^ 12"
    by (simp only: unat_take_bit_word unat_add_word)
  also have "\<dots> = (unat a + unat b) mod 2 ^ 12"
    by (rule mod_mod_cancel) (rule le_imp_power_dvd [OF assms(2)])
  also have "\<dots> = unat a mod 2 ^ 12" using b by (metis add.right_neutral mod_add_right_eq)
  finally show ?thesis by (simp only: word_unat_eq_iff unat_take_bit_word)
qed

lemma table_aligned:
  fixes pmd :: "'w::len word pmd_t"
  assumes "va_pa_offset L AND NOT PAGE_MASK = 0" and "12 \<le> LENGTH('w)"
  shows "pmd_page_vaddr L pmd AND NOT PAGE_MASK = 0"
proof -
  have "take_bit 12 (push_bit 12 x) = 0" for x :: "'w word" by (rule bit_word_eqI) (simp add: bit_simps)
  then show ?thesis
    using assms by (simp add: page_aligned take_bit_add_0 pmd_page_vaddr_def pfn_to_virt_def
        pfn_to_phys_def va_def PAGE_SHIFT_def)
qed

section \<open>The tables as a tree\<close>

definition sv32_index :: "nat \<Rightarrow> u32 \<Rightarrow> u32" where
  "sv32_index i a = (if i = 0 then pgd_index a else pte_index a)"

definition sv32_key :: "nat \<Rightarrow> u32 \<Rightarrow> u32" where
  "sv32_key i a = (if i = 0 then 0 else if i = 1 then pgd_index a else drop_bit 12 a)"

definition sv32 :: "u32 mem_layout \<Rightarrow> (u32, u32) radix_format" where
  "sv32 L = \<lparr>entry_slot = \<lambda>p i a. p + 4 * sv32_index i a, entry_present = \<lambda>e. pmd_present (Pmd e),
     entry_table = \<lambda>e. pmd_page_vaddr L (Pmd e)\<rparr>"

interpretation sv32: radix "sv32 L" "\<lambda>p. p AND NOT PAGE_MASK = 0 \<and> va_pa_offset L AND NOT PAGE_MASK = 0" sv32_key
    sv32_index 1 for L
proof unfold_locales
  fix p q :: u32 and i j :: nat and a b :: u32
  assume "p AND NOT PAGE_MASK = 0 \<and> va_pa_offset L AND NOT PAGE_MASK = 0"
    "q AND NOT PAGE_MASK = 0 \<and> va_pa_offset L AND NOT PAGE_MASK = 0"
    "entry_slot (sv32 L) p i a = entry_slot (sv32 L) q j b"
  then show "p = q \<and> (i = j \<longrightarrow> sv32_index i a = sv32_index i b)"
    using same_slot [of p q] by (auto simp: sv32_def sv32_index_def index_mask split: if_splits)
qed (auto simp: sv32_def sv32_index_def sv32_key_def same_page table_aligned)

lemma sv32_format [simp]:
  "entry_slot (sv32 L) p 0 a = pgd_offset p a"
  "entry_slot (sv32 L) (table_at L m pgd a) (Suc 0) a = pte_offset_kernel L (pmd_at m pgd a) a"
  "entry_present (sv32 L) e = pmd_present (Pmd e)" "entry_table (sv32 L) e = pmd_page_vaddr L (Pmd e)"
  by (simp_all add: sv32_def sv32_index_def pgd_offset_def table_at_def pte_offset_kernel_def)

lemma sv32_tables [simp]:
  "table_of (sv32 L) m pgd (Suc 0) a = (if pmd_present (pmd_at m pgd a) then Some (table_at L m pgd a) else None)"
  by (simp add: pmd_at_def table_at_def Let_def table_of.simps(2))

lemma sv32_walk: "walk_tables L m pgd a = map_option Pte (leaf_of (sv32 L) 1 m pgd a)"
  by (auto simp: walk_tables_def leaf_of_def Let_def pmd_none_def pmd_bad_def pmd_present_def pte_present_def
      split: if_splits)

lemma le_1_cases: "(i :: nat) \<le> Suc 0 \<longleftrightarrow> i = 0 \<or> i = Suc 0"
  by auto

lemma sv32_ok:
  "tables_ok L m pgd \<longleftrightarrow> va_pa_offset L AND NOT PAGE_MASK = 0 \<and> pgd AND NOT PAGE_MASK = 0
    \<and> tree_ok (sv32 L) sv32_key 1 m pgd"
proof
  assume ok: "tables_ok L m pgd"
  have root: "pmd_present (pmd_at m pgd a) \<Longrightarrow> table_at L m pgd a \<noteq> pgd" for a
    using ok by (simp add: tables_ok_def)
  have same: "pmd_present (pmd_at m pgd a) \<Longrightarrow> pmd_present (pmd_at m pgd b)
      \<Longrightarrow> table_at L m pgd a = table_at L m pgd b \<Longrightarrow> pgd_index a = pgd_index b" for a b
    using ok unfolding tables_ok_def by metis
  have "i = j \<and> sv32_key i a = sv32_key j b"
    if "i = 0 \<or> i = Suc 0" "j = 0 \<or> j = Suc 0" "table_of (sv32 L) m pgd i a = Some p"
      "table_of (sv32 L) m pgd j b = Some p" for i j a b p
    using that root [of a] root [of b] same [of a b] by (elim disjE) (simp_all add: sv32_key_def split: if_splits)
  then have "tree_ok (sv32 L) sv32_key 1 m pgd" unfolding tree_ok_def One_nat_def le_1_cases by blast
  then show "va_pa_offset L AND NOT PAGE_MASK = 0 \<and> pgd AND NOT PAGE_MASK = 0
    \<and> tree_ok (sv32 L) sv32_key 1 m pgd" using ok by (simp add: tables_ok_def)
next
  assume r: "va_pa_offset L AND NOT PAGE_MASK = 0 \<and> pgd AND NOT PAGE_MASK = 0 \<and> tree_ok (sv32 L) sv32_key 1 m pgd"
  have root: "table_at L m pgd a \<noteq> pgd" if "pmd_present (pmd_at m pgd a)" for a
    using r that unfolding tree_ok_def
    by (metis One_nat_def le_refl sv32_tables table_of.simps(1) zero_le zero_neq_one)
  moreover have "pgd_index a = pgd_index b"
    if "pmd_present (pmd_at m pgd a)" "pmd_present (pmd_at m pgd b)" "table_at L m pgd a = table_at L m pgd b" for a b
    using r that unfolding tree_ok_def sv32_key_def
    by (metis One_nat_def le_refl sv32_tables zero_neq_one)
  ultimately show "tables_ok L m pgd" using r unfolding tables_ok_def by blast
qed

lemma pmd_populate_page:
  fixes page :: "'w::len word"
  assumes "va_pa_offset L AND NOT PAGE_MASK = 0" and "page AND NOT PAGE_MASK = 0" and "12 \<le> LENGTH('w)"
  shows "pmd_page_vaddr L (Pmd (push_bit PAGE_PFN_SHIFT (virt_to_pfn L page) OR PAGE_TABLE)) = page"
proof -
  have "take_bit 12 (pa L page + va_pa_offset L) = 0"
    using assms(2) by (simp add: page_aligned pa_def)
  then have "take_bit PAGE_SHIFT (pa L page) = 0"
    using assms(1,3) by (simp add: page_aligned take_bit_add_0 PAGE_SHIFT_def)
  from pmd_populate_vaddr [OF assms(3) this] show ?thesis by (simp add: pmd_populate_kernel_def Let_def)
qed

lemma pmd_populate_walks:
  assumes "tables_ok L m pgd" and "\<not> pmd_present (pmd_at m pgd addr)"
    and "page AND NOT PAGE_MASK = 0" and "page \<noteq> pgd" and "\<And>a. pmd_present (pmd_at m pgd a) \<Longrightarrow> table_at L m pgd a \<noteq> page"
    and "\<And>i. m (page + 4 * (i AND mask 10)) = 0" and "m' = pmd_populate L (pgd_offset pgd addr) page m"
  shows "walk_tables L m' pgd a = walk_tables L m pgd a \<and> pmd_present (pmd_at m' pgd addr) \<and> tables_ok L m' pgd"
proof -
  have al: "pgd AND NOT PAGE_MASK = 0 \<and> va_pa_offset L AND NOT PAGE_MASK = 0" and ok: "tree_ok (sv32 L) sv32_key 1 m pgd"
    using assms(1) by (simp_all add: sv32_ok)
  let ?e = "push_bit PAGE_PFN_SHIFT (virt_to_pfn L page) OR PAGE_TABLE"
  have m': "m' = m(entry_slot (sv32 L) pgd 0 addr := ?e)"
    by (simp add: assms(7) pmd_populate_def set_pmd_def Let_def)
  have "table_of (sv32 L) m pgd j b \<noteq> Some page" if "j = 0 \<or> j = Suc 0" for j b
    using that assms(4,5) by (auto split: if_splits)
  moreover have "entry_slot (sv32 L) page j b = page + 4 * (drop_bit (if j = 0 then 22 else 12) b AND mask 10)" for j b
    by (simp add: sv32_def sv32_index_def index_mask)
  ultimately have new: "new_table (sv32 L) (\<lambda>p. p AND NOT PAGE_MASK = 0 \<and> va_pa_offset L AND NOT PAGE_MASK = 0) 1 m pgd page"
    using assms(3,6) al by (simp add: new_table_def le_1_cases pmd_present_def)
  have e: "entry_present (sv32 L) ?e" "entry_table (sv32 L) ?e = page"
    using pmd_populate_page [of L page] al assms(3) by (simp_all add: pte_tests bit_or_iff page_bit_iff)
  note maps = sv32.new_table_maps_nothing [OF ok al table_of.simps(1) zero_less_one _ new e, of addr, folded m']
  show ?thesis
    using maps assms(2) al by (simp add: sv32_walk sv32_ok pmd_at_def split: if_splits)
qed

lemma set_pte_walks:
  assumes "tables_ok L m pgd" and "pmd_present (pmd_at m pgd addr)"
  shows "walk_tables L (set_pte_at (pte_offset_kernel L (pmd_at m pgd addr) addr) v m) pgd a =
      (if drop_bit 12 a = drop_bit 12 addr then if pte_present v then Some v else None else walk_tables L m pgd a)"
    and "tables_ok L (set_pte_at (pte_offset_kernel L (pmd_at m pgd addr) addr) v m) pgd"
proof -
  have al: "pgd AND NOT PAGE_MASK = 0 \<and> va_pa_offset L AND NOT PAGE_MASK = 0" and ok: "tree_ok (sv32 L) sv32_key 1 m pgd"
    and t: "table_of (sv32 L) m pgd 1 addr = Some (table_at L m pgd addr)"
    using assms by (simp_all add: sv32_ok)
  note w = sv32.leaf_write [OF ok al t, of "pte_val v"]
  show "walk_tables L (set_pte_at (pte_offset_kernel L (pmd_at m pgd addr) addr) v m) pgd a =
      (if drop_bit 12 a = drop_bit 12 addr then if pte_present v then Some v else None else walk_tables L m pgd a)"
    using w(1) [of a] by (auto simp: sv32_walk sv32_key_def set_pte_at_def set_pte_def pte_present_def pmd_present_def)
  show "tables_ok L (set_pte_at (pte_offset_kernel L (pmd_at m pgd addr) addr) v m) pgd"
    using w(2) al by (simp add: sv32_ok set_pte_at_def set_pte_def)
qed

section \<open>Properties\<close>

text \<open>
  A write of a table entry is an update of the partial function from pages to entries: after
  \<^verbatim>\<open>set_pte_at\<close> at the entry that \<^verbatim>\<open>pte_offset_kernel\<close> finds for an address, a walk from any
  address of its page finds the new entry, or nothing if it is not present, a walk from every other
  address finds what it found before, and the tables stay well-formed.
\<close>

theorem set_pte_updates:
  assumes "tables_ok L m pgd" and "pmd_present (pmd_at m pgd addr)"
    and "m' = set_pte_at (pte_offset_kernel L (pmd_at m pgd addr) addr) v m"
  shows "walk_tables L m' pgd a =
    (if drop_bit 12 a = drop_bit 12 addr then if pte_present v then Some v else None else walk_tables L m pgd a)
    \<and> tables_ok L m' pgd"
  using set_pte_walks [OF assms(1,2)] unfolding assms(3) by blast

text \<open>A directory and memory for tables, all of it zero, and the directory with one table.\<close>

definition boot_layout :: "u32 mem_layout" where
  "boot_layout = \<lparr>va_pa_offset = 0x40000000, pfn_base = 0x80000, max_mapnr = 0x10000\<rparr>"

lemma empty_tables: "tables_ok boot_layout (\<lambda>_. 0) 0xC0001000"
  by (simp add: tables_ok_def boot_layout_def pmd_at_def pmd_present_def PAGE_MASK_def PAGE_SIZE_def PAGE_SHIFT_def push_bit_eq_mult)

lemma one_table:
  defines "m \<equiv> pmd_populate boot_layout (pgd_offset 0xC0001000 0x10000) 0xC0002000 (\<lambda>_. 0)"
  shows "pmd_present (pmd_at m 0xC0001000 0x10000)" "tables_ok boot_layout m 0xC0001000"
  using pmd_populate_walks [OF empty_tables, of "0x10000" "0xC0002000" m]
  by (simp_all add: m_def pmd_at_def pmd_present_def PAGE_MASK_def PAGE_SIZE_def PAGE_SHIFT_def push_bit_eq_mult)

theorem set_pte_updates_witness:
  "walk_tables boot_layout
    (set_pte_at (pte_offset_kernel boot_layout (pmd_at (pmd_populate boot_layout (pgd_offset 0xC0001000 0x10000) 0xC0002000 (\<lambda>_. 0))
      0xC0001000 0x10000) 0x10000) (Pte 0x20000C0F)
      (pmd_populate boot_layout (pgd_offset 0xC0001000 0x10000) 0xC0002000 (\<lambda>_. 0))) 0xC0001000 0x10234 = Some (Pte 0x20000C0F)"
  using set_pte_updates [OF one_table(2,1) refl, of "Pte 0x20000C0F" "0x10234"]
  by (simp add: pte_present_def PAGE_PRESENT_def drop_bit_eq_div)

text \<open>
  A new table maps nothing and disturbs nothing: a zeroed page that is no table yet, entered by
  \<^verbatim>\<open>pmd_populate\<close> for a region that had none, makes the region ready for entries while every walk
  finds what it found before, and the tables stay well-formed.
\<close>

theorem pmd_populate_maps_nothing:
  assumes "tables_ok L m pgd" and "\<not> pmd_present (pmd_at m pgd addr)"
    and "page AND NOT PAGE_MASK = 0" and "page \<noteq> pgd" and "\<And>a. pmd_present (pmd_at m pgd a) \<Longrightarrow> table_at L m pgd a \<noteq> page"
    and "\<And>i. m (page + 4 * (i AND mask 10)) = 0" and "m' = pmd_populate L (pgd_offset pgd addr) page m"
  shows "walk_tables L m' pgd a = walk_tables L m pgd a \<and> pmd_present (pmd_at m' pgd addr) \<and> tables_ok L m' pgd"
  using assms by (rule pmd_populate_walks)

theorem pmd_populate_maps_nothing_witness:
  "pmd_present (pmd_at (pmd_populate boot_layout (pgd_offset 0xC0001000 0x10000) 0xC0002000 (\<lambda>_. 0)) 0xC0001000 0x10000)"
  using pmd_populate_maps_nothing [OF empty_tables, of "0x10000" "0xC0002000"]
  by (simp add: pmd_at_def pmd_present_def PAGE_MASK_def PAGE_SIZE_def PAGE_SHIFT_def push_bit_eq_mult)

section \<open>The tables of the boot loader\<close>

lemma those_map_Some: "those (map (\<lambda>i. Some (f i)) xs) = Some (map f xs)"
  by (induction xs) simp_all

definition is_table :: "u32 pte_t \<Rightarrow> bool" where
  "is_table pte \<longleftrightarrow> pte_present pte \<and> \<not> pte_huge pte"

lemma reserve_leaf_table:
  assumes "\<And>i. i < 1024 \<Longrightarrow> \<not> is_table (Pte (m (table + 4 * of_nat i)))"
  shows "reserve_boot_page_table (Suc depth) L m table = Some [pa L table]"
proof -
  have e: "map (\<lambda>i. let pte = Pte (m (table + 4 * of_nat i))
      in if pte_present pte \<and> \<not> pte_huge pte
         then reserve_boot_page_table depth L m (pfn_to_virt L (pte_pfn pte)) else Some []) [0..<1024]
    = map (\<lambda>i. Some []) [0..<1024]"
    by (rule map_cong) (use assms in \<open>auto simp: is_table_def Let_def\<close>)
  show ?thesis
    unfolding reserve_boot_page_table.simps e those_map_Some by (simp add: map_replicate_const)
qed

text \<open>
  Two levels of tables are reserved whole, whatever they map: the directory first, then the page of
  every table it leads to.
\<close>

lemma boot_tables_reserved:
  assumes "\<And>i j. i < 1024 \<Longrightarrow> j < 1024 \<Longrightarrow> is_table (Pte (m (root + 4 * of_nat i))) \<Longrightarrow>
      \<not> is_table (Pte (m (pfn_to_virt L (pte_pfn (Pte (m (root + 4 * of_nat i)))) + 4 * of_nat j)))"
  shows "reserve_boot_page_table 2 L m root =
    Some (pa L root # map (\<lambda>i. pfn_to_phys (pte_pfn (Pte (m (root + 4 * of_nat i)))))
      (filter (\<lambda>i. is_table (Pte (m (root + 4 * of_nat i)))) [0..<1024]))"
proof -
  let ?pte = "\<lambda>i. Pte (m (root + 4 * of_nat i))"
  have e: "map (\<lambda>i. let pte = ?pte i
      in if pte_present pte \<and> \<not> pte_huge pte
         then reserve_boot_page_table (Suc 0) L m (pfn_to_virt L (pte_pfn pte)) else Some []) [0..<1024]
    = map (\<lambda>i. Some (if is_table (?pte i) then [pfn_to_phys (pte_pfn (?pte i))] else [])) [0..<1024]"
  proof (rule map_cong [OF refl])
    fix i
    assume "i \<in> set [0..<1024 :: nat]"
    then have i: "i < 1024" by simp
    show "(let pte = ?pte i in if pte_present pte \<and> \<not> pte_huge pte
         then reserve_boot_page_table (Suc 0) L m (pfn_to_virt L (pte_pfn pte)) else Some [])
      = Some (if is_table (?pte i) then [pfn_to_phys (pte_pfn (?pte i))] else [])"
    proof (cases "is_table (?pte i)")
      case True
      then have "reserve_boot_page_table (Suc 0) L m (pfn_to_virt L (pte_pfn (?pte i))) = Some [pa L (pfn_to_virt L (pte_pfn (?pte i)))]"
        using assms [OF i] by (intro reserve_leaf_table) blast
      then show ?thesis using True by (simp add: is_table_def Let_def pa_def pfn_to_virt_def va_def)
    qed (auto simp: is_table_def Let_def)
  qed
  have "concat (map (\<lambda>i. if P i then [f i] else []) xs) = map f (filter P xs)" for P :: "nat \<Rightarrow> bool" and f :: "nat \<Rightarrow> u32" and xs
    by (induction xs) simp_all
  then show ?thesis
    unfolding numeral_2_eq_2 reserve_boot_page_table.simps(2) [of "Suc 0"] e those_map_Some by simp
qed

end
