(* ===== verification/Boot.thy ===== *)
theory Boot
  imports PageWalk
begin

text \<open>
  The memory of the machine at boot, \<^verbatim>\<open>kernel/setup.c\<close> with the parts of \<^verbatim>\<open>mm/init.c\<close> that
  follow it, on the 32-bit machine. \<^verbatim>\<open>memblock\<close> belongs to the kernel proper: what is asked of it
  is the list of its calls.
\<close>

section \<open>State\<close>

datatype memblock_call =
    Reserve u32 u32 | Enforce_limit u32 | Allow_resize | Add_node u32 u32 | Free_area_nodes u32

record boot_state =
  mem_size :: u32
  layout :: "u32 mem_layout"
  max_low_pfn :: u32
  initrd_start :: u32
  initrd_end :: u32
  initrd_below_start_ok :: bool
  memblock :: "memblock_call list"

definition call :: "memblock_call \<Rightarrow> boot_state \<Rightarrow> boot_state" where
  "call c st = st\<lparr>memblock := memblock st @ [c]\<rparr>"

text \<open>With two levels a middle directory is a directory: regions of 4 MiB.\<close>

definition PMD_MASK :: u32 where "PMD_MASK = NOT (push_bit (PGDIR_SHIFT TYPE(32)) 1 - 1)"

section \<open>Operations\<close>

text \<open>\<open>parsed\<close> is what \<^verbatim>\<open>memparse\<close> makes of the parameter, \<open>None\<close> if there is none.\<close>

definition early_mem :: "int \<Rightarrow> u64 option \<Rightarrow> boot_state \<Rightarrow> int \<times> boot_state" where
  "early_mem EINVAL parsed st =
    (case parsed of
       None \<Rightarrow> (- EINVAL, st)
     | Some v \<Rightarrow>
        (let st = st\<lparr>mem_size := ucast (v AND ucast PMD_MASK)\<rparr>
         in if mem_size st = 0 then (- EINVAL, st) else (0, st)))"

definition setup_initrd :: "u32 \<Rightarrow> u32 \<Rightarrow> boot_state \<Rightarrow> boot_state" where
  "setup_initrd initramfs_start initramfs_size st =
    (let st = (if initramfs_size > 0
               then st\<lparr>initrd_start := initramfs_start, initrd_end := initramfs_start + initramfs_size\<rparr> else st);
         disable = st\<lparr>initrd_start := 0, initrd_end := 0\<rparr>
     in if initrd_start st \<ge> initrd_end st then disable
        else if pa (layout st) (initrd_end st) > push_bit PAGE_SHIFT (max_low_pfn st) then disable
        else let sz = initrd_end st - initrd_start st
             in (call (Reserve (pa (layout st) (initrd_start st)) sz) st)\<lparr>initrd_below_start_ok := True\<rparr>)"

text \<open>
  \<open>query\<close> is the answer of the firmware: an error, the base and the size. \<open>tables\<close> is the memory
  with the tables of the boot loader, \<open>root\<close> the frame of their directory in \<^verbatim>\<open>sptbr\<close>, \<open>stop\<close> the
  end of the kernel image. \<open>None\<close> is a \<^verbatim>\<open>BUG\<close>, or tables deeper than two levels.
\<close>

definition setup_bootmem ::
    "u32 \<times> u32 \<times> u32 \<Rightarrow> u32 \<Rightarrow> u32 \<Rightarrow> u32 \<Rightarrow> words \<Rightarrow> u32 \<Rightarrow> boot_state \<Rightarrow> boot_state option" where
  "setup_bootmem query initramfs_start initramfs_size stop tables root st =
    (let (ret, base, size) = query
     in if ret \<noteq> 0 then None
        else if base AND NOT PMD_MASK \<noteq> 0 then None
        else if size AND NOT PMD_MASK \<noteq> 0 then None
        else
          let L = (layout st)\<lparr>va_pa_offset := PAGE_OFFSET - base, pfn_base := phys_to_pfn base\<rparr>;
              st = st\<lparr>layout := L\<rparr>;
              (size, st) = (if mem_size st \<noteq> 0 \<and> mem_size st < size
                            then (mem_size st, call (Enforce_limit (mem_size st)) st) else (size, st));
              st = st\<lparr>layout := (layout st)\<lparr>max_mapnr := phys_to_pfn size\<rparr>\<rparr>;
              st = st\<lparr>max_low_pfn := phys_to_pfn (base + size)\<rparr>;
              st = setup_initrd initramfs_start initramfs_size st;
              st = call (Reserve base (pa (layout st) stop - base)) st
          in case reserve_boot_page_table 2 (layout st) tables (pfn_to_virt (layout st) root) of
               None \<Rightarrow> None
             | Some pgs \<Rightarrow>
                 Some (call Allow_resize (fold (\<lambda>p. call (Reserve p PAGE_SIZE)) pgs st)))"

text \<open>The sizes of the memory zones, without \<^verbatim>\<open>CONFIG_NUMA\<close>.\<close>

definition zone_sizes_init :: "boot_state \<Rightarrow> boot_state" where
  "zone_sizes_init st =
    (let st = call (Add_node (push_bit PAGE_SHIFT (pfn_base (layout st))) (push_bit PAGE_SHIFT (max_mapnr (layout st)))) st
     in call (Free_area_nodes (pfn_base (layout st) + max_mapnr (layout st))) st)"

text \<open>The harts the firmware knows, as far as the kernel has room for them.\<close>

definition setup_smp :: "nat \<Rightarrow> u32 \<Rightarrow> (nat \<Rightarrow> bool) \<times> (nat \<Rightarrow> bool) \<Rightarrow> (nat \<Rightarrow> bool) \<times> (nat \<Rightarrow> bool)" where
  "setup_smp NR_CPUS sbi_num_harts = (\<lambda>(possible, present).
    fold (\<lambda>i (possible, present). (possible(i := True), present(i := True)))
      [0..<nat (min (sint sbi_num_harts) (int NR_CPUS))] (possible, present))"

section \<open>Lemmas\<close>

lemma call_fields [simp]:
  "layout (call c st) = layout st" "max_low_pfn (call c st) = max_low_pfn st" "mem_size (call c st) = mem_size st"
  "initrd_start (call c st) = initrd_start st" "initrd_end (call c st) = initrd_end st"
  "memblock (call c st) = memblock st @ [c]"
  by (simp_all add: call_def)

lemma fold_call_fields [simp]:
  "layout (fold (\<lambda>p. call (f p)) ps st) = layout st"
  "initrd_start (fold (\<lambda>p. call (f p)) ps st) = initrd_start st" "initrd_end (fold (\<lambda>p. call (f p)) ps st) = initrd_end st"
  "memblock (fold (\<lambda>p. call (f p)) ps st) = memblock st @ map f ps"
  by (induction ps arbitrary: st) simp_all

lemma setup_initrd_fields [simp]: "layout (setup_initrd start sz st) = layout st"
  by (simp add: setup_initrd_def Let_def)

lemma unat_frame: "unat (phys_to_pfn p :: u32) = unat p div 4096"
  by (simp add: phys_to_pfn_def PAGE_SHIFT_def unat_drop_bit_word)

lemma region_aligned:
  assumes "x AND NOT PMD_MASK = (0 :: u32)"
  obtains k where "unat x = k * 4096"
proof -
  have m: "NOT PMD_MASK = (mask 22 :: u32)"
    by (simp add: PMD_MASK_def PGDIR_SHIFT_def mask_eq_exp_minus_1 push_bit_eq_mult)
  have "unat x mod 2 ^ 22 = 0" using assms unat_and_mask_word [of x 22] unfolding m by simp
  then have "unat x mod 4096 = 0" by (auto elim!: dvdE simp: mod_eq_0_iff_dvd)
  then show thesis using that by (metis mod_0_imp_dvd dvd_def mult.commute)
qed

lemma frame_in_memory:
  assumes "base AND NOT PMD_MASK = (0 :: u32)" and "sz AND NOT PMD_MASK = 0" and "unat base + unat sz < 2 ^ 32"
    and "pfn_base L = phys_to_pfn base" "max_mapnr L = phys_to_pfn sz"
  shows "pfn_valid L (phys_to_pfn p) \<longleftrightarrow> base \<le> p \<and> unat p < unat base + unat sz"
proof -
  obtain b where b: "unat base = b * 4096" using region_aligned [OF assms(1)] .
  obtain s where s: "unat sz = s * 4096" using region_aligned [OF assms(2)] .
  have le: "phys_to_pfn base \<le> phys_to_pfn p \<longleftrightarrow> base \<le> p"
    unfolding word_le_nat_alt unat_frame b by (metis less_eq_div_iff_mult_less_eq nonzero_mult_div_cancel_right zero_less_numeral zero_neq_numeral)
  have "unat (phys_to_pfn p - phys_to_pfn base) = unat p div 4096 - b" if "base \<le> p"
    using that le by (simp add: unat_sub unat_frame b)
  moreover have "unat p div 4096 - b < s \<longleftrightarrow> unat p < (b + s) * 4096" if "base \<le> p"
    using that by (auto simp: word_le_nat_alt b)
  ultimately show ?thesis
    unfolding pfn_valid_def assms(4,5) using le
    by (auto simp: word_less_nat_alt unat_frame b s algebra_simps)
qed

lemma setup_initrd_outcome:
  fixes start sz st
  defines "st' \<equiv> setup_initrd start sz st"
  shows "initrd_end st' = 0 \<or> Reserve (pa (layout st) (initrd_start st')) (initrd_end st' - initrd_start st') \<in> set (memblock st')
    \<and> pa (layout st) (initrd_end st') \<le> push_bit PAGE_SHIFT (max_low_pfn st)"
  by (auto simp: st'_def setup_initrd_def Let_def not_less)

lemma reserve_root: "reserve_boot_page_table (Suc depth) L m table = Some rs \<Longrightarrow> pa L table \<in> set rs"
  by auto

lemma setup_bootmem_parts:
  assumes "setup_bootmem (ret, base, sz) rd_start rd_size stop tables root st = Some st'"
    and "limited = (if mem_size st \<noteq> 0 \<and> mem_size st < sz then mem_size st else sz)"
  obtains st1 pgs where
    "base AND NOT PMD_MASK = 0" "sz AND NOT PMD_MASK = 0"
    "layout st1 = (layout st)\<lparr>va_pa_offset := PAGE_OFFSET - base, pfn_base := phys_to_pfn base, max_mapnr := phys_to_pfn limited\<rparr>"
    "max_low_pfn st1 = phys_to_pfn (base + limited)"
    "pa (layout st1) (pfn_to_virt (layout st1) root) \<in> set pgs"
    "st' = call Allow_resize (fold (\<lambda>p. call (Reserve p PAGE_SIZE)) pgs
      (call (Reserve base (pa (layout st1) stop - base)) (setup_initrd rd_start rd_size st1)))"
proof -
  let ?L = "(layout st)\<lparr>va_pa_offset := PAGE_OFFSET - base, pfn_base := phys_to_pfn base\<rparr>"
  let ?lim = "mem_size st \<noteq> 0 \<and> mem_size st < sz"
  let ?st0 = "if ?lim then call (Enforce_limit (mem_size st)) (st\<lparr>layout := ?L\<rparr>) else st\<lparr>layout := ?L\<rparr>"
  define st1 where "st1 = ?st0\<lparr>layout := (layout ?st0)\<lparr>max_mapnr := phys_to_pfn limited\<rparr>, max_low_pfn := phys_to_pfn (base + limited)\<rparr>"
  let ?st3 = "call (Reserve base (pa (layout st1) stop - base)) (setup_initrd rd_start rd_size st1)"
  have l: "layout st1 = ?L\<lparr>max_mapnr := phys_to_pfn limited\<rparr>" by (simp add: st1_def)
  have al: "base AND NOT PMD_MASK = 0" "sz AND NOT PMD_MASK = 0"
    using assms(1) by (auto simp: setup_bootmem_def Let_def split: if_splits)
  obtain pgs where pgs: "reserve_boot_page_table 2 (layout st1) tables (pfn_to_virt (layout st1) root) = Some pgs"
    "st' = call Allow_resize (fold (\<lambda>p. call (Reserve p PAGE_SIZE)) pgs ?st3)"
  proof (cases ?lim)
    case True
    then have e: "limited = mem_size st" "st1 = call (Enforce_limit (mem_size st)) (st\<lparr>layout := ?L\<rparr>)
        \<lparr>layout := ?L\<lparr>max_mapnr := phys_to_pfn limited\<rparr>, max_low_pfn := phys_to_pfn (base + limited)\<rparr>"
      by (simp_all add: assms(2) st1_def)
    show thesis
      using assms(1) al True that unfolding setup_bootmem_def e
      by (auto simp: Let_def call_def split: option.splits if_splits)
  next
    case False
    then have e: "limited = sz" "st1 = st\<lparr>layout := ?L\<lparr>max_mapnr := phys_to_pfn limited\<rparr>, max_low_pfn := phys_to_pfn (base + limited)\<rparr>"
      by (auto simp: assms(2) st1_def)
    show thesis
      using assms(1) al False that unfolding setup_bootmem_def e
      by (auto simp: Let_def split: option.splits if_splits)
  qed
  show thesis
    using that [of st1 pgs] al l pgs reserve_root [of 1] by (simp add: st1_def numeral_2_eq_2)
qed

section \<open>Property\<close>

text \<open>
  After \<^verbatim>\<open>setup_bootmem\<close> a frame is valid if and only if it lies in the memory the firmware
  reported, cut to the limit of the command line; the kernel's base address stands for the first
  byte of it; and the kernel image, every boot page table and, when it is kept, the initial ramdisk
  are reserved, which ends inside the memory.
\<close>

theorem bootmem_valid_frames:
  assumes "setup_bootmem (ret, base, sz) rd_start rd_size stop tables root st = Some st'"
    and "mem_size st AND NOT PMD_MASK = 0" and "unat base + unat sz < 2 ^ 32"
    and "limited = (if mem_size st \<noteq> 0 \<and> mem_size st < sz then mem_size st else sz)"
  shows "(pfn_valid (layout st') (phys_to_pfn p) \<longleftrightarrow> base \<le> p \<and> unat p < unat base + unat limited)
    \<and> pa (layout st') PAGE_OFFSET = base
    \<and> Reserve base (pa (layout st') stop - base) \<in> set (memblock st')
    \<and> Reserve (pa (layout st') (pfn_to_virt (layout st') root)) PAGE_SIZE \<in> set (memblock st')
    \<and> (initrd_end st' = 0 \<or> Reserve (pa (layout st') (initrd_start st')) (initrd_end st' - initrd_start st') \<in> set (memblock st')
        \<and> unat (pa (layout st') (initrd_end st')) \<le> unat base + unat limited)"
proof -
  obtain st1 pgs where r: "base AND NOT PMD_MASK = 0" "sz AND NOT PMD_MASK = 0"
    "layout st1 = (layout st)\<lparr>va_pa_offset := PAGE_OFFSET - base, pfn_base := phys_to_pfn base, max_mapnr := phys_to_pfn limited\<rparr>"
    "max_low_pfn st1 = phys_to_pfn (base + limited)"
    "pa (layout st1) (pfn_to_virt (layout st1) root) \<in> set pgs"
    "st' = call Allow_resize (fold (\<lambda>p. call (Reserve p PAGE_SIZE)) pgs
      (call (Reserve base (pa (layout st1) stop - base)) (setup_initrd rd_start rd_size st1)))"
    by (rule setup_bootmem_parts [OF assms(1,4)])
  have lim: "limited AND NOT PMD_MASK = 0" "unat base + unat limited < 2 ^ 32"
    using assms(2-4) r(2) by (auto simp: word_less_nat_alt)
  have l: "layout st' = layout st1" by (simp add: r(6))
  have "unat (base + limited) = unat base + unat limited" using lim(2) by (simp add: unat_add_word)
  moreover obtain b where "unat base = b * 4096" using region_aligned [OF r(1)] .
  moreover obtain s where "unat limited = s * 4096" using region_aligned [OF lim(1)] .
  ultimately have stop: "unat (push_bit PAGE_SHIFT (max_low_pfn st1)) = unat base + unat limited"
    using lim(2) by (simp add: r(4) unat_push_bit_word unat_frame PAGE_SHIFT_def)
  let ?st2 = "setup_initrd rd_start rd_size st1"
  have rd: "initrd_end ?st2 = 0 \<or> Reserve (pa (layout st1) (initrd_start ?st2)) (initrd_end ?st2 - initrd_start ?st2) \<in> set (memblock ?st2)
    \<and> unat (pa (layout st1) (initrd_end ?st2)) \<le> unat base + unat limited"
    using setup_initrd_outcome [of rd_start rd_size st1] stop by (auto simp: word_le_nat_alt)
  have valid: "pfn_valid (layout st') (phys_to_pfn p) \<longleftrightarrow> base \<le> p \<and> unat p < unat base + unat limited"
    by (rule frame_in_memory [OF r(1) lim]) (simp_all add: l r(3))
  have offset: "pa (layout st') PAGE_OFFSET = base" by (simp add: l r(3) pa_def)
  have calls: "set (memblock st') \<supseteq> set (memblock ?st2) \<union> {Reserve base (pa (layout st1) stop - base)} \<union> (\<lambda>p. Reserve p PAGE_SIZE) ` set pgs"
    by (auto simp: r(6))
  have ends: "initrd_end st' = initrd_end ?st2" "initrd_start st' = initrd_start ?st2" by (simp_all add: r(6))
  show ?thesis
    unfolding ends l using valid [unfolded l] offset [unfolded l] calls r(5) rd by blast
qed

text \<open>A machine with 64 MiB, an empty directory and no ramdisk.\<close>

definition boot_start :: boot_state where
  "boot_start = \<lparr>mem_size = 0, layout = boot_layout, max_low_pfn = 0, initrd_start = 0, initrd_end = 0,
    initrd_below_start_ok = False, memblock = []\<rparr>"

lemma empty_directory: "reserve_boot_page_table 2 L (\<lambda>_. 0) table = Some [pa L table]"
  unfolding numeral_2_eq_2 by (rule reserve_leaf_table) (simp add: is_table_def pte_present_def)

theorem bootmem_valid_frames_witness:
  "\<exists>st'. setup_bootmem (0, 0x80000000, 0x4000000) 0 0 0xC0300000 (\<lambda>_. 0) 0x80200 boot_start = Some st'
    \<and> pfn_valid (layout st') (phys_to_pfn 0x80001000) \<and> pa (layout st') PAGE_OFFSET = 0x80000000"
proof -
  have mask: "PMD_MASK = 0xFFC00000" by (simp add: PMD_MASK_def PGDIR_SHIFT_def push_bit_eq_mult)
  obtain st' where st': "setup_bootmem (0, 0x80000000, 0x4000000) 0 0 0xC0300000 (\<lambda>_. 0) 0x80200 boot_start = Some st'"
    by (simp add: setup_bootmem_def Let_def empty_directory mask boot_start_def)
  show ?thesis
    using bootmem_valid_frames [OF st', of "0x4000000" "0x80001000"] st' by (simp add: mask boot_start_def)
qed

end
