(* ===== verification/Atomic64.thy ===== *)
theory Atomic64
  imports Atomics
begin

text \<open>
  The 64-bit counters of \<^verbatim>\<open>asm/atomic64.h\<close> whose bodies are not loops: each is one \<^verbatim>\<open>amo\<close>
  instruction on the double word. The loops are in \<open>Atomics\<close>.
\<close>

section \<open>Operations\<close>

definition atomic64_read :: "u64 \<Rightarrow> u64" where
  "atomic64_read v = v"

definition atomic64_set :: "u64 \<Rightarrow> u64 \<Rightarrow> u64" where
  "atomic64_set i v = i"

definition atomic64_add :: "u64 \<Rightarrow> u64 \<Rightarrow> u64" where
  "atomic64_add a v = snd (amoadd a v)"

definition atomic64_sub :: "u64 \<Rightarrow> u64 \<Rightarrow> u64" where
  "atomic64_sub a v = atomic64_add (- a) v"

definition atomic64_add_return :: "u64 \<Rightarrow> u64 \<Rightarrow> u64 \<times> u64" where
  "atomic64_add_return a v = (let (c, v) = amoadd a v in (c + a, v))"

definition atomic64_sub_return :: "u64 \<Rightarrow> u64 \<Rightarrow> u64 \<times> u64" where
  "atomic64_sub_return a v = atomic64_add_return (- a) v"

definition atomic64_inc :: "u64 \<Rightarrow> u64" where
  "atomic64_inc v = atomic64_add 1 v"

definition atomic64_dec :: "u64 \<Rightarrow> u64" where
  "atomic64_dec v = atomic64_add (- 1) v"

definition atomic64_inc_return :: "u64 \<Rightarrow> u64 \<times> u64" where
  "atomic64_inc_return v = atomic64_add_return 1 v"

definition atomic64_inc_and_test :: "u64 \<Rightarrow> bool \<times> u64" where
  "atomic64_inc_and_test v = (let (c, v) = atomic64_inc_return v in (c = 0, v))"

definition atomic64_sub_and_test :: "u64 \<Rightarrow> u64 \<Rightarrow> bool \<times> u64" where
  "atomic64_sub_and_test a v = (let (c, v) = atomic64_sub_return a v in (c = 0, v))"

definition atomic64_add_negative :: "u64 \<Rightarrow> u64 \<Rightarrow> bool \<times> u64" where
  "atomic64_add_negative a v = (let (c, v) = atomic64_add_return a v in (c <s 0, v))"

definition atomic64_xchg :: "u64 \<Rightarrow> u64 \<Rightarrow> u64 \<times> u64" where
  "atomic64_xchg n v = amoswap n v"

definition atomic64_cmpxchg :: "u64 \<Rightarrow> u64 \<Rightarrow> (u64 \<times> bool) list \<Rightarrow> (u64 \<times> u64 \<times> u64) option" where
  "atomic64_cmpxchg old new rounds = cmpxchg old new rounds"

definition atomic64_and :: "u64 \<Rightarrow> u64 \<Rightarrow> u64" where
  "atomic64_and msk v = snd (amoand msk v)"

definition atomic64_or :: "u64 \<Rightarrow> u64 \<Rightarrow> u64" where
  "atomic64_or msk v = snd (amoor msk v)"

definition atomic64_xor :: "u64 \<Rightarrow> u64 \<Rightarrow> u64" where
  "atomic64_xor msk v = snd (amoxor msk v)"

section \<open>Counters of both widths\<close>

lemmas counter64_defs = atomic64_add_def atomic64_sub_def atomic64_add_return_def atomic64_sub_return_def
  atomic64_inc_def atomic64_dec_def atomic64_inc_return_def atomic64_inc_and_test_def atomic64_sub_and_test_def
  atomic64_add_negative_def atomic64_dec_and_test_def atomic64_dec_return_def

interpretation counter64: counter atomic64_add atomic64_add_return "atomic64_dec_and_test :: u64 \<Rightarrow> bool \<times> u64"
  by unfold_locales (auto simp: counter64_defs counter_defs Let_def add_eq_0_iff)

text \<open>
  A test sees the value its own step leaves, and the sum does not depend on the order of the
  additions: the last of \<open>n\<close> references, dropped in any order, is the only one that sees zero.
\<close>

lemma counter64_tests:
  "atomic64_sub_and_test a v = (v = a, v - a)" "atomic64_inc_and_test v = (v + 1 = 0, v + 1)"
  "atomic64_add_negative a v = (v + a <s 0, v + a)"
  by (simp_all add: counter64_defs amoadd_def Let_def)

lemma counter64_last: "0 < n \<Longrightarrow> n < 2 ^ 64 \<Longrightarrow>
    dec_run atomic64_dec_and_test n (of_nat n :: u64) = (replicate (n - 1) False @ [True], 0)"
  using counter64.dec_run_last [of n] by simp

end
