(* ===== verification/Flash.thy ===== *)
theory Flash
  imports Uaccess Driver
begin

text \<open>
  The flash controller, \<^verbatim>\<open>drivers/flash.c\<close>, on the 32-bit machine: two blocks of registers that
  a program reads and writes one word at a time through \<^verbatim>\<open>flash_ioctl\<close>.
\<close>

section \<open>State and operations\<close>

text \<open>The blocks, \<open>None\<close> before the probe; a mapping is named by its device.\<close>

record t_flash_memory =
  flash_control :: "device option"
  flash_data :: "device option"

datatype flash_command = CONTROL_READ | CONTROL_WRITE | DATA_READ | DATA_WRITE | Other_ioctl

text \<open>What the accesses change: the memory, and the history of each block.\<close>

record flash_state =
  program_memory :: memory
  control_accesses :: "access list"
  data_accesses :: "access list"

text \<open>
  The two members of \<^verbatim>\<open>flash_regmap\<close> are words. What \<^verbatim>\<open>get_user\<close> and \<^verbatim>\<open>put_user\<close> return
  is not looked at.
\<close>

definition fetch_word :: "user_env \<Rightarrow> u32 \<Rightarrow> memory \<Rightarrow> u32" where
  "fetch_word env ptr mem = (case get_user env 4 mem ptr of Some (err, x) \<Rightarrow> ucast x | None \<Rightarrow> 0)"

definition post_word :: "user_env \<Rightarrow> u32 \<Rightarrow> u32 \<Rightarrow> memory \<Rightarrow> memory" where
  "post_word env x ptr mem = (case put_user env 4 (ucast x) ptr mem of Some (err, mem) \<Rightarrow> mem | None \<Rightarrow> mem)"

text \<open>The number of a register; \<^verbatim>\<open>address\<close> is signed, \<^verbatim>\<open>sizeof\<close> makes the division unsigned.\<close>

definition register_of :: "u32 \<Rightarrow> nat" where
  "register_of address = unat (address div 4)"

definition flash_ioctl ::
    "user_env \<Rightarrow> int \<Rightarrow> device \<Rightarrow> device \<Rightarrow> flash_command \<Rightarrow> u32 \<Rightarrow> flash_state \<Rightarrow> int \<times> flash_state" where
  "flash_ioctl env EINVAL control data num param st =
    (case num of
       CONTROL_READ \<Rightarrow>
        (let address = fetch_word env param (program_memory st);
             (v, h) = mmio_read control (register_of address) (control_accesses st)
         in (0, st\<lparr>control_accesses := h, program_memory := post_word env v (param + 4) (program_memory st)\<rparr>))
     | CONTROL_WRITE \<Rightarrow>
        (let address = fetch_word env param (program_memory st); v = fetch_word env (param + 4) (program_memory st)
         in (0, st\<lparr>control_accesses := mmio_write (register_of address) v (control_accesses st)\<rparr>))
     | DATA_READ \<Rightarrow>
        (let address = fetch_word env param (program_memory st);
             (v, h) = mmio_read data (register_of address) (data_accesses st)
         in (0, st\<lparr>data_accesses := h, program_memory := post_word env v (param + 4) (program_memory st)\<rparr>))
     | DATA_WRITE \<Rightarrow>
        (let address = fetch_word env param (program_memory st); v = fetch_word env (param + 4) (program_memory st)
         in (0, st\<lparr>data_accesses := mmio_write (register_of address) v (data_accesses st)\<rparr>))
     | Other_ioctl \<Rightarrow> (- EINVAL, st))"

text \<open>The two mappings may fail with an error; \<open>registered\<close> is the result of \<^verbatim>\<open>register_chrdev\<close>.\<close>

definition flash_probe :: "int + device \<Rightarrow> int + device \<Rightarrow> int \<Rightarrow> t_flash_memory \<Rightarrow> int \<times> t_flash_memory" where
  "flash_probe base0 base1 registered fm =
    (case base0 of
       Inl err \<Rightarrow> (err, fm)
     | Inr base \<Rightarrow>
        (let fm = fm\<lparr>flash_control := Some base\<rparr>
         in case base1 of
              Inl err \<Rightarrow> (err, fm)
            | Inr base \<Rightarrow> (registered, fm\<lparr>flash_data := Some base\<rparr>)))"

section \<open>Properties\<close>

lemma get_user_word:
  "get_user env 4 mem ptr =
    Some (if user_access_ok env ptr 4 \<and> \<not> faults (read_fault env) ptr 4
          then (0, word_of_int (signed_take_bit 31 (uint (load_le mem ptr 4)))) else (- EFAULT env, 0))"
  by (simp add: get_user_def get_user_unchecked_def get_user_asm_def)

lemma fetch_word_refused: "\<not> (user_access_ok env ptr 4 \<and> \<not> faults (read_fault env) ptr 4) \<Longrightarrow> fetch_word env ptr mem = 0"
  by (simp add: fetch_word_def get_user_word del: de_Morgan_conj)

text \<open>
  The flash driver trusts its caller: a write whose argument cannot be read is not refused but
  writes 0 to register 0 and returns success, and one whose argument can be read reaches whatever
  register it names, however far behind the block.
\<close>

theorem flash_ioctl_unchecked:
  assumes "num = CONTROL_WRITE"
  shows "(\<not> user_access_ok env param 4 \<and> \<not> user_access_ok env (param + 4) 4 \<longrightarrow>
      flash_ioctl env EINVAL control data num param st = (0, st\<lparr>control_accesses := control_accesses st @ [Wr 0 0]\<rparr>))
    \<and> (fetch_word env param (program_memory st) = address \<longrightarrow>
      (\<exists>v. flash_ioctl env EINVAL control data num param st =
        (0, st\<lparr>control_accesses := control_accesses st @ [Wr (unat address div 4) v]\<rparr>)))"
  using assms by (auto simp: flash_ioctl_def Let_def mmio_write_def register_of_def fetch_word_refused unat_div_word)

theorem flash_ioctl_unchecked_witness:
  "flash_ioctl \<lparr>addr_limit = 0x80000000, read_fault = (\<lambda>_. False), write_fault = (\<lambda>_. False), EFAULT = 14\<rparr> 22
      \<lparr>word_at = (\<lambda>_ _. 0), bytes_at = (\<lambda>_ _. 0)\<rparr> \<lparr>word_at = (\<lambda>_ _. 0), bytes_at = (\<lambda>_ _. 0)\<rparr> CONTROL_WRITE 0xFFFFF000 \<lparr>program_memory = (\<lambda>_. 7), control_accesses = [], data_accesses = []\<rparr>
    = (0, \<lparr>program_memory = (\<lambda>_. 7), control_accesses = [Wr 0 0], data_accesses = []\<rparr>)"
  using flash_ioctl_unchecked [OF refl, of "\<lparr>addr_limit = 0x80000000, read_fault = (\<lambda>_. False), write_fault = (\<lambda>_. False), EFAULT = 14\<rparr>"
      "0xFFFFF000" 22 "\<lparr>word_at = (\<lambda>_ _. 0), bytes_at = (\<lambda>_ _. 0)\<rparr>" "\<lparr>word_at = (\<lambda>_ _. 0), bytes_at = (\<lambda>_ _. 0)\<rparr>" "\<lparr>program_memory = (\<lambda>_. 7), control_accesses = [], data_accesses = []\<rparr>"]
  by (simp add: user_access_ok_def)

end
