(* ===== verification/Machine.thy ===== *)
theory Machine
  imports Regs
begin

text \<open>
  The 32-bit machine as the assembly files of the port use it: the integer registers, the
  supervisor's registers and a memory of words, with the instructions that occur in
  \<^verbatim>\<open>kernel/entry.S\<close>. A straight run of instructions is a list that \<open>run\<close> executes; the
  library shows what runs of stores and of loads against one base register do.
\<close>

section \<open>State and instructions\<close>

datatype csr = Sscratch | Sstatus | Sepc | Sbadaddr | Scause

text \<open>
  Register 0 reads as zero and ignores what is written. Memory maps the address of a word to its
  value: the code accesses words at multiples of four from aligned bases alone. \<open>world\<close> is the
  rest of the kernel's state, which the C code shares.
\<close>

record 'x machine =
  gpr :: "nat \<Rightarrow> u32"
  csrs :: "csr \<Rightarrow> u32"
  mem :: "u32 \<Rightarrow> u32"
  world :: 'x

datatype insn =
    Reg_s nat u32 nat
  | Reg_l nat u32 nat
  | Li nat u32
  | Mv nat nat
  | Addi nat nat u32
  | Andi nat nat u32
  | Slli nat nat nat
  | Srli nat nat nat
  | Add nat nat nat
  | And nat nat nat
  | Csrrw nat csr nat
  | Csrrc nat csr nat
  | Csrr nat csr
  | Csrw csr nat
  | Csrs csr u32
  | Csrc csr u32

definition rd :: "'x machine \<Rightarrow> nat \<Rightarrow> u32" where
  "rd m r = (if r = 0 then 0 else gpr m r)"

definition wr :: "nat \<Rightarrow> u32 \<Rightarrow> 'x machine \<Rightarrow> 'x machine" where
  "wr r v m = (if r = 0 then m else m\<lparr>gpr := (gpr m)(r := v)\<rparr>)"

definition wr_csr :: "csr \<Rightarrow> u32 \<Rightarrow> 'x machine \<Rightarrow> 'x machine" where
  "wr_csr c v m = m\<lparr>csrs := (csrs m)(c := v)\<rparr>"

definition store_word :: "u32 \<Rightarrow> u32 \<Rightarrow> 'x machine \<Rightarrow> 'x machine" where
  "store_word a v m = m\<lparr>mem := (mem m)(a := v)\<rparr>"

primrec exec :: "insn \<Rightarrow> 'x machine \<Rightarrow> 'x machine" where
  "exec (Reg_s r off b) m = store_word (rd m b + off) (rd m r) m"
| "exec (Reg_l r off b) m = wr r (mem m (rd m b + off)) m"
| "exec (Li r v) m = wr r v m"
| "exec (Mv r s) m = wr r (rd m s) m"
| "exec (Addi r s v) m = wr r (rd m s + v) m"
| "exec (Andi r s v) m = wr r (rd m s AND v) m"
| "exec (Slli r s n) m = wr r (push_bit n (rd m s)) m"
| "exec (Srli r s n) m = wr r (drop_bit n (rd m s)) m"
| "exec (Add r s t) m = wr r (rd m s + rd m t) m"
| "exec (And r s t) m = wr r (rd m s AND rd m t) m"
| "exec (Csrrw r c s) m = (let (old, new) = csr_swap (rd m s) (csrs m c) in wr r old (wr_csr c new m))"
| "exec (Csrrc r c s) m = (let (old, new) = csr_read_clear (rd m s) (csrs m c) in wr r old (wr_csr c new m))"
| "exec (Csrr r c) m = wr r (csr_read (csrs m c)) m"
| "exec (Csrw c s) m = wr_csr c (csr_write (rd m s) (csrs m c)) m"
| "exec (Csrs c v) m = wr_csr c (csr_set v (csrs m c)) m"
| "exec (Csrc c v) m = wr_csr c (csr_clear v (csrs m c)) m"

fun run :: "insn list \<Rightarrow> 'x machine \<Rightarrow> 'x machine" where
  "run [] m = m"
| "run (i # is') m = run is' (exec i m)"

section \<open>Lemmas\<close>

named_theorems machine \<open>what one instruction does to each part of the machine\<close>

lemma wr_simps [machine, simp]:
  "gpr (wr r v m) = (if r = 0 then gpr m else (gpr m)(r := v))"
  "csrs (wr r v m) = csrs m" "mem (wr r v m) = mem m" "world (wr r v m) = world m"
  by (simp_all add: wr_def)

lemma wr_csr_simps [machine, simp]:
  "gpr (wr_csr c v m) = gpr m" "csrs (wr_csr c v m) = (csrs m)(c := v)"
  "mem (wr_csr c v m) = mem m" "world (wr_csr c v m) = world m"
  by (simp_all add: wr_csr_def)

lemma store_simps [machine, simp]:
  "gpr (store_word a v m) = gpr m" "csrs (store_word a v m) = csrs m"
  "mem (store_word a v m) = (mem m)(a := v)" "world (store_word a v m) = world m"
  by (simp_all add: store_word_def)

lemma rd_simps [machine, simp]:
  "rd m 0 = 0" "r \<noteq> 0 \<Longrightarrow> rd m r = gpr m r"
  "rd (wr_csr c v m) r = rd m r" "rd (store_word a v m) r = rd m r"
  by (simp_all add: rd_def)

lemmas csr_ops = csr_swap_def csr_read_def csr_write_def csr_set_def csr_read_clear_def csr_clear_def

lemma run_append [simp]: "run (xs @ ys) m = run ys (run xs m)"
  by (induction xs arbitrary: m) simp_all

text \<open>Runs of stores and of loads of (register, offset) pairs.\<close>

definition saves :: "nat \<Rightarrow> (nat \<times> u32) list \<Rightarrow> insn list" where
  "saves b = map (\<lambda>(r, off). Reg_s r off b)"

definition loads :: "nat \<Rightarrow> (nat \<times> u32) list \<Rightarrow> insn list" where
  "loads b = map (\<lambda>(r, off). Reg_l r off b)"

lemma saves_simps [simp]: "saves b [] = []" "saves b ((r, off) # xs) = Reg_s r off b # saves b xs"
  by (simp_all add: saves_def)

lemma loads_simps [simp]: "loads b [] = []" "loads b ((r, off) # xs) = Reg_l r off b # loads b xs"
  by (simp_all add: loads_def)

lemma run_saves_regs [simp]:
  "gpr (run (saves b xs) m) = gpr m" "csrs (run (saves b xs) m) = csrs m"
  "world (run (saves b xs) m) = world m"
  by (induction xs arbitrary: m) auto

lemma rd_run_saves [simp]: "rd (run (saves b xs) m) r = rd m r"
  by (simp add: rd_def)

lemma run_saves_other:
  "a - rd m b \<notin> snd ` set xs \<Longrightarrow> mem (run (saves b xs) m) a = mem m a"
proof (induction xs arbitrary: m)
  case (Cons x xs)
  obtain r off where x: "x = (r, off)" by fastforce
  have "a \<noteq> rd m b + off" using Cons.prems x by auto
  then show ?case using Cons x by simp
qed simp

lemma run_saves_at:
  "distinct (map snd xs) \<Longrightarrow> (r, off) \<in> set xs \<Longrightarrow> mem (run (saves b xs) m) (rd m b + off) = rd m r"
proof (induction xs arbitrary: m)
  case (Cons x xs)
  obtain r' off' where x: "x = (r', off')" by fastforce
  show ?case
  proof (cases "x = (r, off)")
    case True
    then have "off \<notin> snd ` set xs" using Cons.prems(1) by simp
    then show ?thesis
      using True run_saves_other [of "rd m b + off" "store_word (rd m b + off) (rd m r) m" b xs] by simp
  next
    case False
    then have "(r, off) \<in> set xs" using Cons.prems(2) by simp
    then show ?thesis
      using Cons.IH [of "store_word (rd m b + off') (rd m r') m"] Cons.prems(1) x by simp
  qed
qed simp

lemma run_loads_rest [simp]:
  "csrs (run (loads b xs) m) = csrs m" "mem (run (loads b xs) m) = mem m"
  "world (run (loads b xs) m) = world m"
  by (induction xs arbitrary: m) auto

lemma run_loads_other: "r \<notin> fst ` set xs \<Longrightarrow> gpr (run (loads b xs) m) r = gpr m r"
  by (induction xs arbitrary: m) auto

lemma run_loads_at:
  "distinct (map fst xs) \<Longrightarrow> (r, off) \<in> set xs \<Longrightarrow> 0 \<notin> fst ` set xs \<Longrightarrow> b \<notin> fst ` set xs
    \<Longrightarrow> gpr (run (loads b xs) m) r = mem m (rd m b + off)"
proof (induction xs arbitrary: m)
  case (Cons x xs)
  obtain r' off' where x: "x = (r', off')" by fastforce
  have rd: "rd (wr r' v m) b = rd m b" for v using Cons.prems(4) x by (auto simp: rd_def)
  show ?case
  proof (cases "x = (r, off)")
    case True
    then have "r \<notin> fst ` set xs" "r \<noteq> 0" using Cons.prems(1,3) by auto
    then show ?thesis using True by (simp add: run_loads_other)
  next
    case False
    then have "(r, off) \<in> set xs" using Cons.prems(2) by simp
    then show ?thesis using Cons.IH [of "exec (Reg_l r' off' b) m"] Cons.prems x rd by simp
  qed
qed simp

end
