(* ===== verification/Entry.thy ===== *)
theory Entry
  imports Machine Traps Signal "HOL-Library.Monad_Syntax"
begin

text \<open>
  The way into the kernel and out of it, \<^verbatim>\<open>kernel/entry.S\<close> on the 32-bit machine: saving the
  registers of the interrupted code, the choice of a handler, system calls with their tracing, the
  work before the return to a user program and the return itself. The state is the machine at
  the label \<^verbatim>\<open>handle_exception\<close>, behind the trap, up to the machine before \<^verbatim>\<open>sret\<close>. The C
  functions are a parameter: a function \<open>eff\<close> tells what each may do to the saved registers, and
  the refinement says that the whole path does exactly that to the registers of the interrupted code.
\<close>

section \<open>Layout\<close>

datatype pt_field = PT_SEPC | PT_RA | PT_SP | PT_GP | PT_TP | PT_T0 | PT_T1 | PT_T2 | PT_S0 | PT_S1
  | PT_A0 | PT_A1 | PT_A2 | PT_A3 | PT_A4 | PT_A5 | PT_A6 | PT_A7 | PT_S2 | PT_S3 | PT_S4 | PT_S5
  | PT_S6 | PT_S7 | PT_S8 | PT_S9 | PT_S10 | PT_S11 | PT_T3 | PT_T4 | PT_T5 | PT_T6
  | PT_SSTATUS | PT_SBADADDR | PT_SCAUSE

primrec pt_index :: "pt_field \<Rightarrow> nat" where
  "pt_index PT_SEPC = 0" | "pt_index PT_RA = 1" | "pt_index PT_SP = 2" | "pt_index PT_GP = 3"
| "pt_index PT_TP = 4" | "pt_index PT_T0 = 5" | "pt_index PT_T1 = 6" | "pt_index PT_T2 = 7"
| "pt_index PT_S0 = 8" | "pt_index PT_S1 = 9" | "pt_index PT_A0 = 10" | "pt_index PT_A1 = 11"
| "pt_index PT_A2 = 12" | "pt_index PT_A3 = 13" | "pt_index PT_A4 = 14" | "pt_index PT_A5 = 15"
| "pt_index PT_A6 = 16" | "pt_index PT_A7 = 17" | "pt_index PT_S2 = 18" | "pt_index PT_S3 = 19"
| "pt_index PT_S4 = 20" | "pt_index PT_S5 = 21" | "pt_index PT_S6 = 22" | "pt_index PT_S7 = 23"
| "pt_index PT_S8 = 24" | "pt_index PT_S9 = 25" | "pt_index PT_S10 = 26" | "pt_index PT_S11 = 27"
| "pt_index PT_T3 = 28" | "pt_index PT_T4 = 29" | "pt_index PT_T5 = 30" | "pt_index PT_T6 = 31"
| "pt_index PT_SSTATUS = 32" | "pt_index PT_SBADADDR = 33" | "pt_index PT_SCAUSE = 34"

definition PT :: "pt_field \<Rightarrow> u32" where "PT f = of_nat (4 * pt_index f)"

definition PT_SIZE :: u32 where "PT_SIZE = 140"

text \<open>The structure at an address, and the registers of the interrupted code.\<close>

definition frame_at :: "(u32 \<Rightarrow> u32) \<Rightarrow> u32 \<Rightarrow> u32 pt_regs" where
  "frame_at ws a =
    \<lparr>sepc = ws (a + PT PT_SEPC), ra = ws (a + PT PT_RA), sp = ws (a + PT PT_SP),
     gp = ws (a + PT PT_GP), tp = ws (a + PT PT_TP), t0 = ws (a + PT PT_T0),
     t1 = ws (a + PT PT_T1), t2 = ws (a + PT PT_T2), s0 = ws (a + PT PT_S0),
     s1 = ws (a + PT PT_S1), a0 = ws (a + PT PT_A0), a1 = ws (a + PT PT_A1),
     a2 = ws (a + PT PT_A2), a3 = ws (a + PT PT_A3), a4 = ws (a + PT PT_A4),
     a5 = ws (a + PT PT_A5), a6 = ws (a + PT PT_A6), a7 = ws (a + PT PT_A7),
     s2 = ws (a + PT PT_S2), s3 = ws (a + PT PT_S3), s4 = ws (a + PT PT_S4),
     s5 = ws (a + PT PT_S5), s6 = ws (a + PT PT_S6), s7 = ws (a + PT PT_S7),
     s8 = ws (a + PT PT_S8), s9 = ws (a + PT PT_S9), s10 = ws (a + PT PT_S10),
     s11 = ws (a + PT PT_S11), t3 = ws (a + PT PT_T3), t4 = ws (a + PT PT_T4),
     t5 = ws (a + PT PT_T5), t6 = ws (a + PT PT_T6), sstatus = ws (a + PT PT_SSTATUS),
     sbadaddr = ws (a + PT PT_SBADADDR), scause = ws (a + PT PT_SCAUSE)\<rparr>"

definition interrupted :: "'x machine \<Rightarrow> u32 pt_regs" where
  "interrupted m =
    \<lparr>sepc = csrs m Sepc, ra = gpr m 1, sp = gpr m 2, gp = gpr m 3, tp = gpr m 4, t0 = gpr m 5,
     t1 = gpr m 6, t2 = gpr m 7, s0 = gpr m 8, s1 = gpr m 9, a0 = gpr m 10, a1 = gpr m 11,
     a2 = gpr m 12, a3 = gpr m 13, a4 = gpr m 14, a5 = gpr m 15, a6 = gpr m 16, a7 = gpr m 17,
     s2 = gpr m 18, s3 = gpr m 19, s4 = gpr m 20, s5 = gpr m 21, s6 = gpr m 22, s7 = gpr m 23,
     s8 = gpr m 24, s9 = gpr m 25, s10 = gpr m 26, s11 = gpr m 27, t3 = gpr m 28, t4 = gpr m 29,
     t5 = gpr m 30, t6 = gpr m 31, sstatus = csrs m Sstatus, sbadaddr = csrs m Sbadaddr,
     scause = csrs m Scause\<rparr>"

section \<open>Saving and restoring\<close>

definition pt_slots :: "(nat \<times> u32) list" where
  "pt_slots =
    [(1, PT PT_RA), (3, PT PT_GP), (4, PT PT_TP), (5, PT PT_T0), (6, PT PT_T1), (7, PT PT_T2),
     (8, PT PT_S0), (9, PT PT_S1), (10, PT PT_A0), (11, PT PT_A1), (12, PT PT_A2), (13, PT PT_A3),
     (14, PT PT_A4), (15, PT PT_A5), (16, PT PT_A6), (17, PT PT_A7), (18, PT PT_S2), (19, PT PT_S3),
     (20, PT PT_S4), (21, PT PT_S5), (22, PT PT_S6), (23, PT PT_S7), (24, PT PT_S8), (25, PT PT_S9),
     (26, PT PT_S10), (27, PT PT_S11), (28, PT PT_T3), (29, PT PT_T4), (30, PT PT_T5), (31, PT PT_T6)]"

definition SAVE_ALL :: "'x machine \<Rightarrow> 'x machine" where
  "SAVE_ALL m =
    (let m = run [Csrrw 2 Sscratch 2] m;
         m = (if rd m 2 \<noteq> 0 then m else run [Csrr 2 Sscratch] m);
         m = run [Addi 2 2 (- PT_SIZE)] m;
         m = run (saves 2 pt_slots) m;
         m = run [Li 5 SR_FS, Csrr 8 Sscratch, Csrrc 9 Sstatus 5, Csrr 18 Sepc, Csrr 19 Sbadaddr,
                  Csrr 20 Scause] m
     in run (saves 2 [(8, PT PT_SP), (9, PT PT_SSTATUS), (18, PT PT_SEPC), (19, PT PT_SBADADDR),
                      (20, PT PT_SCAUSE)]) m)"

definition RESTORE_ALL :: "'x machine \<Rightarrow> 'x machine" where
  "RESTORE_ALL m =
    (let m = run [Reg_l 10 (PT PT_SSTATUS) 2, Reg_l 12 (PT PT_SEPC) 2, Csrw Sstatus 10, Csrw Sepc 12] m;
         m = run (loads 2 pt_slots) m
     in run [Reg_l 2 (PT PT_SP) 2] m)"

section \<open>The C functions\<close>

text \<open>
  The functions the entry code calls: a handler of the exception table or \<^verbatim>\<open>do_IRQ\<close>, the
  system call with a number, and the helpers. Each maps the machine at its entry to the machine at
  its return; \<open>None\<close> is a function that does not return. The remaining fields are the addresses and
  offsets that the linker and the kernel proper fix.
\<close>

datatype c_func = C_handler handler | C_syscall u32 | C_sys_ni_syscall | C_do_syscall_trace_enter
  | C_do_syscall_trace_exit | C_schedule | C_do_notify_resume | C_schedule_tail | C_thread u32

record 'x kernel =
  c_code :: "c_func \<Rightarrow> 'x machine \<Rightarrow> 'x machine option"
  ret_from_exception_addr :: u32
  behind_call :: "c_func \<Rightarrow> u32"
  gp_addr :: u32
  vect_table_addr :: u32
  ni_syscall_addr :: u32
  call_table_addr :: u32
  NR_syscalls :: u32
  TASK_THREAD_INFO :: u32

definition THREAD_SIZE :: u32 where "THREAD_SIZE = 0x2000"
definition TI_TASK :: u32 where "TI_TASK = 0"
definition TI_FLAGS :: u32 where "TI_FLAGS = 4"
definition TIF_SYSCALL_TRACE_BIT :: u32 where "TIF_SYSCALL_TRACE_BIT = push_bit 0 1"
definition TIF_NOTIFY_RESUME_BIT :: u32 where "TIF_NOTIFY_RESUME_BIT = push_bit 1 1"
definition TIF_SIGPENDING_BIT :: u32 where "TIF_SIGPENDING_BIT = push_bit 2 1"
definition TIF_NEED_RESCHED_BIT :: u32 where "TIF_NEED_RESCHED_BIT = push_bit 3 1"
definition TIF_WORK_MASK :: u32 where
  "TIF_WORK_MASK = TIF_NOTIFY_RESUME_BIT OR TIF_SIGPENDING_BIT OR TIF_NEED_RESCHED_BIT"

section \<open>The way out\<close>

definition read_flags :: "'x kernel \<Rightarrow> nat \<Rightarrow> insn list" where
  "read_flags k r = [Reg_l r (TASK_THREAD_INFO k) 4, Reg_l r TI_FLAGS r]"

text \<open>
  \<^verbatim>\<open>ret_from_exception\<close>, \<^verbatim>\<open>resume_userspace\<close>, \<^verbatim>\<open>work_pending\<close> and
  \<^verbatim>\<open>restore_all\<close>: the functions called for pending work return to the first label.
\<close>

partial_function (option) ret_from_exception :: "'x kernel \<Rightarrow> 'x machine \<Rightarrow> 'x machine option" where
  "ret_from_exception k m =
    (let m = run [Reg_l 8 (PT PT_SSTATUS) 2, Csrc Sstatus SR_IE, Andi 8 8 SR_PS] m
     in if rd m 8 \<noteq> 0 then Some (RESTORE_ALL m)
        else
          (let m = run (read_flags k 8 @ [Andi 9 8 TIF_WORK_MASK]) m
           in if rd m 9 = 0 then Some (RESTORE_ALL (run [Addi 8 2 PT_SIZE, Csrw Sscratch 8] m))
              else
                (let m = run [Li 1 (ret_from_exception_addr k), Andi 9 8 TIF_NEED_RESCHED_BIT] m
                 in if rd m 9 \<noteq> 0 then do { m \<leftarrow> c_code k C_schedule m; ret_from_exception k m }
                    else do {
                      m \<leftarrow> c_code k C_do_notify_resume (run [Csrs Sstatus SR_IE, Mv 10 2, Mv 11 8] m);
                      ret_from_exception k m })))"

section \<open>System calls\<close>

definition ret_from_syscall :: "'x kernel \<Rightarrow> 'x machine \<Rightarrow> 'x machine option" where
  "ret_from_syscall k m =
    (let m = run ([Reg_s 10 (PT PT_A0) 2] @ read_flags k 5 @ [Andi 5 5 TIF_SYSCALL_TRACE_BIT]) m
     in if rd m 5 \<noteq> 0
        then do {
          m \<leftarrow> c_code k C_do_syscall_trace_exit
            (run [Mv 10 2, Li 1 (behind_call k C_do_syscall_trace_exit)] m);
          ret_from_exception k m }
        else ret_from_exception k m)"

definition check_syscall_nr :: "'x kernel \<Rightarrow> 'x machine \<Rightarrow> 'x machine option" where
  "check_syscall_nr k m =
    (let m = run [Li 5 (NR_syscalls k), Li 8 (ni_syscall_addr k)] m
     in if rd m 5 \<le> rd m 17
        then do {
          m \<leftarrow> c_code k C_sys_ni_syscall (run [Li 1 (behind_call k C_sys_ni_syscall)] m);
          ret_from_syscall k m }
        else
          (let m = run [Li 8 (call_table_addr k), Slli 5 17 2, Add 8 8 5, Reg_l 8 0 8] m; f = C_syscall (rd m 17)
           in do { m \<leftarrow> c_code k f (run [Li 1 (behind_call k f)] m); ret_from_syscall k m }))"

definition handle_syscall_trace_enter :: "'x kernel \<Rightarrow> 'x machine \<Rightarrow> 'x machine option" where
  "handle_syscall_trace_enter k m =
    do {
      m \<leftarrow> c_code k C_do_syscall_trace_enter (run [Mv 10 2, Li 1 (behind_call k C_do_syscall_trace_enter)] m);
      check_syscall_nr k
        (run (loads 2 [(10, PT PT_A0), (11, PT PT_A1), (12, PT PT_A2), (13, PT PT_A3), (14, PT PT_A4),
                       (15, PT PT_A5), (16, PT PT_A6), (17, PT PT_A7)]) m) }"

definition handle_syscall :: "'x kernel \<Rightarrow> 'x machine \<Rightarrow> 'x machine option" where
  "handle_syscall k m =
    (let m = run ([Addi 18 18 4, Reg_s 18 (PT PT_SEPC) 2, Csrs Sstatus SR_IE] @ read_flags k 5
                  @ [Andi 5 5 TIF_SYSCALL_TRACE_BIT]) m
     in if rd m 5 \<noteq> 0 then handle_syscall_trace_enter k m else check_syscall_nr k m)"

section \<open>The way in\<close>

definition enter_kernel :: "'x kernel \<Rightarrow> 'x machine \<Rightarrow> 'x machine" where
  "enter_kernel k m =
    run [Csrw Sscratch 0, Li 4 (NOT (THREAD_SIZE - 1)), And 4 4 2, Reg_l 4 TI_TASK 4,
         Li 3 (gp_addr k), Li 1 (ret_from_exception_addr k)] (SAVE_ALL m)"

definition handle_exception :: "'x kernel \<Rightarrow> 'x machine \<Rightarrow> 'x machine option" where
  "handle_exception k m =
    (let m = enter_kernel k m
     in if sint (rd m 20) < 0
        then do {
          m \<leftarrow> c_code k (C_handler Do_IRQ) (run [Slli 10 20 1, Srli 10 10 1, Mv 11 2] m);
          ret_from_exception k m }
        else
          (let m = run [Li 5 EXC_SYSCALL] m
           in if rd m 20 = rd m 5 then handle_syscall k m
              else
                (let m = run [Slli 5 20 2, Li 6 (vect_table_addr k),
                              Li 7 (vect_table_addr k + of_nat (4 * length excp_vect_table)),
                              Mv 10 2, Add 5 6 5] m;
                     m = (if unat (rd m 20) < length excp_vect_table then run [Reg_l 5 0 5] m else m)
                 in do { m \<leftarrow> c_code k (C_handler (dispatch (rd m 20))) m; ret_from_exception k m })))"

text \<open>
  The stops of a traced system call in \<^verbatim>\<open>kernel/ptrace.c\<close>: \<open>flag\<close> is
  \<^verbatim>\<open>TIF_SYSCALL_TRACE\<close>; \<open>report\<close> is the tracer's call-back, which may change the registers and
  tells whether the call is denied. The trace points only read.
\<close>

definition do_syscall_trace_enter ::
    "(u32 pt_regs \<Rightarrow> bool \<times> u32 pt_regs) \<Rightarrow> bool \<Rightarrow> u32 pt_regs \<Rightarrow> u32 pt_regs" where
  "do_syscall_trace_enter report flag regs =
    (if flag then (let (deny, regs) = report regs in if deny then syscall_set_nr regs (- 1) else regs)
     else regs)"

definition do_syscall_trace_exit :: "(u32 pt_regs \<Rightarrow> u32 pt_regs) \<Rightarrow> bool \<Rightarrow> u32 pt_regs \<Rightarrow> u32 pt_regs" where
  "do_syscall_trace_exit report flag regs = (if flag then report regs else regs)"

section \<open>New tasks\<close>

definition start_forked :: "'x kernel \<Rightarrow> 'x machine \<Rightarrow> 'x machine option" where
  "start_forked k m =
    do { m \<leftarrow> c_code k C_schedule_tail (run [Li 1 (ret_from_exception_addr k)] m); ret_from_exception k m }"

definition start_kernel_thread :: "'x kernel \<Rightarrow> 'x machine \<Rightarrow> 'x machine option" where
  "start_kernel_thread k m =
    do {
      m \<leftarrow> c_code k C_schedule_tail (run [Li 1 (behind_call k C_schedule_tail)] m);
      m \<leftarrow> c_code k (C_thread (rd m 8)) (run [Li 1 (ret_from_exception_addr k), Mv 10 9] m);
      ret_from_exception k m }"

section \<open>The specification\<close>

text \<open>
  What a C function may do to the saved registers: its arguments \<^verbatim>\<open>a0\<close> to \<^verbatim>\<open>a7\<close>, the
  registers before and after, and the value it returns. The calling convention: a function keeps
  the stack pointer, \<^verbatim>\<open>gp\<close>, the current task in \<^verbatim>\<open>tp\<close> and the callee-saved registers, and
  leaves \<^verbatim>\<open>sscratch\<close> as it was. \<^verbatim>\<open>schedule\<close> is seen from the task that calls it.
\<close>

type_synonym effect = "c_func \<Rightarrow> (nat \<Rightarrow> u32) \<Rightarrow> u32 pt_regs \<Rightarrow> u32 pt_regs \<Rightarrow> u32 \<Rightarrow> bool"

definition callee_saved :: "nat list" where
  "callee_saved = [2, 3, 4, 8, 9, 18, 19, 20, 21, 22, 23, 24, 25, 26, 27]"

definition c_contract :: "'x kernel \<Rightarrow> effect \<Rightarrow> bool" where
  "c_contract k eff \<longleftrightarrow>
    (\<forall>f m m'. c_code k f m = Some m' \<longrightarrow>
       (\<forall>r \<in> set callee_saved. gpr m' r = gpr m r) \<and> csrs m' Sscratch = csrs m Sscratch
       \<and> eff f (\<lambda>i. gpr m (10 + i)) (frame_at (mem m) (gpr m 2)) (frame_at (mem m') (gpr m 2)) (gpr m' 10))"

definition syscall_function :: "u32 \<Rightarrow> u32 pt_regs \<Rightarrow> c_func" where
  "syscall_function nr fr = (if nr \<le> a7 fr then C_sys_ni_syscall else C_syscall (a7 fr))"

definition syscall_args :: "(nat \<Rightarrow> u32) \<Rightarrow> u32 pt_regs \<Rightarrow> bool" where
  "syscall_args args fr \<longleftrightarrow> args 0 = a0 fr \<and> args 1 = a1 fr \<and> args 2 = a2 fr \<and> args 3 = a3 fr
    \<and> args 4 = a4 fr \<and> args 5 = a5 fr \<and> args 6 = a6 fr"

text \<open>One stop of a traced system call: the saved registers before and after.\<close>

definition traced :: "effect \<Rightarrow> u32 \<Rightarrow> c_func \<Rightarrow> u32 pt_regs \<Rightarrow> u32 pt_regs \<Rightarrow> bool" where
  "traced eff a f fr fr' \<longleftrightarrow> fr' = fr \<or> (\<exists>args v. args 0 = a \<and> eff f args fr fr' v)"

text \<open>
  How an exception is served, as a relation on the saved registers at address \<open>a\<close>: \<open>nr\<close> is
  the number of system calls.
\<close>

inductive trap_served :: "u32 \<Rightarrow> effect \<Rightarrow> u32 \<Rightarrow> u32 pt_regs \<Rightarrow> u32 pt_regs \<Rightarrow> bool" for nr eff a where
  interrupt: "sint (scause fr) < 0 \<Longrightarrow> args 0 = take_bit 31 (scause fr) \<Longrightarrow> args 1 = a
    \<Longrightarrow> eff (C_handler Do_IRQ) args fr fr' v \<Longrightarrow> trap_served nr eff a fr fr'"
| exception: "\<not> sint (scause fr) < 0 \<Longrightarrow> scause fr \<noteq> EXC_SYSCALL \<Longrightarrow> args 0 = a
    \<Longrightarrow> eff (C_handler (dispatch (scause fr))) args fr fr' v \<Longrightarrow> trap_served nr eff a fr fr'"
| syscall: "scause fr = EXC_SYSCALL \<Longrightarrow> traced eff a C_do_syscall_trace_enter (syscall_enter fr) fr1
    \<Longrightarrow> syscall_args args fr1 \<Longrightarrow> eff (syscall_function nr fr1) args fr1 fr2 v
    \<Longrightarrow> traced eff a C_do_syscall_trace_exit (syscall_leave v fr2) fr'
    \<Longrightarrow> trap_served nr eff a fr fr'"

text \<open>The work before the return to a user program.\<close>

inductive work_step :: "effect \<Rightarrow> u32 \<Rightarrow> u32 pt_regs \<Rightarrow> u32 pt_regs \<Rightarrow> bool" for eff a where
  resched: "user_mode fr \<Longrightarrow> eff C_schedule args fr fr' v \<Longrightarrow> work_step eff a fr fr'"
| notify: "user_mode fr \<Longrightarrow> args 0 = a \<Longrightarrow> eff C_do_notify_resume args fr fr' v \<Longrightarrow> work_step eff a fr fr'"

definition work_pending :: "'x kernel \<Rightarrow> u32 \<Rightarrow> (u32 \<Rightarrow> u32) \<Rightarrow> bool" where
  "work_pending k task ws \<longleftrightarrow> ws (ws (task + TASK_THREAD_INFO k) + TI_FLAGS) AND TIF_WORK_MASK \<noteq> 0"

section \<open>Lemmas\<close>

lemmas pt_offsets = PT_def PT_SIZE_def

lemma pt_slots_facts:
  "distinct (map snd pt_slots)" "distinct (map fst pt_slots)" "0 \<notin> fst ` set pt_slots"
  "2 \<notin> fst ` set pt_slots"
  by (simp_all add: pt_slots_def PT_def)

definition frame_top :: "'x machine \<Rightarrow> u32" where
  "frame_top m = (if csrs m Sscratch = 0 then gpr m 2 else csrs m Sscratch)"

lemma save_all:
  fixes m :: "'x machine"
  defines "n \<equiv> SAVE_ALL m" and "a \<equiv> frame_top m - PT_SIZE"
  shows "gpr n 2 = a"
    and "frame_at (mem n) a = interrupted m"
    and "csrs n = (csrs m)(Sscratch := gpr m 2, Sstatus := csrs m Sstatus AND NOT SR_FS)"
    and "r \<notin> {2, 5, 8, 9, 18, 19, 20} \<Longrightarrow> gpr n r = gpr m r"
    and "gpr n 20 = csrs m Scause" "gpr n 18 = csrs m Sepc"
    and "unat (b - a) \<ge> 140 \<Longrightarrow> mem n b = mem m b"
    and "world n = world m"
proof -
  define m1 where "m1 = run [Addi 2 2 (- PT_SIZE)]
    (let m = run [Csrrw 2 Sscratch 2] m in if rd m 2 \<noteq> 0 then m else run [Csrr 2 Sscratch] m)"
  define m2 where "m2 = run (saves 2 pt_slots) m1"
  define m3 where "m3 = run [Li 5 SR_FS, Csrr 8 Sscratch, Csrrc 9 Sstatus 5, Csrr 18 Sepc, Csrr 19 Sbadaddr,
                  Csrr 20 Scause] m2"
  define last5 where "last5 = [(8 :: nat, PT PT_SP), (9, PT PT_SSTATUS), (18, PT PT_SEPC), (19, PT PT_SBADADDR),
                      (20, PT PT_SCAUSE)]"
  have n: "n = run (saves 2 last5) m3"
    by (simp add: n_def SAVE_ALL_def m3_def m2_def m1_def last5_def Let_def)
  have m1: "gpr m1 = (gpr m)(2 := a)" "csrs m1 = (csrs m)(Sscratch := gpr m 2)" "mem m1 = mem m"
      "world m1 = world m"
    by (auto simp: m1_def csr_ops a_def frame_top_def fun_eq_iff Let_def)
  have m3: "gpr m3 = (gpr m1)(5 := SR_FS, 8 := csrs m1 Sscratch, 9 := csrs m1 Sstatus, 18 := csrs m1 Sepc,
       19 := csrs m1 Sbadaddr, 20 := csrs m1 Scause)"
      "csrs m3 = (csrs m1)(Sstatus := csrs m1 Sstatus AND NOT SR_FS)" "mem m3 = mem m2" "world m3 = world m1"
    by (simp_all add: m3_def m2_def csr_ops)
  show "gpr n 2 = a" by (simp add: n m3 m1)
  show "csrs n = (csrs m)(Sscratch := gpr m 2, Sstatus := csrs m Sstatus AND NOT SR_FS)"
    by (simp add: n m3 m1)
  show "gpr n 20 = csrs m Scause" "gpr n 18 = csrs m Sepc" "world n = world m" by (simp_all add: n m3 m1)
  show "gpr n r = gpr m r" if "r \<notin> {2, 5, 8, 9, 18, 19, 20}" using that by (simp add: n m3 m1)
  have base: "rd m1 2 = a" "rd m3 2 = a" by (simp_all add: m1 m3)
  have first: "\<forall>(r, off) \<in> set pt_slots. mem m2 (a + off) = rd m1 r"
    using run_saves_at [OF pt_slots_facts(1), where m = m1 and b = 2] base by (auto simp: m2_def)
  have keep: "\<forall>(r, off) \<in> set pt_slots. mem n (a + off) = mem m2 (a + off)"
    using run_saves_other [where m = m3 and b = 2 and xs = last5] base
    by (simp add: n m3 pt_slots_def last5_def PT_def)
  have slots: "\<forall>(r, off) \<in> set pt_slots. mem n (a + off) = rd m1 r" using first keep by fastforce
  have late: "\<forall>(r, off) \<in> set last5. mem n (a + off) = rd m3 r"
    using run_saves_at [where m = m3 and b = 2 and xs = last5] base
    by (simp add: n last5_def PT_def)
  show "frame_at (mem n) a = interrupted m"
    using slots late by (simp add: frame_at_def interrupted_def pt_slots_def last5_def m3 m1)
  show "mem n b = mem m b" if far: "unat (b - a) \<ge> 140"
  proof -
    have "\<forall>x \<in> snd ` set (pt_slots @ last5). unat x < 140"
      by (simp add: pt_slots_def last5_def PT_def)
    then have "b - a \<notin> snd ` set (pt_slots @ last5)"
      using far by (meson linorder_not_less)
    then have "b - a \<notin> snd ` set pt_slots" "b - a \<notin> snd ` set last5"
      by (simp_all add: image_Un)
    then show ?thesis
      using run_saves_other [of b m3 2 last5] run_saves_other [of b m1 2 pt_slots] base
      by (simp add: n m3 m2_def m1)
  qed
qed

lemma restore_all:
  fixes m :: "'x machine"
  defines "n \<equiv> RESTORE_ALL m" and "fr \<equiv> frame_at (mem m) (gpr m 2)"
  shows "interrupted n = fr\<lparr>sbadaddr := csrs n Sbadaddr, scause := csrs n Scause\<rparr>"
    and "csrs n Sscratch = csrs m Sscratch" and "mem n = mem m" and "world n = world m"
proof -
  define m1 where "m1 = run [Reg_l 10 (PT PT_SSTATUS) 2, Reg_l 12 (PT PT_SEPC) 2, Csrw Sstatus 10, Csrw Sepc 12] m"
  have m1: "csrs m1 = (csrs m)(Sstatus := sstatus fr, Sepc := sepc fr)" "mem m1 = mem m" "gpr m1 2 = gpr m 2"
      "world m1 = world m"
    by (simp_all add: m1_def csr_ops fr_def frame_at_def)
  define m2 where "m2 = run (loads 2 pt_slots) m1"
  have n: "n = exec (Reg_l 2 (PT PT_SP) 2) m2"
    by (simp add: n_def RESTORE_ALL_def m1_def m2_def Let_def)
  have m2: "gpr m2 2 = gpr m 2" "csrs m2 = csrs m1" "mem m2 = mem m" "world m2 = world m"
    by (simp_all add: m2_def run_loads_other pt_slots_facts m1)
  then have two: "gpr n = (gpr m2)(2 := sp fr)"
    by (simp add: n fr_def frame_at_def)
  have slots: "\<forall>(r, off) \<in> set pt_slots. gpr m2 r = mem m (gpr m 2 + off)"
    using run_loads_at [OF pt_slots_facts(2) _ pt_slots_facts(3,4), where m = m1]
    by (auto simp: m1 m2_def)
  have rest: "csrs n = csrs m1" by (simp add: n m2)
  show "interrupted n = fr\<lparr>sbadaddr := csrs n Sbadaddr, scause := csrs n Scause\<rparr>"
    using slots by (simp add: interrupted_def two rest m1 pt_slots_def) (simp add: fr_def frame_at_def)
  show "csrs n Sscratch = csrs m Sscratch" "mem n = mem m" "world n = world m" by (simp_all add: n m1 m2)
qed

section \<open>The refinement\<close>

lemma c_contractD:
  assumes "c_contract k eff" and "c_code k f m = Some m'"
  shows "gpr m' 2 = gpr m 2" "gpr m' 4 = gpr m 4" "gpr m' 8 = gpr m 8" "gpr m' 9 = gpr m 9"
    "gpr m' 18 = gpr m 18" "csrs m' Sscratch = csrs m Sscratch"
    "eff f (\<lambda>i. gpr m (10 + i)) (frame_at (mem m) (gpr m 2)) (frame_at (mem m') (gpr m 2)) (gpr m' 10)"
  using assms unfolding c_contract_def callee_saved_def by simp_all

lemma sstatus_frame: "ws (a + PT PT_SSTATUS) = sstatus (frame_at ws a)"
  by (simp add: frame_at_def)

text \<open>What a machine before \<^verbatim>\<open>sret\<close> resumes: the saved registers \<open>fr\<close> at \<open>a\<close>.\<close>

definition resumes :: "'x machine \<Rightarrow> u32 \<Rightarrow> u32 pt_regs \<Rightarrow> bool" where
  "resumes m a fr \<longleftrightarrow>
    interrupted m = fr\<lparr>sbadaddr := csrs m Sbadaddr, scause := csrs m Scause\<rparr>
    \<and> csrs m Sscratch = (if user_mode fr then a + PT_SIZE else 0)"

lemma restore_resumes:
  assumes "gpr m 2 = a" and "csrs m Sscratch = (if user_mode (frame_at (mem m) a) then a + PT_SIZE else 0)"
  shows "resumes (RESTORE_ALL m) a (frame_at (mem m) a)" "mem (RESTORE_ALL m) = mem m"
  using restore_all [of m] assms by (simp_all add: resumes_def)

lemma ret_from_exception_spec:
  assumes "ret_from_exception k m = Some m'" and "c_contract k eff" and "csrs m Sscratch = 0"
  shows "\<exists>fr. (work_step eff (gpr m 2))\<^sup>*\<^sup>* (frame_at (mem m) (gpr m 2)) fr \<and> resumes m' (gpr m 2) fr
    \<and> (user_mode fr \<longrightarrow> \<not> work_pending k (gpr m 4) (mem m'))"
  using assms
proof (induction rule: ret_from_exception.raw_induct [rotated, consumes 1, case_names step])
  case (step rec k m m')
  define a where "a = gpr m 2"
  define fr where "fr = frame_at (mem m) a"
  define m1 where "m1 = run [Reg_l 8 (PT PT_SSTATUS) 2, Csrc Sstatus SR_IE, Andi 8 8 SR_PS] m"
  define m2 where "m2 = run (read_flags k 8 @ [Andi 9 8 TIF_WORK_MASK]) m1"
  define m3 where "m3 = run [Li 1 (ret_from_exception_addr k), Andi 9 8 TIF_NEED_RESCHED_BIT] m2"
  define m4 where "m4 = run [Csrs Sstatus SR_IE, Mv 10 2, Mv 11 8] m3"
  have m1: "gpr m1 2 = a" "gpr m1 4 = gpr m 4" "mem m1 = mem m" "csrs m1 Sscratch = 0"
      "rd m1 8 \<noteq> 0 \<longleftrightarrow> \<not> user_mode fr"
    using step.prems(2) by (simp_all add: m1_def a_def fr_def csr_ops sstatus_frame user_mode_def)
  have m2: "gpr m2 2 = a" "gpr m2 4 = gpr m 4" "mem m2 = mem m" "csrs m2 Sscratch = 0"
      "rd m2 9 = 0 \<longleftrightarrow> \<not> work_pending k (gpr m 4) (mem m)"
    by (simp_all add: m2_def m1 read_flags_def work_pending_def)
  have m3: "gpr m3 2 = a" "gpr m3 4 = gpr m 4" "mem m3 = mem m" "csrs m3 Sscratch = 0"
    by (simp_all add: m3_def m2)
  have m4: "gpr m4 2 = a" "gpr m4 4 = gpr m 4" "mem m4 = mem m" "csrs m4 Sscratch = 0" "gpr m4 10 = a"
    by (simp_all add: m4_def m3 csr_ops)
  have "(if rd m1 8 \<noteq> 0 then Some (RESTORE_ALL m1)
      else if rd m2 9 = 0 then Some (RESTORE_ALL (run [Addi 8 2 PT_SIZE, Csrw Sscratch 8] m2))
      else if rd m3 9 \<noteq> 0 then do { m \<leftarrow> c_code k C_schedule m3; rec k m }
      else do { m \<leftarrow> c_code k C_do_notify_resume m4; rec k m }) = Some m'"
    using step(2) unfolding m4_def m3_def m2_def m1_def Let_def .
  then have body: "(if \<not> user_mode fr then Some (RESTORE_ALL m1)
      else if \<not> work_pending k (gpr m 4) (mem m)
      then Some (RESTORE_ALL (run [Addi 8 2 PT_SIZE, Csrw Sscratch 8] m2))
      else if rd m3 9 \<noteq> 0 then do { m \<leftarrow> c_code k C_schedule m3; rec k m }
      else do { m \<leftarrow> c_code k C_do_notify_resume m4; rec k m }) = Some m'"
    unfolding m1(5) m2(5) .
  consider (kernel) "\<not> user_mode fr" | (user) "user_mode fr" "\<not> work_pending k (gpr m 4) (mem m)"
    | (sched) "user_mode fr" "work_pending k (gpr m 4) (mem m)" "rd m3 9 \<noteq> 0"
    | (notify) "user_mode fr" "work_pending k (gpr m 4) (mem m)" "rd m3 9 = 0" by blast
  then show ?case
  proof cases
    case kernel
    then have m': "m' = RESTORE_ALL m1" using body by simp
    have "resumes m' a fr"
      using restore_resumes [of m1 a] kernel by (simp add: m' m1 fr_def)
    then show ?thesis using kernel by (auto simp: fr_def a_def)
  next
    case user
    define m5 where "m5 = run [Addi 8 2 PT_SIZE, Csrw Sscratch 8] m2"
    have m5: "gpr m5 2 = a" "mem m5 = mem m" "csrs m5 Sscratch = a + PT_SIZE"
      by (simp_all add: m5_def m2 csr_ops)
    have m': "m' = RESTORE_ALL m5" using body user by (simp add: m5_def)
    have "resumes m' a fr" "mem m' = mem m"
      using restore_resumes [of m5 a] user by (simp_all add: m' m5 fr_def)
    then show ?thesis using user by (auto simp: fr_def a_def)
  next
    case sched
    then obtain n where n: "c_code k C_schedule m3 = Some n" "rec k n = Some m'"
      using body by (auto simp: bind_eq_Some_conv)
    note c = c_contractD [OF step.prems(1) n(1)]
    have "work_step eff a fr (frame_at (mem n) a)"
      using work_step.resched [of fr eff] sched c(7) by (simp add: m3 fr_def)
    then show ?thesis
      using step(1) [OF n(2) step.prems(1)] c
      by (auto simp: m3 fr_def a_def intro: converse_rtranclp_into_rtranclp)
  next
    case notify
    then obtain n where n: "c_code k C_do_notify_resume m4 = Some n" "rec k n = Some m'"
      using body by (auto simp: bind_eq_Some_conv)
    note c = c_contractD [OF step.prems(1) n(1)]
    have "eff C_do_notify_resume (\<lambda>i. gpr m4 (10 + i)) fr (frame_at (mem n) a) (gpr n 10)"
      using c(7) by (simp add: m4 fr_def)
    from work_step.notify [where args = "\<lambda>i. gpr m4 (10 + i)" and eff = eff, OF notify(1) _ this] have "work_step eff a fr (frame_at (mem n) a)"
      using m4 by simp
    then show ?thesis
      using step(1) [OF n(2) step.prems(1)] c
      by (auto simp: m4 fr_def a_def intro: converse_rtranclp_into_rtranclp)
  qed
qed

text \<open>The ways from a point inside the kernel to the resumed code.\<close>

definition leaves :: "'x kernel \<Rightarrow> effect \<Rightarrow> u32 \<Rightarrow> u32 \<Rightarrow> u32 pt_regs \<Rightarrow> 'x machine \<Rightarrow> bool" where
  "leaves k eff a task fr m' \<longleftrightarrow>
    (\<exists>fr'. (work_step eff a)\<^sup>*\<^sup>* fr fr' \<and> resumes m' a fr' \<and> (user_mode fr' \<longrightarrow> \<not> work_pending k task (mem m')))"

definition inside :: "'x machine \<Rightarrow> u32 \<Rightarrow> u32 \<Rightarrow> u32 pt_regs \<Rightarrow> bool" where
  "inside m a task fr \<longleftrightarrow>
    gpr m 2 = a \<and> gpr m 4 = task \<and> csrs m Sscratch = 0 \<and> frame_at (mem m) a = fr"

lemma inside_ret:
  "inside m a task fr \<Longrightarrow> c_contract k eff \<Longrightarrow> ret_from_exception k m = Some m' \<Longrightarrow> leaves k eff a task fr m'"
  using ret_from_exception_spec [of k m m' eff] by (auto simp: inside_def leaves_def)

lemma inside_call:
  assumes "inside m a task fr" and "c_contract k eff" and "c_code k f m = Some m'"
  shows "inside m' a task (frame_at (mem m') a)"
    and "eff f (\<lambda>i. gpr m (10 + i)) fr (frame_at (mem m') a) (gpr m' 10)"
  using c_contractD [OF assms(2,3)] assms(1) by (simp_all add: inside_def)

lemma frame_at_upd [simp]:
  "frame_at (ws(a + PT PT_SEPC := v)) a = (frame_at ws a)\<lparr>sepc := v\<rparr>"
  "frame_at (ws(a + PT PT_A0 := v)) a = (frame_at ws a)\<lparr>a0 := v\<rparr>"
  by (simp_all add: frame_at_def PT_def)

lemma ret_from_syscall_spec:
  assumes "inside m a task fr" and "c_contract k eff" and "ret_from_syscall k m = Some m'"
  shows "\<exists>fr'. traced eff a C_do_syscall_trace_exit (syscall_leave (gpr m 10) fr) fr' \<and> leaves k eff a task fr' m'"
proof -
  define m1 where "m1 = run ([Reg_s 10 (PT PT_A0) 2] @ read_flags k 5 @ [Andi 5 5 TIF_SYSCALL_TRACE_BIT]) m"
  define m2 where "m2 = run [Mv 10 2, Li 1 (behind_call k C_do_syscall_trace_exit)] m1"
  have m1: "inside m1 a task (syscall_leave (gpr m 10) fr)"
    using assms(1) by (auto simp: inside_def m1_def read_flags_def syscall_leave_def)
  then have m2: "inside m2 a task (syscall_leave (gpr m 10) fr)" "gpr m2 10 = a"
    by (auto simp: inside_def m2_def)
  have "(if rd m1 5 \<noteq> 0
        then do { m \<leftarrow> c_code k C_do_syscall_trace_exit m2; ret_from_exception k m }
        else ret_from_exception k m1) = Some m'"
    using assms(3) unfolding ret_from_syscall_def m2_def m1_def Let_def .
  then consider "ret_from_exception k m1 = Some m'"
    | n where "c_code k C_do_syscall_trace_exit m2 = Some n" "ret_from_exception k n = Some m'"
    by (auto split: if_splits simp: bind_eq_Some_conv)
  then show ?thesis
  proof cases
    case 1
    then show ?thesis using inside_ret [OF m1 assms(2)] by (auto simp: traced_def)
  next
    case 2
    note call = inside_call [OF m2(1) assms(2) 2(1)]
    show ?thesis
      using inside_ret [OF call(1) assms(2) 2(2)] call(2) m2(2)
      by (auto simp: traced_def intro!: exI [of _ "\<lambda>i. gpr m2 (10 + i)"])
  qed
qed

lemma check_syscall_nr_spec:
  assumes "inside m a task fr" and "c_contract k eff" and "check_syscall_nr k m = Some m'"
    and "syscall_args (\<lambda>i. gpr m (10 + i)) fr" and "gpr m 17 = a7 fr"
  shows "\<exists>args fr2 v fr'. syscall_args args fr \<and> eff (syscall_function (NR_syscalls k) fr) args fr fr2 v
    \<and> traced eff a C_do_syscall_trace_exit (syscall_leave v fr2) fr' \<and> leaves k eff a task fr' m'"
proof -
  define f where "f = syscall_function (NR_syscalls k) fr"
  define m1 where "m1 = run [Li 5 (NR_syscalls k), Li 8 (ni_syscall_addr k)] m"
  define m2 where "m2 = (if f = C_sys_ni_syscall then m1
     else run [Li 8 (call_table_addr k), Slli 5 17 2, Add 8 8 5, Reg_l 8 0 8] m1)"
  define m3 where "m3 = run [Li 1 (behind_call k f)] m2"
  have m3: "inside m3 a task fr" "syscall_args (\<lambda>i. gpr m3 (10 + i)) fr"
    using assms(1,4) by (auto simp: inside_def m3_def m2_def m1_def syscall_args_def)
  have "(if rd m1 5 \<le> rd m1 17 then f = C_sys_ni_syscall else f = C_syscall (rd m1 17))"
    "rd (run [Li 8 (call_table_addr k), Slli 5 17 2, Add 8 8 5, Reg_l 8 0 8] m1) 17 = rd m1 17"
    using assms(5) by (auto simp: f_def m1_def syscall_function_def)
  then have "do { m \<leftarrow> c_code k f m3; ret_from_syscall k m } = Some m'"
    using assms(3) unfolding check_syscall_nr_def m1_def [symmetric] Let_def m3_def m2_def
    by (auto split: if_splits)
  then obtain n where n: "c_code k f m3 = Some n" "ret_from_syscall k n = Some m'"
    by (auto simp: bind_eq_Some_conv)
  note call = inside_call [OF m3(1) assms(2) n(1)]
  show ?thesis
    using ret_from_syscall_spec [OF call(1) assms(2) n(2)] call(2) m3(2) unfolding f_def by blast
qed

lemma handle_syscall_trace_enter_spec:
  assumes "inside m a task fr" and "c_contract k eff" and "handle_syscall_trace_enter k m = Some m'"
  shows "\<exists>args w fr1 n. args 0 = a \<and> eff C_do_syscall_trace_enter args fr fr1 w \<and> inside n a task fr1
    \<and> syscall_args (\<lambda>i. gpr n (10 + i)) fr1 \<and> gpr n 17 = a7 fr1 \<and> check_syscall_nr k n = Some m'"
proof -
  define m2 where "m2 = run [Mv 10 2, Li 1 (behind_call k C_do_syscall_trace_enter)] m"
  have m2: "inside m2 a task fr" "gpr m2 10 = a" using assms(1) by (auto simp: inside_def m2_def)
  obtain m3 where m3: "c_code k C_do_syscall_trace_enter m2 = Some m3"
      "check_syscall_nr k (run (loads 2 [(10, PT PT_A0), (11, PT PT_A1), (12, PT PT_A2), (13, PT PT_A3),
          (14, PT PT_A4), (15, PT PT_A5), (16, PT PT_A6), (17, PT PT_A7)]) m3) = Some m'"
    using assms(3) unfolding handle_syscall_trace_enter_def m2_def by (auto simp: bind_eq_Some_conv)
  note call = inside_call [OF m2(1) assms(2) m3(1)]
  show ?thesis
  proof (intro exI conjI)
    show "check_syscall_nr k (run (loads 2 [(10, PT PT_A0), (11, PT PT_A1), (12, PT PT_A2), (13, PT PT_A3),
          (14, PT PT_A4), (15, PT PT_A5), (16, PT PT_A6), (17, PT PT_A7)]) m3) = Some m'" by (rule m3(2))
    show "eff C_do_syscall_trace_enter (\<lambda>i. gpr m2 (10 + i)) fr (frame_at (mem m3) a) (gpr m3 10)"
      by (rule call(2))
  qed (use call(1) m2(2) in \<open>auto simp: inside_def syscall_args_def frame_at_def\<close>)
qed

lemma handle_syscall_spec:
  assumes "inside m a task fr" and "c_contract k eff" and "handle_syscall k m = Some m'"
    and "syscall_args (\<lambda>i. gpr m (10 + i)) fr" and "gpr m 17 = a7 fr" and "gpr m 18 = sepc fr"
    and "scause fr = EXC_SYSCALL"
  shows "\<exists>fr'. trap_served (NR_syscalls k) eff a fr fr' \<and> leaves k eff a task fr' m'"
proof -
  define m1 where "m1 = run ([Addi 18 18 4, Reg_s 18 (PT PT_SEPC) 2, Csrs Sstatus SR_IE] @ read_flags k 5
                  @ [Andi 5 5 TIF_SYSCALL_TRACE_BIT]) m"
  have gpr: "gpr m1 r = gpr m r" if "r \<noteq> 18" "r \<noteq> 5" for r
    using that by (simp add: m1_def read_flags_def)
  have "csrs m1 Sscratch = 0" "mem m1 = (mem m)(a + PT PT_SEPC := sepc fr + 4)"
    using assms(1,6) by (simp_all add: inside_def m1_def read_flags_def)
  then have m1: "inside m1 a task (syscall_enter fr)"
    using assms(1) gpr by (simp add: inside_def syscall_enter_def)
  have args: "syscall_args (\<lambda>i. gpr m1 (10 + i)) (syscall_enter fr)"
    "gpr m1 17 = a7 (syscall_enter fr)"
    using assms(4,5) by (simp_all add: syscall_args_def syscall_enter_def gpr)
  have split: "(if rd m1 5 \<noteq> 0 then handle_syscall_trace_enter k m1 else check_syscall_nr k m1) = Some m'"
    using assms(3) unfolding handle_syscall_def m1_def Let_def .
  obtain fr1 n where n: "traced eff a C_do_syscall_trace_enter (syscall_enter fr) fr1" "inside n a task fr1"
      "syscall_args (\<lambda>i. gpr n (10 + i)) fr1" "gpr n 17 = a7 fr1" "check_syscall_nr k n = Some m'"
  proof (cases "rd m1 5 = 0")
    case True
    then show ?thesis using that [of "syscall_enter fr" m1] m1 args split by (simp add: traced_def)
  next
    case False
    then show ?thesis
      using handle_syscall_trace_enter_spec [OF m1 assms(2), of m'] split that unfolding traced_def by auto
  qed
  obtain args fr2 v fr' where "syscall_args args fr1" "eff (syscall_function (NR_syscalls k) fr1) args fr1 fr2 v"
    "traced eff a C_do_syscall_trace_exit (syscall_leave v fr2) fr'" "leaves k eff a task fr' m'"
    using check_syscall_nr_spec [OF n(2) assms(2) n(5) n(3,4)] by blast
  then show ?thesis using trap_served.syscall [OF assms(7) n(1)] by blast
qed

lemma drop_push: "drop_bit n (push_bit n (x :: u32)) = take_bit (32 - n) x"
  by (rule bit_word_eqI) (auto simp: bit_simps)

lemma enter_kernel_spec:
  fixes k :: "'x kernel" and m :: "'x machine"
  defines "n \<equiv> enter_kernel k m" and "a \<equiv> frame_top m - PT_SIZE"
  shows "inside n a (gpr n 4) (interrupted m)"
    and "r \<in> set [10..<18] \<Longrightarrow> gpr n r = gpr m r"
    and "gpr n 20 = csrs m Scause" and "gpr n 18 = csrs m Sepc"
proof -
  have n: "gpr n = (gpr (SAVE_ALL m))(4 := gpr n 4, 3 := gp_addr k, 1 := ret_from_exception_addr k)"
      "csrs n = (csrs (SAVE_ALL m))(Sscratch := 0)" "mem n = mem (SAVE_ALL m)"
    by (simp_all add: n_def enter_kernel_def csr_ops fun_eq_iff)
  show "gpr n 20 = csrs m Scause" "gpr n 18 = csrs m Sepc"
    by (subst n; simp add: save_all)+
  show "gpr n r = gpr m r" if "r \<in> set [10..<18]"
    using that by (subst n) (auto simp: save_all)
  have "gpr n 2 = a" by (subst n(1)) (simp add: save_all a_def)
  moreover have "csrs n Sscratch = 0" "frame_at (mem n) a = interrupted m"
    by (simp_all add: n(2,3) save_all a_def)
  ultimately show "inside n a (gpr n 4) (interrupted m)" by (simp add: inside_def)
qed

lemma interrupted_simps [simp]:
  "scause (interrupted m) = csrs m Scause" "sepc (interrupted m) = csrs m Sepc"
  "sstatus (interrupted m) = csrs m Sstatus" "a7 (interrupted m) = gpr m 17"
  by (simp_all add: interrupted_def)

text \<open>The three paths from the entry to the handler.\<close>

lemma interrupt_path:
  assumes "c_contract k eff" and "handle_exception k m = Some m'" and "sint (csrs m Scause) < 0"
  defines "a \<equiv> frame_top m - PT_SIZE" and "task \<equiv> gpr (enter_kernel k m) 4"
  shows "\<exists>fr. trap_served (NR_syscalls k) eff a (interrupted m) fr \<and> leaves k eff a task fr m'"
proof -
  define n where "n = enter_kernel k m"
  note n = enter_kernel_spec [where k = k and m = m, folded n_def a_def]
  define n1 where "n1 = run [Slli 10 20 1, Srli 10 10 1, Mv 11 2] n"
  note drop_push [of 1 "csrs m Scause", simplified]
  then have n1: "inside n1 a task (interrupted m)" "gpr n1 10 = take_bit 31 (csrs m Scause)" "gpr n1 11 = a"
    using n(1,3) by (auto simp: inside_def n1_def n_def task_def)
  have "do { m \<leftarrow> c_code k (C_handler Do_IRQ) n1; ret_from_exception k m } = Some m'"
    using assms(2,3) n(3) unfolding handle_exception_def n_def [symmetric] Let_def n1_def by simp
  then obtain n2 where n2: "c_code k (C_handler Do_IRQ) n1 = Some n2" "ret_from_exception k n2 = Some m'"
    by (auto simp: bind_eq_Some_conv)
  note call = inside_call [OF n1(1) assms(1) n2(1)]
  have "trap_served (NR_syscalls k) eff a (interrupted m) (frame_at (mem n2) a)"
    by (rule trap_served.interrupt [where args = "\<lambda>i. gpr n1 (10 + i)" and eff = eff, OF _ _ _ call(2)])
      (simp_all add: n1 assms(3))
  then show ?thesis using inside_ret [OF call(1) assms(1) n2(2)] by blast
qed

lemma syscall_path:
  assumes "c_contract k eff" and "handle_exception k m = Some m'" and "csrs m Scause = EXC_SYSCALL"
  defines "a \<equiv> frame_top m - PT_SIZE" and "task \<equiv> gpr (enter_kernel k m) 4"
  shows "\<exists>fr. trap_served (NR_syscalls k) eff a (interrupted m) fr \<and> leaves k eff a task fr m'"
proof -
  define n where "n = enter_kernel k m"
  note n = enter_kernel_spec [where k = k and m = m, folded n_def a_def]
  define n1 where "n1 = run [Li 5 EXC_SYSCALL] n"
  have n1: "inside n1 a task (interrupted m)" "syscall_args (\<lambda>i. gpr n1 (10 + i)) (interrupted m)"
      "gpr n1 17 = a7 (interrupted m)" "gpr n1 18 = sepc (interrupted m)"
    using n by (simp_all add: inside_def n1_def syscall_args_def task_def n_def [symmetric])
      (simp_all add: interrupted_def)
  have "\<not> sint (EXC_SYSCALL :: u32) < 0" by (simp add: EXC_SYSCALL_def)
  then have "handle_syscall k n1 = Some m'"
    using assms(2,3) n(3) unfolding handle_exception_def n_def [symmetric] Let_def n1_def by simp
  from handle_syscall_spec [OF n1(1) assms(1) this n1(2,3,4)] assms(3) show ?thesis
    by (simp add: interrupted_def)
qed

lemma exception_call:
  fixes k :: "'x kernel" and m :: "'x machine"
  assumes "\<not> sint (csrs m Scause) < 0" and "csrs m Scause \<noteq> EXC_SYSCALL"
  defines "a \<equiv> frame_top m - PT_SIZE" and "task \<equiv> gpr (enter_kernel k m) 4"
  shows "\<exists>n. inside n a task (interrupted m) \<and> gpr n 10 = a
    \<and> handle_exception k m = do { m \<leftarrow> c_code k (C_handler (dispatch (csrs m Scause))) n; ret_from_exception k m }"
proof -
  define n where "n = enter_kernel k m"
  note n = enter_kernel_spec [where k = k and m = m, folded n_def a_def]
  define n1 where "n1 = run [Slli 5 20 2, Li 6 (vect_table_addr k),
      Li 7 (vect_table_addr k + of_nat (4 * length excp_vect_table)), Mv 10 2, Add 5 6 5]
      (run [Li 5 EXC_SYSCALL] n)"
  define n2 where "n2 = (if unat (rd n1 20) < length excp_vect_table then run [Reg_l 5 0 5] n1 else n1)"
  have n1: "inside n1 a task (interrupted m)" "gpr n1 10 = a" "gpr n1 20 = csrs m Scause"
    using n(1,3) by (auto simp: inside_def n1_def task_def n_def)
  then have n2: "inside n2 a task (interrupted m)" "gpr n2 10 = a" "gpr n2 20 = csrs m Scause"
    by (auto simp: inside_def n2_def)
  have "handle_exception k m = do { m \<leftarrow> c_code k (C_handler (dispatch (rd n2 20))) n2; ret_from_exception k m }"
    using assms(1,2) n(3) unfolding handle_exception_def n_def [symmetric] Let_def n2_def n1_def by simp
  then show ?thesis using n2 by auto
qed

lemma exception_path:
  assumes "c_contract k eff" and "handle_exception k m = Some m'" and "\<not> sint (csrs m Scause) < 0"
    and "csrs m Scause \<noteq> EXC_SYSCALL"
  defines "a \<equiv> frame_top m - PT_SIZE" and "task \<equiv> gpr (enter_kernel k m) 4"
  shows "\<exists>fr. trap_served (NR_syscalls k) eff a (interrupted m) fr \<and> leaves k eff a task fr m'"
proof -
  obtain n where n: "inside n a task (interrupted m)" "gpr n 10 = a"
      and path: "handle_exception k m = do { m \<leftarrow> c_code k (C_handler (dispatch (csrs m Scause))) n; ret_from_exception k m }"
    using exception_call [OF assms(3,4), of k] unfolding a_def task_def by blast
  obtain n' where n': "c_code k (C_handler (dispatch (csrs m Scause))) n = Some n'" "ret_from_exception k n' = Some m'"
    using assms(2) [unfolded path] by (auto simp: bind_eq_Some_conv)
  note call = inside_call [OF n(1) assms(1) n'(1)]
  have "trap_served (NR_syscalls k) eff a (interrupted m) (frame_at (mem n') a)"
    using trap_served.exception [where args = "\<lambda>i. gpr n (10 + i)" and eff = eff and fr = "interrupted m"]
      call(2) assms(3,4) n(2) by (simp add: interrupted_def)
  then show ?thesis using inside_ret [OF call(1) assms(1) n'(2)] by blast
qed

lemma trap_path:
  assumes "c_contract k eff" and "handle_exception k m = Some m'"
  shows "\<exists>fr. trap_served (NR_syscalls k) eff (frame_top m - PT_SIZE) (interrupted m) fr
    \<and> leaves k eff (frame_top m - PT_SIZE) (gpr (enter_kernel k m) 4) fr m'"
  using interrupt_path [OF assms] syscall_path [OF assms] exception_path [OF assms] by blast

lemma args_upt: "map f [0..<7] = [f 0, f 1, f 2, f 3, f 4, f 5, f (6 :: nat)]"
  "map g [10..<17] = [g 10, g 11, g 12, g 13, g 14, g 15, g (16 :: nat)]"
  by (simp_all add: upt_rec eval_nat_numeral)

lemma syscall_args_list:
  "syscall_args args fr \<longleftrightarrow> map args [0..<7] = [a0 fr, a1 fr, a2 fr, a3 fr, a4 fr, a5 fr, a6 fr]"
  unfolding args_upt syscall_args_def by auto

lemma work_steps_same:
  assumes "(work_step eff a)\<^sup>*\<^sup>* fr fr'" and "\<And>f args fr fr' v. eff f args fr fr' v \<Longrightarrow> fr' = fr"
  shows "fr' = fr"
  using assms(1) by (induction) (auto simp: work_step.simps dest: assms(2))

section \<open>Returning\<close>

text \<open>
  The work loop ends when every function called for pending work lowers a measure \<open>\<mu>\<close> of the
  current task and the memory, which the entry code itself leaves alone.
\<close>

definition works_off :: "'x kernel \<Rightarrow> (u32 \<Rightarrow> (u32 \<Rightarrow> u32) \<Rightarrow> nat) \<Rightarrow> bool" where
  "works_off k \<mu> \<longleftrightarrow>
    (\<forall>f m. (f = C_schedule \<or> f = C_do_notify_resume) \<and> work_pending k (gpr m 4) (mem m) \<longrightarrow>
      (\<exists>m'. c_code k f m = Some m' \<and> \<mu> (gpr m' 4) (mem m') < \<mu> (gpr m 4) (mem m)))"

lemma ret_from_exception_returns:
  assumes "works_off k \<mu>"
  shows "\<exists>m'. ret_from_exception k m = Some m'"
proof (induction "\<mu> (gpr m 4) (mem m)" arbitrary: m rule: less_induct)
  case less
  define m1 where "m1 = run [Reg_l 8 (PT PT_SSTATUS) 2, Csrc Sstatus SR_IE, Andi 8 8 SR_PS] m"
  define m2 where "m2 = run (read_flags k 8 @ [Andi 9 8 TIF_WORK_MASK]) m1"
  define m3 where "m3 = run [Li 1 (ret_from_exception_addr k), Andi 9 8 TIF_NEED_RESCHED_BIT] m2"
  define m4 where "m4 = run [Csrs Sstatus SR_IE, Mv 10 2, Mv 11 8] m3"
  have same: "gpr m3 4 = gpr m 4" "mem m3 = mem m" "gpr m4 4 = gpr m 4" "mem m4 = mem m"
    by (simp_all add: m4_def m3_def m2_def m1_def read_flags_def)
  have eq: "ret_from_exception k m = (if rd m1 8 \<noteq> 0 then Some (RESTORE_ALL m1)
      else if rd m2 9 = 0 then Some (RESTORE_ALL (run [Addi 8 2 PT_SIZE, Csrw Sscratch 8] m2))
      else if rd m3 9 \<noteq> 0 then do { m \<leftarrow> c_code k C_schedule m3; ret_from_exception k m }
      else do { m \<leftarrow> c_code k C_do_notify_resume m4; ret_from_exception k m })"
    by (subst ret_from_exception.simps) (simp only: m4_def m3_def m2_def m1_def Let_def)
  have again: "\<exists>m'. do { m \<leftarrow> c_code k f n; ret_from_exception k m } = Some m'"
    if f: "f = C_schedule \<or> f = C_do_notify_resume" and n: "gpr n 4 = gpr m 4" "mem n = mem m"
      and "rd m2 9 \<noteq> 0" for f n
  proof -
    have "work_pending k (gpr n 4) (mem n)"
      using that by (simp add: m2_def m1_def read_flags_def work_pending_def)
    then obtain n' where "c_code k f n = Some n'" "\<mu> (gpr n' 4) (mem n') < \<mu> (gpr n 4) (mem n)"
      using assms f unfolding works_off_def by blast
    then show ?thesis using less [of n'] n by simp
  qed
  show ?case using again [of C_schedule m3] again [of C_do_notify_resume m4] by (simp add: eq same)
qed

section \<open>An example\<close>

declare ret_from_exception.simps [code]

text \<open>A kernel whose functions return at once: the system calls add their first two arguments.\<close>

definition example_kernel :: "unit kernel" where
  "example_kernel =
    \<lparr>c_code = \<lambda>f m. Some (case f of C_syscall _ \<Rightarrow> wr 10 (gpr m 10 + gpr m 11) m
       | C_sys_ni_syscall \<Rightarrow> wr 10 (- 38) m | _ \<Rightarrow> m),
     ret_from_exception_addr = 0xc0000100, behind_call = \<lambda>_. 0xc0000200, gp_addr = 0xc0800000,
     vect_table_addr = 0xc0000300, ni_syscall_addr = 0xc0000400, call_table_addr = 0xc0000500,
     NR_syscalls = 300, TASK_THREAD_INFO = 4\<rparr>"

definition example_user :: "unit machine" where
  "example_user =
    \<lparr>gpr = \<lambda>r. of_nat (100 + r),
     csrs = (\<lambda>_. 0)(Sscratch := 0xc0002000, Scause := 8, Sepc := 0x10000, Sstatus := 0x20),
     mem = \<lambda>_. 0, world = ()\<rparr>"

definition example_effect :: effect where
  "example_effect f args fr fr' v \<longleftrightarrow> fr' = fr
    \<and> (\<forall>nr. f = C_syscall nr \<longrightarrow> v = (\<lambda>_ xs. xs ! 0 + xs ! 1) nr (map args [0..<7]))
    \<and> (f = C_sys_ni_syscall \<longrightarrow> v = - 38)"

lemma example_contract: "c_contract example_kernel example_effect"
  by (auto simp: c_contract_def example_effect_def example_kernel_def callee_saved_def split: c_func.splits)

lemma example_returns: "\<exists>m'. handle_exception example_kernel example_user = Some m'"
proof -
  have "(case handle_exception example_kernel example_user of None \<Rightarrow> False | Some _ \<Rightarrow> True)"
    by code_simp
  then show ?thesis by (simp split: option.splits)
qed

text \<open>Kernels that trace and deny every call, and that have work to do.\<close>

definition tracing_kernel :: "unit kernel" where
  "tracing_kernel = example_kernel\<lparr>c_code := \<lambda>f m.
     if f = C_do_syscall_trace_enter then Some (store_word (gpr m 2 + PT PT_A7) (- 1) m)
     else c_code example_kernel f m\<rparr>"

definition tracing_effect :: effect where
  "tracing_effect f args fr fr' v \<longleftrightarrow>
    (if f = C_do_syscall_trace_enter then fr' = fr\<lparr>a7 := - 1\<rparr> else example_effect f args fr fr' v)"

definition working_kernel :: "unit kernel" where
  "working_kernel = example_kernel\<lparr>c_code := \<lambda>f m.
     Some (if f = C_schedule \<or> f = C_do_notify_resume then m\<lparr>mem := \<lambda>_. 0\<rparr> else m)\<rparr>"

lemma tracing_contract: "c_contract tracing_kernel tracing_effect"
proof -
  have "frame_at (ws(a + PT PT_A7 := v)) a = (frame_at ws a)\<lparr>a7 := v\<rparr>" for ws a v
    by (simp add: frame_at_def PT_def)
  then have "frame_at (mem (store_word (gpr m 2 + PT PT_A7) v m)) (gpr m 2) = (frame_at (mem m) (gpr m 2))\<lparr>a7 := v\<rparr>"
    for m :: "unit machine" and v by simp
  then show ?thesis
    using example_contract unfolding c_contract_def tracing_kernel_def tracing_effect_def
    by (simp add: callee_saved_def)
qed

section \<open>Properties\<close>

text \<open>
  C1: The entry code refines the handling of an exception on the registers of the interrupted code:
  whatever the C functions are, as long as they keep the calling convention, the code that
  \<^verbatim>\<open>sret\<close> resumes has exactly the registers that serving the exception once (with the one handler
  its cause selects, or the system call of its number, or \<^verbatim>\<open>sys_ni_syscall\<close> for a number out of
  range) and then any pending work make of the registers of the interrupted code;
  \<^verbatim>\<open>sscratch\<close> is the top of the kernel stack for a user program and 0 for the kernel, and a user
  program is not resumed while its thread has a flag of the work mask set.
\<close>

theorem trap_refines:
  fixes k :: "'x kernel" and m m' :: "'x machine"
  assumes "c_contract k eff" and "handle_exception k m = Some m'"
  defines "a \<equiv> frame_top m - PT_SIZE" and "task \<equiv> gpr (enter_kernel k m) 4"
  shows "\<exists>fr fr'. trap_served (NR_syscalls k) eff a (interrupted m) fr \<and> (work_step eff a)\<^sup>*\<^sup>* fr fr'
    \<and> interrupted m' = fr'\<lparr>sbadaddr := csrs m' Sbadaddr, scause := csrs m' Scause\<rparr>
    \<and> csrs m' Sscratch = (if user_mode fr' then frame_top m else 0)
    \<and> (user_mode fr' \<longrightarrow> \<not> work_pending k task (mem m'))"
proof -
  have "a + PT_SIZE = frame_top m" by (simp add: a_def)
  then show ?thesis
    using trap_path [OF assms(1,2)] unfolding leaves_def resumes_def a_def task_def by fastforce
qed

theorem trap_refines_witness:
  "\<exists>m' fr fr'. handle_exception example_kernel example_user = Some m'
    \<and> trap_served 300 example_effect 0xc0001f74 (interrupted example_user) fr
    \<and> (work_step example_effect 0xc0001f74)\<^sup>*\<^sup>* fr fr' \<and> gpr m' 2 = sp fr'
    \<and> csrs m' Sscratch = (if user_mode fr' then 0xc0002000 else 0)"
proof -
  obtain m' where m': "handle_exception example_kernel example_user = Some m'" using example_returns by blast
  have top: "frame_top example_user = 0xc0002000" "NR_syscalls example_kernel = 300"
    by (simp_all add: frame_top_def example_user_def example_kernel_def)
  obtain fr fr' where "trap_served 300 example_effect 0xc0001f74 (interrupted example_user) fr"
      "(work_step example_effect 0xc0001f74)\<^sup>*\<^sup>* fr fr'"
      "interrupted m' = fr'\<lparr>sbadaddr := csrs m' Sbadaddr, scause := csrs m' Scause\<rparr>"
      "csrs m' Sscratch = (if user_mode fr' then 0xc0002000 else 0)"
    using trap_refines [OF example_contract m'] unfolding top by (auto simp: PT_SIZE_def)
  moreover from this(3) have "sp (interrupted m') = sp fr'" by simp
  then have "gpr m' 2 = sp fr'" by (simp add: interrupted_def)
  ultimately show ?thesis using m' by blast
qed

text \<open>
  C4: An interrupt or exception whose handlers leave the saved registers alone is invisible to the
  code it interrupts, in a user program and in the kernel alike: every register, the status register
  and the program counter are what they were, and so is \<^verbatim>\<open>sscratch\<close>, so that the next exception
  finds its stack. A system call returns behind its instruction with its result in
  \<^verbatim>\<open>a0\<close> and everything else kept; the function gets the caller's arguments.
\<close>

theorem trap_transparent:
  fixes k :: "'x kernel" and m m' :: "'x machine" and results :: "u32 \<Rightarrow> u32 list \<Rightarrow> u32" and enosys :: u32
  assumes "c_contract k (\<lambda>f args fr fr' v. fr' = fr
      \<and> (\<forall>nr. f = C_syscall nr \<longrightarrow> v = results nr (map args [0..<7])) \<and> (f = C_sys_ni_syscall \<longrightarrow> v = enosys))"
    and "handle_exception k m = Some m'"
    and "csrs m Sscratch = 0 \<longleftrightarrow> csrs m Sstatus AND SR_PS \<noteq> 0"
  defines "result \<equiv> (if NR_syscalls k \<le> gpr m 17 then enosys else results (gpr m 17) (map (gpr m) [10..<17]))"
  shows "interrupted m' =
      (if csrs m Scause = EXC_SYSCALL then (interrupted m)\<lparr>sepc := csrs m Sepc + 4, a0 := result\<rparr>
       else interrupted m)\<lparr>sbadaddr := csrs m' Sbadaddr, scause := csrs m' Scause\<rparr>
    \<and> csrs m' Sscratch = csrs m Sscratch"
proof -
  define eff where "eff = (\<lambda>f (args :: nat \<Rightarrow> u32) (fr :: u32 pt_regs) fr' v. fr' = fr
      \<and> (\<forall>nr. f = C_syscall nr \<longrightarrow> v = results nr (map args [0..<7])) \<and> (f = C_sys_ni_syscall \<longrightarrow> v = enosys))"
  define a where "a = frame_top m - PT_SIZE"
  obtain fr fr' where fr: "trap_served (NR_syscalls k) eff a (interrupted m) fr" "(work_step eff a)\<^sup>*\<^sup>* fr fr'"
    and res: "resumes m' a fr'"
    using trap_path [OF assms(1,2)] unfolding leaves_def a_def eff_def by blast
  have same: "eff f args x y v \<Longrightarrow> y = x" for f args x y v by (simp add: eff_def)
  have "fr' = fr" by (rule work_steps_same [OF fr(2) same])
  moreover have "fr = (if csrs m Scause = EXC_SYSCALL
      then (interrupted m)\<lparr>sepc := csrs m Sepc + 4, a0 := result\<rparr> else interrupted m)"
    using fr(1)
  proof cases
    case (syscall fr1 args fr2 v)
    have f1: "fr1 = syscall_enter (interrupted m)"
      using syscall(2) by (auto simp: traced_def dest: same)
    have "map args [0..<7] = map (gpr m) [10..<17]"
      using syscall(3) unfolding syscall_args_list args_upt(2)
      by (simp add: f1 syscall_enter_def interrupted_def)
    then have "v = result"
      using syscall(4) by (auto simp: f1 eff_def syscall_function_def result_def syscall_enter_def split: if_splits)
    moreover have "fr2 = fr1" using syscall(4) by (rule same)
    moreover have "fr = syscall_leave v fr2" using syscall(5) by (auto simp: traced_def dest: same)
    ultimately show ?thesis using syscall(1) by (simp add: f1 syscall_enter_def syscall_leave_def)
  qed (auto simp: EXC_SYSCALL_def dest: same)
  ultimately show ?thesis
    using res assms(3) by (auto simp: resumes_def user_mode_def a_def frame_top_def)
qed

theorem trap_transparent_witness:
  "\<exists>m'. handle_exception example_kernel example_user = Some m' \<and> gpr m' 10 = 110 + 111
    \<and> gpr m' 8 = 108 \<and> csrs m' Sepc = 0x10004 \<and> csrs m' Sscratch = 0xc0002000"
proof -
  obtain m' where m': "handle_exception example_kernel example_user = Some m'" using example_returns by blast
  from trap_transparent [OF example_contract [unfolded example_effect_def] m']
  have "interrupted m' = (interrupted example_user)\<lparr>sepc := 0x10004, a0 := 110 + 111,
      sbadaddr := csrs m' Sbadaddr, scause := csrs m' Scause\<rparr>" "csrs m' Sscratch = 0xc0002000"
    by (simp_all add: example_user_def SR_PS_def EXC_SYSCALL_def example_kernel_def args_upt)
  then show ?thesis using m' by (simp add: interrupted_def example_user_def)
qed

text \<open>
  C26: A call the tracer denies is not run: \<^verbatim>\<open>do_syscall_trace_enter\<close> puts -1 into the saved
  \<^verbatim>\<open>a7\<close>, the entry code reads the number again, and calls \<^verbatim>\<open>sys_ni_syscall\<close>, whose result
  goes into the saved \<^verbatim>\<open>a0\<close>.
\<close>

theorem denied_call_not_run:
  fixes k :: "'x kernel" and m m' :: "'x machine"
  assumes "c_contract k eff" and "handle_syscall_trace_enter k m = Some m'" and "csrs m Sscratch = 0"
    and "\<And>args fr fr' v. eff C_do_syscall_trace_enter args fr fr' v \<Longrightarrow>
      fst (report fr) \<and> fr' = do_syscall_trace_enter report True fr"
  defines "a \<equiv> gpr m 2"
  defines "fr \<equiv> do_syscall_trace_enter report True (frame_at (mem m) a)"
  shows "\<exists>args fr1 v fr2. syscall_args args fr \<and> eff C_sys_ni_syscall args fr fr1 v
    \<and> traced eff a C_do_syscall_trace_exit (syscall_leave v fr1) fr2 \<and> leaves k eff a (gpr m 4) fr2 m'"
proof -
  have "inside m a (gpr m 4) (frame_at (mem m) a)" using assms(3) by (simp add: inside_def a_def)
  from handle_syscall_trace_enter_spec [OF this assms(1,2)] assms(4)
  obtain n where n: "fst (report (frame_at (mem m) a))" "inside n a (gpr m 4) fr"
      "syscall_args (\<lambda>i. gpr n (10 + i)) fr" "gpr n 17 = a7 fr" "check_syscall_nr k n = Some m'"
    unfolding fr_def by blast
  have "a7 fr = - 1"
    using n(1) by (auto simp: fr_def do_syscall_trace_enter_def syscall_set_nr_def split: prod.splits)
  then have "syscall_function (NR_syscalls k) fr = C_sys_ni_syscall" by (simp add: syscall_function_def)
  then show ?thesis using check_syscall_nr_spec [OF n(2) assms(1) n(5,3,4)] by auto
qed

theorem denied_call_not_run_witness:
  "\<exists>m'. handle_syscall_trace_enter tracing_kernel (example_user\<lparr>csrs := \<lambda>_. 0\<rparr>) = Some m' \<and> gpr m' 10 = - 38"
proof -
  let ?m = "example_user\<lparr>csrs := \<lambda>_. 0\<rparr>" and ?k = tracing_kernel and ?eff = tracing_effect
  have "(case handle_syscall_trace_enter ?k ?m of None \<Rightarrow> False | Some _ \<Rightarrow> True)" by code_simp
  then obtain m' where m': "handle_syscall_trace_enter ?k ?m = Some m'" by (auto split: option.splits)
  have "csrs ?m Sscratch = 0" by simp
  from denied_call_not_run [OF tracing_contract m' this, of "\<lambda>fr. (True, fr)"]
  obtain args fr fr1 v fr2 where c: "?eff C_sys_ni_syscall args fr fr1 v"
      "traced ?eff (gpr ?m 2) C_do_syscall_trace_exit (syscall_leave v fr1) fr2"
      "leaves ?k ?eff (gpr ?m 2) (gpr ?m 4) fr2 m'"
    by (auto simp: tracing_effect_def do_syscall_trace_enter_def syscall_set_nr_def)
  from c(3) obtain fr' where fr': "(work_step ?eff (gpr ?m 2))\<^sup>*\<^sup>* fr2 fr'" "resumes m' (gpr ?m 2) fr'"
    by (auto simp: leaves_def)
  have "fr' = fr2"
    using fr'(1) by induction (auto simp: work_step.simps tracing_effect_def example_effect_def)
  moreover have "fr2 = syscall_leave (- 38) fr1"
    using c(1,2) by (auto simp: traced_def tracing_effect_def example_effect_def)
  ultimately have "a0 (interrupted m') = - 38" using fr'(2) by (simp add: resumes_def syscall_leave_def)
  then show ?thesis using m' by (simp add: interrupted_def)
qed

text \<open>
  The path through the kernel ends: if every C function returns and the functions called for
  pending work make progress, \<^verbatim>\<open>handle_exception\<close> reaches \<^verbatim>\<open>sret\<close>.
\<close>

theorem trap_returns:
  fixes k :: "'x kernel" and m :: "'x machine"
  assumes "\<And>f m. \<exists>m'. c_code k f m = Some m'" and "works_off k \<mu>"
  shows "\<exists>m'. handle_exception k m = Some m'"
proof -
  note ret = ret_from_exception_returns [OF assms(2)]
  have call: "\<exists>m'. do { m \<leftarrow> c_code k f n; g m } = Some m'" if "\<And>m. \<exists>m'. g m = Some m'" for f n g
    using assms(1) [of f n] that by auto
  have branch: "\<exists>m'. x = Some m' \<Longrightarrow> \<exists>m'. y = Some m' \<Longrightarrow> \<exists>m'. (if b then x else y) = Some m'"
    for b and x y :: "'x machine option" by simp
  have syscall: "\<exists>m'. ret_from_syscall k n = Some m'" for n
    unfolding ret_from_syscall_def Let_def by (intro branch call ret)
  have nr: "\<exists>m'. check_syscall_nr k n = Some m'" for n
    unfolding check_syscall_nr_def Let_def by (intro branch call syscall)
  have handle: "\<exists>m'. handle_syscall k n = Some m'" for n
    unfolding handle_syscall_def handle_syscall_trace_enter_def Let_def by (intro branch call nr)
  show ?thesis unfolding handle_exception_def Let_def by (intro branch call ret handle)
qed

theorem trap_returns_witness:
  "\<exists>m'. handle_exception working_kernel (example_user\<lparr>mem := \<lambda>_. 8\<rparr>) = Some m'"
proof (rule trap_returns [where \<mu> = "\<lambda>task ws. if work_pending working_kernel task ws then 1 else 0"])
  show "works_off working_kernel (\<lambda>task ws. if work_pending working_kernel task ws then 1 else 0)"
    unfolding works_off_def by (auto simp: working_kernel_def work_pending_def)
qed (simp add: working_kernel_def)

end
