(* ===== verification/Switch.thy ===== *)
theory Switch
  imports Entry
begin

text \<open>
  Switching between tasks and the first steps of a new one: \<^verbatim>\<open>__switch_to\<close> of
  \<^verbatim>\<open>kernel/entry.S\<close> on the machine, the tasks \<^verbatim>\<open>copy_thread\<close> builds laid out in memory,
  and their way through \<^verbatim>\<open>ret_from_fork\<close> or \<^verbatim>\<open>ret_from_kernel_thread\<close>. A task is the address
  of its \<^verbatim>\<open>task_struct\<close>; \<open>off\<close> is the offset of \<^verbatim>\<open>thread\<close> in it.
\<close>

section \<open>The switch\<close>

definition thread_slots :: "u32 \<Rightarrow> (nat \<times> u32) list" where
  "thread_slots off =
    [(1, off), (2, off + 4), (8, off + 8), (9, off + 12), (18, off + 16), (19, off + 20),
     (20, off + 24), (21, off + 28), (22, off + 32), (23, off + 36), (24, off + 40), (25, off + 44),
     (26, off + 48), (27, off + 52)]"

definition switch_to :: "u32 \<Rightarrow> 'x machine \<Rightarrow> 'x machine" where
  "switch_to off m =
    (let m = run (saves 10 (thread_slots off)) m; m = run (loads 11 (thread_slots off)) m
     in run [Mv 4 11] m)"

text \<open>
  The registers that the calling convention lets a function count on over a call, which is what a
  task keeps over a switch: the return address, the stack pointer and \<^verbatim>\<open>s0\<close> to \<^verbatim>\<open>s11\<close>. In memory
  they are the fields \<^verbatim>\<open>ra\<close>, \<^verbatim>\<open>sp\<close> and \<^verbatim>\<open>s[12]\<close> at the start of \<^verbatim>\<open>struct thread_struct\<close>. Neither is
  read off the code of the switch.
\<close>

definition abi_preserved :: "nat list" where
  "abi_preserved = [1, 2, 8, 9, 18, 19, 20, 21, 22, 23, 24, 25, 26, 27]"

definition live :: "'x machine \<Rightarrow> u32 list" where
  "live m = map (gpr m) abi_preserved"

definition stored :: "u32 \<Rightarrow> (u32 \<Rightarrow> u32) \<Rightarrow> u32 \<Rightarrow> u32 list" where
  "stored off ws t = map (\<lambda>i. ws (t + (off + 4 * of_nat i))) [0..<14]"

definition areas_apart :: "u32 set \<Rightarrow> bool" where
  "areas_apart ts \<longleftrightarrow> (\<forall>t \<in> ts. \<forall>u \<in> ts. t \<noteq> u \<longrightarrow> unat (t - u) \<ge> 56)"

text \<open>
  The kernel as the tasks see it: the current task computes, which leaves the saved contexts of
  the tasks alone, or it calls \<^verbatim>\<open>__switch_to\<close> for itself.
\<close>

inductive sched_step :: "u32 \<Rightarrow> u32 set \<Rightarrow> 'x machine \<Rightarrow> 'x machine \<Rightarrow> bool" for off ts where
  computes: "gpr m' 4 = gpr m 4 \<Longrightarrow> (\<And>t. t \<in> ts \<Longrightarrow> stored off (mem m') t = stored off (mem m) t)
    \<Longrightarrow> sched_step off ts m m'"
| switches: "gpr m 10 = gpr m 4 \<Longrightarrow> gpr m 10 \<in> ts \<Longrightarrow> gpr m 11 \<in> ts \<Longrightarrow> sched_step off ts m (switch_to off m)"

text \<open>A task of \<open>Regs\<close> laid out in memory.\<close>

definition task_at :: "u32 \<Rightarrow> (u32 \<Rightarrow> u32) \<Rightarrow> u32 \<Rightarrow> (u32, 'f) task \<Rightarrow> bool" where
  "task_at off ws t p \<longleftrightarrow>
    stored off ws t = thread_ra p # thread_sp p # thread_s p
    \<and> frame_at ws (pt_regs_addr p) = pt_regs_of p"

section \<open>Lemmas\<close>

lemma thread_slots_facts:
  "distinct (map snd (thread_slots off))" "distinct (map fst (thread_slots off))"
  "0 \<notin> fst ` set (thread_slots off)" "11 \<notin> fst ` set (thread_slots off)" "4 \<notin> fst ` set (thread_slots off)"
  "10 \<notin> fst ` set (thread_slots off)"
  by (simp_all add: thread_slots_def)

lemma live_off: "live m = map (\<lambda>(r, _). gpr m r) (thread_slots off)"
  by (simp add: live_def abi_preserved_def thread_slots_def)

lemma stored_off: "stored off ws t = map (\<lambda>(_, o'). ws (t + o')) (thread_slots off)"
  by (simp add: stored_def thread_slots_def upt_rec)

lemma saved_live:
  "stored off (mem (run (saves 10 (thread_slots off)) m)) (gpr m 10) = live m"
proof -
  have "mem (run (saves 10 (thread_slots off)) m) (gpr m 10 + o') = gpr m r"
    if "(r, o') \<in> set (thread_slots off)" for r o'
    using run_saves_at [OF thread_slots_facts(1) that, where m = m and b = 10] that thread_slots_facts(3)
    by (cases "r = 0") force+
  then show ?thesis unfolding stored_off live_off [of m off] by (auto intro!: map_cong)
qed

lemma saved_others:
  assumes "unat (t - gpr m 10) \<ge> 56" and "unat (gpr m 10 - t) \<ge> 56"
  shows "stored off (mem (run (saves 10 (thread_slots off)) m)) t = stored off (mem m) t"
proof -
  have near: "unat (x - off) < 56" if "x \<in> snd ` set (thread_slots off)" for x
    using that by (auto simp: thread_slots_def)
  have "t + o' - gpr m 10 \<notin> snd ` set (thread_slots off)" if "o' \<in> snd ` set (thread_slots off)" for o'
  proof
    assume "t + o' - gpr m 10 \<in> snd ` set (thread_slots off)"
    define x where "x = o' - off"
    define y where "y = t + o' - gpr m 10 - off"
    have xy: "unat x < 56" "unat y < 56"
      using near [OF that] near [OF \<open>t + o' - gpr m 10 \<in> _\<close>] by (simp_all add: x_def y_def)
    have d: "t - gpr m 10 = y - x" "gpr m 10 - t = x - y" by (simp_all add: x_def y_def)
    show False
      using assms xy unat_sub [of x y] unat_sub [of y x] linear [of x y] unfolding d by linarith
  qed
  then have "mem (run (saves 10 (thread_slots off)) m) (t + o') = mem m (t + o')"
    if "o' \<in> snd ` set (thread_slots off)" for o'
    using that by (simp add: run_saves_other)
  then show ?thesis unfolding stored_off by (force intro!: map_cong)
qed

lemma switch_to_spec:
  fixes m :: "'x machine" and off :: u32
  defines "n \<equiv> switch_to off m"
  shows "live n = stored off (mem n) (gpr m 11)" and "stored off (mem n) (gpr m 10) = live m"
    and "gpr n 4 = gpr m 11" and "gpr n 10 = gpr m 10" and "csrs n = csrs m"
    and "unat (t - gpr m 10) \<ge> 56 \<Longrightarrow> unat (gpr m 10 - t) \<ge> 56 \<Longrightarrow> stored off (mem n) t = stored off (mem m) t"
proof -
  define m1 where "m1 = run (saves 10 (thread_slots off)) m"
  define m2 where "m2 = run (loads 11 (thread_slots off)) m1"
  have n: "n = run [Mv 4 11] m2" by (simp add: n_def switch_to_def m1_def m2_def Let_def)
  have regs: "gpr m2 11 = gpr m 11" "gpr m2 10 = gpr m 10"
    by (simp_all add: m2_def m1_def run_loads_other thread_slots_facts)
  have mem: "mem n = mem m1" "csrs n = csrs m2" "csrs m2 = csrs m" by (simp_all add: n) (simp_all add: m2_def m1_def)
  show "gpr n 4 = gpr m 11" "gpr n 10 = gpr m 10" "csrs n = csrs m" by (simp_all add: n regs mem)
  show "stored off (mem n) (gpr m 10) = live m" by (simp add: mem m1_def saved_live)
  show "stored off (mem n) t = stored off (mem m) t"
    if "unat (t - gpr m 10) \<ge> 56" "unat (gpr m 10 - t) \<ge> 56"
    using saved_others [OF that] by (simp add: mem m1_def)
  have "gpr n r = mem n (gpr m 11 + o')" if "(r, o') \<in> set (thread_slots off)" for r o'
  proof -
    have "gpr m2 r = mem m1 (gpr m 11 + o')"
      using run_loads_at [OF thread_slots_facts(2) that thread_slots_facts(3,4), of m1]
      by (simp add: m2_def m1_def)
    moreover have "r \<noteq> 4" using that by (auto simp: thread_slots_def)
    ultimately show ?thesis by (simp add: n m2_def)
  qed
  then show "live n = stored off (mem n) (gpr m 11)"
    unfolding stored_off live_off [of n off] by (auto intro!: map_cong)
qed

section \<open>A waiting task\<close>

text \<open>While a task waits, its saved context stays: an invariant of the steps of the others.\<close>

definition others_step :: "u32 \<Rightarrow> u32 set \<Rightarrow> u32 \<Rightarrow> 'x machine \<Rightarrow> 'x machine \<Rightarrow> bool" where
  "others_step off ts t a b \<longleftrightarrow> areas_apart ts \<and> t \<in> ts \<and> sched_step off ts a b \<and> gpr a 4 \<noteq> t"

interpretation waiting: stepping "\<lambda>m. stored off (mem m) t = c" "others_step off ts t" "\<lambda>m. stored off (mem m) t = c"
  for off ts t c
proof
  fix a b :: "'x machine"
  assume step: "others_step off ts t a b" and c: "stored off (mem a) t = c"
  from step have apart: "areas_apart ts" "t \<in> ts" "gpr a 4 \<noteq> t" and "sched_step off ts a b"
    by (simp_all add: others_step_def)
  from this(4) show "stored off (mem b) t = c"
  proof cases
    case computes
    then show ?thesis using apart c by simp
  next
    case switches
    then have "unat (t - gpr a 10) \<ge> 56" "unat (gpr a 10 - t) \<ge> 56"
      using apart unfolding areas_apart_def by auto
    then show ?thesis using switch_to_spec(6) [of t a off] c switches by simp
  qed
qed

section \<open>An example\<close>

definition two_tasks :: "unit machine" where
  "two_tasks =
    \<lparr>gpr = (\<lambda>r. of_nat r)(10 := 0xd0000000, 11 := 0xe0000000), csrs = \<lambda>_. 0,
     mem = (\<lambda>_. 0)(0xe0000100 := 0xc0000100, 0xe0000104 := 0xe0003f74, 0xe0003f74 := 0x10004,
       0xe0003f7c := 0x7000), world = ()\<rparr>"

definition back_again :: "unit machine" where
  "back_again = wr 10 0xe0000000 (wr 11 0xd0000000 (switch_to 0x100 two_tasks))"

definition example_entry :: "u32 entry_points" where
  "example_entry = \<lparr>ret_from_fork = 0xc0000100, ret_from_kernel_thread = 0xc0000200, kernel_gp = 0\<rparr>"

definition example_task :: "(u32, unit) task" where
  "example_task = \<lparr>thread_ra = 0, thread_sp = 0, thread_s = replicate 12 0, fstate = (),
     pt_regs_of = zero_regs, pt_regs_addr = 0xe0003f74, kthread = False\<rparr>"

section \<open>First steps of a task\<close>

text \<open>
  \<open>m\<close> is the machine behind the switch to a task with saved registers \<open>fr\<close> at \<open>a\<close>: the
  call of \<^verbatim>\<open>schedule_tail\<close>, and the rest of the two paths behind it.
\<close>

definition keeps_saved :: "effect \<Rightarrow> bool" where
  "keeps_saved eff \<longleftrightarrow> (\<forall>f args fr fr' v. eff f args fr fr' v \<longrightarrow> fr' = fr)"

lemma schedule_tail_call:
  fixes m m' :: "'x machine"
  assumes "inside m a task fr" and "c_contract k eff" and "keeps_saved eff"
    and "do { m \<leftarrow> c_code k C_schedule_tail (run [Li 1 x] m); f m } = Some m'"
  shows "\<exists>n. f n = Some m' \<and> inside n a task fr \<and> gpr n 8 = gpr m 8 \<and> gpr n 9 = gpr m 9"
proof -
  have "inside (run [Li 1 x] m) a task fr" using assms(1) by (simp add: inside_def)
  note call = inside_call [OF this assms(2)] and regs = c_contractD(3,4) [OF assms(2)]
  obtain n where n: "c_code k C_schedule_tail (run [Li 1 x] m) = Some n" "f n = Some m'"
    using assms(4) by (auto simp: bind_eq_Some_conv)
  have "frame_at (mem n) a = fr" using assms(3) call(2) [OF n(1)] unfolding keeps_saved_def by blast
  then show ?thesis using n call(1) [OF n(1)] regs [OF n(1)] by auto
qed

lemma forked_resumes:
  fixes m m' :: "'x machine"
  assumes "inside m a task fr" and "c_contract k eff" and "keeps_saved eff"
    and "start_forked k m = Some m'"
  shows "resumes m' a fr"
proof -
  obtain n where n: "ret_from_exception k n = Some m'" "inside n a task fr"
    using schedule_tail_call [OF assms(1-3) assms(4) [unfolded start_forked_def]] by blast
  obtain fr' where fr': "(work_step eff a)\<^sup>*\<^sup>* fr fr'" "resumes m' a fr'"
    using inside_ret [OF n(2) assms(2) n(1)] by (auto simp: leaves_def)
  have "fr' = fr" using fr'(1) assms(3) [unfolded keeps_saved_def, rule_format] by (rule work_steps_same)
  then show ?thesis using fr'(2) by simp
qed

lemma kernel_thread_runs:
  fixes m m' :: "'x machine"
  assumes "inside m a task fr" and "c_contract k eff" and "keeps_saved eff"
    and "start_kernel_thread k m = Some m'"
  shows "\<exists>args v. args 0 = gpr m 9 \<and> eff (C_thread (gpr m 8)) args fr fr v"
proof -
  obtain n n' where
    n: "inside n a task fr" "gpr n 8 = gpr m 8" "gpr n 9 = gpr m 9"
      "c_code k (C_thread (rd n 8)) (run [Li 1 (ret_from_exception_addr k), Mv 10 9] n) = Some n'"
    using schedule_tail_call [OF assms(1-3) assms(4) [unfolded start_kernel_thread_def]]
    by (auto simp: bind_eq_Some_conv)
  define n1 where "n1 = run [Li 1 (ret_from_exception_addr k), Mv 10 9] n"
  have n1: "inside n1 a task fr" "gpr n1 10 = gpr m 9" using n(1,3) by (simp_all add: inside_def n1_def)
  have call: "eff (C_thread (gpr m 8)) (\<lambda>i. gpr n1 (10 + i)) fr (frame_at (mem n') a) (gpr n' 10)"
    using inside_call(2) [OF n1(1) assms(2)] n(2,4) by (simp add: n1_def)
  with assms(3) [unfolded keeps_saved_def, rule_format, OF call] show ?thesis
    using n1(2) by (intro exI [of _ "\<lambda>i. gpr n1 (10 + i)"] exI [of _ "gpr n' 10"]) simp
qed

text \<open>The switch to a task that \<^verbatim>\<open>copy_thread\<close> built.\<close>

lemma first_switch:
  fixes m :: "'x machine" and p :: "(u32, 'f) task" and cur :: "u32 pt_regs" and usp arg off :: u32
    and settls :: bool and ep :: "u32 entry_points"
  defines "child \<equiv> copy_thread ep cur settls usp arg p" and "r \<equiv> switch_to off m"
  assumes "task_at off (mem r) (gpr m 11) child" and "length (thread_s p) = 12" and "csrs m Sscratch = 0"
  shows "inside r (pt_regs_addr p) (gpr r 4) (pt_regs_of child)" and "gpr r 1 = thread_ra child"
    and "gpr r 8 = thread_s child ! 0" and "gpr r 9 = thread_s child ! 1"
proof -
  have at: "live r = thread_ra child # thread_sp child # thread_s child"
    and frame: "frame_at (mem r) (pt_regs_addr child) = pt_regs_of child"
    using assms(3) switch_to_spec(1) [of off m] by (simp_all add: task_at_def r_def)
  have addr: "pt_regs_addr child = pt_regs_addr p" "thread_sp child = pt_regs_addr p"
    by (simp_all add: child_def copy_thread_def Let_def)
  have len: "length (thread_s child) = 12" using assms(4) by (simp add: child_def copy_thread_def Let_def)
  show "gpr r 1 = thread_ra child" "gpr r 8 = thread_s child ! 0" "gpr r 9 = thread_s child ! 1"
    using at [symmetric] by (auto simp: live_def abi_preserved_def)
  have "gpr r 2 = pt_regs_addr p" using at [symmetric] addr by (auto simp: live_def abi_preserved_def)
  moreover have "csrs r Sscratch = 0" using assms(5) switch_to_spec(5) [of off m] by (simp add: r_def)
  ultimately show "inside r (pt_regs_addr p) (gpr r 4) (pt_regs_of child)"
    using frame addr by (simp add: inside_def)
qed

section \<open>Properties\<close>

text \<open>
  C8: A task resumes where it was switched out: when a task gives the processor away and, after
  any computing and switching of the others, one of them switches to it, it has its own return
  address, stack pointer and all twelve callee-saved registers again, \<^verbatim>\<open>tp\<close> is the task, and
  \<^verbatim>\<open>a0\<close> names the task that ran before.
\<close>

theorem task_resumes:
  fixes m n :: "'x machine" and off t :: u32
  assumes "gpr m 10 = t" and "areas_apart ts" and "t \<in> ts"
    and "(others_step off ts t)\<^sup>*\<^sup>* (switch_to off m) n" and "gpr n 10 \<in> ts - {t}" and "gpr n 11 = t"
  defines "r \<equiv> switch_to off n"
  shows "live r = live m \<and> gpr r 4 = t \<and> gpr r 10 = gpr n 10"
proof -
  have "stored off (mem n) t = live m"
    using waiting.run_inv [OF assms(4)] switch_to_spec(2) [of off m] assms(1) by blast
  moreover have "unat (t - gpr n 10) \<ge> 56" "unat (gpr n 10 - t) \<ge> 56"
    using assms(2,3,5) unfolding areas_apart_def by auto
  moreover from this have "stored off (mem r) t = stored off (mem n) t"
    unfolding r_def by (intro switch_to_spec(6))
  ultimately show ?thesis
    using switch_to_spec(1,3,4) [of off n] assms(6) by (simp add: r_def)
qed

theorem task_resumes_witness:
  "live (switch_to 0x100 back_again) = live two_tasks \<and> gpr (switch_to 0x100 back_again) 4 = 0xd0000000"
proof -
  have "others_step 0x100 {0xd0000000, 0xe0000000} 0xd0000000 (switch_to 0x100 two_tasks) back_again"
    by (auto simp: others_step_def areas_apart_def back_again_def switch_to_spec(3) two_tasks_def
        intro!: sched_step.computes)
  then have "(others_step 0x100 {0xd0000000, 0xe0000000} 0xd0000000)\<^sup>*\<^sup>* (switch_to 0x100 two_tasks) back_again"
    by blast
  from task_resumes [OF _ _ _ this] show ?thesis
    by (simp add: areas_apart_def two_tasks_def) (simp add: back_again_def)
qed

text \<open>
  C13: A forked child returns to its program like its parent, with 0 as the result and the stack and
  thread pointer it was given: the first switch to a task that \<^verbatim>\<open>copy_thread\<close> built jumps to
  \<^verbatim>\<open>ret_from_fork\<close> on the child's own saved registers, and that path resumes exactly these
  registers, with \<^verbatim>\<open>sscratch\<close> at the top of the child's stack. The first switch to a kernel
  thread calls its function with its argument.
\<close>

theorem new_task_starts:
  fixes m m' :: "'x machine" and k :: "'x kernel" and p :: "(u32, 'f) task" and cur :: "u32 pt_regs"
    and usp arg off :: u32 and settls :: bool and ep :: "u32 entry_points"
  defines "child \<equiv> copy_thread ep cur settls usp arg p" and "r \<equiv> switch_to off m"
  assumes "task_at off (mem r) (gpr m 11) child" and "length (thread_s p) = 12" and "csrs m Sscratch = 0"
    and "c_contract k eff" and "\<And>f args fr fr' v. eff f args fr fr' v \<Longrightarrow> fr' = fr"
  shows "(\<not> kthread p \<and> start_forked k r = Some m' \<longrightarrow>
      gpr r 1 = ret_from_fork ep
      \<and> interrupted m' = cur\<lparr>a0 := 0, sp := (if usp = 0 then sp cur else usp),
          tp := (if settls then a5 cur else tp cur),
          sbadaddr := csrs m' Sbadaddr, scause := csrs m' Scause\<rparr>
      \<and> csrs m' Sscratch = (if user_mode cur then pt_regs_addr p + PT_SIZE else 0))
    \<and> (kthread p \<and> start_kernel_thread k r = Some m' \<longrightarrow>
      gpr r 1 = ret_from_kernel_thread ep
      \<and> (\<exists>args v. args 0 = arg \<and> eff (C_thread usp) args (pt_regs_of child) (pt_regs_of child) v))"
proof -
  have child: "pt_regs_of child = (if kthread p then pt_regs_of child else cur\<lparr>a0 := 0,
        sp := (if usp = 0 then sp cur else usp), tp := (if settls then a5 cur else tp cur)\<rparr>)"
      "thread_ra child = (if kthread p then ret_from_kernel_thread ep else ret_from_fork ep)"
      "kthread p \<Longrightarrow> thread_s child ! 0 = usp \<and> thread_s child ! 1 = arg"
    using assms(4) by (simp_all add: child_def copy_thread_def Let_def)
  note first = first_switch [OF assms(3-5) [unfolded child_def r_def], folded child_def r_def]
  have "keeps_saved eff" using assms(7) unfolding keeps_saved_def by blast
  note paths = forked_resumes [OF first(1) assms(6) this] kernel_thread_runs [OF first(1) assms(6) this]
  show ?thesis
    using paths first(2-4) child
    by (auto simp: resumes_def user_mode_def)
qed

theorem new_task_starts_witness:
  "\<exists>m'. start_forked example_kernel (switch_to 0x100 two_tasks) = Some m'
    \<and> gpr m' 10 = 0 \<and> csrs m' Sepc = 0x10004 \<and> gpr m' 2 = 0x7000"
proof -
  let ?r = "switch_to 0x100 two_tasks" and ?cur = "zero_regs\<lparr>sepc := 0x10004\<rparr>"
  have "(case start_forked example_kernel ?r of None \<Rightarrow> False | Some _ \<Rightarrow> True)" by code_simp
  then obtain m' where m': "start_forked example_kernel ?r = Some m'" by (auto split: option.splits)
  have at: "task_at 0x100 (mem ?r) (gpr two_tasks 11) (copy_thread example_entry ?cur False 0x7000 0 example_task)"
    by code_simp
  have same: "example_effect f args fr fr' v \<Longrightarrow> fr' = fr" for f args fr fr' v
    by (simp add: example_effect_def)
  have len: "length (thread_s example_task) = 12" "csrs two_tasks Sscratch = 0" "\<not> kthread example_task"
    by (simp_all add: example_task_def two_tasks_def)
  from new_task_starts [where m' = m', OF at len(1,2) example_contract same] m' len(3)
  have "interrupted m' = ?cur\<lparr>a0 := 0, sp := 0x7000, tp := tp ?cur, sbadaddr := csrs m' Sbadaddr,
      scause := csrs m' Scause\<rparr>" by simp
  then have "a0 (interrupted m') = 0" "sepc (interrupted m') = 0x10004" "sp (interrupted m') = 0x7000" by simp_all
  then show ?thesis using m' by (simp add: interrupted_def)
qed

end
