(* ===== verification/SmpBoot.thy ===== *)
theory SmpBoot
  imports Regs
begin

text \<open>
  How the harts start: \<^verbatim>\<open>kernel/head.S\<close>, \<^verbatim>\<open>__cpu_up\<close> and \<^verbatim>\<open>smp_callin\<close> of
  \<^verbatim>\<open>kernel/smpboot.c\<close>, with \<^verbatim>\<open>trap_init\<close> of \<^verbatim>\<open>kernel/traps.c\<close> and
  \<^verbatim>\<open>init_clockevent\<close> of \<^verbatim>\<open>kernel/time.c\<close>, as steps of the harts over the memory they share.
  A step is labelled with the hart that takes it; hart 0 boots the machine.
\<close>

section \<open>State\<close>

text \<open>The calls of \<^verbatim>\<open>smp_callin\<close>, in their order.\<close>

datatype callin = Atomic_inc_mm_count | Set_active_mm | Trap_init | Init_clockevent | Notify_cpu_starting
  | Set_cpu_online | Local_flush_tlb_all | Local_irq_enable | Preempt_disable

definition smp_callin :: "callin list" where
  "smp_callin = [Atomic_inc_mm_count, Set_active_mm, Trap_init, Init_clockevent, Notify_cpu_starting,
     Set_cpu_online, Local_flush_tlb_all, Local_irq_enable, Preempt_disable]"

datatype boot_stage = At_start | Clear_bss | Boot_cpu | Cpu_up nat | Wait_for_cpu_up | Secondary_park
  | Callin "callin list" | Startup_entry

record hart =
  hart_stage :: boot_stage
  hart_sp :: u32
  hart_tp :: u32
  hart_sstatus :: u32
  hart_sie :: u32
  hart_sscratch :: u32
  hart_stvec :: u32
  uses_init_mm :: bool

text \<open>
  \<open>cpu_ups\<close> lists the calls of \<^verbatim>\<open>__cpu_up\<close> so far, each with the top of the stack of the idle
  task; \<open>log\<close> has the calls of the generic code.
\<close>

record smp =
  cpu_up_stack_pointer :: "nat \<Rightarrow> u32"
  harts :: "nat \<Rightarrow> hart"
  cpu_online :: "nat \<Rightarrow> bool"
  mm_count :: u32
  cpu_ups :: "(nat \<times> u32) list"
  log :: "(nat \<times> callin) list"

record boot_env =
  CONFIG_NR_CPUS :: nat
  word_at :: "u32 \<Rightarrow> u32"
  handle_exception_addr :: u32
  init_thread_union :: u32
  init_task :: u32

definition STACK_BYTES :: u32 where "STACK_BYTES = 0x2000"

definition upd_hart :: "nat \<Rightarrow> (hart \<Rightarrow> hart) \<Rightarrow> smp \<Rightarrow> smp" where
  "upd_hart h f s = s\<lparr>harts := (harts s)(h := f (harts s h))\<rparr>"

definition trap_init :: "u32 \<Rightarrow> hart \<Rightarrow> hart" where
  "trap_init vector x = x\<lparr>hart_sscratch := csr_write 0 (hart_sscratch x), hart_stvec := csr_write vector (hart_stvec x)\<rparr>"

fun callin_call :: "boot_env \<Rightarrow> nat \<Rightarrow> callin \<Rightarrow> smp \<Rightarrow> smp" where
  "callin_call e h Atomic_inc_mm_count s = s\<lparr>mm_count := mm_count s + 1\<rparr>"
| "callin_call e h Set_active_mm s = upd_hart h (\<lambda>x. x\<lparr>uses_init_mm := True\<rparr>) s"
| "callin_call e h Trap_init s = upd_hart h (trap_init (handle_exception_addr e)) s"
| "callin_call e h Set_cpu_online s = s\<lparr>cpu_online := (cpu_online s)(h := True)\<rparr>"
| "callin_call e h Local_irq_enable s =
    upd_hart h (\<lambda>x. x\<lparr>hart_sstatus := arch_local_irq_enable (hart_sstatus x)\<rparr>) s"
| "callin_call e h c s = s\<lparr>log := log s @ [(h, c)]\<rparr>"

section \<open>Steps\<close>

definition to_stage :: "nat \<Rightarrow> boot_stage \<Rightarrow> smp \<Rightarrow> smp" where
  "to_stage h st = upd_hart h (\<lambda>x. x\<lparr>hart_stage := st\<rparr>)"

text \<open>\<^verbatim>\<open>_start\<close>: the floating-point unit is switched off, and the harts part.\<close>

definition start_hart :: "boot_env \<Rightarrow> nat \<Rightarrow> hart \<Rightarrow> hart" where
  "start_hart e h x = x\<lparr>hart_sstatus := csr_clear SR_FS (hart_sstatus x),
     hart_stage := (if h = 0 then Clear_bss else if h \<ge> CONFIG_NR_CPUS e then Secondary_park
                    else Wait_for_cpu_up)\<rparr>"

text \<open>The array \<^verbatim>\<open>__cpu_up_stack_pointer\<close> lies in \<^verbatim>\<open>.bss\<close>.\<close>

definition clear_bss :: "boot_env \<Rightarrow> smp \<Rightarrow> smp" where
  "clear_bss e s =
    upd_hart 0 (\<lambda>x. x\<lparr>hart_sp := init_thread_union e + STACK_BYTES, hart_tp := init_task e,
        hart_stage := Boot_cpu\<rparr>) (s\<lparr>cpu_up_stack_pointer := \<lambda>_. 0\<rparr>)"

definition wait_for_cpu_up :: "boot_env \<Rightarrow> nat \<Rightarrow> smp \<Rightarrow> smp" where
  "wait_for_cpu_up e h s =
    (let stack = cpu_up_stack_pointer s h
     in if stack = 0 then upd_hart h (\<lambda>x. x\<lparr>hart_sp := stack\<rparr>) s
        else upd_hart h (\<lambda>x. x\<lparr>hart_sp := stack, hart_tp := word_at e (- STACK_BYTES + stack),
               hart_stage := Callin smp_callin\<rparr>) s)"

inductive smp_step :: "boot_env \<Rightarrow> nat \<Rightarrow> smp \<Rightarrow> smp \<Rightarrow> bool" for e where
  start: "hart_stage (harts s h) = At_start \<Longrightarrow> smp_step e h s (upd_hart h (start_hart e h) s)"
| clear: "hart_stage (harts s 0) = Clear_bss \<Longrightarrow> smp_step e 0 s (clear_bss e s)"
| cpu_up: "hart_stage (harts s 0) = Boot_cpu \<Longrightarrow> 0 < c \<Longrightarrow> c < CONFIG_NR_CPUS e \<Longrightarrow> \<not> cpu_online s c
    \<Longrightarrow> page + STACK_BYTES \<noteq> 0
    \<Longrightarrow> smp_step e 0 s (to_stage 0 (Cpu_up c)
          (s\<lparr>cpu_up_stack_pointer := (cpu_up_stack_pointer s)(c := page + STACK_BYTES),
             cpu_ups := cpu_ups s @ [(c, page + STACK_BYTES)]\<rparr>))"
| boot_other: "hart_stage (harts s 0) = Boot_cpu \<Longrightarrow> smp_step e 0 s s"
| spin: "hart_stage (harts s 0) = Cpu_up c \<Longrightarrow>
    smp_step e 0 s (if cpu_online s c then to_stage 0 Boot_cpu s else s)"
| wait: "hart_stage (harts s h) = Wait_for_cpu_up \<Longrightarrow> smp_step e h s (wait_for_cpu_up e h s)"
| park: "hart_stage (harts s h) = Secondary_park \<Longrightarrow> smp_step e h s s"
| callin: "hart_stage (harts s h) = Callin (c # cs) \<Longrightarrow>
    smp_step e h s (callin_call e h c (to_stage h (Callin cs) s))"
| enter: "hart_stage (harts s h) = Callin [] \<Longrightarrow> smp_step e h s (to_stage h Startup_entry s)"
| idle: "hart_stage (harts s h) = Startup_entry \<Longrightarrow> smp_step e h s s"

text \<open>The start, with whatever the memory and the registers of the harts hold.\<close>

definition smp_start :: "smp \<Rightarrow> bool" where
  "smp_start s \<longleftrightarrow> (\<forall>h. hart_stage (harts s h) = At_start) \<and> cpu_ups s = [] \<and> (\<forall>h. \<not> cpu_online s h)"

definition bss_clear :: "smp \<Rightarrow> bool" where
  "bss_clear s \<longleftrightarrow> (\<forall>h. cpu_up_stack_pointer s h = 0)"

section \<open>The invariant\<close>

text \<open>
  What a secondary hart has done, by its stage: the calls that remain are a tail of
  \<^verbatim>\<open>smp_callin\<close>.
\<close>

definition remaining :: "boot_stage \<Rightarrow> callin list" where
  "remaining st = (case st of Callin cs \<Rightarrow> cs | Startup_entry \<Rightarrow> [] | _ \<Rightarrow> smp_callin)"

definition done_call :: "callin \<Rightarrow> boot_stage \<Rightarrow> bool" where
  "done_call c st \<longleftrightarrow> c \<notin> set (remaining st)"

fun called_in :: "boot_stage \<Rightarrow> bool" where
  "called_in (Callin _) = True" | "called_in Startup_entry = True" | "called_in _ = False"

fun only_boot :: "boot_stage \<Rightarrow> bool" where
  "only_boot Clear_bss = True" | "only_boot Boot_cpu = True" | "only_boot (Cpu_up _) = True" | "only_boot _ = False"

definition hart_ok :: "boot_env \<Rightarrow> smp \<Rightarrow> nat \<Rightarrow> bool" where
  "hart_ok e s h \<longleftrightarrow>
    (let x = harts s h; st = hart_stage x
     in (\<exists>k. remaining st = drop k smp_callin)
        \<and> (h = 0 \<longrightarrow> \<not> called_in st \<and> st \<noteq> Wait_for_cpu_up \<and> st \<noteq> Secondary_park)
        \<and> (h \<noteq> 0 \<longrightarrow> \<not> only_boot st)
        \<and> (called_in st \<longrightarrow> (h, hart_sp x) \<in> set (cpu_ups s) \<and> hart_tp x = word_at e (hart_sp x - STACK_BYTES))
        \<and> (cpu_online s h \<longleftrightarrow> done_call Set_cpu_online st)
        \<and> (done_call Trap_init st \<longrightarrow> hart_stvec x = handle_exception_addr e \<and> hart_sscratch x = 0)
        \<and> (cpu_up_stack_pointer s h \<noteq> 0 \<longrightarrow> (h, cpu_up_stack_pointer s h) \<in> set (cpu_ups s)))"

definition spin_ok :: "boot_env \<Rightarrow> smp \<Rightarrow> bool" where
  "spin_ok e s \<longleftrightarrow>
    (\<forall>c. hart_stage (harts s 0) = Cpu_up c \<longrightarrow> 0 < c \<and> c < CONFIG_NR_CPUS e \<and> cpu_up_stack_pointer s c \<noteq> 0)
    \<and> (\<forall>h. hart_stage (harts s h) = Secondary_park \<longrightarrow> CONFIG_NR_CPUS e \<le> h)"

definition smp_inv :: "boot_env \<Rightarrow> smp \<Rightarrow> bool" where
  "smp_inv e s \<longleftrightarrow> (\<forall>h. hart_ok e s h) \<and> spin_ok e s"

lemma harts_upd [simp]:
  "harts (upd_hart h f s) = (harts s)(h := f (harts s h))"
  "cpu_online (upd_hart h f s) = cpu_online s" "cpu_ups (upd_hart h f s) = cpu_ups s"
  "cpu_up_stack_pointer (upd_hart h f s) = cpu_up_stack_pointer s"
  by (simp_all add: upd_hart_def)

lemma callin_call_simps [simp]:
  "cpu_online (callin_call e h c s) = (if c = Set_cpu_online then (cpu_online s)(h := True) else cpu_online s)"
  "cpu_ups (callin_call e h c s) = cpu_ups s"
  "cpu_up_stack_pointer (callin_call e h c s) = cpu_up_stack_pointer s"
  "h' \<noteq> h \<Longrightarrow> harts (callin_call e h c s) h' = harts s h'"
  "hart_stage (harts (callin_call e h c s) h) = hart_stage (harts s h)"
  "hart_sp (harts (callin_call e h c s) h) = hart_sp (harts s h)"
  "hart_tp (harts (callin_call e h c s) h) = hart_tp (harts s h)"
  "hart_sie (harts (callin_call e h c s) h) = hart_sie (harts s h)"
  "hart_stvec (harts (callin_call e h c s) h)
    = (if c = Trap_init then handle_exception_addr e else hart_stvec (harts s h))"
  "hart_sscratch (harts (callin_call e h c s) h) = (if c = Trap_init then 0 else hart_sscratch (harts s h))"
  by (cases c; simp add: trap_init_def csr_write_def)+

lemma smp_callin_distinct: "distinct smp_callin"
  by (simp add: smp_callin_def)

lemma remaining_simps [simp]:
  "remaining (Callin cs) = cs" "remaining Startup_entry = []" "remaining At_start = smp_callin"
  "remaining Clear_bss = smp_callin" "remaining Boot_cpu = smp_callin" "remaining (Cpu_up c) = smp_callin"
  "remaining Wait_for_cpu_up = smp_callin" "remaining Secondary_park = smp_callin"
  by (simp_all add: remaining_def)

lemma remaining_tail:
  assumes "c # cs = drop k smp_callin"
  shows "cs = drop (Suc k) smp_callin" "c \<notin> set cs"
proof -
  show cs: "cs = drop (Suc k) smp_callin" using assms by (metis drop_Suc list.sel(3) tl_drop)
  show "c \<notin> set cs" using distinct_drop [OF smp_callin_distinct, of k] unfolding assms [symmetric] by simp
qed

lemma hart_ok_other:
  assumes "hart_ok e s h" and "harts t h = harts s h" and "cpu_online t h = cpu_online s h"
    and "set (cpu_ups s) \<subseteq> set (cpu_ups t)"
    and "cpu_up_stack_pointer t h = cpu_up_stack_pointer s h \<or> cpu_up_stack_pointer t h = 0
      \<or> (h, cpu_up_stack_pointer t h) \<in> set (cpu_ups t)"
  shows "hart_ok e t h"
proof -
  have "cpu_up_stack_pointer s h \<noteq> 0 \<longrightarrow> (h, cpu_up_stack_pointer s h) \<in> set (cpu_ups s)"
    using assms(1) by (simp add: hart_ok_def Let_def)
  then have "cpu_up_stack_pointer t h \<noteq> 0 \<longrightarrow> (h, cpu_up_stack_pointer t h) \<in> set (cpu_ups t)"
    using assms(4,5) by auto
  then show ?thesis
    using assms(1,4) unfolding hart_ok_def Let_def assms(2,3) by blast
qed

lemma secondary:
  assumes "hart_ok e s h" and "called_in (hart_stage (harts s h)) \<or> hart_stage (harts s h) = Wait_for_cpu_up"
  shows "h \<noteq> 0"
proof
  assume "h = 0"
  then show False using assms by (auto simp: hart_ok_def Let_def)
qed

lemma hart_ok_callin:
  assumes "hart_ok e s h" and "hart_stage (harts s h) = Callin (c # cs)"
  shows "hart_ok e (callin_call e h c (to_stage h (Callin cs) s)) h"
proof -
  let ?t = "callin_call e h c (to_stage h (Callin cs) s)"
  obtain k where k: "c # cs = drop k smp_callin" using assms by (auto simp: hart_ok_def Let_def)
  note tail = remaining_tail [OF k]
  have h: "h \<noteq> 0" using secondary [OF assms(1)] assms(2) by simp
  have st: "hart_stage (harts ?t h) = Callin cs" "hart_sp (harts ?t h) = hart_sp (harts s h)"
    "hart_tp (harts ?t h) = hart_tp (harts s h)" by (simp_all add: to_stage_def)
  have old: "(h, hart_sp (harts s h)) \<in> set (cpu_ups s)"
    "hart_tp (harts s h) = word_at e (hart_sp (harts s h) - STACK_BYTES)"
    "cpu_online s h \<longleftrightarrow> Set_cpu_online \<notin> set (c # cs)"
    "Trap_init \<notin> set (c # cs) \<Longrightarrow>
      hart_stvec (harts s h) = handle_exception_addr e \<and> hart_sscratch (harts s h) = 0"
    "cpu_up_stack_pointer s h \<noteq> 0 \<Longrightarrow> (h, cpu_up_stack_pointer s h) \<in> set (cpu_ups s)"
    using assms unfolding hart_ok_def Let_def done_call_def by simp_all
  have online: "cpu_online ?t h \<longleftrightarrow> Set_cpu_online \<notin> set cs"
    using old(3) tail(2) by (auto simp: to_stage_def)
  have vector: "Trap_init \<notin> set cs \<longrightarrow>
      hart_stvec (harts ?t h) = handle_exception_addr e \<and> hart_sscratch (harts ?t h) = 0"
    using old(4) by (auto simp: to_stage_def)
  have pointer: "cpu_up_stack_pointer ?t h = cpu_up_stack_pointer s h" "cpu_ups ?t = cpu_ups s"
    by (simp_all add: to_stage_def)
  show ?thesis
    unfolding hart_ok_def Let_def done_call_def st pointer
    using h old(1,2,5) online vector tail(1) by simp blast
qed

lemma hart_step_inv:
  assumes "smp_step e g s t" and "smp_inv e s"
  shows "hart_ok e t h"
proof -
  have ok: "hart_ok e s h" "hart_ok e s g" using assms(2) by (simp_all add: smp_inv_def)
  show ?thesis
    using assms(1)
  proof cases
    case start
    then show ?thesis using ok
      by (cases "h = g") (auto simp: hart_ok_def Let_def start_hart_def done_call_def)
  next
    case clear
    then show ?thesis using ok
      by (cases "h = 0") (auto simp: hart_ok_def Let_def clear_bss_def done_call_def)
  next
    case (cpu_up c page)
    then show ?thesis using ok
      by (cases "h = 0") (auto simp: hart_ok_def Let_def to_stage_def done_call_def)
  next
    case (spin c)
    then show ?thesis using ok
      by (cases "h = 0") (auto simp: hart_ok_def Let_def to_stage_def done_call_def)
  next
    case wait
    have "g \<noteq> 0" using secondary [OF ok(2)] wait by simp
    then show ?thesis using ok wait
      by (cases "h = g")
        (auto simp: hart_ok_def Let_def wait_for_cpu_up_def done_call_def intro: exI [of _ 0])
  next
    case (callin c cs)
    show ?thesis
    proof (cases "h = g")
      case True
      then show ?thesis using callin ok hart_ok_callin by simp
    next
      case False
      then show ?thesis using callin by (intro hart_ok_other [OF ok(1)]) (simp_all add: to_stage_def)
    qed
  next
    case enter
    have "g \<noteq> 0" using secondary [OF ok(2)] enter by simp
    then show ?thesis using ok enter
      by (cases "h = g") (auto simp: hart_ok_def Let_def to_stage_def done_call_def)
  qed (use ok in simp_all)
qed

lemma step_others:
  "smp_step e g s t \<Longrightarrow> g \<noteq> h \<Longrightarrow> harts t h = harts s h"
  by (erule smp_step.cases) (auto simp: clear_bss_def to_stage_def wait_for_cpu_up_def Let_def)

lemma spin_ok_step:
  assumes "smp_step e g s t" and "spin_ok e s" and "hart_ok e s g"
  shows "spin_ok e t"
  using assms(1)
proof cases
  case start
  then show ?thesis using assms(2) by (auto simp: spin_ok_def start_hart_def)
next
  case clear
  then show ?thesis using assms(2) by (auto simp: spin_ok_def clear_bss_def)
next
  case (cpu_up c page)
  then show ?thesis using assms(2) by (auto simp: spin_ok_def to_stage_def)
next
  case (spin c)
  then show ?thesis using assms(2) by (auto simp: spin_ok_def to_stage_def)
next
  case wait
  then show ?thesis using assms(2) by (auto simp: spin_ok_def wait_for_cpu_up_def Let_def)
next
  case (callin c cs)
  have "hart_stage (harts t h) = (if h = g then Callin cs else hart_stage (harts s h))" for h
    using callin by (auto simp: to_stage_def)
  moreover have "cpu_up_stack_pointer t = cpu_up_stack_pointer s" using callin by (simp add: to_stage_def)
  ultimately show ?thesis using assms(2) by (auto simp: spin_ok_def)
next
  case enter
  then show ?thesis using assms(2) by (auto simp: spin_ok_def to_stage_def)
qed (use assms in simp_all)

interpretation smp: stepping "\<lambda>s. smp_start s \<and> bss_clear s" "\<lambda>s t. \<exists>h. smp_step e h s t" "smp_inv e" for e
proof
  show "smp_inv e s" if "smp_start s \<and> bss_clear s" for s
    using that by (auto simp: smp_inv_def spin_ok_def hart_ok_def smp_start_def bss_clear_def done_call_def smp_callin_def
        intro: exI [of _ 0])
  show "smp_inv e t" if "\<exists>h. smp_step e h s t" "smp_inv e s" for s t
    using that hart_step_inv spin_ok_step unfolding smp_inv_def by blast
qed

section \<open>Progress\<close>

text \<open>The steps a hart has before it at most, once its stack is there.\<close>

definition left_steps :: "smp \<Rightarrow> nat \<Rightarrow> nat" where
  "left_steps s h =
    (case hart_stage (harts s h) of At_start \<Rightarrow> 12 | Wait_for_cpu_up \<Rightarrow> 11 | Callin cs \<Rightarrow> length cs | _ \<Rightarrow> 0)"

lemma online_stays: "smp_step e g s t \<Longrightarrow> cpu_online s h \<Longrightarrow> cpu_online t h"
  by (erule smp_step.cases) (auto simp: clear_bss_def to_stage_def wait_for_cpu_up_def Let_def)

lemma boot_spins:
  assumes "smp_step e g s t" and "hart_stage (harts s 0) = Cpu_up c"
  shows "hart_stage (harts t 0) = Cpu_up c \<or> cpu_online s c \<and> g = 0 \<and> hart_stage (harts t 0) = Boot_cpu"
proof (cases "g = 0")
  case True
  from assms(1) show ?thesis by cases (use assms(2) True in \<open>auto simp: to_stage_def\<close>)
next
  case False
  then show ?thesis using step_others [OF assms(1)] assms(2) by simp
qed

lemma own_step:
  assumes "smp_step e c s t" and "smp_inv e s" and "hart_stage (harts s 0) = Cpu_up c"
  shows "cpu_online s c \<or> left_steps t c < left_steps s c"
proof -
  have c: "0 < c" "c < CONFIG_NR_CPUS e" "cpu_up_stack_pointer s c \<noteq> 0" and ok: "hart_ok e s c"
    and park: "hart_stage (harts s c) \<noteq> Secondary_park"
    using assms(2,3) by (auto simp: smp_inv_def spin_ok_def)
  from assms(1) show ?thesis
  proof cases
    case start
    then show ?thesis using c by (simp add: left_steps_def start_hart_def)
  next
    case wait
    then show ?thesis using c by (simp add: left_steps_def wait_for_cpu_up_def Let_def smp_callin_def)
  next
    case (callin d cs)
    then show ?thesis by (simp add: left_steps_def to_stage_def)
  next
    case enter
    then show ?thesis using ok by (simp add: hart_ok_def Let_def done_call_def)
  next
    case idle
    then show ?thesis using ok by (simp add: hart_ok_def Let_def done_call_def)
  qed (use c park in simp_all)
qed

text \<open>A schedule: the hart that moves and the state before each step.\<close>

definition smp_run :: "boot_env \<Rightarrow> (nat \<Rightarrow> nat) \<Rightarrow> (nat \<Rightarrow> smp) \<Rightarrow> bool" where
  "smp_run e g f \<longleftrightarrow> smp_start (f 0) \<and> bss_clear (f 0) \<and> (\<forall>i. smp_step e (g i) (f i) (f (Suc i)))"

lemma run_smp_inv: "smp_run e g f \<Longrightarrow> smp_inv e (f i)"
proof (induction i)
  case 0
  then show ?case using smp.init_inv by (auto simp: smp_run_def)
next
  case (Suc i)
  then show ?case using smp.step_inv [of e "f i" "f (Suc i)"] by (auto simp: smp_run_def)
qed

lemma run_until:
  assumes "smp_run e g f" and "hart_stage (harts (f i) 0) = Cpu_up c" and "i \<le> j"
    and "\<forall>n. i \<le> n \<and> n < j \<longrightarrow> g n \<noteq> c" and "\<forall>n. i \<le> n \<and> n \<le> j \<longrightarrow> \<not> cpu_online (f n) c"
  shows "hart_stage (harts (f j) 0) = Cpu_up c \<and> harts (f j) c = harts (f i) c"
  using assms(3-)
proof (induction j rule: dec_induct)
  case base
  then show ?case using assms(2) by simp
next
  case (step n)
  have st: "smp_step e (g n) (f n) (f (Suc n))" "hart_ok e (f n) (g n)"
    using assms(1) run_smp_inv [OF assms(1), of n] by (auto simp: smp_run_def smp_inv_def)
  have IH: "hart_stage (harts (f n) 0) = Cpu_up c" "harts (f n) c = harts (f i) c" using step by auto
  have "g n \<noteq> c" "\<not> cpu_online (f n) c" using step by auto
  then show ?case using boot_spins [OF st(1) IH(1)] step_others [OF st(1)] IH(2) by auto
qed

text \<open>The hart that is waited for comes online.\<close>

lemma comes_online:
  assumes "smp_run e g f" and "hart_stage (harts (f i) 0) = Cpu_up c" and "\<forall>i. \<exists>j \<ge> i. g j = c"
  shows "\<exists>j \<ge> i. cpu_online (f j) c"
  using assms(2)
proof (induction "left_steps (f i) c" arbitrary: i rule: less_induct)
  case less
  define j where "j = (LEAST j. i \<le> j \<and> g j = c)"
  have ex: "\<exists>j. i \<le> j \<and> g j = c" using assms(3) by blast
  have j: "i \<le> j" "g j = c" using LeastI_ex [OF ex] by (simp_all add: j_def)
  have first: "g n \<noteq> c" if "i \<le> n" "n < j" for n
    using that not_less_Least [of n "\<lambda>j. i \<le> j \<and> g j = c"] by (auto simp: j_def)
  show ?case
  proof (cases "\<exists>n. i \<le> n \<and> n \<le> j \<and> cpu_online (f n) c")
    case True
    then show ?thesis by blast
  next
    case False
    then have same: "hart_stage (harts (f j) 0) = Cpu_up c" "harts (f j) c = harts (f i) c"
      using run_until [OF assms(1) less.prems j(1)] first by auto
    have st: "smp_step e c (f j) (f (Suc j))" "smp_inv e (f j)"
      using assms(1) run_smp_inv [OF assms(1)] j(2) by (auto simp: smp_run_def)
    have "left_steps (f (Suc j)) c < left_steps (f i) c"
      using own_step [OF st same(1)] False j(1) same(2) by (auto simp: left_steps_def)
    moreover have "hart_stage (harts (f (Suc j)) 0) = Cpu_up c"
      using boot_spins [OF st(1) same(1)] False j(1) by auto
    ultimately obtain n where "n \<ge> Suc j" "cpu_online (f n) c" using less.hyps [of "Suc j"] by blast
    then show ?thesis using j(1) by (intro exI [of _ n]) simp
  qed
qed

lemma run_online:
  assumes "smp_run e g f" and "cpu_online (f i) c" and "i \<le> j"
  shows "cpu_online (f j) c"
  using assms(3)
proof (induction j rule: dec_induct)
  case (step n)
  have "smp_step e (g n) (f n) (f (Suc n))" using assms(1) by (simp add: smp_run_def)
  then show ?case using step.IH by (rule online_stays)
qed (rule assms(2))

section \<open>An example\<close>

text \<open>Two harts that move in turn; the boot hart starts the other one on a page.\<close>

definition hart_next :: "boot_env \<Rightarrow> u32 \<Rightarrow> nat \<Rightarrow> smp \<Rightarrow> smp" where
  "hart_next e page h s =
    (case hart_stage (harts s h) of
       At_start \<Rightarrow> upd_hart h (start_hart e h) s
     | Clear_bss \<Rightarrow> clear_bss e s
     | Boot_cpu \<Rightarrow>
         if cpu_online s 1 then s
         else to_stage 0 (Cpu_up 1)
           (s\<lparr>cpu_up_stack_pointer := (cpu_up_stack_pointer s)(1 := page + STACK_BYTES),
              cpu_ups := cpu_ups s @ [(1, page + STACK_BYTES)]\<rparr>)
     | Cpu_up c \<Rightarrow> if cpu_online s c then to_stage 0 Boot_cpu s else s
     | Wait_for_cpu_up \<Rightarrow> wait_for_cpu_up e h s
     | Secondary_park \<Rightarrow> s
     | Callin [] \<Rightarrow> to_stage h Startup_entry s
     | Callin (c # cs) \<Rightarrow> callin_call e h c (to_stage h (Callin cs) s)
     | Startup_entry \<Rightarrow> s)"

definition two_harts :: boot_env where
  "two_harts = \<lparr>CONFIG_NR_CPUS = 2, word_at = \<lambda>a. a + 0x40, handle_exception_addr = 0xc0000100,
     init_thread_union = 0xc0800000, init_task = 0xc0700000\<rparr>"

definition cold_hart :: hart where
  "cold_hart = \<lparr>hart_stage = At_start, hart_sp = 0, hart_tp = 0, hart_sstatus = 0, hart_sie = 0,
     hart_sscratch = 7, hart_stvec = 0, uses_init_mm = False\<rparr>"

definition cold_start :: smp where
  "cold_start = \<lparr>cpu_up_stack_pointer = \<lambda>_. 0, harts = \<lambda>_. cold_hart, cpu_online = \<lambda>_. False, mm_count = 1,
     cpu_ups = [], log = []\<rparr>"

primrec example_run :: "nat \<Rightarrow> smp" where
  "example_run 0 = cold_start"
| "example_run (Suc i) = hart_next two_harts 0xcf000000 (i mod 2) (example_run i)"

lemma hart_next_step:
  assumes "hart_ok e s h" and "1 < CONFIG_NR_CPUS e" and "page + STACK_BYTES \<noteq> 0"
  shows "smp_step e h s (hart_next e page h s)"
proof -
  have role: "h = 0 \<Longrightarrow> \<not> called_in (hart_stage (harts s h)) \<and> hart_stage (harts s h) \<noteq> Wait_for_cpu_up
      \<and> hart_stage (harts s h) \<noteq> Secondary_park" "h \<noteq> 0 \<Longrightarrow> \<not> only_boot (hart_stage (harts s h))"
    using assms(1) by (simp_all add: hart_ok_def Let_def)
  have spin: "smp_step e 0 s (to_stage 0 Boot_cpu s)"
    if "hart_stage (harts s 0) = Cpu_up c" "cpu_online s c" for c
    using smp_step.spin [OF that(1), of e] that(2) by simp
  have spin': "smp_step e 0 s s" if "hart_stage (harts s 0) = Cpu_up c" "\<not> cpu_online s c" for c
    using smp_step.spin [OF that(1), of e] that(2) by simp
  show ?thesis
  proof (cases "h = 0")
    case True
    then show ?thesis
      using role(1) assms(2,3)
      by (cases "hart_stage (harts s 0)") (auto simp: hart_next_def intro: smp_step.intros spin spin')
  next
    case False
    then show ?thesis
      using role(2)
      by (cases "hart_stage (harts s h)") (auto simp: hart_next_def intro: smp_step.intros split: list.split)
  qed
qed

lemma example_run_ok: "smp_run two_harts (\<lambda>i. i mod 2) example_run"
proof -
  have start: "smp_start cold_start" "bss_clear cold_start"
    by (simp_all add: smp_start_def bss_clear_def cold_start_def cold_hart_def)
  have step: "smp_step two_harts (i mod 2) (example_run i) (example_run (Suc i))"
    if "smp_inv two_harts (example_run i)" for i
    unfolding example_run.simps
    by (rule hart_next_step) (use that in \<open>simp_all add: smp_inv_def two_harts_def STACK_BYTES_def\<close>)
  have "smp_inv two_harts (example_run i)" for i
  proof (induction i)
    case 0
    then show ?case using smp.init_inv start by simp
  next
    case (Suc i)
    then show ?case using smp.step_inv step by blast
  qed
  then show ?thesis using start step by (simp add: smp_run_def)
qed

section \<open>Properties\<close>

text \<open>
  C15: A secondary hart that the boot code lets into the kernel was called by \<^verbatim>\<open>__cpu_up\<close>, runs
  on the stack that call gave to it, with the idle task of that stack in \<^verbatim>\<open>tp\<close>, and when
  it is online its exceptions go to \<^verbatim>\<open>handle_exception\<close> with \<^verbatim>\<open>sscratch\<close> 0, provided that
  the memory of \<^verbatim>\<open>.bss\<close> is zero when the harts start.
\<close>

theorem secondary_starts_right:
  fixes s t :: smp and h :: nat
  assumes "smp_start s" and "bss_clear s" and "(\<lambda>a b. \<exists>g. smp_step e g a b)\<^sup>*\<^sup>* s t"
    and "called_in (hart_stage (harts t h))"
  shows "(h, hart_sp (harts t h)) \<in> set (cpu_ups t)
    \<and> hart_tp (harts t h) = word_at e (hart_sp (harts t h) - STACK_BYTES)
    \<and> (cpu_online t h \<longrightarrow> hart_stvec (harts t h) = handle_exception_addr e \<and> hart_sscratch (harts t h) = 0)"
proof -
  have ok: "hart_ok e t h" using smp.reachable_inv [of s e t] assms(1-3) by (simp add: smp_inv_def)
  have "Trap_init \<notin> set (drop k smp_callin)" if "Set_cpu_online \<notin> set (drop k smp_callin)" for k
  proof (rule ccontr)
    assume "\<not> Trap_init \<notin> set (drop k smp_callin)"
    then have "k \<le> 2" by (cases "k \<le> 2") (auto simp: smp_callin_def drop_Cons split: nat.splits)
    then show False using that by (auto simp: smp_callin_def drop_Cons split: nat.splits)
  qed
  then have "done_call Set_cpu_online (hart_stage (harts t h)) \<longrightarrow> done_call Trap_init (hart_stage (harts t h))"
    using ok unfolding hart_ok_def Let_def done_call_def by metis
  then show ?thesis using ok assms(4) unfolding hart_ok_def Let_def by blast
qed

theorem secondary_starts_right_witness:
  "hart_sp (harts (example_run 8) 1) = 0xcf002000 \<and> hart_tp (harts (example_run 8) 1) = 0xcf000040
    \<and> (1, 0xcf002000) \<in> set (cpu_ups (example_run 8))"
proof -
  have run: "smp_run two_harts (\<lambda>i. i mod 2) example_run" by (rule example_run_ok)
  have reach: "(\<lambda>a b. \<exists>g. smp_step two_harts g a b)\<^sup>*\<^sup>* cold_start (example_run n)" for n
  proof (induction n)
    case (Suc n)
    then show ?case using run by (auto simp: smp_run_def intro: rtranclp.rtrancl_into_rtrancl)
  qed simp
  have at: "called_in (hart_stage (harts (example_run 8) 1))" "hart_sp (harts (example_run 8) 1) = 0xcf002000"
    by code_simp+
  have start: "smp_start cold_start" "bss_clear cold_start" using run by (simp_all add: smp_run_def)
  from secondary_starts_right [OF start reach at(1)] show ?thesis
    unfolding at(2) by (simp add: two_harts_def STACK_BYTES_def)
qed

text \<open>
  C23: \<^verbatim>\<open>__cpu_up\<close> returns: in every schedule in which the boot hart and the hart it waits for move
  again and again, the loop on \<^verbatim>\<open>cpu_online\<close> ends, with the hart online.
\<close>

theorem cpu_up_returns:
  assumes "smp_run e g f" and "hart_stage (harts (f i) 0) = Cpu_up c"
    and "\<forall>i. \<exists>j \<ge> i. g j = c" and "\<forall>i. \<exists>j \<ge> i. g j = 0"
  shows "\<exists>j \<ge> i. cpu_online (f j) c \<and> hart_stage (harts (f j) 0) = Boot_cpu"
proof -
  obtain j where j: "j \<ge> i" "cpu_online (f j) c" using comes_online [OF assms(1-3)] by blast
  show ?thesis
  proof (rule ccontr)
    assume never: "\<not> ?thesis"
    have up: "hart_stage (harts (f n) 0) = Cpu_up c" if "i \<le> n" for n
      using that
    proof (induction n rule: dec_induct)
      case base
      then show ?case by (rule assms(2))
    next
      case (step n)
      have st: "smp_step e (g n) (f n) (f (Suc n))" using assms(1) by (simp add: smp_run_def)
      have "cpu_online (f n) c \<Longrightarrow> hart_stage (harts (f (Suc n)) 0) \<noteq> Boot_cpu"
        using never online_stays [OF st, of c] step.hyps(1) le_SucI by blast
      then show ?case using boot_spins [OF st step.IH] by blast
    qed
    obtain n where n: "n \<ge> j" "g n = 0" using assms(4) by blast
    have st: "smp_step e 0 (f n) (f (Suc n))" using assms(1) n(2) unfolding smp_run_def by metis
    have "hart_stage (harts (f n) 0) = Cpu_up c" "cpu_online (f n) c"
      using up [of n] n(1) j run_online [OF assms(1) j(2) n(1)] by auto
    with st have "hart_stage (harts (f (Suc n)) 0) = Boot_cpu" by cases (auto simp: to_stage_def)
    then show False using up [of "Suc n"] n(1) j(1) by simp
  qed
qed

theorem cpu_up_returns_witness:
  "\<exists>j. cpu_online (example_run j) 1 \<and> hart_stage (harts (example_run j) 0) = Boot_cpu"
proof -
  have "hart_stage (harts (example_run 5) 0) = Cpu_up 1" by code_simp
  moreover have "\<forall>i. \<exists>j \<ge> i. j mod 2 = (1 :: nat)"
  proof
    fix i :: nat
    show "\<exists>j \<ge> i. j mod 2 = 1" by (intro exI [of _ "2 * i + 1"]) simp
  qed
  moreover have "\<forall>i. \<exists>j \<ge> i. j mod 2 = (0 :: nat)"
  proof
    fix i :: nat
    show "\<exists>j \<ge> i. j mod 2 = 0" by (intro exI [of _ "2 * i"]) simp
  qed
  ultimately show ?thesis using cpu_up_returns [OF example_run_ok] by blast
qed

text \<open>
  Without that provision the start races: a secondary hart reads the array before the boot hart
  has cleared it, and enters the kernel on a stack nobody gave to it.
\<close>

theorem start_races:
  assumes "1 < CONFIG_NR_CPUS e"
  shows "\<exists>s t. smp_start s \<and> (\<lambda>a b. \<exists>g. smp_step e g a b)\<^sup>*\<^sup>* s t
    \<and> called_in (hart_stage (harts t 1)) \<and> cpu_ups t = []"
proof -
  define s where "s = cold_start\<lparr>cpu_up_stack_pointer := \<lambda>_. 0xdead0000\<rparr>"
  define s1 where "s1 = upd_hart 1 (start_hart e 1) s"
  define s2 where "s2 = wait_for_cpu_up e 1 s1"
  have st: "smp_start s" by (simp add: s_def smp_start_def cold_start_def cold_hart_def)
  have "smp_step e 1 s s1" unfolding s1_def by (rule smp_step.start) (use st in \<open>simp add: smp_start_def\<close>)
  moreover have "smp_step e 1 s1 s2"
    unfolding s2_def by (rule smp_step.wait) (use assms in \<open>simp add: s1_def start_hart_def\<close>)
  ultimately have "(\<lambda>a b. \<exists>g. smp_step e g a b)\<^sup>*\<^sup>* s s2" 
    by (intro converse_rtranclp_into_rtranclp [of _ s s1] converse_rtranclp_into_rtranclp [of _ s1 s2]) blast+
  moreover have "called_in (hart_stage (harts s2 1)) \<and> cpu_ups s2 = []"
    by (simp add: s2_def s1_def s_def cold_start_def wait_for_cpu_up_def Let_def)
  ultimately show ?thesis using st by blast
qed

text \<open>
  Nothing on the way of a secondary hart enables its interrupt sources: \<^verbatim>\<open>init_IRQ\<close> and
  \<^verbatim>\<open>time_init\<close> write \<^verbatim>\<open>sie\<close> on the boot hart alone, and a hart that is online has the
  register as it found it.
\<close>

theorem secondary_sie_kept:
  "(\<lambda>a b. \<exists>g. smp_step e g a b)\<^sup>*\<^sup>* s t \<Longrightarrow> hart_sie (harts t h) = hart_sie (harts s h)"
proof (induction rule: rtranclp_induct)
  case (step t u)
  then obtain g where g: "smp_step e g t u" by blast
  have "hart_sie (harts u h) = hart_sie (harts t h)"
  proof (cases "g = h")
    case True
    from g show ?thesis
      by cases (use True in \<open>auto simp: start_hart_def clear_bss_def to_stage_def wait_for_cpu_up_def Let_def\<close>)
  qed (use step_others [OF g] in simp)
  then show ?case using step.IH by simp
qed simp

end
