(* ===== verification/PageWalk64.thy ===== *)
theory PageWalk64
  imports PageWalk
begin

text \<open>
  The three levels of the 64-bit machine, \<^verbatim>\<open>asm/pgtable-64.h\<close>, as a second instance of the trees
  of \<open>Radix\<close>: an address has 39 bits that matter, an upper directory of 1 GiB regions leads to
  directories of 2 MiB regions and these to tables of pages.
\<close>

section \<open>Operations\<close>

text \<open>The upper directory has the entries of \<^verbatim>\<open>pgd_t\<close>.\<close>

datatype 'a pud_t = Pud (pud_val: 'a)

type_synonym words64 = "u64 \<Rightarrow> u64"

definition pud_present :: "u64 pud_t \<Rightarrow> bool" where
  "pud_present pud \<longleftrightarrow> pud_val pud AND PAGE_PRESENT \<noteq> 0"

definition pud_none :: "u64 pud_t \<Rightarrow> bool" where
  "pud_none pud \<longleftrightarrow> pud_val pud = 0"

definition pud_bad :: "u64 pud_t \<Rightarrow> bool" where
  "pud_bad pud \<longleftrightarrow> \<not> pud_present pud"

definition set_pud :: "u64 \<Rightarrow> u64 pud_t \<Rightarrow> words64 \<Rightarrow> words64" where
  "set_pud pudp pud m = m(pudp := pud_val pud)"

definition pud_clear :: "u64 \<Rightarrow> words64 \<Rightarrow> words64" where
  "pud_clear pudp m = set_pud pudp (Pud 0) m"

definition pud_page_vaddr :: "u64 mem_layout \<Rightarrow> u64 pud_t \<Rightarrow> u64" where
  "pud_page_vaddr L pud = pfn_to_virt L (drop_bit PAGE_PFN_SHIFT (pud_val pud))"

definition pmd_offset :: "u64 mem_layout \<Rightarrow> u64 pud_t \<Rightarrow> u64 \<Rightarrow> u64" where
  "pmd_offset L pud addr = pud_page_vaddr L pud + 8 * pmd_index addr"

definition pud_populate :: "u64 mem_layout \<Rightarrow> u64 \<Rightarrow> u64 \<Rightarrow> words64 \<Rightarrow> words64" where
  "pud_populate L pudp pmd m =
    (let pfn = virt_to_pfn L pmd in set_pud pudp (Pud (push_bit PAGE_PFN_SHIFT pfn OR PAGE_TABLE)) m)"

section \<open>What the tables stand for\<close>

definition pud_at :: "words64 \<Rightarrow> u64 \<Rightarrow> u64 \<Rightarrow> u64 pud_t" where
  "pud_at m pgd addr = Pud (m (pgd_offset pgd addr))"

definition pmd_at64 :: "u64 mem_layout \<Rightarrow> words64 \<Rightarrow> u64 \<Rightarrow> u64 \<Rightarrow> u64 pmd_t" where
  "pmd_at64 L m pgd addr = Pmd (m (pmd_offset L (pud_at m pgd addr) addr))"

definition walk_tables64 :: "u64 mem_layout \<Rightarrow> words64 \<Rightarrow> u64 \<Rightarrow> u64 \<Rightarrow> u64 pte_t option" where
  "walk_tables64 L m pgd addr =
    (let pud = pud_at m pgd addr
     in if pud_none pud \<or> pud_bad pud then None
        else let pmd = pmd_at64 L m pgd addr
             in if pmd_none pmd \<or> pmd_bad pmd then None
                else let pte = Pte (m (pte_offset_kernel L pmd addr)) in if pte_present pte then Some pte else None)"

section \<open>The tables as a tree\<close>

definition sv39_index :: "nat \<Rightarrow> u64 \<Rightarrow> u64" where
  "sv39_index i a = (if i = 0 then pgd_index a else if i = 1 then pmd_index a else pte_index a)"

definition sv39_key :: "nat \<Rightarrow> u64 \<Rightarrow> u64" where
  "sv39_key i a = drop_bit (39 - 9 * i) a AND mask (9 * i)"

definition sv39 :: "u64 mem_layout \<Rightarrow> (u64, u64) radix_format" where
  "sv39 L = \<lparr>entry_slot = \<lambda>p i a. p + 8 * sv39_index i a, entry_present = \<lambda>e. pmd_present (Pmd e),
     entry_table = \<lambda>e. pmd_page_vaddr L (Pmd e)\<rparr>"

definition sv39_page :: "u64 mem_layout \<Rightarrow> u64 \<Rightarrow> bool" where
  "sv39_page L p \<longleftrightarrow> p AND NOT PAGE_MASK = 0 \<and> va_pa_offset L AND NOT PAGE_MASK = 0"

definition tables_ok64 :: "u64 mem_layout \<Rightarrow> words64 \<Rightarrow> u64 \<Rightarrow> bool" where
  "tables_ok64 L m pgd \<longleftrightarrow> sv39_page L pgd \<and> tree_ok (sv39 L) sv39_key 2 m pgd"

text \<open>A page for a new table: zeroed by the page allocator and nowhere in the tree.\<close>

definition free_page :: "u64 mem_layout \<Rightarrow> words64 \<Rightarrow> u64 \<Rightarrow> u64 \<Rightarrow> bool" where
  "free_page L m pgd page \<longleftrightarrow> page AND NOT PAGE_MASK = 0 \<and> page \<noteq> pgd \<and> (\<forall>i. m (page + 8 * (i AND mask 9)) = 0)
    \<and> (\<forall>a. pud_present (pud_at m pgd a) \<longrightarrow> pud_page_vaddr L (pud_at m pgd a) \<noteq> page
         \<and> (pmd_present (pmd_at64 L m pgd a) \<longrightarrow> pmd_page_vaddr L (pmd_at64 L m pgd a) \<noteq> page))"

lemma index_mask64:
  "pgd_index (a :: u64) = drop_bit 30 a AND mask 9" "pmd_index (a :: u64) = drop_bit 21 a AND mask 9"
  "pte_index (a :: u64) = drop_bit 12 a AND mask 9"
  by (simp_all add: pgd_index_def pmd_index_def pte_index_def PTRS_PER_PAGE_def PGDIR_SHIFT_def PMD_SHIFT_def
      PAGE_SHIFT_def mask_eq_exp_minus_1)

lemma sv39_index_mask: "i \<le> 2 \<Longrightarrow> sv39_index i a = drop_bit (30 - 9 * i) a AND mask 9"
  by (cases i rule: nat.exhaust) (auto simp: sv39_index_def index_mask64 le_Suc_eq numeral_2_eq_2)

interpretation sv39: radix "sv39 L" "sv39_page L" sv39_key sv39_index 2 for L
proof unfold_locales
  fix p q :: u64 and i j :: nat and a b :: u64
  assume "sv39_page L p" "sv39_page L q" "entry_slot (sv39 L) p i a = entry_slot (sv39 L) q j b"
  then show "p = q \<and> (i = j \<longrightarrow> sv39_index i a = sv39_index i b)"
    using same_entry [of p q 8 9] by (auto simp: sv39_def sv39_index_def sv39_page_def index_mask64 page_aligned split: if_splits)
next
  fix i :: nat and a b :: u64
  assume i: "i \<le> 2"
  then have "39 - 9 * Suc i + 9 = 39 - 9 * i" "9 * Suc i = 9 * i + 9" by simp_all
  then show "sv39_key (Suc i) a = sv39_key (Suc i) b \<longleftrightarrow> sv39_key i a = sv39_key i b \<and> sv39_index i a = sv39_index i b"
    using join_index [of "39 - 9 * Suc i" a "9 * i" 9 b] i by (simp add: sv39_key_def sv39_index_mask add.commute)
qed (auto simp: sv39_def sv39_index_def sv39_key_def sv39_page_def table_aligned)

lemma sv39_format [simp]:
  "entry_slot (sv39 L) p 0 a = pgd_offset p a"
  "entry_slot (sv39 L) (pud_page_vaddr L pud) (Suc 0) a = pmd_offset L pud a"
  "entry_slot (sv39 L) (pmd_page_vaddr L pmd) 2 a = pte_offset_kernel L pmd a"
  "entry_present (sv39 L) e = pmd_present (Pmd e)" "entry_table (sv39 L) e = pmd_page_vaddr L (Pmd e)"
  by (simp_all add: sv39_def sv39_index_def pgd_offset_def pmd_offset_def pte_offset_kernel_def)

lemma sv39_tables:
  "table_of (sv39 L) m pgd (Suc 0) a =
    (if pud_present (pud_at m pgd a) then Some (pud_page_vaddr L (pud_at m pgd a)) else None)"
  "table_of (sv39 L) m pgd 2 a =
    (if pud_present (pud_at m pgd a) \<and> pmd_present (pmd_at64 L m pgd a)
     then Some (pmd_page_vaddr L (pmd_at64 L m pgd a)) else None)"
proof -
  have pud: "pmd_present (Pmd e) = pud_present (Pud e)" "pmd_page_vaddr L (Pmd e) = pud_page_vaddr L (Pud e)" for e
    by (simp_all add: pmd_present_def pud_present_def pmd_page_vaddr_def pud_page_vaddr_def)
  show upper: "table_of (sv39 L) m pgd (Suc 0) a =
      (if pud_present (pud_at m pgd a) then Some (pud_page_vaddr L (pud_at m pgd a)) else None)"
    by (simp add: table_of.simps(2) pud pud_at_def Let_def)
  show "table_of (sv39 L) m pgd 2 a =
    (if pud_present (pud_at m pgd a) \<and> pmd_present (pmd_at64 L m pgd a)
     then Some (pmd_page_vaddr L (pmd_at64 L m pgd a)) else None)"
    unfolding numeral_2_eq_2 by (simp add: table_of.simps(2) [of _ _ _ "Suc 0"] upper pmd_at64_def Let_def)
qed

lemma sv39_walk: "walk_tables64 L m pgd a = map_option Pte (leaf_of (sv39 L) 2 m pgd a)"
  by (auto simp: walk_tables64_def leaf_of_def Let_def sv39_tables pud_none_def pud_bad_def pmd_none_def pmd_bad_def
      pud_present_def pmd_present_def pte_present_def split: if_splits)

lemma sv39_same_page: "sv39_key (Suc 2) a = sv39_key (Suc 2) b \<longleftrightarrow> drop_bit 12 a AND mask 27 = drop_bit 12 b AND mask 27"
  by (simp add: sv39_key_def)

lemma le_2_cases: "(i :: nat) \<le> 2 \<longleftrightarrow> i = 0 \<or> i = Suc 0 \<or> i = 2"
  by auto

lemma free_page_new:
  assumes "free_page L m pgd page" and "sv39_page L pgd"
  shows "new_table (sv39 L) (sv39_page L) 2 m pgd page"
proof -
  have "table_of (sv39 L) m pgd j b \<noteq> Some page" if "j \<le> 2" for j b
    using that assms(1) unfolding le_2_cases by (elim disjE) (auto simp: sv39_tables free_page_def)
  moreover have "entry_slot (sv39 L) page j b = page + 8 * (drop_bit (if j = 0 then 30 else if j = 1 then 21 else 12) b AND mask 9)" for j b
    by (simp add: sv39_def sv39_index_def index_mask64)
  ultimately show ?thesis
    using assms by (simp add: new_table_def free_page_def sv39_page_def pmd_present_def)
qed

lemma table_entry:
  fixes page :: u64
  assumes "page AND NOT PAGE_MASK = 0" "sv39_page L pgd"
  defines "e \<equiv> push_bit PAGE_PFN_SHIFT (virt_to_pfn L page) OR PAGE_TABLE"
  shows "entry_present (sv39 L) e" "entry_table (sv39 L) e = page"
  using pmd_populate_page [of L page] assms(1,2)
  by (simp_all add: e_def sv39_page_def pte_tests bit_or_iff page_bit_iff)

section \<open>Entering tables and pages\<close>

lemma pud_populate_walks:
  assumes "tables_ok64 L m pgd" and "\<not> pud_present (pud_at m pgd addr)" and "free_page L m pgd page"
  defines "m' \<equiv> pud_populate L (pgd_offset pgd addr) page m"
  shows "walk_tables64 L m' pgd a = walk_tables64 L m pgd a" and "tables_ok64 L m' pgd"
    and "pud_present (pud_at m' pgd addr)" and "pud_page_vaddr L (pud_at m' pgd addr) = page"
    and "\<not> pmd_present (pmd_at64 L m' pgd addr)"
proof -
  have ok: "tree_ok (sv39 L) sv39_key 2 m pgd" "sv39_page L pgd" using assms(1) by (simp_all add: tables_ok64_def)
  let ?e = "push_bit PAGE_PFN_SHIFT (virt_to_pfn L page) OR PAGE_TABLE"
  have m': "m' = m(entry_slot (sv39 L) pgd 0 addr := ?e)"
    by (simp add: m'_def pud_populate_def set_pud_def Let_def)
  have absent: "\<not> entry_present (sv39 L) (m (entry_slot (sv39 L) pgd 0 addr))"
    using assms(2) by (simp add: pud_at_def pud_present_def pmd_present_def)
  have al: "page AND NOT PAGE_MASK = 0" using assms(3) by (simp add: free_page_def)
  note ins = ok table_of.simps(1) zero_less_numeral absent free_page_new [OF assms(3) ok(2)] table_entry [OF al ok(2)]
  note maps = sv39.new_table_maps_nothing [OF ins, folded m'] and tables = sv39.new_table_tables [OF ins, folded m']
  show "walk_tables64 L m' pgd a = walk_tables64 L m pgd a" by (simp add: sv39_walk maps(1))
  show "tables_ok64 L m' pgd" using maps(2) ok(2) by (simp add: tables_ok64_def)
  show pud: "pud_present (pud_at m' pgd addr)" "pud_page_vaddr L (pud_at m' pgd addr) = page"
    using maps(3) by (simp_all add: sv39_tables split: if_splits)
  show "\<not> pmd_present (pmd_at64 L m' pgd addr)"
    using tables(2) [of 2 addr] pud by (simp add: sv39_tables split: if_splits)
qed

lemma pmd_populate_walks64:
  assumes "tables_ok64 L m pgd" and "pud_present (pud_at m pgd addr)" and "\<not> pmd_present (pmd_at64 L m pgd addr)"
    and "free_page L m pgd page"
  defines "m' \<equiv> pmd_populate L (pmd_offset L (pud_at m pgd addr) addr) page m"
  shows "walk_tables64 L m' pgd a = walk_tables64 L m pgd a" and "tables_ok64 L m' pgd"
    and "pud_present (pud_at m' pgd addr)" and "pmd_present (pmd_at64 L m' pgd addr)"
proof -
  have ok: "tree_ok (sv39 L) sv39_key 2 m pgd" "sv39_page L pgd" using assms(1) by (simp_all add: tables_ok64_def)
  let ?e = "push_bit PAGE_PFN_SHIFT (virt_to_pfn L page) OR PAGE_TABLE" and ?p = "pud_page_vaddr L (pud_at m pgd addr)"
  have m': "m' = m(entry_slot (sv39 L) ?p (Suc 0) addr := ?e)"
    by (simp add: m'_def pmd_populate_def set_pmd_def Let_def)
  have absent: "\<not> entry_present (sv39 L) (m (entry_slot (sv39 L) ?p (Suc 0) addr))"
    using assms(3) by (simp add: pmd_at64_def)
  have al: "page AND NOT PAGE_MASK = 0" using assms(4) by (simp add: free_page_def)
  have t: "table_of (sv39 L) m pgd (Suc 0) addr = Some ?p" using assms(2) by (simp add: sv39_tables)
  note maps = sv39.new_table_maps_nothing [OF ok t _ absent free_page_new [OF assms(4) ok(2)] table_entry [OF al ok(2)], folded m']
  show "walk_tables64 L m' pgd a = walk_tables64 L m pgd a" using maps(1) by (simp add: sv39_walk)
  show "tables_ok64 L m' pgd" using maps(2) ok(2) by (simp add: tables_ok64_def)
  show "pud_present (pud_at m' pgd addr)" "pmd_present (pmd_at64 L m' pgd addr)"
    using maps(3) by (simp_all add: sv39_tables numeral_2_eq_2 [symmetric] split: if_splits)
qed

lemma set_pte_walks64:
  fixes v :: "u64 pte_t"
  assumes "tables_ok64 L m pgd" and "pud_present (pud_at m pgd addr)" and "pmd_present (pmd_at64 L m pgd addr)"
  defines "m' \<equiv> set_pte_at (pte_offset_kernel L (pmd_at64 L m pgd addr) addr) v m"
  shows "walk_tables64 L m' pgd a =
      (if drop_bit 12 a AND mask 27 = drop_bit 12 addr AND mask 27 then if pte_present v then Some v else None
       else walk_tables64 L m pgd a)" and "tables_ok64 L m' pgd"
proof -
  have ok: "tree_ok (sv39 L) sv39_key 2 m pgd" "sv39_page L pgd" using assms(1) by (simp_all add: tables_ok64_def)
  have t: "table_of (sv39 L) m pgd 2 addr = Some (pmd_page_vaddr L (pmd_at64 L m pgd addr))"
    using assms(2,3) by (simp add: sv39_tables)
  have m': "m' = m(entry_slot (sv39 L) (pmd_page_vaddr L (pmd_at64 L m pgd addr)) 2 addr := pte_val v)"
    by (simp add: m'_def set_pte_at_def set_pte_def)
  note w = sv39.leaf_write [OF ok t, of "pte_val v", folded m']
  show "walk_tables64 L m' pgd a =
      (if drop_bit 12 a AND mask 27 = drop_bit 12 addr AND mask 27 then if pte_present v then Some v else None
       else walk_tables64 L m pgd a)"
    unfolding sv39_walk w(1) sv39_same_page by (simp add: pte_present_def pmd_present_def)
  show "tables_ok64 L m' pgd" using w(2) ok(2) by (simp add: tables_ok64_def)
qed

lemma free_page_kept:
  assumes "tables_ok64 L m pgd" and "\<not> pud_present (pud_at m pgd addr)" and "free_page L m pgd page"
    and "free_page L m pgd page'" and "page \<noteq> page'"
  shows "free_page L (pud_populate L (pgd_offset pgd addr) page m) pgd page'"
proof -
  let ?e = "push_bit PAGE_PFN_SHIFT (virt_to_pfn L page) OR PAGE_TABLE"
  define m' where "m' = pud_populate L (pgd_offset pgd addr) page m"
  have ok: "tree_ok (sv39 L) sv39_key 2 m pgd" "sv39_page L pgd" using assms(1) by (simp_all add: tables_ok64_def)
  have m': "m' = m(entry_slot (sv39 L) pgd 0 addr := ?e)"
    by (simp add: m'_def pud_populate_def set_pud_def Let_def)
  have absent: "\<not> entry_present (sv39 L) (m (entry_slot (sv39 L) pgd 0 addr))"
    using assms(2) by (simp add: pud_at_def pud_present_def pmd_present_def)
  have al: "page AND NOT PAGE_MASK = 0" "page' AND NOT PAGE_MASK = 0" "pgd AND NOT PAGE_MASK = 0" "page' \<noteq> pgd"
    using assms(3,4) ok(2) by (simp_all add: free_page_def sv39_page_def)
  note tables = sv39.new_table_tables [OF ok table_of.simps(1) zero_less_numeral absent free_page_new [OF assms(3) ok(2)]
      table_entry [OF al(1) ok(2)], folded m']
  have old: "table_of (sv39 L) m pgd j b \<noteq> Some page'" if "j \<le> 2" for j b
    using free_page_new [OF assms(4) ok(2)] that by (simp add: new_table_def)
  have new: "table_of (sv39 L) m' pgd j b \<noteq> Some page'" if "j \<le> 2" for j b
    using tables [OF that, of b] old [OF that] assms(5) by (cases "j = 0 \<or> sv39_key (Suc 0) b \<noteq> sv39_key (Suc 0) addr") auto
  have "m' (page' + 8 * (i AND mask 9)) = m (page' + 8 * (i AND mask 9))" for i
    using same_entry [of page' pgd 8 9 i "drop_bit 30 addr"] al
    by (simp add: m' pgd_offset_def index_mask64 page_aligned)
  moreover have "pud_page_vaddr L (pud_at m' pgd a) \<noteq> page'" if "pud_present (pud_at m' pgd a)" for a
    using new [of 1 a] that by (simp add: sv39_tables)
  moreover have "pmd_page_vaddr L (pmd_at64 L m' pgd a) \<noteq> page'"
    if "pud_present (pud_at m' pgd a)" "pmd_present (pmd_at64 L m' pgd a)" for a
    using new [of 2 a] that by (simp add: sv39_tables)
  ultimately show ?thesis
    using assms(4) unfolding m'_def [symmetric] free_page_def by simp
qed

section \<open>Properties\<close>

text \<open>
  C14: On the 64-bit machine a page comes to be mapped through all three levels: where the upper
  directory has no entry for an address, \<^verbatim>\<open>pud_populate\<close> and \<^verbatim>\<open>pmd_populate\<close> with two new
  zeroed pages and \<^verbatim>\<open>set_pte_at\<close> at the entry that the offset functions then find map exactly
  the page of the address to the entry; every other address keeps what a walk finds for it, and the
  tables stay well-formed.
\<close>

theorem page_mapped_64:
  fixes v :: "u64 pte_t"
  assumes "tables_ok64 L m pgd" and "\<not> pud_present (pud_at m pgd addr)"
    and "free_page L m pgd p1" and "free_page L m pgd p2" and "p1 \<noteq> p2"
  defines "m1 \<equiv> pud_populate L (pgd_offset pgd addr) p1 m"
  defines "m2 \<equiv> pmd_populate L (pmd_offset L (pud_at m1 pgd addr) addr) p2 m1"
  defines "m3 \<equiv> set_pte_at (pte_offset_kernel L (pmd_at64 L m2 pgd addr) addr) v m2"
  shows "walk_tables64 L m3 pgd a =
      (if drop_bit 12 a AND mask 27 = drop_bit 12 addr AND mask 27 then if pte_present v then Some v else None
       else walk_tables64 L m pgd a) \<and> tables_ok64 L m3 pgd"
proof -
  note pud = pud_populate_walks [OF assms(1-3), folded m1_def]
  have "free_page L m1 pgd p2" unfolding m1_def by (rule free_page_kept [OF assms(1-5)])
  note pmd = pmd_populate_walks64 [OF pud(2,3,5) this, folded m2_def]
  note pte = set_pte_walks64 [OF pmd(2-4), of v, folded m3_def]
  show ?thesis using pte pmd(1) pud(1) by simp
qed

definition layout64 :: "u64 mem_layout" where
  "layout64 = \<lparr>va_pa_offset = 0xffffffff00000000, pfn_base = 0x80000, max_mapnr = 0x10000\<rparr>"

lemma empty_tables64:
  "tables_ok64 layout64 (\<lambda>_. 0) 0xffffffff80001000" "\<not> pud_present (pud_at (\<lambda>_. 0) pgd a)"
  "free_page layout64 (\<lambda>_. 0) 0xffffffff80001000 0xffffffff80002000"
  "free_page layout64 (\<lambda>_. 0) 0xffffffff80001000 0xffffffff80003000"
proof -
  have absent: "\<not> pud_present (pud_at (\<lambda>_. 0) pgd a)" for pgd a by (simp add: pud_at_def pud_present_def)
  have root: "table_of (sv39 layout64) (\<lambda>_. 0) pgd j b = Some p \<Longrightarrow> j = 0" for pgd j b p
    by (cases j) (auto simp: table_of.simps(2) pmd_present_def split: option.splits)
  have "i = j \<and> sv39_key i a = sv39_key j b"
    if "table_of (sv39 layout64) (\<lambda>_. 0) pgd i a = Some p" "table_of (sv39 layout64) (\<lambda>_. 0) pgd j b = Some p" for i j a b p pgd
    using that [THEN root] by (simp add: sv39_key_def)
  then have "tree_ok (sv39 layout64) sv39_key 2 (\<lambda>_. 0) 0xffffffff80001000" unfolding tree_ok_def by blast
  then show "tables_ok64 layout64 (\<lambda>_. 0) 0xffffffff80001000"
    unfolding tables_ok64_def sv39_page_def by (simp add: page_aligned layout64_def take_bit_eq_mod)
  show "free_page layout64 (\<lambda>_. 0) 0xffffffff80001000 0xffffffff80002000"
    "free_page layout64 (\<lambda>_. 0) 0xffffffff80001000 0xffffffff80003000"
    using absent by (simp_all add: free_page_def page_aligned take_bit_eq_mod)
qed (simp add: pud_at_def pud_present_def)

theorem page_mapped_64_witness:
  "\<exists>m. walk_tables64 layout64 m 0xffffffff80001000 0x4000123456 = Some (Pte 0x20000C0F)
    \<and> walk_tables64 layout64 m 0xffffffff80001000 0x4000122000 = None"
proof -
  note map = page_mapped_64 [OF empty_tables64(1) empty_tables64(2) empty_tables64(3,4), of "0x4000123000" "Pte 0x20000C0F"]
  have "walk_tables64 layout64 (\<lambda>_. 0) 0xffffffff80001000 a = None" for a
    using empty_tables64(2) by (simp add: walk_tables64_def pud_bad_def Let_def)
  then show ?thesis
    using map [of "0x4000123456"] map [of "0x4000122000"]
    by (auto simp: pte_present_def PAGE_PRESENT_def drop_bit_eq_div mask_eq_exp_minus_1)
qed

end
