(* ===== verification/Shootdown.thy ===== *)
theory Shootdown
  imports PageWalk
begin

text \<open>
  Harts that share page tables: the flushes of \<^verbatim>\<open>asm/tlbflush.h\<close> with \<^verbatim>\<open>CONFIG_SMP\<close>, which
  ask the firmware to flush the harts, together with writes of table entries, walks and changes of
  the address space in any order. A translation may be stale only between the write of its entry
  and the flush of its page.
\<close>

section \<open>Flushes of all harts\<close>

text \<open>The calls of the firmware: hart mask and address space, and the range by start and size.\<close>

record firmware =
  sbi_remote_sfence_vm :: "u32 \<Rightarrow> u32 \<Rightarrow> (nat \<Rightarrow> hart_mmu) \<Rightarrow> nat \<Rightarrow> hart_mmu"
  sbi_remote_sfence_vm_range :: "u32 \<Rightarrow> u32 \<Rightarrow> u32 \<Rightarrow> u32 \<Rightarrow> (nat \<Rightarrow> hart_mmu) \<Rightarrow> nat \<Rightarrow> hart_mmu"

definition flush_tlb_all :: "firmware \<Rightarrow> (nat \<Rightarrow> hart_mmu) \<Rightarrow> nat \<Rightarrow> hart_mmu" where
  "flush_tlb_all fw = sbi_remote_sfence_vm fw 0 0"

definition flush_tlb_range :: "firmware \<Rightarrow> u32 \<Rightarrow> u32 \<Rightarrow> (nat \<Rightarrow> hart_mmu) \<Rightarrow> nat \<Rightarrow> hart_mmu" where
  "flush_tlb_range fw start stop = sbi_remote_sfence_vm_range fw 0 0 start (stop - start)"

definition flush_tlb_page :: "firmware \<Rightarrow> u32 \<Rightarrow> (nat \<Rightarrow> hart_mmu) \<Rightarrow> nat \<Rightarrow> hart_mmu" where
  "flush_tlb_page fw addr = flush_tlb_range fw addr (addr + 1)"

definition flush_tlb_mm :: "firmware \<Rightarrow> (nat \<Rightarrow> hart_mmu) \<Rightarrow> nat \<Rightarrow> hart_mmu" where
  "flush_tlb_mm fw = flush_tlb_all fw"

definition flush_tlb_kernel_range :: "firmware \<Rightarrow> u32 \<Rightarrow> u32 \<Rightarrow> (nat \<Rightarrow> hart_mmu) \<Rightarrow> nat \<Rightarrow> hart_mmu" where
  "flush_tlb_kernel_range fw start stop = flush_tlb_all fw"

text \<open>
  What the firmware promises: it leaves \<^verbatim>\<open>sptbr\<close> alone and adds no translation; mask 0 stands
  for all harts, and then no translation is left, or none of a page that meets the range.
\<close>

definition meets :: "u32 \<Rightarrow> u32 \<Rightarrow> u32 \<Rightarrow> bool" where
  "meets start len a \<longleftrightarrow> (\<exists>k < unat len. drop_bit PAGE_SHIFT (start + of_nat k) = drop_bit PAGE_SHIFT a)"

definition firmware_ok :: "firmware \<Rightarrow> bool" where
  "firmware_ok fw \<longleftrightarrow>
    (\<forall>hs h. let hs' = sbi_remote_sfence_vm fw 0 0 hs in sptbr (hs' h) = sptbr (hs h) \<and> cached (hs' h) = {})
    \<and> (\<forall>start len hs h. let hs' = sbi_remote_sfence_vm_range fw 0 0 start len hs
         in sptbr (hs' h) = sptbr (hs h) \<and> cached (hs' h) \<subseteq> cached (hs h)
            \<and> (\<forall>(r, a, p) \<in> cached (hs' h). \<not> meets start len a))"

section \<open>The machine\<close>

text \<open>
  The tables in memory, the harts with their current address spaces, and the pages whose present
  entry was changed without a flush since, each with the frame of its directory.
\<close>

record vm =
  tables :: words
  mmus :: "nat \<Rightarrow> hart_mmu"
  current_mm :: "nat \<Rightarrow> u32"
  pending :: "(u32 \<times> u32) set"

definition hardware_walk :: "u32 mem_layout \<Rightarrow> words \<Rightarrow> u32 \<Rightarrow> u32 \<Rightarrow> u32 pte_t option" where
  "hardware_walk L m root a = walk_tables L m (pfn_to_virt L root) a"

definition changed :: "u32 mem_layout \<Rightarrow> words \<Rightarrow> words \<Rightarrow> (u32 \<times> u32) set" where
  "changed L m m' = {(root, a). hardware_walk L m root a \<noteq> None \<and> hardware_walk L m' root a \<noteq> hardware_walk L m root a}"

definition write_tables :: "u32 mem_layout \<Rightarrow> words \<Rightarrow> vm \<Rightarrow> vm" where
  "write_tables L m' s = s\<lparr>tables := m', pending := pending s \<union> changed L (tables s) m'\<rparr>"

text \<open>What the harts do by themselves: they walk the tables and change their address space.\<close>

inductive hart_vm_step :: "u32 mem_layout \<Rightarrow> vm \<Rightarrow> vm \<Rightarrow> bool" for L where
  walk: "hardware_walk L (tables s) (sptbr (mmus s h)) a = Some p \<Longrightarrow>
    hart_vm_step L s (s\<lparr>mmus := (mmus s)(h := (mmus s h)\<lparr>cached := insert (sptbr (mmus s h), a, p) (cached (mmus s h))\<rparr>)\<rparr>)"
| switch: "hart_vm_step L s (s\<lparr>mmus := (mmus s)(h := switch_mm L (current_mm s h) mm (mmus s h)),
      current_mm := (current_mm s)(h := mm)\<rparr>)"

text \<open>What the kernel does with the tables: it writes entries and flushes.\<close>

inductive vm_step :: "firmware \<Rightarrow> u32 mem_layout \<Rightarrow> vm \<Rightarrow> vm \<Rightarrow> bool" for fw L where
  hart: "hart_vm_step L s t \<Longrightarrow> vm_step fw L s t"
| set_pte: "vm_step fw L s (write_tables L (set_pte_at ptep pteval (tables s)) s)"
| set_pmd: "vm_step fw L s (write_tables L (set_pmd pmdp pmd (tables s)) s)"
| flush_all: "vm_step fw L s (s\<lparr>mmus := flush_tlb_all fw (mmus s), pending := {}\<rparr>)"
| flush_range: "vm_step fw L s (s\<lparr>mmus := flush_tlb_range fw start stop (mmus s),
      pending := {(root, a) \<in> pending s. \<not> meets start (stop - start) a}\<rparr>)"

definition flush_page :: "firmware \<Rightarrow> u32 \<Rightarrow> vm \<Rightarrow> vm" where
  "flush_page fw addr s = s\<lparr>mmus := flush_tlb_page fw addr (mmus s),
     pending := {(root, a) \<in> pending s. drop_bit PAGE_SHIFT a \<noteq> drop_bit PAGE_SHIFT addr}\<rparr>"

definition vm_start :: "u32 mem_layout \<Rightarrow> vm \<Rightarrow> bool" where
  "vm_start L s \<longleftrightarrow> (\<forall>h. cached (mmus s h) = {} \<and> sptbr (mmus s h) = virt_to_pfn L (current_mm s h))"

definition vm_inv :: "u32 mem_layout \<Rightarrow> vm \<Rightarrow> bool" where
  "vm_inv L s \<longleftrightarrow>
    (\<forall>h. sptbr (mmus s h) = virt_to_pfn L (current_mm s h)
       \<and> (\<forall>(root, a, p) \<in> cached (mmus s h). root = virt_to_pfn L (current_mm s h)
            \<and> ((root, a) \<in> pending s \<or> hardware_walk L (tables s) root a = Some p)))"

section \<open>Lemmas\<close>

lemma vm_invD:
  "vm_inv L s \<Longrightarrow> (root, a, p) \<in> cached (mmus s h) \<Longrightarrow> root = virt_to_pfn L (current_mm s h)
    \<and> ((root, a) \<in> pending s \<or> hardware_walk L (tables s) root a = Some p)"
  unfolding vm_inv_def by blast

lemma flush_tlb_all_simps:
  "firmware_ok fw \<Longrightarrow> sptbr (flush_tlb_all fw hs h) = sptbr (hs h)"
  "firmware_ok fw \<Longrightarrow> cached (flush_tlb_all fw hs h) = {}"
  by (simp_all add: firmware_ok_def flush_tlb_all_def Let_def)

lemma flush_tlb_rangeD:
  assumes "firmware_ok fw"
  shows "sptbr (flush_tlb_range fw start stop hs h) = sptbr (hs h)"
    and "(r, a, p) \<in> cached (flush_tlb_range fw start stop hs h) \<Longrightarrow>
      (r, a, p) \<in> cached (hs h) \<and> \<not> meets start (stop - start) a"
  using assms unfolding firmware_ok_def flush_tlb_range_def Let_def by blast+

lemma meets_one: "meets addr (addr + 1 - addr) a \<longleftrightarrow> drop_bit PAGE_SHIFT a = drop_bit PAGE_SHIFT addr"
  by (auto simp: meets_def)

lemma flush_page_step: "vm_step fw L s (flush_page fw addr s)"
  using vm_step.flush_range [of fw L s addr "addr + 1"]
  unfolding flush_page_def flush_tlb_page_def meets_one .

lemma switch_mm_simps [simp]:
  "sptbr h = virt_to_pfn L mm \<Longrightarrow> sptbr (switch_mm L mm mm' h) = virt_to_pfn L mm'"
  "cached (switch_mm L mm mm' h) = (if mm = mm' then cached h else {})"
  by (auto simp: switch_mm_def local_flush_tlb_all_def)

lemma hart_vm_step_inv:
  assumes "hart_vm_step L s t" and "vm_inv L s"
  shows "vm_inv L t" and "tables t = tables s" and "pending t = pending s"
  using assms by (cases; auto simp: vm_inv_def split: if_splits)+

lemma write_tables_inv: "vm_inv L s \<Longrightarrow> vm_inv L (write_tables L m' s)"
  unfolding vm_inv_def write_tables_def changed_def by (fastforce split: prod.splits)

interpretation vm: stepping "vm_start L" "vm_step fw L" "\<lambda>s. firmware_ok fw \<longrightarrow> vm_inv L s" for fw L
proof unfold_locales
  fix s t
  assume "vm_step fw L s t" and inv: "firmware_ok fw \<longrightarrow> vm_inv L s"
  then show "firmware_ok fw \<longrightarrow> vm_inv L t"
  proof (cases rule: vm_step.cases)
    case hart
    then show ?thesis using hart_vm_step_inv inv by blast
  next
    case flush_all
    then show ?thesis using inv by (auto simp: vm_inv_def flush_tlb_all_simps)
  next
    case (flush_range start stop)
    then show ?thesis using inv by (auto simp: vm_inv_def flush_tlb_rangeD dest!: flush_tlb_rangeD(2))
  qed (use write_tables_inv in auto)
qed (auto simp: vm_inv_def vm_start_def)

lemma directory_frame:
  assumes "tables_ok L m mm"
  shows "pfn_to_virt L (virt_to_pfn L mm) = mm"
proof -
  have "take_bit 12 (pa L mm + va_pa_offset L) = 0" "take_bit 12 (va_pa_offset L) = 0"
    using assms by (simp_all add: pa_def tables_ok_def page_aligned)
  then have "take_bit 12 (pa L mm) = 0" by (simp add: take_bit_add_0)
  then have "push_bit 12 (drop_bit 12 (pa L mm)) = pa L mm"
    by (rule aligned_page)
  then show ?thesis
    by (simp add: pfn_to_virt_def virt_to_pfn_def pfn_to_phys_def phys_to_pfn_def PAGE_SHIFT_def va_def pa_def)
qed

section \<open>Properties\<close>

text \<open>
  C24: However harts walk the tables and change their address spaces while entries are written and
  pages flushed, every translation a hart has cached is of its current address space, and it is
  the one a walk finds now unless the page was changed without a flush since.
\<close>

theorem translations_current:
  assumes "firmware_ok fw" and "vm_start L s" and "(vm_step fw L)\<^sup>*\<^sup>* s t"
    and "(root, a, p) \<in> cached (mmus t h)"
  shows "root = virt_to_pfn L (current_mm t h)
    \<and> ((root, a) \<in> pending t \<or> hardware_walk L (tables t) root a = Some p)"
  using vm.reachable_inv [OF assms(2,3)] assms(1) vm_invD [OF _ assms(4)] by blast

text \<open>
  C12: A page is unmapped for all harts: when nothing is pending and \<^verbatim>\<open>pte_clear\<close> removes the
  entry of an address, then, whatever the harts walk and switch meanwhile, after
  \<^verbatim>\<open>flush_tlb_page\<close> no hart has a translation of its page in that address space, and every
  other translation of it is still the one the tables hold.
\<close>

theorem unmap_shoots_down:
  assumes "firmware_ok fw" and "vm_inv L s" and "pending s = {}"
    and "tables_ok L (tables s) mm" and "pmd_present (pmd_at (tables s) mm addr)"
    and "(hart_vm_step L)\<^sup>*\<^sup>* (write_tables L (pte_clear (pte_offset_kernel L (pmd_at (tables s) mm addr) addr) (tables s)) s) s'"
    and "(virt_to_pfn L mm, a, p) \<in> cached (mmus (flush_page fw addr s') h)"
  shows "drop_bit 12 a \<noteq> drop_bit 12 addr \<and> walk_tables L (tables s) mm a = Some p"
proof -
  define m' where "m' = pte_clear (pte_offset_kernel L (pmd_at (tables s) mm addr) addr) (tables s)"
  define s1 where "s1 = write_tables L m' s"
  have run: "(hart_vm_step L)\<^sup>*\<^sup>* s1 s'" using assms(6) by (simp add: s1_def m'_def)
  have walk: "walk_tables L m' mm b = (if drop_bit 12 b = drop_bit 12 addr then None else walk_tables L (tables s) mm b)" for b
    using set_pte_walks(1) [OF assms(4,5), of "Pte 0" b] by (simp add: m'_def pte_clear_def pte_present_def)
  have "vm_inv L s' \<and> tables s' = m' \<and> pending s' = pending s1"
    using run
  proof (induction rule: rtranclp_induct)
    case base
    show ?case using write_tables_inv [OF assms(2), of m'] by (simp add: s1_def write_tables_def)
  next
    case (step s2 s3)
    then show ?case using hart_vm_step_inv [OF step.hyps(2)] by simp
  qed
  then have s': "vm_inv L s'" "tables s' = m'" "pending s' = changed L (tables s) m'"
    using assms(3) by (simp_all add: s1_def write_tables_def)
  have "(virt_to_pfn L mm, a, p) \<in> cached (flush_tlb_range fw addr (addr + 1) (mmus s') h)"
    using assms(7) by (simp add: flush_page_def flush_tlb_page_def)
  from flush_tlb_rangeD(2) [OF assms(1) this]
  have old: "(virt_to_pfn L mm, a, p) \<in> cached (mmus s' h)" and far: "drop_bit 12 a \<noteq> drop_bit 12 addr"
    unfolding meets_one PAGE_SHIFT_def by simp_all
  have "(virt_to_pfn L mm, a) \<notin> pending s'"
    using walk [of a] far by (simp add: s'(3) changed_def hardware_walk_def directory_frame [OF assms(4)])
  then have "walk_tables L m' mm a = Some p"
    using vm_invD [OF s'(1) old] unfolding s'(2) hardware_walk_def directory_frame [OF assms(4)] by blast
  then show ?thesis using walk [of a] far by simp
qed

definition example_firmware :: firmware where
  "example_firmware =
    \<lparr>sbi_remote_sfence_vm = \<lambda>_ _ hs h. (hs h)\<lparr>cached := {}\<rparr>,
     sbi_remote_sfence_vm_range = \<lambda>_ _ start len hs h.
       (hs h)\<lparr>cached := {(r, a, p) \<in> cached (hs h). \<not> meets start len a}\<rparr>\<rparr>"

definition example_tables :: words where
  "example_tables =
    (let m = pmd_populate boot_layout (pgd_offset 0xC0001000 0x10000) 0xC0002000 (\<lambda>_. 0)
     in set_pte_at (pte_offset_kernel boot_layout (pmd_at m 0xC0001000 0x10000) 0x10000) (Pte 0x20000C0F) m)"

definition example_vm :: vm where
  "example_vm = \<lparr>tables = example_tables, mmus = \<lambda>_. \<lparr>sptbr = virt_to_pfn boot_layout 0xC0001000, cached = {}\<rparr>,
     current_mm = \<lambda>_. 0xC0001000, pending = {}\<rparr>"

text \<open>Hart 1 has walked to the page and cached it.\<close>

definition example_cached :: vm where
  "example_cached = example_vm\<lparr>mmus := (mmus example_vm)(1 := \<lparr>sptbr = virt_to_pfn boot_layout 0xC0001000,
     cached = {(virt_to_pfn boot_layout 0xC0001000, 0x10234, Pte 0x20000C0F)}\<rparr>)\<rparr>"

lemma example_firmware_ok: "firmware_ok example_firmware"
  by (auto simp: firmware_ok_def example_firmware_def)

lemma example_tables_ok:
  "tables_ok boot_layout example_tables 0xC0001000" "pmd_present (pmd_at example_tables 0xC0001000 0x10000)"
  "walk_tables boot_layout example_tables 0xC0001000 0x10234 = Some (Pte 0x20000C0F)"
proof -
  define m where "m = pmd_populate boot_layout (pgd_offset 0xC0001000 0x10000) 0xC0002000 (\<lambda>_. 0)"
  note one = one_table(2,1) [folded m_def]
  have e: "example_tables = set_pte_at (pte_offset_kernel boot_layout (pmd_at m 0xC0001000 0x10000) 0x10000) (Pte 0x20000C0F) m"
    by (simp add: example_tables_def m_def Let_def)
  show "tables_ok boot_layout example_tables 0xC0001000" unfolding e by (rule set_pte_walks(2) [OF one])
  show w: "walk_tables boot_layout example_tables 0xC0001000 0x10234 = Some (Pte 0x20000C0F)"
    unfolding e using set_pte_walks(1) [OF one] by (simp add: pte_present_def PAGE_PRESENT_def drop_bit_eq_div)
  have "pmd_at example_tables 0xC0001000 0x10234 = pmd_at example_tables 0xC0001000 0x10000"
    by (simp add: pmd_at_def pgd_offset_def pgd_index_def layout32 PGDIR_SHIFT_def drop_bit_eq_div)
  moreover have "pmd_present (pmd_at example_tables 0xC0001000 0x10234)"
    using w by (simp add: walk_tables_def pmd_bad_def Let_def split: if_splits)
  ultimately show "pmd_present (pmd_at example_tables 0xC0001000 0x10000)" by simp
qed

lemma example_walk: "vm_step example_firmware boot_layout example_vm example_cached"
proof -
  have "hardware_walk boot_layout (tables example_vm) (sptbr (mmus example_vm 1)) 0x10234 = Some (Pte 0x20000C0F)"
    using example_tables_ok(3) directory_frame [OF example_tables_ok(1)]
    by (simp add: example_vm_def hardware_walk_def)
  from vm_step.hart [OF hart_vm_step.walk [OF this]] show ?thesis
    by (simp add: example_cached_def example_vm_def)
qed

lemma example_start: "vm_start boot_layout example_vm"
  by (simp add: vm_start_def example_vm_def)

theorem translations_current_witness:
  "hardware_walk boot_layout (tables example_cached) (virt_to_pfn boot_layout 0xC0001000) 0x10234 = Some (Pte 0x20000C0F)"
proof -
  have run: "(vm_step example_firmware boot_layout)\<^sup>*\<^sup>* example_vm example_cached" using example_walk by blast
  have "(virt_to_pfn boot_layout 0xC0001000, 0x10234, Pte 0x20000C0F) \<in> cached (mmus example_cached 1)"
    by (simp add: example_cached_def)
  from translations_current [OF example_firmware_ok example_start run this] show ?thesis
    by (simp add: example_cached_def example_vm_def)
qed

theorem unmap_shoots_down_witness:
  "(virt_to_pfn boot_layout 0xC0001000, 0x10234, Pte 0x20000C0F) \<notin> cached (mmus
    (flush_page example_firmware 0x10000
      (write_tables boot_layout (pte_clear (pte_offset_kernel boot_layout (pmd_at (tables example_cached) 0xC0001000 0x10000)
        0x10000) (tables example_cached)) example_cached)) 1)"
proof
  have inv: "vm_inv boot_layout example_cached"
    using vm.step_inv [OF example_walk] vm.init_inv [OF example_start] example_firmware_ok by blast
  have t: "tables example_cached = example_tables" "pending example_cached = {}"
    by (simp_all add: example_cached_def example_vm_def)
  assume "(virt_to_pfn boot_layout 0xC0001000, 0x10234, Pte 0x20000C0F) \<in> cached (mmus
    (flush_page example_firmware 0x10000
      (write_tables boot_layout (pte_clear (pte_offset_kernel boot_layout (pmd_at (tables example_cached) 0xC0001000 0x10000)
        0x10000) (tables example_cached)) example_cached)) 1)"
  from unmap_shoots_down [OF example_firmware_ok inv t(2) _ _ rtranclp.rtrancl_refl this]
  show False using example_tables_ok(1,2) by (simp add: t drop_bit_eq_div)
qed

end
