(* ===== verification/MemOps.thy ===== *)
theory MemOps
  imports Uaccess
begin

text \<open>
  The byte routines \<^verbatim>\<open>lib/memset.S\<close> and \<^verbatim>\<open>lib/memcpy.S\<close> on the 32-bit machine, and the
  functions on pages that are made of them. Memory is that of \<open>Uaccess\<close>; these routines have no
  fixups. The registers that a routine uses keep their names; a loop tests behind its body and maps
  the memory and its registers to those at its end, or to \<open>None\<close> if it does not end.
\<close>

section \<open>Filling\<close>

text \<open>The loops of single bytes, labels 1 and 5.\<close>

partial_function (option) set_bytes :: "u32 \<Rightarrow> u32 \<Rightarrow> memory \<Rightarrow> u32 \<Rightarrow> (memory \<times> u32) option" where
  "set_bytes a1 a3 mem t0 =
    (let mem = store_le 1 t0 (ucast a1) mem; t0 = t0 + 1
     in if t0 < a3 then set_bytes a1 a3 mem t0 else Some (mem, t0))"

text \<open>
  The loop of 32 stores, label 3: it is entered at the store number \<open>k\<close> the first time and at
  the first store when it repeats.
\<close>

definition set_words :: "nat \<Rightarrow> u32 \<Rightarrow> u32 \<Rightarrow> memory \<Rightarrow> memory" where
  "set_words k a1 t0 mem = fold (\<lambda>i. store_le 4 (t0 + of_nat (4 * i)) (ucast a1)) [k..<32] mem"

partial_function (option) set_blocks :: "u32 \<Rightarrow> u32 \<Rightarrow> nat \<Rightarrow> memory \<Rightarrow> u32 \<Rightarrow> (memory \<times> u32) option" where
  "set_blocks a1 a3 k mem t0 =
    (let mem = set_words k a1 t0 mem; t0 = t0 + 128
     in if t0 < a3 then set_blocks a1 a3 0 mem t0 else Some (mem, t0))"

definition set_tail :: "u32 \<Rightarrow> u32 \<Rightarrow> memory \<times> u32 \<Rightarrow> memory option" where
  "set_tail a1 a2 = (\<lambda>(mem, t0). if a2 = 0 then Some mem else map_option fst (set_bytes a1 (t0 + a2) mem t0))"

definition broadcast :: "u32 \<Rightarrow> u32" where
  "broadcast a1 = (let a1 = a1 AND 0xff; a1 = push_bit 8 a1 OR a1 in push_bit 16 a1 OR a1)"

definition set_words_path :: "u32 \<Rightarrow> u32 \<Rightarrow> memory \<times> u32 \<Rightarrow> memory option" where
  "set_words_path a1 a2 = (\<lambda>(mem, t0).
    let a1 = broadcast a1; a4 = a2 AND NOT 3; a3 = t0 + a4; a4 = a4 AND 31 * 4;
        (k, t0) = (if a4 = 0 then (0, t0)
                   else let a4 = - a4 + 32 * 4 in (unat (a4 div 4), t0 - a4))
    in Option.bind (set_blocks a1 a3 k mem t0) (set_tail a1 (a2 AND 3)))"

definition memset :: "u32 \<Rightarrow> u32 \<Rightarrow> u32 \<Rightarrow> memory \<Rightarrow> (u32 \<times> memory) option" where
  "memset a0 a1 a2 mem =
    map_option (Pair a0)
     (let t0 = a0
      in if a2 < 16 then set_tail a1 a2 (mem, t0)
         else
           (let a3 = (t0 + 3) AND NOT 3
            in if a3 = t0 then set_words_path a1 a2 (mem, t0)
               else Option.bind (set_bytes a1 a3 mem t0) (set_words_path a1 (a2 - (a3 - t0)))))"

section \<open>Copying\<close>

partial_function (option) copy_bytes :: "u32 \<Rightarrow> memory \<Rightarrow> u32 \<Rightarrow> u32 \<Rightarrow> (memory \<times> u32 \<times> u32) option" where
  "copy_bytes a3 mem t6 a1 =
    (let mem = move 1 mem t6 a1; a1 = a1 + 1; t6 = t6 + 1
     in if a1 < a3 then copy_bytes a3 mem t6 a1 else Some (mem, t6, a1))"

text \<open>The loop of 16 words, label 3: ten words are loaded and then stored, then the other six.\<close>

partial_function (option) copy_blocks :: "u32 \<Rightarrow> memory \<Rightarrow> u32 \<Rightarrow> u32 \<Rightarrow> (memory \<times> u32 \<times> u32) option" where
  "copy_blocks a3 mem t6 a1 =
    (let mem = move (10 * 4) mem t6 a1; mem = move (6 * 4) mem (t6 + 10 * 4) (a1 + 10 * 4);
         a1 = a1 + 16 * 4; t6 = t6 + 16 * 4
     in if a1 < a3 then copy_blocks a3 mem t6 a1 else Some (mem, t6, a1))"

definition copy_tail :: "u32 \<Rightarrow> memory \<times> u32 \<times> u32 \<Rightarrow> memory option" where
  "copy_tail a2 = (\<lambda>(mem, t6, a1). if a2 = 0 then Some mem else map_option fst (copy_bytes (a1 + a2) mem t6 a1))"

definition copy_words_path :: "u32 \<Rightarrow> memory \<times> u32 \<times> u32 \<Rightarrow> memory option" where
  "copy_words_path a2 = (\<lambda>(mem, t6, a1).
    let a4 = a2 AND NOT (16 * 4 - 1)
    in if a4 = 0 then copy_tail a2 (mem, t6, a1)
       else Option.bind (copy_blocks (a1 + a4) mem t6 a1) (copy_tail (a2 AND (16 * 4 - 1))))"

definition memcpy :: "u32 \<Rightarrow> u32 \<Rightarrow> u32 \<Rightarrow> memory \<Rightarrow> (u32 \<times> memory) option" where
  "memcpy a0 a1 a2 mem =
    map_option (Pair a0)
     (let t6 = a0
      in if a2 < 128 \<or> t6 AND 3 \<noteq> a1 AND 3 then copy_tail a2 (mem, t6, a1)
         else if t6 AND 3 = 0 then copy_words_path a2 (mem, t6, a1)
         else
           (let a3 = (a1 AND NOT 3) + 4; a4 = a3 - a1
            in Option.bind (copy_bytes a3 mem t6 a1) (copy_words_path (a2 - a4))))"

section \<open>Pages\<close>

definition PAGE_BYTES :: u32 where "PAGE_BYTES = 0x1000"

definition clear_page :: "u32 \<Rightarrow> memory \<Rightarrow> memory option" where
  "clear_page pgaddr mem = map_option snd (memset pgaddr 0 PAGE_BYTES mem)"

definition copy_page :: "u32 \<Rightarrow> u32 \<Rightarrow> memory \<Rightarrow> memory option" where
  "copy_page to from' mem = map_option snd (memcpy to from' PAGE_BYTES mem)"

definition setup_zero_page :: "u32 \<Rightarrow> memory \<Rightarrow> memory option" where
  "setup_zero_page empty_zero_page mem = map_option snd (memset empty_zero_page 0 PAGE_BYTES mem)"

section \<open>Loops over blocks\<close>

text \<open>
  A loop that advances by blocks of \<open>w\<close> bytes to \<open>m\<close>; \<open>st\<close> is its state behind some
  bytes, up to \<open>n\<close> bytes.
\<close>

locale block_loop =
  fixes loop :: "nat \<Rightarrow> nat \<Rightarrow> nat \<Rightarrow> 's option" and st :: "nat \<Rightarrow> 's" and sizes :: "nat set" and n :: nat
  assumes block_step: "w \<in> sizes \<Longrightarrow> j + w \<le> m \<Longrightarrow> m \<le> n \<Longrightarrow>
    loop w m j = (if j + w < m then loop w m (j + w) else Some (st (j + w)))"
    and sizes_pos: "w \<in> sizes \<Longrightarrow> 0 < w"
begin

lemma blocks:
  assumes "w \<in> sizes" and "m \<le> n"
  shows "m = j + w * Suc k \<Longrightarrow> loop w m j = Some (st m)"
proof (induction k arbitrary: j)
  case 0
  then show ?case using block_step [OF assms(1) _ assms(2), of j] by simp
next
  case (Suc k)
  have m: "m = j + w + w * Suc k" using Suc.prems by simp
  have "j + w \<le> m" "j + w < m" unfolding m using sizes_pos [OF assms(1)] by simp_all
  then show ?case using block_step [OF assms(1) _ assms(2), of j] Suc.IH [OF m] by simp
qed

lemma to_end: "w \<in> sizes \<Longrightarrow> m \<le> n \<Longrightarrow> 0 < m - j \<Longrightarrow> w dvd m - j \<Longrightarrow> loop w m j = Some (st m)"
proof -
  assume w: "w \<in> sizes" "m \<le> n" "0 < m - j" "w dvd m - j"
  then obtain q where q: "m - j = w * q" by (auto elim: dvdE)
  with w(3) obtain k where "q = Suc k" by (cases q) auto
  then have "m - j = w * Suc k" using q by simp
  then have "m = j + w * Suc k" using w(3) by linarith
  then show ?thesis by (rule blocks [OF w(1,2)])
qed

end

section \<open>Lemmas\<close>

text \<open>A range filled with one byte.\<close>

definition fill :: "nat \<Rightarrow> u8 \<Rightarrow> u32 \<Rightarrow> memory \<Rightarrow> memory" where
  "fill n c a mem = (\<lambda>b. if unat (b - a) < n then c else mem b)"

lemma fill_0 [simp]: "fill 0 c a mem = mem"
  by (simp add: fill_def)

lemma fill_fill:
  fixes a :: u32
  assumes "j + w < 2 ^ 32"
  shows "fill w c (a + of_nat j) (fill j c a mem) = fill (j + w) c a mem"
proof
  fix b
  define d where "d = unat (b - a)"
  have d: "d < 2 ^ 32" using unat_bound [of "b - a"] by (simp add: d_def)
  have off: "unat (b - (a + of_nat j)) = (if j \<le> d then d - j else d + 2 ^ 32 - j)"
    using unat_minus_of_nat [of j "b - a"] assms by (simp add: d_def algebra_simps)
  show "fill w c (a + of_nat j) (fill j c a mem) b = fill (j + w) c a mem b"
    unfolding fill_def off d_def [symmetric] using assms d by auto
qed

lemma ucast_ucast_low: "ucast (ucast a1 :: u64) = (ucast (a1 :: u32) :: u8)"
  by (rule bit_word_eqI) (simp add: bit_simps)

lemma store_fill1: "store_le 1 a (ucast a1) mem = fill 1 (ucast (a1 :: u32)) a mem"
  by (auto simp: store_le_def fill_def fun_eq_iff ucast_ucast_low)

lemma broadcast_byte:
  assumes "i < 4"
  shows "(ucast (drop_bit (8 * i) (ucast (broadcast a1) :: u64)) :: u8) = ucast a1"
proof (rule bit_word_eqI)
  fix j :: nat
  assume j: "j < LENGTH(8)"
  have "(0xff :: u32) = mask 8" by (simp add: mask_eq_exp_minus_1)
  then have b: "broadcast a1 = push_bit 16 (push_bit 8 (take_bit 8 a1) OR take_bit 8 a1)
      OR (push_bit 8 (take_bit 8 a1) OR take_bit 8 a1)"
    unfolding broadcast_def Let_def by (simp only: take_bit_eq_mask)
  from assms consider "i = 0" | "i = 1" | "i = 2" | "i = 3" by linarith
  then have "bit (broadcast a1) (8 * i + j) = bit a1 j"
    unfolding b using j by cases (auto simp: bit_simps)
  then show "bit (ucast (drop_bit (8 * i) (ucast (broadcast a1) :: u64)) :: u8) j = bit (ucast a1 :: u8) j"
    using j assms by (auto simp: bit_simps)
qed

lemma store_fill4: "store_le 4 a (ucast (broadcast a1)) mem = fill 4 (ucast a1) a mem"
  by (auto simp: store_le_def fill_def fun_eq_iff broadcast_byte)

lemma set_words_fill:
  assumes "k \<le> 32"
  shows "set_words k (broadcast a1) t0 mem = fill (4 * (32 - k)) (ucast a1) (t0 + of_nat (4 * k)) mem"
proof -
  let ?f = "\<lambda>i. store_le 4 (t0 + of_nat (4 * i)) (ucast (broadcast a1))"
  have "fold ?f [k..<k + l] mem = fill (4 * l) (ucast a1) (t0 + of_nat (4 * k)) mem" if "k + l \<le> 32" for l
    using that
  proof (induction l)
    case (Suc l)
    have IH: "fold ?f [k..<k + l] mem = fill (4 * l) (ucast a1) (t0 + of_nat (4 * k)) mem" using Suc by simp
    have addr: "t0 + of_nat (4 * (k + l)) = t0 + of_nat (4 * k) + of_nat (4 * l)" by simp
    have len: "4 * l + 4 = 4 * Suc l" "4 * l + 4 < 2 ^ 32" using Suc.prems by simp_all
    have "fold ?f [k..<k + Suc l] mem = ?f (k + l) (fold ?f [k..<k + l] mem)" by simp
    also have "\<dots> = fill (4 * Suc l) (ucast a1) (t0 + of_nat (4 * k)) mem"
      unfolding IH store_fill4 addr by (subst fill_fill [OF len(2)]) (simp only: len(1))
    finally show ?case .
  qed simp
  from this [of "32 - k"] show ?thesis using assms by (simp add: set_words_def)
qed

section \<open>The fill loops\<close>

interpretation filling_bytes: block_loop
    "\<lambda>w m j. set_bytes a1 (to + of_nat m) (fill j (ucast a1) to mem) (to + of_nat j)"
    "\<lambda>j. (fill j (ucast a1) to mem, to + of_nat j)" "{1}" "clear_range to n"
  for a1 to mem n
proof unfold_locales
  fix w j m :: nat
  assume w: "w \<in> {1}" "j + w \<le> m" "m \<le> clear_range to n"
  then have range: "unat to + n < 2 ^ 32" "m \<le> n" by (auto simp: clear_range_def split: if_splits)
  have reg: "to + of_nat j + 1 = to + of_nat (j + w)" using w(1) by simp
  have less: "to + of_nat (j + w) < to + of_nat m \<longleftrightarrow> j + w < m"
    using range w by (intro add_bytes_less) simp_all
  have j: "j + 1 < 2 ^ 32" using range w by simp
  have mem: "fill 1 (ucast a1) (to + of_nat j) (fill j (ucast a1) to mem) = fill (j + w) (ucast a1) to mem"
    using fill_fill [OF j] w(1) by simp
  show "set_bytes a1 (to + of_nat m) (fill j (ucast a1) to mem) (to + of_nat j) =
    (if j + w < m then set_bytes a1 (to + of_nat m) (fill (j + w) (ucast a1) to mem) (to + of_nat (j + w))
     else Some (fill (j + w) (ucast a1) to mem, to + of_nat (j + w)))"
    by (subst set_bytes.simps) (simp only: Let_def store_fill1 mem reg less)
qed simp

interpretation filling_blocks: block_loop
    "\<lambda>w m j. set_blocks (broadcast a1) (to + of_nat m) 0 (fill j (ucast a1) to mem) (to + of_nat j)"
    "\<lambda>j. (fill j (ucast a1) to mem, to + of_nat j)" "{128}" "clear_range to n"
  for a1 to mem n
proof unfold_locales
  fix w j m :: nat
  assume w: "w \<in> {128}" "j + w \<le> m" "m \<le> clear_range to n"
  then have range: "unat to + n < 2 ^ 32" "m \<le> n" by (auto simp: clear_range_def split: if_splits)
  have reg: "to + of_nat j + 128 = to + of_nat (j + w)" using w(1) by simp
  have less: "to + of_nat (j + w) < to + of_nat m \<longleftrightarrow> j + w < m"
    using range w by (intro add_bytes_less) simp_all
  have j: "j + 128 < 2 ^ 32" using range w by simp
  have mem: "set_words 0 (broadcast a1) (to + of_nat j) (fill j (ucast a1) to mem) = fill (j + w) (ucast a1) to mem"
    using fill_fill [OF j] w(1) by (simp add: set_words_fill)
  show "set_blocks (broadcast a1) (to + of_nat m) 0 (fill j (ucast a1) to mem) (to + of_nat j) =
    (if j + w < m then set_blocks (broadcast a1) (to + of_nat m) 0 (fill (j + w) (ucast a1) to mem) (to + of_nat (j + w))
     else Some (fill (j + w) (ucast a1) to mem, to + of_nat (j + w)))"
    by (subst set_blocks.simps) (simp only: Let_def mem reg less)
qed simp

lemma set_tail_fill:
  assumes "unat to + (j + unat r) < 2 ^ 32"
  shows "set_tail a1 r (fill j (ucast a1) to mem, to + of_nat j) = Some (fill (j + unat r) (ucast a1) to mem)"
proof (cases "r = 0")
  case True
  then show ?thesis by (simp add: set_tail_def)
next
  case False
  then have pos: "0 < unat r" by (simp add: unat_gt_0)
  have range: "clear_range to (j + unat r) = j + unat r" using assms by (simp add: clear_range_def)
  have "to + of_nat j + r = to + of_nat (j + unat r)" by simp
  then show ?thesis
    using filling_bytes.to_end [of 1 "j + unat r" to "j + unat r" j a1 mem] False pos
    by (simp add: set_tail_def range add.assoc)
qed

lemma unat_and_words: "unat (r AND 124 :: u32) = unat r div 4 mod 32 * 4"
proof -
  have m: "(124 :: u32) = push_bit 2 (mask 5)" by (simp add: mask_eq_exp_minus_1 push_bit_eq_mult)
  have "r AND 124 = push_bit 2 (take_bit 5 (drop_bit 2 r))"
  proof (rule bit_word_eqI)
    fix n :: nat
    show "bit (r AND 124) n = bit (push_bit 2 (take_bit 5 (drop_bit 2 r))) n" if "n < LENGTH(32)"
    proof (cases "2 \<le> n")
      case True
      then obtain k where "n = 2 + k" using le_Suc_ex by blast
      then show ?thesis unfolding m using that by (auto simp: bit_simps)
    qed (simp add: m bit_simps)
  qed
  moreover have "unat r div 4 mod 32 * 4 < 2 ^ 32"
    using mod_less_divisor [of 32 "unat r div 4"] by simp
  ultimately show ?thesis by (simp add: unat_push_bit_word unat_take_bit_word unat_drop_bit_word)
qed

lemma set_words_path_fill:
  assumes "unat to + (j + unat r) < 2 ^ 32" and "4 \<le> unat r"
  shows "set_words_path a1 r (fill j (ucast a1) to mem, to + of_nat j) = Some (fill (j + unat r) (ucast a1) to mem)"
proof -
  define N where "N = unat r div 4"
  define c :: u8 where "c = ucast a1"
  define a4 where "a4 = r AND NOT 3"
  define a3 where "a3 = to + of_nat (j + 4 * N)"
  have N: "0 < N" "4 * N \<le> unat r" "unat r = 4 * N + unat r mod 4" using assms(2) by (simp_all add: N_def)
  have a4: "unat a4 = 4 * N" unfolding a4_def unat_align4 N_def by (rule mult.commute)
  then have a4w: "a4 = of_nat (4 * N)" by (metis of_nat_unat ucast_id)
  have a3: "to + of_nat j + a4 = a3" by (simp add: a4w a3_def)
  have rem: "unat (a4 AND 124) = N mod 32 * 4" by (simp add: unat_and_words a4)
  have range: "clear_range to (j + unat r) = j + unat r" using assms(1) by (simp add: clear_range_def)
  have whole: "set_blocks (broadcast a1) a3 0 (fill i c to mem) (to + of_nat i) = Some (fill (j + 4 * N) c to mem, a3)"
    if "i < j + 4 * N" "128 dvd j + 4 * N - i" for i
    using filling_blocks.to_end [of 128 "j + 4 * N" to "j + unat r" i a1 mem] that N(2)
    by (simp add: range c_def a3_def)
  have blocks: "(let (k, t0) = (if a4 AND 31 * 4 = 0 then (0, to + of_nat j)
                   else let a4 = - (a4 AND 31 * 4) + 32 * 4 in (unat (a4 div 4), to + of_nat j - a4))
      in set_blocks (broadcast a1) a3 k (fill j c to mem) t0) = Some (fill (j + 4 * N) c to mem, a3)"
  proof (cases "N mod 32 = 0")
    case True
    then have "a4 AND 124 = 0" using rem by (simp add: unat_eq_word)
    moreover have "128 dvd 4 * N" using True by auto
    ultimately show ?thesis using whole [of j] N(1) by simp
  next
    case False
    define q where "q = N mod 32"
    have q: "0 < q" "q < 32" "q \<le> N" using False by (simp_all add: q_def)
    define b where "b = - (a4 AND 124) + 128"
    have nz: "a4 AND 124 \<noteq> 0" using rem False by auto
    have "a4 AND 124 = of_nat (4 * q)" using rem by (metis mult.commute of_nat_unat q_def ucast_id)
    then have b: "b = of_nat (4 * (32 - q))" using q(2) by (simp add: b_def of_nat_diff)
    have "unat b = 4 * (32 - q)" unfolding b by (subst unat_of_nat) simp
    then have k: "unat (b div 4) = 32 - q" by (simp add: unat_div_word)
    have start: "to + of_nat j - b + of_nat (4 * (32 - q)) = to + of_nat j" unfolding b by simp
    have "set_words (32 - q) (broadcast a1) (to + of_nat j - b) (fill j c to mem) = fill (4 * q) c (to + of_nat j) (fill j c to mem)"
      using set_words_fill [of "32 - q" a1 "to + of_nat j - b"] q unfolding start by (simp add: c_def)
    also have "\<dots> = fill (j + 4 * q) c to mem"
      by (rule fill_fill) (use assms(1) N(2) q(3) in linarith)
    finally have words: "set_words (32 - q) (broadcast a1) (to + of_nat j - b) (fill j c to mem) = fill (j + 4 * q) c to mem" .
    have next': "to + of_nat j - b + 128 = to + of_nat (j + 4 * q)" unfolding b using q(2) by (simp add: of_nat_diff)
    have less: "to + of_nat (j + 4 * q) < a3 \<longleftrightarrow> j + 4 * q < j + 4 * N"
      unfolding a3_def using assms(1) N(2) q(3) by (intro add_bytes_less) simp_all
    have "set_blocks (broadcast a1) a3 (32 - q) (fill j c to mem) (to + of_nat j - b)
        = (if q < N then set_blocks (broadcast a1) a3 0 (fill (j + 4 * q) c to mem) (to + of_nat (j + 4 * q))
           else Some (fill (j + 4 * q) c to mem, to + of_nat (j + 4 * q)))"
      by (subst set_blocks.simps) (simp only: Let_def words next' less add_less_cancel_left mult_less_cancel1, simp)
    also have "\<dots> = Some (fill (j + 4 * N) c to mem, a3)"
    proof (cases "q < N")
      case True
      have "32 dvd N - q" unfolding q_def by (rule dvd_minus_mod)
      then have "128 dvd 4 * (N - q)" using mult_dvd_mono [of 4 4 32 "N - q"] by simp
      then show ?thesis using whole [of "j + 4 * q"] True by (simp add: diff_mult_distrib2)
    next
      case False
      then have "q = N" using q(3) by simp
      then show ?thesis using False by (simp add: a3_def)
    qed
    finally show ?thesis using nz k by (simp add: b_def Let_def)
  qed
  have tail: "unat (r AND 3) = unat r mod 4"
  proof -
    have "(3 :: u32) = mask 2" by (simp add: mask_eq_exp_minus_1)
    then show ?thesis using unat_and_mask_word [of r 2] by simp
  qed
  have same: "ucast (broadcast a1) = c" using broadcast_byte [of 0 a1] ucast_ucast_low [of "broadcast a1"] by (simp add: c_def)
  have "set_tail (broadcast a1) (r AND 3) (fill (j + 4 * N) c to mem, a3) = Some (fill (j + unat r) c to mem)"
  proof -
    have sum: "j + 4 * N + unat (r AND 3) = j + unat r" using N(3) tail by simp
    show ?thesis
      using set_tail_fill [of to "j + 4 * N" "r AND 3" "broadcast a1" mem] assms(1)
      unfolding sum same a3_def by (simp add: sum)
  qed
  then show ?thesis
    using blocks unfolding set_words_path_def prod.case Let_def a4_def [symmetric] a3 c_def [symmetric]
    by (simp split: if_splits)
qed

section \<open>The copy loops\<close>

interpretation copying_bytes: block_loop
    "\<lambda>w m j. copy_bytes (from' + of_nat m) (move j mem to from') (to + of_nat j) (from' + of_nat j)"
    "\<lambda>j. (move j mem to from', to + of_nat j, from' + of_nat j)" "{1}" "copy_range to from' n"
  for mem to from' n
proof unfold_locales
  fix w j m :: nat
  assume w: "w \<in> {1}" "j + w \<le> m" "m \<le> copy_range to from' n"
  then have range: "apart to from' n" "unat from' + n < 2 ^ 32" "m \<le> n"
    by (auto simp: copy_range_def split: if_splits)
  have regs: "to + of_nat j + 1 = to + of_nat (j + w)" "from' + of_nat j + 1 = from' + of_nat (j + w)"
    using w(1) by simp_all
  have less: "from' + of_nat (j + w) < from' + of_nat m \<longleftrightarrow> j + w < m"
    using range w by (intro add_bytes_less) simp_all
  have mem: "move 1 (move j mem to from') (to + of_nat j) (from' + of_nat j) = move (j + w) mem to from'"
    using move_move [OF range(1), of j 1 mem] range w by simp
  show "copy_bytes (from' + of_nat m) (move j mem to from') (to + of_nat j) (from' + of_nat j) =
    (if j + w < m then copy_bytes (from' + of_nat m) (move (j + w) mem to from') (to + of_nat (j + w)) (from' + of_nat (j + w))
     else Some (move (j + w) mem to from', to + of_nat (j + w), from' + of_nat (j + w)))"
    by (subst copy_bytes.simps) (simp only: Let_def mem regs less)
qed simp

interpretation copying_blocks: block_loop
    "\<lambda>w m j. copy_blocks (from' + of_nat m) (move j mem to from') (to + of_nat j) (from' + of_nat j)"
    "\<lambda>j. (move j mem to from', to + of_nat j, from' + of_nat j)" "{64}" "copy_range to from' n"
  for mem to from' n
proof unfold_locales
  fix w j m :: nat
  assume w: "w \<in> {64}" "j + w \<le> m" "m \<le> copy_range to from' n"
  then have range: "apart to from' n" "unat from' + n < 2 ^ 32" "m \<le> n" and w64: "w = 64"
    by (auto simp: copy_range_def split: if_splits)
  have n: "j + 10 * 4 \<le> n" "j + 10 * 4 + 6 * 4 \<le> n" "n < 2 ^ 32" using range w by simp_all
  have regs: "to + of_nat j + 16 * 4 = to + of_nat (j + w)" "from' + of_nat j + 16 * 4 = from' + of_nat (j + w)"
    "to + of_nat j + 10 * 4 = to + of_nat (j + 10 * 4)" "from' + of_nat j + 10 * 4 = from' + of_nat (j + 10 * 4)"
    by (simp_all add: w64)
  have less: "from' + of_nat (j + w) < from' + of_nat m \<longleftrightarrow> j + w < m"
    using range w by (intro add_bytes_less) simp_all
  have mem: "move (6 * 4) (move (10 * 4) (move j mem to from') (to + of_nat j) (from' + of_nat j))
      (to + of_nat (j + 10 * 4)) (from' + of_nat (j + 10 * 4)) = move (j + w) mem to from'"
    unfolding move_move [OF range(1) n(1,3)] move_move [OF range(1) n(2,3)] by (simp add: w64 add.commute)
  show "copy_blocks (from' + of_nat m) (move j mem to from') (to + of_nat j) (from' + of_nat j) =
    (if j + w < m then copy_blocks (from' + of_nat m) (move (j + w) mem to from') (to + of_nat (j + w)) (from' + of_nat (j + w))
     else Some (move (j + w) mem to from', to + of_nat (j + w), from' + of_nat (j + w)))"
    by (subst copy_blocks.simps) (simp only: Let_def mem regs less)
qed simp

lemma copy_tail_move:
  assumes "apart to from' (j + unat r)" and "unat from' + (j + unat r) < 2 ^ 32"
  shows "copy_tail r (move j mem to from', to + of_nat j, from' + of_nat j) = Some (move (j + unat r) mem to from')"
proof (cases "r = 0")
  case True
  then show ?thesis by (simp add: copy_tail_def)
next
  case False
  then have pos: "0 < unat r" by (simp add: unat_gt_0)
  have range: "copy_range to from' (j + unat r) = j + unat r" using assms by (simp add: copy_range_def)
  show ?thesis
    using copying_bytes.to_end [of 1 "j + unat r" to from' "j + unat r" j mem] False pos
    by (simp add: copy_tail_def range add.assoc)
qed

lemma copy_words_path_move:
  assumes "apart to from' (j + unat r)" and "unat from' + (j + unat r) < 2 ^ 32"
  shows "copy_words_path r (move j mem to from', to + of_nat j, from' + of_nat j) = Some (move (j + unat r) mem to from')"
proof -
  define N where "N = unat r div 64"
  define a4 where "a4 = r AND NOT 63"
  have m: "(63 :: u32) = mask 6" by (simp add: mask_eq_exp_minus_1)
  have a4: "unat a4 = 64 * N" unfolding a4_def m unat_round_down N_def by simp
  have low: "unat (r AND 63) = unat r mod 64" unfolding m unat_and_mask_word by simp
  have sum: "j + 64 * N + unat (r AND 63) = j + unat r" "64 * N \<le> unat r" unfolding low by (simp_all add: N_def)
  have nonzero: "a4 = 0 \<longleftrightarrow> N = 0" using a4 by (simp add: unat_eq_word)
  show ?thesis
  proof (cases "N = 0")
    case True
    then show ?thesis
      using nonzero copy_tail_move [OF assms] by (simp add: copy_words_path_def Let_def a4_def)
  next
    case False
    have range: "copy_range to from' (j + unat r) = j + unat r" using assms by (simp add: copy_range_def)
    have a4w: "a4 = of_nat (64 * N)" using a4 by (metis of_nat_unat ucast_id)
    have end': "from' + of_nat j + a4 = from' + of_nat (j + 64 * N)" unfolding a4w by (simp add: add.assoc)
    have "copy_blocks (from' + of_nat j + a4) (move j mem to from') (to + of_nat j) (from' + of_nat j)
        = Some (move (j + 64 * N) mem to from', to + of_nat (j + 64 * N), from' + of_nat (j + 64 * N))"
      unfolding end'
      by (rule copying_blocks.to_end [of 64 _ to from' "j + unat r"]) (use False sum(2) in \<open>simp_all add: range\<close>)
    moreover have "copy_tail (r AND 63) (move (j + 64 * N) mem to from', to + of_nat (j + 64 * N), from' + of_nat (j + 64 * N))
        = Some (move (j + unat r) mem to from')"
      using copy_tail_move [of to from' "j + 64 * N" "r AND 63" mem] assms unfolding sum by blast
    ultimately show ?thesis
      using nonzero False by (simp add: copy_words_path_def Let_def a4_def)
  qed
qed

lemma word_offset: "unat (x :: u32) = unat a + p \<Longrightarrow> x = a + of_nat p"
  by (metis of_nat_add of_nat_unat ucast_id)

lemma aligned_up:
  fixes a :: u32
  assumes "unat a + 3 < 2 ^ 32"
  obtains p where "(a + 3) AND NOT 3 = a + of_nat p" "p < 4"
proof -
  define p where "p = (unat a + 3) div 4 * 4 - unat a"
  have "unat (a + 3) = unat a + 3" using assms by (simp add: unat_add_word)
  then have "unat ((a + 3) AND NOT 3) = (unat a + 3) div 4 * 4" unfolding unat_align4 by simp
  also have "\<dots> = unat a + p" unfolding p_def by simp
  finally have "(a + 3) AND NOT 3 = a + of_nat p" by (rule word_offset)
  moreover have "p < 4" unfolding p_def by simp
  ultimately show thesis by (rule that)
qed

section \<open>The routines\<close>

lemma memset_range:
  assumes "unat a0 + unat a2 < 2 ^ 32"
  shows "memset a0 a1 a2 mem = Some (a0, fill (unat a2) (ucast a1) a0 mem)"
proof (cases "a2 < 16")
  case True
  then show ?thesis
    using set_tail_fill [of a0 0 a2 a1 mem] assms by (simp add: memset_def)
next
  case False
  then have long: "16 \<le> unat a2" by (simp add: word_less_nat_alt)
  define a3 where "a3 = (a0 + 3) AND NOT 3"
  have "unat a0 + 3 < 2 ^ 32" using assms long by linarith
  then obtain p where p: "a3 = a0 + of_nat p" "p < 4" using aligned_up unfolding a3_def by blast
  define r where "r = a2 - (a3 - a0)"
  have "unat (of_nat p :: u32) = p" using p(2) by (simp add: unat_of_nat)
  then have "unat r = unat a2 - p"
    using p long by (simp add: r_def unat_sub word_le_nat_alt)
  then have r: "p + unat r = unat a2" "4 \<le> unat r" using p(2) long by simp_all
  have path: "set_words_path a1 r (fill p (ucast a1) a0 mem, a0 + of_nat p) = Some (fill (unat a2) (ucast a1) a0 mem)"
    using set_words_path_fill [of a0 p r a1 mem] assms r by simp
  show ?thesis
  proof (cases "a3 = a0")
    case True
    then have "p = 0" using p by (auto simp: word_of_nat_eq_0_iff dest: dvd_imp_le)
    then show ?thesis
      using path True \<open>\<not> a2 < 16\<close> unfolding memset_def Let_def a3_def [symmetric] by (simp add: r_def)
  next
    case False
    then have "0 < p" using p(1) by (cases p) simp_all
    have range: "clear_range a0 (unat a2) = unat a2" using assms by (simp add: clear_range_def)
    have "set_bytes a1 (a0 + of_nat p) mem a0 = Some (fill p (ucast a1) a0 mem, a0 + of_nat p)"
      using filling_bytes.to_end [of 1 p a0 "unat a2" 0 a1 mem] \<open>0 < p\<close> r(1) by (simp add: range)
    then show ?thesis
      using path False \<open>\<not> a2 < 16\<close> unfolding memset_def Let_def a3_def [symmetric] by (simp add: r_def p(1))
  qed
qed

lemma memcpy_range:
  assumes "apart a0 a1 (unat a2)" and "unat a1 + unat a2 < 2 ^ 32"
  shows "memcpy a0 a1 a2 mem = Some (a0, move (unat a2) mem a0 a1)"
proof (cases "a2 < 128 \<or> a0 AND 3 \<noteq> a1 AND 3")
  case True
  then show ?thesis
    using copy_tail_move [of a0 a1 0 a2 mem] assms by (simp add: memcpy_def)
next
  case False
  then have long: "128 \<le> unat a2" by (simp add: word_less_nat_alt)
  show ?thesis
  proof (cases "a0 AND 3 = 0")
    case True
    then show ?thesis
      using False copy_words_path_move [of a0 a1 0 a2 mem] assms by (simp add: memcpy_def)
  next
    case unaligned: False
    define a3 where "a3 = (a1 AND NOT 3) + 4"
    define p where "p = 4 - unat a1 mod 4"
    have p: "0 < p" "p \<le> 4" "unat a1 div 4 * 4 + 4 = unat a1 + p"
      using div_mult_mod_eq [of "unat a1" 4] mod_less_divisor [of 4 "unat a1"] unfolding p_def by linarith+
    have "unat a3 = unat a1 + p"
      unfolding a3_def unat_add_word unat_align4 using p long assms(2) by simp
    then have a3: "a3 = a1 + of_nat p" by (rule word_offset)
    define r where "r = a2 - (a3 - a1)"
    have "unat (of_nat p :: u32) = p" using p(2) by (simp add: unat_of_nat)
    then have "unat r = unat a2 - p"
      using p(2) long by (simp add: r_def a3 unat_sub word_le_nat_alt)
    then have r: "p + unat r = unat a2" using p(2) long by simp
    have range: "copy_range a0 a1 (unat a2) = unat a2" using assms by (simp add: copy_range_def)
    have "copy_bytes (a1 + of_nat p) mem a0 a1 = Some (move p mem a0 a1, a0 + of_nat p, a1 + of_nat p)"
      using copying_bytes.to_end [of 1 p a0 a1 "unat a2" 0 mem] p(1) r by (simp add: range)
    moreover have "copy_words_path r (move p mem a0 a1, a0 + of_nat p, a1 + of_nat p) = Some (move (unat a2) mem a0 a1)"
      using copy_words_path_move [of a0 a1 p r mem] assms r by simp
    ultimately show ?thesis
      using unaligned False unfolding memcpy_def Let_def a3_def [symmetric] by (simp add: r_def a3)
  qed
qed

section \<open>Properties\<close>

text \<open>
  C20: \<^verbatim>\<open>memset\<close> returns its argument and fills exactly the bytes of the range with the low byte of
  the value, whatever the alignment and the length of the range, provided that it ends below
  the top of the address space: the jump into the middle of the unrolled loop stores no word
  outside the range.
\<close>

theorem memset_fills:
  assumes "unat a0 + unat a2 < 2 ^ 32"
  shows "memset a0 a1 a2 mem = Some (a0, fill (unat a2) (ucast a1) a0 mem)"
  by (rule memset_range [OF assms])

theorem memset_fills_witness:
  "memset 0x1001 0x1ab 140 (\<lambda>_. 0) = Some (0x1001, fill 140 (ucast (0x1ab :: u32)) 0x1001 (\<lambda>_. 0))"
  using memset_fills [of "0x1001" 140 "0x1ab" "\<lambda>_. 0"] by simp

text \<open>
  C25: \<^verbatim>\<open>memcpy\<close> returns its first argument and copies exactly the bytes of the range, for every
  alignment and length, when the destination has no byte of the source and the source ends
  below the top of the address space.
\<close>

theorem memcpy_copies:
  assumes "apart a0 a1 (unat a2)" and "unat a1 + unat a2 < 2 ^ 32"
  shows "memcpy a0 a1 a2 mem = Some (a0, move (unat a2) mem a0 a1)"
  by (rule memcpy_range [OF assms])

theorem memcpy_copies_witness:
  "memcpy 0x1001 0x2001 130 (\<lambda>a. ucast a) = Some (0x1001, move 130 (\<lambda>a. ucast a) 0x1001 0x2001)"
proof -
  have "130 \<le> unat (0x2001 + of_nat i - 0x1001 :: u32)" if "i < 130" for i
    using that by (simp add: unat_add_word unat_of_nat)
  then have "apart 0x1001 0x2001 (unat (130 :: u32))" by (simp add: apart_def)
  then show ?thesis using memcpy_copies [of "0x1001" "0x2001" 130 "\<lambda>a. ucast a"] by simp
qed

text \<open>
  The functions on pages: a cleared page is zero, a copied page is its source, and nothing else
  changes; the last page of the address space is left out.
\<close>

theorem page_operations:
  fixes pg from' :: u32
  assumes "unat pg + 0x1000 < 2 ^ 32" and "unat from' + 0x1000 < 2 ^ 32" and "apart pg from' 0x1000"
  shows "clear_page pg mem = Some (fill 0x1000 0 pg mem) \<and> setup_zero_page pg mem = clear_page pg mem
    \<and> copy_page pg from' mem = Some (move 0x1000 mem pg from')"
  using memset_range [of pg PAGE_BYTES 0 mem] memcpy_range [of pg from' PAGE_BYTES mem] assms
  by (simp add: clear_page_def setup_zero_page_def copy_page_def PAGE_BYTES_def)

end
