(* ===== verification/SetupArch.thy ===== *)
theory SetupArch
  imports Boot MemOps
begin

text \<open>
  The order of the boot on the boot hart: \<^verbatim>\<open>setup_arch\<close> of \<^verbatim>\<open>kernel/setup.c\<close> from the
  command line over the memory to the harts and \<^verbatim>\<open>paging_init\<close> of \<^verbatim>\<open>mm/init.c\<close>, which
  composes the operations of \<open>Boot\<close> and \<open>MemOps\<close>. The tables of the boot loader are read from the
  same bytes that \<^verbatim>\<open>setup_zero_page\<close> writes.
\<close>

section \<open>State\<close>

text \<open>\<^verbatim>\<open>CONFIG_CMDLINE_BOOL\<close> and \<^verbatim>\<open>CONFIG_CMDLINE_OVERRIDE\<close>.\<close>

datatype cmdline_config = No_builtin | Builtin_override | Builtin_first

text \<open>
  The string functions of the kernel proper give the new contents of their first argument;
  \<^verbatim>\<open>early_mems\<close> are the values that \<^verbatim>\<open>parse_early_param\<close> passes to \<^verbatim>\<open>early_mem\<close> for a
  command line, as \<^verbatim>\<open>memparse\<close> reads them. The other fields are the answers of the firmware and
  the addresses the linker fixes.
\<close>

record arch_env =
  cmdline_config :: cmdline_config
  strlcpy :: "string \<Rightarrow> string \<Rightarrow> nat \<Rightarrow> string"
  strlcat :: "string \<Rightarrow> string \<Rightarrow> nat \<Rightarrow> string"
  early_mems :: "string \<Rightarrow> u64 option list"
  COMMAND_LINE_SIZE :: nat
  query_memory :: "u32 \<times> u32 \<times> u32"
  sbi_num_harts :: u32
  NR_CPUS :: nat
  initramfs_start :: u32
  initramfs_size :: u32
  stext :: u32
  etext :: u32
  edata :: u32
  end_addr :: u32
  empty_zero_page :: u32
  einval :: int

record init_mm =
  mm_pgd :: u32
  start_code :: u32
  end_code :: u32
  end_data :: u32
  brk :: u32

record arch_state =
  boot :: boot_state
  boot_command_line :: string
  builtin_cmdline :: string
  command_line :: string
  cpu_masks :: "(nat \<Rightarrow> bool) \<times> (nat \<Rightarrow> bool)"
  mm :: init_mm
  bytes :: memory
  mmu :: hart_mmu

section \<open>Operations\<close>

definition setup_command_line :: "arch_env \<Rightarrow> arch_state \<Rightarrow> arch_state" where
  "setup_command_line e st =
    (let sz = COMMAND_LINE_SIZE e;
         st = (case cmdline_config e of
                 No_builtin \<Rightarrow> st
               | Builtin_override \<Rightarrow> st\<lparr>boot_command_line := strlcpy e (boot_command_line st) (builtin_cmdline st) sz\<rparr>
               | Builtin_first \<Rightarrow>
                   if builtin_cmdline st \<noteq> []
                   then let st = st\<lparr>builtin_cmdline := strlcat e (builtin_cmdline st) '' '' sz\<rparr>;
                            st = st\<lparr>builtin_cmdline := strlcat e (builtin_cmdline st) (boot_command_line st) sz\<rparr>
                        in st\<lparr>boot_command_line := strlcpy e (boot_command_line st) (builtin_cmdline st) sz\<rparr>
                   else st)
     in st\<lparr>command_line := strlcpy e (command_line st) (boot_command_line st) sz\<rparr>)"

definition parse_early_param :: "arch_env \<Rightarrow> arch_state \<Rightarrow> arch_state" where
  "parse_early_param e st =
    st\<lparr>boot := fold (\<lambda>v b. snd (early_mem (einval e) v b)) (early_mems e (boot_command_line st)) (boot st)\<rparr>"

definition word_view :: "memory \<Rightarrow> words" where
  "word_view m a = ucast (load_le m a 4)"

definition paging_init :: "arch_env \<Rightarrow> arch_state \<Rightarrow> arch_state option" where
  "paging_init e st =
    (let st = st\<lparr>mm := (mm st)\<lparr>mm_pgd := pfn_to_virt (layout (boot st)) (sptbr (mmu st))\<rparr>\<rparr>
     in case setup_zero_page (empty_zero_page e) (bytes st) of
          None \<Rightarrow> None
        | Some m \<Rightarrow>
            let st = st\<lparr>bytes := m\<rparr>; st = st\<lparr>mmu := local_flush_tlb_all (mmu st)\<rparr>
            in Some (st\<lparr>boot := zone_sizes_init (boot st)\<rparr>))"

definition setup_arch :: "arch_env \<Rightarrow> arch_state \<Rightarrow> arch_state option" where
  "setup_arch e st =
    (let st = setup_command_line e st;
         st = parse_early_param e st;
         st = st\<lparr>mm := (mm st)\<lparr>start_code := stext e, end_code := etext e, end_data := edata e, brk := end_addr e\<rparr>\<rparr>
     in case setup_bootmem (query_memory e) (initramfs_start e) (initramfs_size e) (end_addr e) (word_view (bytes st))
               (sptbr (mmu st)) (boot st) of
          None \<Rightarrow> None
        | Some b \<Rightarrow>
            let st = st\<lparr>boot := b\<rparr>; st = st\<lparr>cpu_masks := setup_smp (NR_CPUS e) (sbi_num_harts e) (cpu_masks st)\<rparr>
            in paging_init e st)"

section \<open>Specification\<close>

text \<open>What the string functions promise for arguments that fit.\<close>

definition strings_ok :: "arch_env \<Rightarrow> bool" where
  "strings_ok e \<longleftrightarrow>
    (\<forall>dst src n. 0 < n \<longrightarrow> strlcpy e dst src n = take (n - 1) src)
    \<and> (\<forall>dst src n. length dst < n \<longrightarrow> strlcat e dst src n = dst @ take (n - 1 - length dst) src)"

definition kernel_line :: "arch_env \<Rightarrow> arch_state \<Rightarrow> string" where
  "kernel_line e st =
    (case cmdline_config e of
       No_builtin \<Rightarrow> boot_command_line st
     | Builtin_override \<Rightarrow> builtin_cmdline st
     | Builtin_first \<Rightarrow>
         if builtin_cmdline st = [] then boot_command_line st
         else take (COMMAND_LINE_SIZE e - 1) (builtin_cmdline st @ '' '' @ boot_command_line st))"

text \<open>The limit of the last option that has a value, 0 for none.\<close>

definition mem_limit :: "u64 option list \<Rightarrow> u32" where
  "mem_limit vs = (let ws = filter (\<lambda>v. v \<noteq> None) vs in if ws = [] then 0 else ucast (the (last ws)) AND PMD_MASK)"

definition memory_end :: "arch_env \<Rightarrow> arch_state \<Rightarrow> u32 \<Rightarrow> u32" where
  "memory_end e st sz = (let l = mem_limit (early_mems e (kernel_line e st)) in if l \<noteq> 0 \<and> l < sz then l else sz)"

section \<open>Lemmas\<close>

lemma setup_command_line_line:
  assumes "strings_ok e" and "length (boot_command_line st) < COMMAND_LINE_SIZE e"
    and "length (builtin_cmdline st) < COMMAND_LINE_SIZE e"
  defines "st' \<equiv> setup_command_line e st"
  shows "command_line st' = kernel_line e st" and "boot_command_line st' = kernel_line e st"
    and "boot st' = boot st" "bytes st' = bytes st" "mmu st' = mmu st" "mm st' = mm st" "cpu_masks st' = cpu_masks st"
proof -
  have cpy: "strlcpy e dst src (COMMAND_LINE_SIZE e) = take (COMMAND_LINE_SIZE e - 1) src" for dst src
    using assms(1,2) unfolding strings_ok_def by (metis gr_implies_not_zero not_gr_zero)
  have short: "take (COMMAND_LINE_SIZE e - 1) x = x" if "length x < COMMAND_LINE_SIZE e" for x :: string
    using that by simp
  have cat: "strlcat e dst src (COMMAND_LINE_SIZE e) = take (COMMAND_LINE_SIZE e - 1) (dst @ src)"
    if "length dst < COMMAND_LINE_SIZE e" for dst src
    using that assms(1) unfolding strings_ok_def by simp
  have cut: "length (take (COMMAND_LINE_SIZE e - 1) x) < COMMAND_LINE_SIZE e" for x :: string
    using assms(2) by (simp add: min_less_iff_disj)
  have fold_cut: "take n (take n x @ y) = take n (x @ y)" for n and x y :: string
    by (cases "length x \<le> n") simp_all
  have join: "strlcat e (strlcat e b '' '' (COMMAND_LINE_SIZE e)) l (COMMAND_LINE_SIZE e)
      = take (COMMAND_LINE_SIZE e - 1) (b @ '' '' @ l)" if "length b < COMMAND_LINE_SIZE e" for b l
    unfolding cat [OF that] cat [OF cut] fold_cut append_assoc ..
  show "command_line st' = kernel_line e st" "boot_command_line st' = kernel_line e st"
    using assms(2,3)
    by (simp_all add: st'_def setup_command_line_def kernel_line_def Let_def cpy join short del: append_Cons take_append
        split: cmdline_config.split)
  show "boot st' = boot st" "bytes st' = bytes st" "mmu st' = mmu st" "mm st' = mm st" "cpu_masks st' = cpu_masks st"
    by (simp_all add: st'_def setup_command_line_def Let_def split: cmdline_config.split)
qed

lemma early_mem_size:
  "mem_size (snd (early_mem inval v b)) = (case v of None \<Rightarrow> mem_size b | Some x \<Rightarrow> ucast x AND PMD_MASK)"
proof -
  have "ucast (x AND ucast PMD_MASK) = (ucast x AND PMD_MASK :: u32)" for x :: u64
    by (rule bit_word_eqI) (auto simp: bit_simps)
  then show ?thesis by (simp add: early_mem_def Let_def split: option.split)
qed

lemma mem_limit_snoc: "mem_limit (vs @ [v]) = (case v of None \<Rightarrow> mem_limit vs | Some x \<Rightarrow> ucast x AND PMD_MASK)"
  by (cases v) (simp_all add: mem_limit_def Let_def)

lemma early_mems_size:
  assumes "mem_size b = 0"
  shows "mem_size (fold (\<lambda>v b. snd (early_mem inval v b)) vs b) = mem_limit vs"
proof (induction vs rule: rev_induct)
  case Nil
  then show ?case using assms by (simp add: mem_limit_def)
next
  case (snoc v vs)
  then show ?case by (cases v) (simp_all add: early_mem_size mem_limit_snoc)
qed

lemma mem_limit_aligned: "mem_limit vs AND NOT PMD_MASK = 0"
proof -
  have "(x AND PMD_MASK) AND NOT PMD_MASK = 0" for x :: u32 by (rule bit_word_eqI) (auto simp: bit_simps)
  then show ?thesis unfolding mem_limit_def Let_def by (simp only: if_distrib split: if_split) simp
qed

lemma setup_smp_masks:
  "fst (setup_smp nr n masks) i \<longleftrightarrow> fst masks i \<or> i < nat (min (sint n) (int nr))"
  "snd (setup_smp nr n masks) i \<longleftrightarrow> snd masks i \<or> i < nat (min (sint n) (int nr))"
proof -
  have "fold (\<lambda>i (f, g). (f(i := True), g(i := True))) [0..<k] (f, g) =
      ((\<lambda>i. f i \<or> i < k), (\<lambda>i. g i \<or> i < k))" for k and f g :: "nat \<Rightarrow> bool"
    by (induction k) (auto simp: fun_eq_iff less_Suc_eq)
  then show "fst (setup_smp nr n masks) i \<longleftrightarrow> fst masks i \<or> i < nat (min (sint n) (int nr))"
    "snd (setup_smp nr n masks) i \<longleftrightarrow> snd masks i \<or> i < nat (min (sint n) (int nr))"
    by (simp_all add: setup_smp_def split: prod.split)
qed

text \<open>The parts of \<^verbatim>\<open>setup_arch\<close> in order.\<close>

lemma setup_arch_parts:
  assumes "setup_arch e st = Some st'" and "strings_ok e" and "length (boot_command_line st) < COMMAND_LINE_SIZE e"
    and "length (builtin_cmdline st) < COMMAND_LINE_SIZE e" and "unat (empty_zero_page e) + 4096 < 2 ^ 32"
    and "mem_size (boot st) = 0"
  obtains b0 b where "mem_size b0 = mem_limit (early_mems e (kernel_line e st))"
    "setup_bootmem (query_memory e) (initramfs_start e) (initramfs_size e) (end_addr e) (word_view (bytes st))
       (sptbr (mmu st)) b0 = Some b"
    "boot st' = zone_sizes_init b" "command_line st' = kernel_line e st" "bytes st' = fill 4096 0 (empty_zero_page e) (bytes st)"
    "mm_pgd (mm st') = pfn_to_virt (layout b) (sptbr (mmu st))" "mmu st' = local_flush_tlb_all (mmu st)"
    "cpu_masks st' = setup_smp (NR_CPUS e) (sbi_num_harts e) (cpu_masks st)"
proof -
  define st1 where "st1 = setup_command_line e st"
  note line = setup_command_line_line [OF assms(2-4), folded st1_def]
  have zero: "setup_zero_page (empty_zero_page e) m = Some (fill 4096 0 (empty_zero_page e) m)" for m
    using memset_range [of "empty_zero_page e" PAGE_BYTES 0 m] assms(5)
    by (simp add: setup_zero_page_def PAGE_BYTES_def)
  define b0 where "b0 = boot (parse_early_param e st1)"
  have b0: "mem_size b0 = mem_limit (early_mems e (kernel_line e st))"
    using early_mems_size [OF assms(6)] by (simp add: b0_def parse_early_param_def line)
  have parse: "bytes (parse_early_param e st1) = bytes st" "mmu (parse_early_param e st1) = mmu st"
    "command_line (parse_early_param e st1) = kernel_line e st" "cpu_masks (parse_early_param e st1) = cpu_masks st"
    by (simp_all add: parse_early_param_def line)
  show thesis
  proof (cases "setup_bootmem (query_memory e) (initramfs_start e) (initramfs_size e) (end_addr e) (word_view (bytes st))
       (sptbr (mmu st)) b0")
    case None
    then show thesis
      using assms(1) by (simp add: setup_arch_def Let_def st1_def [symmetric] parse b0_def)
  next
    case (Some b)
    then show thesis
      using assms(1) that [OF b0 Some]
      by (auto simp: setup_arch_def Let_def st1_def [symmetric] parse b0_def paging_init_def zero)
  qed
qed

lemma setup_bootmem_layout:
  assumes "setup_bootmem (ret, base, sz) rd_start rd_size stop tables root st = Some st'"
    and "limited = (if mem_size st \<noteq> 0 \<and> mem_size st < sz then mem_size st else sz)"
  shows "layout st' = (layout st)\<lparr>va_pa_offset := PAGE_OFFSET - base, pfn_base := phys_to_pfn base, max_mapnr := phys_to_pfn limited\<rparr>"
    and "base AND NOT PMD_MASK = 0" and "sz AND NOT PMD_MASK = 0"
  by (rule setup_bootmem_parts [OF assms]; simp)+

lemma region_frames:
  assumes "x AND NOT PMD_MASK = (0 :: u32)"
  shows "push_bit PAGE_SHIFT (phys_to_pfn x) = x"
proof -
  obtain k where "unat x = k * 4096" using region_aligned [OF assms] .
  then have "take_bit 12 x = 0" by (simp add: word_unat_eq_iff unat_take_bit_word)
  then show ?thesis by (simp add: phys_to_pfn_def PAGE_SHIFT_def aligned_page)
qed

section \<open>Property\<close>

text \<open>
  C19: \<^verbatim>\<open>setup_arch\<close> boots the machine it was told of: the kernel gets the built-in command line, the
  boot loader's, or the first followed by the second as far as they fit; a frame is valid if and
  only if it lies in the memory the firmware reported, cut to the last \<^verbatim>\<open>mem=\<close> of that line, and
  exactly this memory is handed to the page allocator; the kernel's address space starts from the
  directory in \<^verbatim>\<open>sptbr\<close>, the zero page is zero and nothing else in memory has changed, no
  translation is cached, and the harts the firmware knows become possible and present as far as
  there is room for them.
\<close>

theorem setup_arch_boots:
  assumes "setup_arch e st = Some st'" and "strings_ok e" and "length (boot_command_line st) < COMMAND_LINE_SIZE e"
    and "length (builtin_cmdline st) < COMMAND_LINE_SIZE e" and "unat (empty_zero_page e) + 4096 < 2 ^ 32"
    and "mem_size (boot st) = 0" and "query_memory e = (ret, base, sz)" and "unat base + unat sz < 2 ^ 32"
  defines "limit \<equiv> memory_end e st sz"
  shows "command_line st' = kernel_line e st
    \<and> (pfn_valid (layout (boot st')) (phys_to_pfn p) \<longleftrightarrow> base \<le> p \<and> unat p < unat base + unat limit)
    \<and> Add_node base limit \<in> set (memblock (boot st'))
    \<and> mm_pgd (mm st') = pfn_to_virt (layout (boot st')) (sptbr (mmu st'))
    \<and> bytes st' = fill 4096 0 (empty_zero_page e) (bytes st) \<and> cached (mmu st') = {}
    \<and> (fst (cpu_masks st') i \<longleftrightarrow> fst (cpu_masks st) i \<or> i < nat (min (sint (sbi_num_harts e)) (int (NR_CPUS e))))
    \<and> (snd (cpu_masks st') i \<longleftrightarrow> snd (cpu_masks st) i \<or> i < nat (min (sint (sbi_num_harts e)) (int (NR_CPUS e))))"
proof -
  obtain b0 b where b: "mem_size b0 = mem_limit (early_mems e (kernel_line e st))"
    "setup_bootmem (ret, base, sz) (initramfs_start e) (initramfs_size e) (end_addr e) (word_view (bytes st))
       (sptbr (mmu st)) b0 = Some b"
    "boot st' = zone_sizes_init b" "command_line st' = kernel_line e st" "bytes st' = fill 4096 0 (empty_zero_page e) (bytes st)"
    "mm_pgd (mm st') = pfn_to_virt (layout b) (sptbr (mmu st))" "mmu st' = local_flush_tlb_all (mmu st)"
    "cpu_masks st' = setup_smp (NR_CPUS e) (sbi_num_harts e) (cpu_masks st)"
    by (rule setup_arch_parts [OF assms(1-6)]) (simp add: assms(7))
  have limit: "limit = (if mem_size b0 \<noteq> 0 \<and> mem_size b0 < sz then mem_size b0 else sz)"
    by (simp add: limit_def memory_end_def Let_def b(1))
  have al: "mem_size b0 AND NOT PMD_MASK = 0" by (simp add: b(1) mem_limit_aligned)
  note valid = bootmem_valid_frames [OF b(2) al assms(8) limit, of p, THEN conjunct1]
  note lay = setup_bootmem_layout [OF b(2) limit]
  have "limit AND NOT PMD_MASK = 0" using limit al lay(3) by simp
  then have "Add_node base limit \<in> set (memblock (boot st'))"
    using lay(2) by (simp add: b(3) zone_sizes_init_def Let_def lay(1) region_frames)
  moreover have "layout (boot st') = layout b" by (simp add: b(3) zone_sizes_init_def Let_def)
  ultimately show ?thesis
    using valid by (simp add: b(4-8) setup_smp_masks local_flush_tlb_all_def)
qed

definition example_arch :: arch_env where
  "example_arch = \<lparr>cmdline_config = Builtin_first, strlcpy = \<lambda>_ src n. take (n - 1) src,
     strlcat = \<lambda>dst src n. dst @ take (n - 1 - length dst) src,
     early_mems = \<lambda>l. if l = ''ro mem=16M'' then [Some 0x1000000] else [], COMMAND_LINE_SIZE = 512,
     query_memory = (0, 0x80000000, 0x4000000), sbi_num_harts = 2, NR_CPUS = 8, initramfs_start = 0, initramfs_size = 0,
     stext = 0xC0000000, etext = 0xC0100000, edata = 0xC0200000, end_addr = 0xC0300000, empty_zero_page = 0xC0250000,
     einval = 22\<rparr>"

definition example_boot :: arch_state where
  "example_boot = \<lparr>boot = boot_start, boot_command_line = ''mem=16M'', builtin_cmdline = ''ro'', command_line = [],
     cpu_masks = (\<lambda>_. False, \<lambda>_. False), mm = \<lparr>mm_pgd = 0, start_code = 0, end_code = 0, end_data = 0, brk = 0\<rparr>,
     bytes = \<lambda>_. 0, mmu = \<lparr>sptbr = 0x80200, cached = {}\<rparr>\<rparr>"

lemma example_boots: "\<exists>st'. setup_arch example_arch example_boot = Some st'"
proof -
  have mask: "PMD_MASK = 0xFFC00000" by (simp add: PMD_MASK_def PGDIR_SHIFT_def push_bit_eq_mult)
  have zero: "word_view (\<lambda>_. 0) = (\<lambda>_. 0)" by (simp add: word_view_def load_le_def fun_eq_iff upt_rec)
  have page: "\<exists>m'. setup_zero_page 0xC0250000 m = Some m'" for m
    using memset_range [of "0xC0250000" PAGE_BYTES 0 m] by (simp add: setup_zero_page_def PAGE_BYTES_def)
  obtain m' where m': "setup_zero_page 0xC0250000 (\<lambda>_. 0) = Some m'" using page by blast
  show ?thesis
    by (simp add: setup_arch_def setup_command_line_def parse_early_param_def setup_bootmem_def paging_init_def Let_def
        example_arch_def example_boot_def boot_start_def early_mem_def mask zero empty_directory m')
qed

theorem setup_arch_boots_witness:
  "\<exists>st'. setup_arch example_arch example_boot = Some st' \<and> command_line st' = ''ro mem=16M''
    \<and> pfn_valid (layout (boot st')) (phys_to_pfn 0x80FFF000) \<and> \<not> pfn_valid (layout (boot st')) (phys_to_pfn 0x81000000)"
proof -
  obtain st' where st': "setup_arch example_arch example_boot = Some st'" using example_boots by blast
  have ok: "strings_ok example_arch" by (simp add: strings_ok_def example_arch_def)
  have mask: "PMD_MASK = 0xFFC00000" by (simp add: PMD_MASK_def PGDIR_SHIFT_def push_bit_eq_mult)
  have line: "kernel_line example_arch example_boot = ''ro mem=16M''"
    by (simp add: kernel_line_def example_arch_def example_boot_def)
  have stop: "memory_end example_arch example_boot 0x4000000 = 0x1000000"
    by (simp add: memory_end_def line mem_limit_def Let_def mask) (simp add: example_arch_def)
  show ?thesis
    using setup_arch_boots [OF st' ok, of 0 "0x80000000" "0x4000000" "0x80FFF000"]
      setup_arch_boots [OF st' ok, of 0 "0x80000000" "0x4000000" "0x81000000"] st' line stop
    by (simp add: example_arch_def example_boot_def boot_start_def)
qed

end
