(* ===== verification/ConfigWindows.thy ===== *)
theory ConfigWindows
  imports ConfigScan
begin

text \<open>
  The part of the configuration that belongs to a device: the walk of \<^verbatim>\<open>parse_config_string\<close>
  gives each device a start and an end, and both lie in the text, as an instance of \<open>walk_order\<close>; and
  the start is the place where a block begins, a later one for each device, as an instance of
  \<open>walk_blocks\<close>.
\<close>

section \<open>Windows\<close>

text \<open>
  A window is the rest of the text from its start and the length of the rest at its end. While the
  walk runs, the windows of the devices started so far began before the current position, and none
  ends before it.
\<close>

definition window_in :: "string \<Rightarrow> archdata \<Rightarrow> bool" where
  "window_in text a \<longleftrightarrow> (\<exists>s n. config_start a = Some s \<and> config_end a = Some n \<and> suffix s text \<and> n \<le> length s)"

definition open_window :: "string \<Rightarrow> string \<Rightarrow> archdata \<Rightarrow> bool" where
  "open_window text pos a \<longleftrightarrow> (\<exists>s n. config_start a = Some s \<and> config_end a = Some n \<and> suffix s text
     \<and> suffix pos s \<and> length pos \<le> n \<and> n \<le> length s)"

definition arch :: "world \<Rightarrow> nat \<Rightarrow> archdata" where
  "arch w k = dev_archdata (device_buf w ! k)"

definition windows_ok :: "string \<Rightarrow> world \<Rightarrow> bool" where
  "windows_ok text w \<longleftrightarrow> suffix (config w) text \<and> (pass w \<ge> HAVE_DEVICES \<longrightarrow>
     (\<forall>k < devices w. k < length (device_buf w) \<longrightarrow> open_window text (config w) (arch w k)))"

definition keeps_windows :: "world \<Rightarrow> world \<Rightarrow> bool" where
  "keeps_windows w v \<longleftrightarrow> (\<forall>text. windows_ok text w \<longrightarrow> windows_ok text v)"

section \<open>The operations\<close>

lemma open_window_mono: "open_window text pos a \<Longrightarrow> suffix pos' pos \<Longrightarrow> open_window text pos' a"
  unfolding open_window_def by (meson le_trans suffix_length_le suffix_order.order_trans)

lemma windows_kept:
  assumes "pass v = pass w" "suffix (config v) (config w)" "devices v = devices w"
    and "length (device_buf v) = length (device_buf w)" "\<And>k. arch v k = arch w k"
  shows "keeps_windows w v"
  using assms open_window_mono unfolding keeps_windows_def windows_ok_def
  by (metis suffix_order.order_trans)

lemma keeps_trans: "keeps_windows u v \<Longrightarrow> keeps_windows v w \<Longrightarrow> keeps_windows u w"
  by (simp add: keeps_windows_def)

lemma keeps_refl: "keeps_windows w w"
  by (simp add: keeps_windows_def)

text \<open>Operations that leave the position and the windows alone.\<close>

definition same_windows :: "world \<Rightarrow> world \<Rightarrow> bool" where
  "same_windows w v \<longleftrightarrow> pass v = pass w \<and> config v = config w \<and> devices v = devices w
     \<and> length (device_buf v) = length (device_buf w) \<and> arch v = arch w"

lemma same_windows_refl [simp, intro]: "same_windows w w"
  by (simp add: same_windows_def)

lemma same_windows_trans: "same_windows w v \<Longrightarrow> same_windows v u \<Longrightarrow> same_windows w u"
  by (simp add: same_windows_def)

lemma same_keeps: "same_windows w v \<Longrightarrow> keeps_windows w v"
  by (rule windows_kept) (simp_all add: same_windows_def)

lemma same_update:
  assumes "\<And>dev. dev_archdata (f dev) = dev_archdata dev"
  shows "same_windows w (update_device d f w)"
  using assms by (simp add: same_windows_def arch_def update_device_def nth_update fun_eq_iff)

lemma same_names: "same_windows w (w\<lparr>names := n, names_buf := b\<rparr>)" "same_windows w (w\<lparr>names := n\<rparr>)"
  "same_windows w (w\<lparr>names_buf := b\<rparr>)" "same_windows w (w\<lparr>resource_buf := l\<rparr>)"
  by (simp_all add: same_windows_def arch_def fun_eq_iff)

lemma same_path: "config_path parents w = Inr (name, v) \<Longrightarrow> same_windows w v"
  using config_path_shape same_names(1) by blast

lemma same_override: "same_windows w (case target of None \<Rightarrow> w
    | Some d \<Rightarrow> update_device d (\<lambda>dev. dev\<lparr>driver_override := Some (names w)\<rparr>) w)"
  by (auto split: option.split intro: same_windows_refl same_update)

lemma same_interface: "parse_interface target w = Inr v \<Longrightarrow> same_windows w v"
proof -
  assume run: "parse_interface target w = Inr v"
  let ?u = "case target of None \<Rightarrow> w
      | Some d \<Rightarrow> update_device d (\<lambda>dev. dev\<lparr>driver_override := Some (names w)\<rparr>) w"
  obtain n written x where "names_put (names ?u) written ?u = Inr x" and v: "v = x\<lparr>names := names x + n\<rparr>"
    using run by (auto simp: parse_interface_def Let_def split: prod.splits)
  then obtain b where x: "x = ?u\<lparr>names_buf := b\<rparr>" using names_put_shape by blast
  have "same_windows w ?u" by (rule same_override)
  moreover have "same_windows ?u x" unfolding x by (rule same_names(3))
  moreover have "same_windows x v" unfolding v by (rule same_names(2))
  ultimately show "same_windows w v" by (rule same_windows_trans [OF same_windows_trans])
qed

lemma same_count: "same_windows w (update_device d (\<lambda>dev. dev\<lparr>num_resources := num_resources dev + 1\<rparr>) w)"
  by (rule same_update) simp

lemma same_add_resource: "add_resource d name flags start stop w = Inr v \<Longrightarrow> same_windows w v"
  using same_count [of w d] same_windows_trans [OF same_names(4) same_count]
  by (auto simp: add_resource_def Let_def split: option.splits if_splits)

lemma same_range: "parse_range E parents flags target w = Inr v \<Longrightarrow> same_windows w v"
  by (auto simp: parse_range_def split: prod.splits if_splits option.splits list.splits
      intro: same_windows_trans [OF same_path same_add_resource])

lemma same_single: "parse_single E parents flags target w = Inr v \<Longrightarrow> same_windows w v"
  by (auto simp: parse_single_def split: prod.splits if_splits option.splits list.splits
      intro: same_windows_trans [OF same_path same_add_resource])

lemma keeps_skip: "(\<And>s. suffix (skip s) s) \<Longrightarrow> keeps_windows w (skip_config skip w)"
  by (rule windows_kept) (simp_all add: skip_config_def arch_def)

lemmas keeps_skips = keeps_skip [OF ws.skip_suffix] keeps_skip [OF skip_if_suffix]
  keeps_skip [OF nl.skip_tl_suffix] keeps_skip [OF str.skip_tl_suffix] keeps_skip [OF key.skip_tl_suffix]

lemma keeps_quoted: "quoted_value iface target w = Inr v \<Longrightarrow> keeps_windows w v"
  by (auto simp: quoted_value_def split: if_splits
      intro: keeps_skips keeps_trans [OF same_keeps [OF same_interface] keeps_skips(4)])

lemma same_if: "(if b then r else Inr w) = Inr v \<Longrightarrow> (b \<Longrightarrow> r = Inr v \<Longrightarrow> same_windows w v) \<Longrightarrow> same_windows w v"
  by (auto split: if_splits)

lemma keeps_plain:
  assumes "plain_value E iface parents pflags flags target w = Inr v"
  shows "keeps_windows w v"
proof -
  obtain x y z where x: "(if iface then parse_interface target w else Inr w) = Inr x"
    and y: "(if pflags \<noteq> No_flags then parse_range E parents pflags target x else Inr x) = Inr y"
    and z: "(if flags \<noteq> No_flags then parse_single E parents flags target y else Inr y) = Inr z"
    and v: "v = skip_config (\<lambda>s. skip_key (tl s)) z"
    using assms by (auto simp: plain_value_def)
  have "same_windows w x" using x by (rule same_if) (rule same_interface)
  moreover have "same_windows x y" using y by (rule same_if) (rule same_range)
  moreover have "same_windows y z" using z by (rule same_if) (rule same_single)
  ultimately have "keeps_windows w z" by (blast intro: same_keeps same_windows_trans)
  then show ?thesis unfolding v by (rule keeps_trans) (rule keeps_skips)
qed

text \<open>The end of the last entry is not before the text that is scanned next.\<close>

lemma ws_nl_suffix: "suffix (skip_whitespace s) (skip_newline s)"
  by (induction s) (auto intro: ws.skip_suffix suffix_order.order_trans [OF ws.skip_suffix])

lemma arch_update: "arch (update_device d f w) k =
    (if k = d \<and> d < length (device_buf w) then dev_archdata (f (device_buf w ! d)) else arch w k)"
  by (simp add: arch_def update_device_def nth_update)

lemma arch_fields [simp]:
  "arch (w\<lparr>config := s\<rparr>) = arch w" "arch (w\<lparr>roots := n\<rparr>) = arch w" "arch (w\<lparr>devices := n\<rparr>) = arch w"
  "arch (w\<lparr>key_start := s\<rparr>) = arch w" "arch (w\<lparr>key_end := s\<rparr>) = arch w" "arch (w\<lparr>roots_buf := b\<rparr>) = arch w"
  "arch (skip_config skip w) = arch w"
  by (simp_all add: arch_def fun_eq_iff skip_config_def)

lemma open_window_close:
  assumes "open_window text pos a" and "suffix s t" "suffix t pos"
  shows "open_window text s (a\<lparr>config_end := Some (length t)\<rparr>)"
  using assms unfolding open_window_def
  by (auto intro: suffix_length_le suffix_order.order_trans)

lemma keeps_close:
  assumes st: "suffix s t" "suffix t (config w)"
    and f: "\<And>dev. dev_archdata (f dev) = (dev_archdata dev)\<lparr>config_end := Some (length t)\<rparr>"
  shows "keeps_windows w ((update_device d f w)\<lparr>config := s\<rparr>)"
proof -
  have s: "suffix s (config w)" using st by (rule suffix_order.order_trans)
  have "windows_ok full ((update_device d f w)\<lparr>config := s\<rparr>)" if ok: "windows_ok full w" for full
  proof -
    have "open_window full s (arch (update_device d f w) k)"
      if "k < devices w" "k < length (device_buf w)" "pass w \<ge> HAVE_DEVICES" for k
    proof -
      have k: "open_window full (config w) (arch w k)" using ok that by (simp add: windows_ok_def)
      show ?thesis
        using open_window_close [OF k st] open_window_mono [OF k s]
        by (auto simp: arch_update f) (simp_all add: arch_def)
    qed
    then show ?thesis using ok s by (auto simp: windows_ok_def intro: suffix_order.order_trans)
  qed
  then show ?thesis by (simp add: keeps_windows_def)
qed

lemma keeps_end_entry: "keeps_windows w (end_entry i target w)"
proof -
  let ?w = "skip_config (skip_if CHR '';'') w"
  have w: "keeps_windows w ?w" by (rule keeps_skips)
  have close: "keeps_windows ?w ((update_device d (\<lambda>dev. dev\<lparr>dev_archdata :=
      (dev_archdata dev)\<lparr>config_end := Some (length (skip_newline (config ?w)))\<rparr>\<rparr>) ?w)
        \<lparr>config := skip_whitespace (config ?w)\<rparr>)" for d
    by (rule keeps_close [OF ws_nl_suffix nl.skip_suffix]) simp
  have "keeps_windows ?w (skip_config skip_whitespace ?w)" by (rule keeps_skips)
  then show ?thesis
    using keeps_trans [OF w close] keeps_trans [OF w]
    by (auto simp: end_entry_def Let_def skip_config_def split: option.split)
qed

lemma keeps_key: "keeps_windows w (mark_root i (scan_key w))"
  by (rule windows_kept) (simp_all add: mark_root_def scan_key_def key.skip_suffix)

text \<open>A device that is started: its window is the whole rest of the text.\<close>

lemma keeps_start:
  assumes "start_device parents w = Inr v" and "pass w \<ge> HAVE_DEVICES"
  shows "keeps_windows w (v\<lparr>devices := devices v + 1\<rparr>)"
proof -
  obtain name x where x: "config_path parents w = Inr (name, x)"
    and v: "v = update_device (devices w) (\<lambda>dev. dev\<lparr>dev_name := name, dev_id := - 1, num_resources := 0,
      dev_archdata := \<lparr>config_start = Some (config x), config_end = Some (length (config x))\<rparr>\<rparr>) x"
    using assms(1) by (auto simp: start_device_def Let_def split: if_splits)
  note same = same_path [OF x, unfolded same_windows_def]
  have "windows_ok full (v\<lparr>devices := devices v + 1\<rparr>)" if ok: "windows_ok full w" for full
  proof -
    have "open_window full (config w) (arch v k)" if "k < devices w + 1" "k < length (device_buf w)" for k
    proof (cases "k = devices w")
      case True
      then show ?thesis using same ok that by (simp add: v arch_update open_window_def windows_ok_def)
    next
      case False
      then show ?thesis using same ok that assms(2) by (simp add: v arch_update windows_ok_def)
    qed
    then show ?thesis using same ok by (simp add: windows_ok_def v)
  qed
  then show ?thesis by (simp add: keeps_windows_def)
qed

lemma keeps_enter:
  assumes "enter parents target w = Inr (parents', target', v)"
  shows "keeps_windows w v"
proof -
  let ?w = "w\<lparr>roots := roots w + 1\<rparr>"
  have w: "keeps_windows w ?w" by (rule windows_kept) simp_all
  consider (plain) "v = ?w"
    | (device) x where "start_device parents ?w = Inr x" "v = x\<lparr>devices := devices x + 1\<rparr>" "pass w \<ge> HAVE_DEVICES"
    | (mark) "v = ?w\<lparr>devices := devices w + 1\<rparr>" "\<not> pass w \<ge> HAVE_DEVICES"
    using assms by (auto simp: enter_def Let_def split: if_splits)
  then show ?thesis
  proof cases
    case (device x)
    then have "keeps_windows ?w v" using keeps_start by simp
    then show ?thesis using w by (blast intro: keeps_trans)
  qed (use w in \<open>simp_all add: keeps_windows_def windows_ok_def\<close>)
qed

interpretation windows: walk_order keeps_windows
  by (unfold_locales; (rule keeps_refl | erule (1) keeps_trans | erule keeps_enter | rule keeps_key
      | rule keeps_skips | rule keeps_end_entry | erule keeps_quoted | erule keeps_plain))

section \<open>Places\<close>

text \<open>
  Where a block begins: at the start of the text, or behind its opening brace and the white space up
  to the next line. The devices that a walk has started begin where blocks do, each behind the one
  before, and at the start of the text only if the outermost block is marked as a device.
\<close>

definition block_start :: "string \<Rightarrow> string \<Rightarrow> bool" where
  "block_start text s \<longleftrightarrow> s = text \<or> (\<exists>body. suffix (CHR ''{'' # body) text \<and> s = skip_newline body)"

definition places_ok :: "string \<Rightarrow> world \<Rightarrow> bool" where
  "places_ok text w \<longleftrightarrow> windows_ok text w \<and> (pass w \<ge> HAVE_DEVICES \<longrightarrow>
     (\<forall>k < devices w. k < length (device_buf w) \<longrightarrow>
       (\<exists>s. config_start (arch w k) = Some s \<and> block_start text s \<and> (s = text \<longrightarrow> roots_buf w ! 0)
         \<and> (\<forall>j < k. \<exists>s'. config_start (arch w j) = Some s' \<and> length s < length s'))))"

text \<open>At the beginning of a block, behind all that was started.\<close>

definition behind_all :: "string \<Rightarrow> world \<Rightarrow> bool" where
  "behind_all text w \<longleftrightarrow> places_ok text w \<and> block_start text (config w) \<and> (pass w \<ge> HAVE_DEVICES \<longrightarrow>
     (\<forall>k < devices w. k < length (device_buf w) \<longrightarrow>
       (\<exists>s. config_start (arch w k) = Some s \<and> length (config w) < length s)))"

definition at_block :: "string \<Rightarrow> world \<Rightarrow> bool" where
  "at_block text w \<longleftrightarrow> behind_all text w \<and> (config w = text \<longrightarrow> roots w = 0)"

definition keeps_places :: "world \<Rightarrow> world \<Rightarrow> bool" where
  "keeps_places w v \<longleftrightarrow> (\<forall>text. places_ok text w \<longrightarrow> places_ok text v)"

definition opens_places :: "world \<Rightarrow> world \<Rightarrow> bool" where
  "opens_places w v \<longleftrightarrow> (\<forall>text. at_block text w \<longrightarrow> places_ok text v)"

text \<open>Nearly all operations leave the starts alone.\<close>

definition same_starts :: "world \<Rightarrow> world \<Rightarrow> bool" where
  "same_starts w v \<longleftrightarrow> pass v = pass w \<and> devices v = devices w \<and> length (device_buf v) = length (device_buf w)
     \<and> (\<forall>k. config_start (arch v k) = config_start (arch w k))"

lemma same_windows_starts: "same_windows w v \<Longrightarrow> same_starts w v"
  by (simp add: same_windows_def same_starts_def)

lemma same_starts_trans: "same_starts u v \<Longrightarrow> same_starts v w \<Longrightarrow> same_starts u w"
  by (simp add: same_starts_def)

lemma keeps_placesI: "keeps_windows w v \<Longrightarrow> same_starts w v \<Longrightarrow> later w v \<Longrightarrow> keeps_places w v"
  unfolding keeps_places_def keeps_windows_def places_ok_def same_starts_def later_def by fastforce

lemma starts_skip: "same_starts w (skip_config skip w)"
  by (simp add: same_starts_def)

lemma starts_key: "same_starts w (mark_root i (scan_key w))"
  by (simp add: same_starts_def mark_root_def scan_key_def arch_def)

lemma starts_end_entry: "same_starts w (end_entry i target w)"
  by (auto simp: same_starts_def end_entry_def Let_def arch_update split: option.split) (simp_all add: arch_def)

lemma starts_quoted: "quoted_value iface target w = Inr v \<Longrightarrow> same_starts w v"
  by (auto simp: quoted_value_def split: if_splits
      intro: starts_skip same_starts_trans [OF same_windows_starts [OF same_interface] starts_skip])

lemma starts_plain:
  assumes "plain_value E iface parents pflags flags target w = Inr v"
  shows "same_starts w v"
proof -
  obtain x y z where x: "(if iface then parse_interface target w else Inr w) = Inr x"
    and y: "(if pflags \<noteq> No_flags then parse_range E parents pflags target x else Inr x) = Inr y"
    and z: "(if flags \<noteq> No_flags then parse_single E parents flags target y else Inr y) = Inr z"
    and v: "v = skip_config (\<lambda>s. skip_key (tl s)) z"
    using assms by (auto simp: plain_value_def)
  have "same_windows w x" using x by (rule same_if) (rule same_interface)
  moreover have "same_windows x y" using y by (rule same_if) (rule same_range)
  moreover have "same_windows y z" using z by (rule same_if) (rule same_single)
  ultimately have "same_starts w z" by (blast intro: same_windows_starts same_windows_trans)
  then show ?thesis unfolding v by (rule same_starts_trans) (rule starts_skip)
qed

text \<open>A device that is started at the beginning of a block.\<close>

lemma opens_start:
  assumes "start_device parents w = Inr v" and "pass w \<ge> HAVE_DEVICES" and ok: "behind_all text w"
    and root: "config w = text \<Longrightarrow> roots_buf w ! 0"
  shows "places_ok text (v\<lparr>devices := devices v + 1\<rparr>)"
proof -
  obtain name x where x: "config_path parents w = Inr (name, x)"
    and v: "v = update_device (devices w) (\<lambda>dev. dev\<lparr>dev_name := name, dev_id := - 1, num_resources := 0,
      dev_archdata := \<lparr>config_start = Some (config x), config_end = Some (length (config x))\<rparr>\<rparr>) x"
    using assms(1) by (auto simp: start_device_def Let_def split: if_splits)
  note same = same_path [OF x, unfolded same_windows_def]
  have marks: "roots_buf v = roots_buf w" using config_path_shape [OF x] by (auto simp: v)
  let ?v = "v\<lparr>devices := devices v + 1\<rparr>"
  have "windows_ok text ?v"
    using keeps_start [OF assms(1,2)] ok by (simp add: keeps_windows_def behind_all_def places_ok_def)
  moreover have "config_start (arch v k) = (if k = devices w \<and> k < length (device_buf w) then Some (config w) else config_start (arch w k))" for k
    using same by (simp add: v arch_update)
  then have "\<exists>s. config_start (arch v k) = Some s \<and> block_start text s \<and> (s = text \<longrightarrow> roots_buf w ! 0)
      \<and> (\<forall>j < k. \<exists>s'. config_start (arch v j) = Some s' \<and> length s < length s')"
    if "k < devices w + 1" "k < length (device_buf w)" for k
    using ok that assms(2) root unfolding behind_all_def places_ok_def by (cases "k = devices w") auto
  ultimately show ?thesis using same assms(2) marks by (simp add: places_ok_def) (simp add: v)
qed

lemma enter_opens:
  assumes "enter parents target w = Inr (parents', target', v)"
  shows "opens_places w v"
proof -
  let ?w = "w\<lparr>roots := roots w + 1\<rparr>"
  have w: "behind_all full ?w = behind_all full w" "places_ok full ?w = places_ok full w" for full
    by (simp_all add: behind_all_def places_ok_def windows_ok_def)
  consider (plain) "v = ?w"
    | (device) x where "start_device parents ?w = Inr x" "v = x\<lparr>devices := devices x + 1\<rparr>" "pass w \<ge> HAVE_DEVICES"
        "roots_buf w ! roots w"
    | (mark) "v = ?w\<lparr>devices := devices w + 1\<rparr>" "\<not> pass w \<ge> HAVE_DEVICES"
    using assms by (auto simp: enter_def Let_def split: if_splits)
  then show ?thesis
  proof cases
    case plain
    then show ?thesis using w by (simp add: opens_places_def at_block_def behind_all_def)
  next
    case (device x)
    then show ?thesis using opens_start [of parents ?w x] w by (auto simp: opens_places_def at_block_def)
  next
    case mark
    then show ?thesis by (simp add: opens_places_def at_block_def behind_all_def places_ok_def windows_ok_def)
  qed
qed

text \<open>The brace puts what follows behind all the starts.\<close>

lemma brace_opens:
  assumes "deref (config w) = CHR ''{''" and ok: "places_ok text w"
  shows "at_block text (skip_config (\<lambda>s. skip_newline (tl s)) w)"
proof -
  have "config w = CHR ''{'' # tl (config w)" by (rule deref_tl [OF assms(1)]) simp
  then obtain body where s: "config w = CHR ''{'' # body" by blast
  have suf: "suffix (CHR ''{'' # body) text" using ok s by (simp add: places_ok_def windows_ok_def)
  have next_pos: "config (skip_config (\<lambda>s. skip_newline (tl s)) w) = skip_newline body" by (simp add: s)
  have less: "length (skip_newline body) < length (config w)" using nl.skip_length [of body] by (simp add: s)
  have far: "\<exists>s. config_start (arch w k) = Some s \<and> length (skip_newline body) < length s"
    if k: "k < devices w" "k < length (device_buf w)" "pass w \<ge> HAVE_DEVICES" for k
  proof -
    have "open_window text (config w) (arch w k)" using ok k by (simp add: places_ok_def windows_ok_def)
    then obtain s' where s': "config_start (arch w k) = Some s'" "suffix (config w) s'"
      unfolding open_window_def by blast
    then show ?thesis using less suffix_length_le [OF s'(2)] by auto
  qed
  have "places_ok text (skip_config (\<lambda>s. skip_newline (tl s)) w)"
    using keeps_placesI [OF keeps_skips(3) starts_skip later_skips(3)] ok by (auto simp: keeps_places_def)
  moreover have "block_start text (skip_newline body)" unfolding block_start_def using suf by blast
  moreover have "skip_newline body \<noteq> text" using less suffix_length_le [OF suf] by (auto simp: s)
  ultimately show ?thesis using far unfolding at_block_def behind_all_def next_pos by simp
qed

interpretation places: walk_blocks keeps_places opens_places
proof
  show "keeps_places w v" if "deref (config w) = CHR ''{''" "opens_places (skip_config (\<lambda>s. skip_newline (tl s)) w) v" for w v
    using that brace_opens by (simp add: keeps_places_def opens_places_def)
  show "keeps_places w (mark_root i (scan_key w))" for w i by (rule keeps_placesI [OF keeps_key starts_key later_trans [OF later_scan_key later_mark_root]])
  show "keeps_places w (skip_config skip_whitespace w)" "keeps_places w (skip_config (skip_if c) w)" for w c
    by (rule keeps_placesI [OF _ starts_skip], rule keeps_skips, rule later_skips)+
  show "keeps_places w (end_entry i target w)" for w i target by (rule keeps_placesI [OF keeps_end_entry starts_end_entry later_end_entry])
  show "keeps_places w v" if "quoted_value iface target w = Inr v" for w v iface target
    using that by (intro keeps_placesI keeps_quoted starts_quoted later_quoted_value)
  show "keeps_places w v" if "plain_value E iface parents pflags flags target w = Inr v"
    for w v E iface parents pflags flags target
    using that by (intro keeps_placesI keeps_plain starts_plain later_plain_value)
qed (use enter_opens in \<open>auto simp: keeps_places_def opens_places_def\<close>)

section \<open>The devices that are found\<close>

lemma walk_windows:
  assumes "walk E (begin_pass p text marks devs res nms) = Inr v" and "p \<ge> HAVE_DEVICES"
    and k: "k < devices v" "k < length (device_buf v)"
  shows "window_in text (arch v k)"
proof -
  let ?w = "begin_pass p text marks devs res nms"
  have "later ?w v" using assms(1) unfolding walk_def by (rule later.block_run)
  then have "pass v = p" by (simp add: later_def begin_pass_def)
  moreover have "keeps_windows ?w v" using assms(1) unfolding walk_def by (rule windows.block_run)
  moreover have "windows_ok text ?w" by (simp add: windows_ok_def begin_pass_def)
  ultimately have "open_window text (config v) (arch v k)"
    using k assms(2) by (auto simp: keeps_windows_def windows_ok_def)
  then show ?thesis by (auto simp: open_window_def window_in_def)
qed

lemma found_windows:
  fixes v :: world
  assumes "config_find_devices E alloc res0 ch0 text = Inr v" and "k < devices v" "k < length (device_buf v)"
  shows "window_in text (dev_archdata (device_buf v ! k))"
  using assms walk_windows [where E = E and p = 2 and v = v and k = k]
  by (auto simp: config_find_devices_def Let_def HAVE_DEVICES_def arch_def split: if_splits)

text \<open>The devices begin where blocks do, in the order of the text.\<close>

lemma walk_places:
  assumes "walk E (begin_pass p text marks devs res nms) = Inr v" and "p \<ge> HAVE_DEVICES"
  shows "places_ok text v" and "pass v = p"
proof -
  let ?w = "begin_pass p text marks devs res nms"
  have "later ?w v" using assms(1) unfolding walk_def by (rule later.block_run)
  then show "pass v = p" by (simp add: later_def begin_pass_def)
  have "opens_places ?w v" using assms(1) unfolding walk_def by (rule places.block_run)
  moreover have "at_block text ?w"
    by (simp add: at_block_def behind_all_def places_ok_def windows_ok_def block_start_def begin_pass_def)
  ultimately show "places_ok text v" by (simp add: opens_places_def)
qed

lemma found_places:
  fixes v :: world
  assumes "config_find_devices E alloc res0 ch0 text = Inr v" and "k < devices v" "k < length (device_buf v)"
  shows "\<exists>s. config_start (dev_archdata (device_buf v ! k)) = Some s \<and> block_start text s
    \<and> (s = text \<longrightarrow> roots_buf v ! 0)
    \<and> (\<forall>j < k. \<exists>s'. config_start (dev_archdata (device_buf v ! j)) = Some s' \<and> length s < length s')"
  using assms walk_places [where E = E and p = 2 and v = v]
  by (auto simp: config_find_devices_def Let_def HAVE_DEVICES_def arch_def places_ok_def split: if_splits)

end
