(* ===== verification/ConfigDriver.thy ===== *)
theory ConfigDriver
  imports ConfigWindows
begin

text \<open>
  The driver of the configuration string: \<^verbatim>\<open>kernel/platform.c\<close>, which makes the one device that
  does not come from the string, and the platform driver of \<^verbatim>\<open>drivers/config.c\<close> (lines 17-43,
  the loop that registers the devices, and lines 606-649).

  A device that was found is named by its byte offset in the block that \<^verbatim>\<open>config_find_devices\<close>
  allocates; the calls of the driver core and of sysfs are events in the order they are made.
\<close>

section \<open>The device of the platform\<close>

record plat_resource =
  plat_flags :: resource_flags
  plat_start :: u64
  plat_end :: u64

definition riscv_platform_init :: "u32 \<Rightarrow> u32 \<Rightarrow> plat_resource" where
  "riscv_platform_init rom_base rom_size =
    \<lparr>plat_flags = IORESOURCE_MEM, plat_start = ucast rom_base, plat_end = ucast (rom_base + rom_size - 1)\<rparr>"

section \<open>The attribute\<close>

text \<open>The device whose file it is: that of the platform, or one in the block.\<close>

datatype owner = Platform | At nat

datatype bus_event =
    Register owner
  | Unregister owner
  | Create_file owner u32
  | Warn owner
  | Kfree

text \<open>
  The end of the pointer arithmetic is the window of \<^verbatim>\<open>archdata\<close>: the bytes of the rest of
  the text at its start, less those behind its end.
\<close>

definition window_size :: "string \<Rightarrow> nat \<Rightarrow> u32" where
  "window_size s e = of_nat (length s) - of_nat e"

definition enable_config_attribute :: "(owner \<Rightarrow> u32 \<Rightarrow> int) \<Rightarrow> owner \<Rightarrow> archdata \<Rightarrow> bus_event list" where
  "enable_config_attribute create_file pdev a =
    (case (config_end a, config_start a) of
       (Some e, Some s) \<Rightarrow>
         Create_file pdev (window_size s e)
           # (if create_file pdev (window_size s e) \<noteq> 0 then [Warn pdev] else [])
     | _ \<Rightarrow> [])"

text \<open>\<^verbatim>\<open>config_read\<close>: the bytes it copies and its result, \<open>None\<close> when it reads behind the text.\<close>

definition config_read :: "archdata \<Rightarrow> nat \<Rightarrow> nat \<Rightarrow> (string \<times> nat) option" where
  "config_read a off count =
    (case config_start a of
       None \<Rightarrow> None
     | Some s \<Rightarrow> if off + count \<le> length s then Some (take count (drop off s), count) else None)"

section \<open>Probe and removal\<close>

text \<open>
  What the driver calls: the driver core, the mapping of the device, sysfs and the allocator, with
  the sizes of the C types that make up the layout of the block.
\<close>

record core =
  platform_get_resource :: "plat_resource list \<Rightarrow> resource_flags \<Rightarrow> nat \<Rightarrow> plat_resource option"
  devm_ioremap_resource :: "plat_resource \<Rightarrow> int + string"
  resource_size :: "plat_resource \<Rightarrow> u64"
  sysfs_create_bin_file :: "owner \<Rightarrow> u32 \<Rightarrow> int"
  kzalloc_ok :: "nat \<Rightarrow> bool"
  sizeof_device :: nat
  sizeof_resource :: nat
  page_size :: nat

record config_device =
  pdev_archdata :: archdata
  pdev_resources :: "plat_resource list"
  drvdata :: "u32 option"

definition ENOENT :: int where "ENOENT = 2"

text \<open>The string ends at its null terminator.\<close>

definition c_string :: "string \<Rightarrow> string" where
  "c_string mem = takeWhile (\<lambda>c. c \<noteq> NUL) mem"

text \<open>The loop at the end of \<^verbatim>\<open>config_find_devices\<close>.\<close>

definition register_device :: "core \<Rightarrow> nat \<Rightarrow> device \<Rightarrow> bus_event list" where
  "register_device c addr dev =
    Register (At addr) # enable_config_attribute (sysfs_create_bin_file c) (At addr) (dev_archdata dev)"

fun register_devices :: "core \<Rightarrow> nat \<Rightarrow> device list \<Rightarrow> bus_event list" where
  "register_devices c addr [] = []"
| "register_devices c addr (dev # devs) =
    register_device c addr dev @ register_devices c (addr + sizeof_device c) devs"

definition off_devices :: "core \<Rightarrow> nat" where
  "off_devices c = fst (block_layout (sizeof_device c) (sizeof_resource c) (page_size c) 0 0 0)"

text \<open>
  \<^verbatim>\<open>config_string_probe\<close>: its result, the device, the events and, when it has parsed the string,
  what it found. The data of the driver is the block, of which the removal reads the count.
\<close>

definition config_string_probe ::
    "math_env \<Rightarrow> core \<Rightarrow> resource \<Rightarrow> char \<Rightarrow> config_device
      \<Rightarrow> (int \<times> config_device \<times> bus_event list \<times> world option) result" where
  "config_string_probe E c res0 ch0 pdev =
    (case platform_get_resource c (pdev_resources pdev) IORESOURCE_MEM 0 of
       None \<Rightarrow> Inr (- ENOENT, pdev, [], None)
     | Some res \<Rightarrow>
         (case devm_ioremap_resource c res of
            Inl _ \<Rightarrow> Inr (- ENOENT, pdev, [], None)
          | Inr mem \<Rightarrow>
              (let pdev = pdev\<lparr>pdev_archdata := \<lparr>config_start = Some mem,
                     config_end = Some (length mem + 1 - unat (resource_size c res))\<rparr>\<rparr>;
                   evs = enable_config_attribute (sysfs_create_bin_file c) Platform (pdev_archdata pdev)
               in bind_res (config_find_devices E (kzalloc_ok c) res0 ch0 (c_string mem)) (\<lambda>w.
                 Inr (0, pdev\<lparr>drvdata := Some (of_nat (length (device_buf w)))\<rparr>,
                   evs @ register_devices c (off_devices c) (device_buf w), Some w)))))"

text \<open>The devices start at the second element of the array that the block is taken for.\<close>

fun unregister_devices :: "core \<Rightarrow> nat \<Rightarrow> nat \<Rightarrow> bus_event list" where
  "unregister_devices c addr 0 = []"
| "unregister_devices c addr (Suc n) = Unregister (At addr) # unregister_devices c (addr + sizeof_device c) n"

definition config_string_remove :: "core \<Rightarrow> config_device \<Rightarrow> (int \<times> bus_event list) option" where
  "config_string_remove c pdev =
    (case drvdata pdev of
       None \<Rightarrow> None
     | Some num_devices \<Rightarrow>
         Some (0, unregister_devices c (sizeof_device c) (unat num_devices) @ [Kfree]))"

section \<open>The bus\<close>

text \<open>
  What the driver core expects of its callers: a device is registered once, has a file only while
  it is registered, is unregistered once, and its memory is freed after that and once. The state is
  the set of the registered devices, or \<open>None\<close> when the block is gone.
\<close>

fun bus_step :: "bus_event \<Rightarrow> owner set option \<Rightarrow> owner set option option" where
  "bus_step (Register d) (Some R) = (if d \<in> R then None else Some (Some (insert d R)))"
| "bus_step (Unregister d) (Some R) = (if d \<in> R then Some (Some (R - {d})) else None)"
| "bus_step (Create_file d n) (Some R) = (if d \<in> R then Some (Some R) else None)"
| "bus_step (Warn d) (Some R) = (if d \<in> R then Some (Some R) else None)"
| "bus_step Kfree (Some R) = (if R \<subseteq> {Platform} then Some None else None)"
| "bus_step e None = None"

fun bus :: "bus_event list \<Rightarrow> owner set option \<Rightarrow> owner set option option" where
  "bus [] R = Some R"
| "bus (e # evs) R = (case bus_step e R of None \<Rightarrow> None | Some R' \<Rightarrow> bus evs R')"

lemma bus_append: "bus (evs @ evs') R = (case bus evs R of None \<Rightarrow> None | Some R' \<Rightarrow> bus evs' R')"
  by (induction evs arbitrary: R) (auto split: option.split)

lemma bus_attribute: "d \<in> R \<Longrightarrow> bus (enable_config_attribute create d a) (Some R) = Some (Some R)"
  by (simp add: enable_config_attribute_def split: option.split)

text \<open>The devices of the block, each at its own offset.\<close>

definition slots :: "core \<Rightarrow> nat \<Rightarrow> nat \<Rightarrow> owner set" where
  "slots c addr n = (\<lambda>i. At (addr + i * sizeof_device c)) ` {..< n}"

lemma slots_0 [simp]: "slots c addr 0 = {}"
  by (simp add: slots_def)

lemma slots_Suc: "slots c addr (Suc n) = insert (At addr) (slots c (addr + sizeof_device c) n)"
  unfolding slots_def lessThan_Suc_eq_insert_0 by (simp add: image_image add.assoc)

lemma slots_above: "At a \<in> slots c addr n \<Longrightarrow> addr \<le> a"
  by (auto simp: slots_def)

lemma slot_fresh: "0 < sizeof_device c \<Longrightarrow> At addr \<notin> slots c (addr + sizeof_device c) n"
  using slots_above by fastforce

lemma slots_devices: "Platform \<notin> slots c addr n"
  by (auto simp: slots_def)

lemma bus_register:
  assumes "0 < sizeof_device c" and "R \<inter> slots c addr (length devs) = {}"
  shows "bus (register_devices c addr devs) (Some R) = Some (Some (R \<union> slots c addr (length devs)))"
  using assms(2)
proof (induction devs arbitrary: addr R)
  case (Cons dev devs)
  let ?R = "insert (At addr) R"
  have "bus (register_devices c (addr + sizeof_device c) devs) (Some ?R)
      = Some (Some (?R \<union> slots c (addr + sizeof_device c) (length devs)))"
    using Cons.prems slot_fresh [OF assms(1)] by (intro Cons.IH) (auto simp: slots_Suc)
  then show ?case
    using Cons.prems by (auto simp: slots_Suc register_device_def bus_append bus_attribute)
qed simp

lemma bus_unregister:
  assumes "0 < sizeof_device c" and "slots c addr n \<subseteq> R"
  shows "bus (unregister_devices c addr n) (Some R) = Some (Some (R - slots c addr n))"
  using assms(2)
proof (induction n arbitrary: addr R)
  case (Suc n)
  have "bus (unregister_devices c (addr + sizeof_device c) n) (Some (R - {At addr}))
      = Some (Some (R - {At addr} - slots c (addr + sizeof_device c) n))"
    using Suc.prems slot_fresh [OF assms(1)] by (intro Suc.IH) (auto simp: slots_Suc)
  moreover have "R - {At addr} - slots c (addr + sizeof_device c) n = R - slots c addr (Suc n)"
    by (auto simp: slots_Suc)
  ultimately show ?case using Suc.prems by (simp add: slots_Suc)
qed simp

lemma off_devices_second: "4 \<le> sizeof_device c \<Longrightarrow> off_devices c = sizeof_device c"
proof -
  assume "4 \<le> sizeof_device c"
  then have "div_round_up 4 (sizeof_device c) = 1"
    unfolding div_round_up_def by (intro div_nat_eqI) simp_all
  then show ?thesis by (simp add: off_devices_def block_layout_def Let_def)
qed

section \<open>The life of the devices\<close>

lemma found_count:
  assumes "config_find_devices E alloc res0 ch0 t = Inr w" and "braces t < length t" and "\<forall>n < 3. alloc n"
  shows "length (device_buf w) \<le> length t \<and> devices w = length (device_buf w)"
proof
  obtain s0 where s0: "walk E (begin_pass 0 t (replicate (length t) False) [] [] []) = Inr s0"
    "length (roots_buf s0) = length t"
    using pass0_run [OF assms(2)] by blast
  define n where "n = length (filter (\<lambda>b. b) (take (roots s0) (roots_buf s0)))"
  obtain s1 rb nb where s1: "walk E (begin_pass 1 t (roots_buf s0) (replicate n no_device) [] []) = Inr s1"
    and w: "walk E (begin_pass 2 t (roots_buf s1) (resource_starts (device_buf s1) 0) rb nb) = Inr w"
    using assms(1) s0(1) by (auto simp: config_find_devices_def Let_def n_def split: if_splits)
  have "later (begin_pass 1 t (roots_buf s0) (replicate n no_device) [] []) s1"
    using s1 unfolding walk_def by (rule block_later)
  moreover have "later (begin_pass 2 t (roots_buf s1) (resource_starts (device_buf s1) 0) rb nb) w"
    using w unfolding walk_def by (rule block_later)
  ultimately have "length (device_buf w) = n" by (simp add: later_def begin_pass_def)
  also have "n \<le> length (roots_buf s0)"
    unfolding n_def using length_filter_le [of "\<lambda>b. b" "take (roots s0) (roots_buf s0)"] by simp
  finally show "length (device_buf w) \<le> length t" using s0(2) by simp
  show "devices w = length (device_buf w)"
    using find_devices_outcome [OF assms(2,3), of E res0 ch0] assms(1) by (simp add: devices_built_def)
qed

text \<open>
  What the driver core, the mapping and sysfs promise: the resource found is the first of its kind,
  its size is that between its ends, the mapping gives the bytes at the address, and the files can
  be created or not. The ROM holds a string with its null terminator as the last byte.
\<close>

definition core_ok :: "core \<Rightarrow> (u64 \<Rightarrow> u64 \<Rightarrow> string) \<Rightarrow> bool" where
  "core_ok c rom \<longleftrightarrow>
    (\<forall>rs fl n. platform_get_resource c rs fl n
       = (let found = filter (\<lambda>r. plat_flags r = fl) rs in if n < length found then Some (found ! n) else None))
    \<and> (\<forall>r. resource_size c r = plat_end r - plat_start r + 1)
    \<and> (\<forall>r. devm_ioremap_resource c r = Inr (rom (plat_start r) (resource_size c r)))
    \<and> (\<forall>n < 3. kzalloc_ok c n) \<and> 4 \<le> sizeof_device c"

lemma init_size:
  assumes "0 < n" and "unat a + unat n \<le> 2 ^ 32"
  shows "plat_end (riscv_platform_init a n) - plat_start (riscv_platform_init a n) + 1 = ucast n"
proof -
  have 0: "0 < unat n" using assms(1) by (simp add: word_less_nat_alt)
  have 1: "unat (n - 1) = unat n - 1" using 0 by (simp add: unat_minus_one unat_gt_0)
  have 2: "unat (a + (n - 1)) = unat a + (unat n - 1)"
    using assms 0 1 by (subst unat_add_lem [THEN iffD1]) auto
  have uc: "ucast x = (of_nat (unat x) :: u64)" for x :: u32 by simp
  have "a + n - 1 = a + (n - 1)" by simp
  then have "ucast (a + n - 1) = (of_nat (unat a + (unat n - 1)) :: u64)"
    using 2 by (simp only: uc)
  also have "\<dots> = of_nat (unat a) + (of_nat (unat n) - 1)"
    using 0 by (simp only: of_nat_add of_nat_diff Suc_le_eq One_nat_def [symmetric] of_nat_1)
  finally show ?thesis by (simp only: riscv_platform_init_def plat_resource.simps uc) simp
qed

text \<open>The device of the platform, as \<^verbatim>\<open>riscv_platform_init\<close> leaves it, and the ROM it stands for.\<close>

definition config_string :: "u32 \<Rightarrow> u32 \<Rightarrow> config_device" where
  "config_string rom_base rom_size =
    \<lparr>pdev_archdata = \<lparr>config_start = None, config_end = None\<rparr>,
      pdev_resources = [riscv_platform_init rom_base rom_size], drvdata = None\<rparr>"

definition rom_holds :: "(u64 \<Rightarrow> u64 \<Rightarrow> string) \<Rightarrow> u32 \<Rightarrow> u32 \<Rightarrow> string \<Rightarrow> bool" where
  "rom_holds rom a n t \<longleftrightarrow> 0 < n \<and> unat a + unat n \<le> 2 ^ 32 \<and> rom (ucast a) (ucast n) = t @ [NUL]
    \<and> NUL \<notin> set t \<and> length t + 1 = unat n"

lemma c_string_snoc: "NUL \<notin> set t \<Longrightarrow> c_string (t @ [NUL]) = t"
  unfolding c_string_def by (subst takeWhile_append2) auto

definition probed :: "config_device \<Rightarrow> string \<Rightarrow> config_device" where
  "probed pdev t = pdev\<lparr>pdev_archdata := \<lparr>config_start = Some (t @ [NUL]), config_end = Some 1\<rparr>\<rparr>"

lemma unat_widen: "unat (ucast (n :: u32) :: u64) = unat n"
proof -
  have "unat n < 2 ^ 32" using unsigned_less [of n] by simp
  then show ?thesis by (simp add: unat_ucast_word)
qed

lemma probe_eq:
  assumes "core_ok c rom" and "rom_holds rom a n t"
  shows "config_string_probe E c res0 ch0 (config_string a n)
    = bind_res (config_find_devices E (kzalloc_ok c) res0 ch0 t) (\<lambda>w.
        Inr (0, (probed (config_string a n) t)\<lparr>drvdata := Some (of_nat (length (device_buf w)))\<rparr>,
          enable_config_attribute (sysfs_create_bin_file c) Platform (pdev_archdata (probed (config_string a n) t))
            @ register_devices c (sizeof_device c) (device_buf w), Some w))"
proof -
  let ?r = "riscv_platform_init a n"
  have rom: "rom (ucast a) (ucast n) = t @ [NUL]" "NUL \<notin> set t" "length t + 1 = unat n"
    and n: "0 < n" "unat a + unat n \<le> 2 ^ 32"
    using assms(2) by (simp_all add: rom_holds_def)
  have sz: "resource_size c ?r = ucast n"
    using assms(1) init_size [OF n] unfolding core_ok_def by metis
  have "platform_get_resource c (pdev_resources (config_string a n)) IORESOURCE_MEM 0 = Some ?r"
    using assms(1) by (simp add: core_ok_def config_string_def riscv_platform_init_def Let_def)
  moreover have "devm_ioremap_resource c ?r = Inr (t @ [NUL])"
    using assms(1) rom(1) sz by (simp add: core_ok_def riscv_platform_init_def)
  moreover have "length (t @ [NUL]) + 1 - unat (resource_size c ?r) = 1"
    using rom(3) unat_widen [of n] by (simp add: sz)
  moreover have "off_devices c = sizeof_device c"
    using assms(1) by (simp add: core_ok_def off_devices_second)
  ultimately show ?thesis
    by (simp only: config_string_probe_def option.case sum.case Let_def probed_def c_string_snoc [OF rom(2)])
qed

lemma text_short: "rom_holds rom a n t \<Longrightarrow> length t < 2 ^ 32"
  using unsigned_less [of n] by (simp add: rom_holds_def)

text \<open>
  C21: the driver of the configuration string keeps the rules of the driver core from probe to
  removal: on the device of \<^verbatim>\<open>riscv_platform_init\<close> and a ROM that holds a terminated string with
  fewer opening braces than characters, the probe registers every device once, each with its file
  after that, or fails with the null pointer of \<^verbatim>\<open>parse_range\<close>; the removal unregisters exactly
  these devices, found again behind the count in the block, and then frees the block.
\<close>

theorem config_devices_lifecycle:
  assumes "core_ok c rom" and "rom_holds rom a n t" and "braces t < length t"
  shows "config_string_probe E c res0 ch0 (config_string a n) = Inl Null_deref
    \<or> (\<exists>pdev evs w evs'. config_string_probe E c res0 ch0 (config_string a n) = Inr (0, pdev, evs, Some w)
        \<and> config_string_remove c pdev = Some (0, evs')
        \<and> bus evs (Some {Platform}) = Some (Some (insert Platform (slots c (sizeof_device c) (length (device_buf w)))))
        \<and> bus (evs @ evs') (Some {Platform}) = Some None)"
proof -
  let ?probe = "config_string_probe E c res0 ch0 (config_string a n)" and ?sz = "sizeof_device c"
  have alloc: "\<forall>n < 3. kzalloc_ok c n" and sz: "0 < ?sz" using assms(1) by (auto simp: core_ok_def)
  note probe = probe_eq [OF assms(1,2), of E res0 ch0]
  consider "config_find_devices E (kzalloc_ok c) res0 ch0 t = Inl Null_deref"
    | w where "config_find_devices E (kzalloc_ok c) res0 ch0 t = Inr w"
    using find_devices_outcome [OF assms(3) alloc] by metis
  then show ?thesis
  proof cases
    case (2 w)
    let ?n = "length (device_buf w)"
    let ?attr = "enable_config_attribute (sysfs_create_bin_file c) Platform (pdev_archdata (probed (config_string a n) t))"
    let ?evs = "?attr @ register_devices c ?sz (device_buf w)"
    let ?evs' = "unregister_devices c ?sz ?n @ [Kfree]"
    let ?pdev = "(probed (config_string a n) t)\<lparr>drvdata := Some (of_nat ?n)\<rparr>"
    have p: "?probe = Inr (0, ?pdev, ?evs, Some w)" using 2 by (simp add: probe)
    have "?n < 2 ^ 32" using found_count [OF 2 assms(3) alloc] text_short [OF assms(2)] by simp
    then have r: "config_string_remove c ?pdev = Some (0, ?evs')"
      by (simp add: config_string_remove_def unat_of_nat)
    have b: "bus ?evs (Some {Platform}) = Some (Some (insert Platform (slots c ?sz ?n)))"
      using slots_devices by (simp add: bus_append bus_attribute bus_register [OF sz])
    moreover have "insert Platform (slots c ?sz ?n) - slots c ?sz ?n \<subseteq> {Platform}" by auto
    ultimately have "bus (?evs @ ?evs') (Some {Platform}) = Some None"
      unfolding bus_append [of ?evs] using bus_unregister [OF sz, of ?sz ?n "insert Platform (slots c ?sz ?n)"]
      by (simp add: bus_append subset_insertI)
    then show ?thesis using p r b by blast
  qed (simp add: probe)
qed

text \<open>A ROM on a core that grants everything.\<close>

definition example_core :: "string \<Rightarrow> core" where
  "example_core mem =
    \<lparr>platform_get_resource = (\<lambda>rs fl n. let found = filter (\<lambda>r. plat_flags r = fl) rs in
        if n < length found then Some (found ! n) else None),
      devm_ioremap_resource = (\<lambda>r. Inr mem), resource_size = (\<lambda>r. plat_end r - plat_start r + 1),
      sysfs_create_bin_file = (\<lambda>_ _. 0), kzalloc_ok = (\<lambda>_. True), sizeof_device = 400, sizeof_resource = 28,
      page_size = 4096\<rparr>"

definition example_text :: string where
  "example_text = ''a{interface q;};''"

lemma example_ok: "core_ok (example_core mem) (\<lambda>_ _. mem)"
  by (simp add: core_ok_def example_core_def)

lemma example_holds: "rom_holds (\<lambda>_ _. example_text @ [NUL]) 4096 17 example_text"
  by (simp add: rom_holds_def example_text_def)

theorem config_devices_lifecycle_witness:
  "config_string_probe ref_env (example_core (example_text @ [NUL])) blank_resource NUL (config_string 4096 17)
      = Inl Null_deref
    \<or> (\<exists>pdev evs w evs'.
        config_string_probe ref_env (example_core (example_text @ [NUL])) blank_resource NUL (config_string 4096 17)
          = Inr (0, pdev, evs, Some w)
        \<and> config_string_remove (example_core (example_text @ [NUL])) pdev = Some (0, evs')
        \<and> bus evs (Some {Platform}) = Some (Some (insert Platform
            (slots (example_core (example_text @ [NUL])) (sizeof_device (example_core (example_text @ [NUL])))
              (length (device_buf w)))))
        \<and> bus (evs @ evs') (Some {Platform}) = Some None)"
  by (rule config_devices_lifecycle [OF example_ok example_holds]) (simp add: braces_def example_text_def)

section \<open>What the files show\<close>

definition archdata_of :: "core \<Rightarrow> owner \<Rightarrow> config_device \<Rightarrow> world \<Rightarrow> archdata" where
  "archdata_of c d pdev w =
    (case d of Platform \<Rightarrow> pdev_archdata pdev
     | At addr \<Rightarrow> dev_archdata (device_buf w ! (addr div sizeof_device c - 1)))"

lemma attribute_events:
  "Create_file d n \<in> set (enable_config_attribute create d' a) \<Longrightarrow>
    d = d' \<and> (\<exists>e s. config_end a = Some e \<and> config_start a = Some s \<and> n = window_size s e)"
  by (cases "config_end a"; cases "config_start a") (auto simp: enable_config_attribute_def split: if_splits)

lemma register_events:
  assumes "Create_file d n \<in> set (register_devices c addr devs)"
  shows "\<exists>k < length devs. d = At (addr + k * sizeof_device c) \<and> (\<exists>e s. config_end (dev_archdata (devs ! k)) = Some e
    \<and> config_start (dev_archdata (devs ! k)) = Some s \<and> n = window_size s e)"
  using assms
proof (induction devs arbitrary: addr)
  case (Cons dev devs)
  from Cons.prems consider "Create_file d n \<in> set (register_device c addr dev)"
    | "Create_file d n \<in> set (register_devices c (addr + sizeof_device c) devs)" by auto
  then show ?case
  proof cases
    case 1
    then have "Create_file d n \<in> set (enable_config_attribute (sysfs_create_bin_file c) (At addr) (dev_archdata dev))"
      by (simp add: register_device_def)
    from attribute_events [OF this] show ?thesis by (intro exI [of _ "0 :: nat"]) simp
  next
    case 2
    then obtain k where "k < length devs" "d = At (addr + sizeof_device c + k * sizeof_device c)"
      "\<exists>e s. config_end (dev_archdata (devs ! k)) = Some e \<and> config_start (dev_archdata (devs ! k)) = Some s
        \<and> n = window_size s e"
      using Cons.IH by blast
    then show ?thesis by (intro exI [of _ "Suc k"]) (simp add: add.assoc)
  qed
qed simp

lemma window_size_eq: "e \<le> length s \<Longrightarrow> length s < 2 ^ 32 \<Longrightarrow> unat (window_size s e) = length s - e"
  unfolding window_size_def by (simp add: unat_of_nat flip: of_nat_diff)

lemma read_window:
  assumes "window_in t a" and "config_end a = Some e" "config_start a = Some s" and "length t < 2 ^ 32"
  shows "drop (length t - length s) t = s" and "length t - length s + unat (window_size s e) \<le> length t"
    and "off + cnt \<le> unat (window_size s e) \<Longrightarrow>
      config_read a off cnt = Some (take cnt (drop (length t - length s + off) t), cnt)"
proof -
  have w: "suffix s t" "e \<le> length s" using assms(1-3) by (auto simp: window_in_def)
  then obtain pre where t: "t = pre @ s" by (auto simp: suffix_def)
  then have n: "unat (window_size s e) = length s - e" using w(2) assms(4) by (intro window_size_eq) simp_all
  show "drop (length t - length s) t = s" "length t - length s + unat (window_size s e) \<le> length t" using t n by simp_all
  show "config_read a off cnt = Some (take cnt (drop (length t - length s + off) t), cnt)"
    if "off + cnt \<le> unat (window_size s e)"
    using that t assms(3) n by (auto simp: config_read_def)
qed

text \<open>The place in the text from which a file shows.\<close>

definition file_place :: "core \<Rightarrow> string \<Rightarrow> config_device \<Rightarrow> world \<Rightarrow> owner \<Rightarrow> nat" where
  "file_place c t pdev w d =
    (case d of Platform \<Rightarrow> 0 | At _ \<Rightarrow> length t - length (the (config_start (archdata_of c d pdev w))))"

text \<open>The file of the device with number \<open>k\<close>.\<close>

lemma device_file:
  assumes find: "config_find_devices E alloc res0 ch0 t = Inr w" and k: "k < devices w" "k < length (device_buf w)"
    and dev: "config_end (dev_archdata (device_buf w ! k)) = Some e" "config_start (dev_archdata (device_buf w ! k)) = Some s"
    and pos: "0 < sizeof_device c" and short: "length t < 2 ^ 32"
  defines "d \<equiv> At (sizeof_device c + k * sizeof_device c)"
  shows "config_start (archdata_of c d pdev w) = Some (drop (file_place c t pdev w d) t)"
    and "block_start t (drop (file_place c t pdev w d) t)" and "file_place c t pdev w d = 0 \<Longrightarrow> roots_buf w ! 0"
    and "file_place c t pdev w d + unat (window_size s e) \<le> length t"
    and "off + cnt \<le> unat (window_size s e) \<Longrightarrow>
      config_read (archdata_of c d pdev w) off cnt = Some (take cnt (drop (file_place c t pdev w d + off) t), cnt)"
    and "j < k \<Longrightarrow> file_place c t pdev w (At (sizeof_device c + j * sizeof_device c)) < file_place c t pdev w d"
proof -
  have arch: "archdata_of c (At (sizeof_device c + i * sizeof_device c)) pdev w = dev_archdata (device_buf w ! i)" for i
    using pos by (simp add: archdata_of_def add_mult_distrib [symmetric])
  have place: "file_place c t pdev w (At (sizeof_device c + i * sizeof_device c))
      = length t - length (the (config_start (dev_archdata (device_buf w ! i))))" for i
    by (simp add: file_place_def arch)
  have win: "window_in t (dev_archdata (device_buf w ! k))" by (rule found_windows [OF find k])
  note win_k = read_window [OF win dev short]
  obtain s2 where "Some s = Some s2" "block_start t s2" "s2 = t \<longrightarrow> roots_buf w ! 0"
      and before2: "\<forall>j < k. \<exists>s'. config_start (dev_archdata (device_buf w ! j)) = Some s' \<and> length s2 < length s'"
    using found_places [OF find k] unfolding dev(2) by blast
  then have found_k: "block_start t s" "s = t \<longrightarrow> roots_buf w ! 0" and eq: "s2 = s" by simp_all
  have here: "file_place c t pdev w d = length t - length s" by (simp add: d_def place dev(2))
  show "config_start (archdata_of c d pdev w) = Some (drop (file_place c t pdev w d) t)"
    unfolding here win_k(1) by (simp add: d_def arch dev(2))
  show "block_start t (drop (file_place c t pdev w d) t)" unfolding here win_k(1) by (rule found_k(1))
  show "roots_buf w ! 0" if "file_place c t pdev w d = 0"
  proof -
    have "s = t" using that win_k(1) unfolding here by simp
    then show ?thesis using found_k(2) by simp
  qed
  show "file_place c t pdev w d + unat (window_size s e) \<le> length t" unfolding here by (rule win_k(2))
  show "config_read (archdata_of c d pdev w) off cnt = Some (take cnt (drop (file_place c t pdev w d + off) t), cnt)"
    if "off + cnt \<le> unat (window_size s e)"
    using win_k(3) [OF that] unfolding here by (simp add: d_def arch)
  show "file_place c t pdev w (At (sizeof_device c + j * sizeof_device c)) < file_place c t pdev w d" if jk: "j < k"
  proof -
    obtain s' where s': "config_start (dev_archdata (device_buf w ! j)) = Some s'" "length s < length s'"
      using before2 jk unfolding eq by blast
    have "window_in t (dev_archdata (device_buf w ! j))" using found_windows [OF find, of j] k jk by simp
    then have "length s' \<le> length t" using s'(1) by (auto simp: window_in_def intro: suffix_length_le)
    then show ?thesis unfolding here place s'(1) using s'(2) by simp
  qed
qed

text \<open>
  C33: every file that the probe makes shows a part of the configuration string: a read within
  the size of the file returns the bytes of the text at that place, counted from a place that the
  theorem names. The file of the platform's own device shows the whole text without its terminator.
  The file of a device that was found shows from where the device starts, which is the beginning of a
  block: behind an opening brace and the white space up to the next line, or, when the outermost block
  is marked as a device, the start of the text. Of two devices the one that was registered later
  starts at a later place.
\<close>

theorem config_files_show_text:
  assumes "core_ok c rom" and "rom_holds rom a n t" and "braces t < length t"
    and "config_string_probe E c res0 ch0 (config_string a n) = Inr (r, pdev, evs, Some w)"
    and "Create_file d sz \<in> set evs"
  defines "place \<equiv> file_place c t pdev w"
  shows "place d + unat sz \<le> length t
    \<and> (\<forall>off cnt. off + cnt \<le> unat sz \<longrightarrow>
        config_read (archdata_of c d pdev w) off cnt = Some (take cnt (drop (place d + off) t), cnt))
    \<and> (case d of
         Platform \<Rightarrow> place d = 0 \<and> unat sz = length t
       | At addr \<Rightarrow> config_start (archdata_of c d pdev w) = Some (drop (place d) t) \<and> block_start t (drop (place d) t)
           \<and> (place d = 0 \<longrightarrow> roots_buf w ! 0)
           \<and> (\<forall>addr' sz'. Create_file (At addr') sz' \<in> set evs \<and> addr' < addr \<longrightarrow> place (At addr') < place d))"
proof -
  let ?pd = "probed (config_string a n) t"
  have alloc: "\<forall>n < 3. kzalloc_ok c n" and pos: "0 < sizeof_device c" using assms(1) by (auto simp: core_ok_def)
  have find: "config_find_devices E (kzalloc_ok c) res0 ch0 t = Inr w"
    and pdev: "pdev_archdata pdev = pdev_archdata ?pd"
    and evs: "evs = enable_config_attribute (sysfs_create_bin_file c) Platform (pdev_archdata ?pd)
      @ register_devices c (sizeof_device c) (device_buf w)"
    using assms(4) unfolding probe_eq [OF assms(1,2)] by auto
  have short: "length t + 1 < 2 ^ 32" "length t < 2 ^ 32" using assms(2) unsigned_less [of n] by (simp_all add: rom_holds_def)
  have count: "devices w = length (device_buf w)" using found_count [OF find assms(3) alloc] by simp
  have device: "\<exists>k < length (device_buf w). d = At (sizeof_device c + k * sizeof_device c)
      \<and> (\<exists>e s. config_end (dev_archdata (device_buf w ! k)) = Some e
        \<and> config_start (dev_archdata (device_buf w ! k)) = Some s \<and> sz = window_size s e)"
    if "Create_file d sz \<in> set evs" "d \<noteq> Platform" for d sz
    using that register_events [of d sz c "sizeof_device c" "device_buf w"] unfolding evs
    by (auto dest!: attribute_events)
  show ?thesis
  proof (cases d)
    case Platform
    then have "sz = window_size (t @ [NUL]) 1"
      using assms(5) register_events [of d sz c "sizeof_device c" "device_buf w"] unfolding evs
      by (auto dest!: attribute_events simp: probed_def)
    then have "unat sz = length t" using window_size_eq [of 1 "t @ [NUL]"] short by simp
    then show ?thesis
      using Platform by (auto simp: place_def file_place_def archdata_of_def pdev probed_def config_read_def)
  next
    case (At addr)
    obtain k e s where k: "k < length (device_buf w)" "d = At (sizeof_device c + k * sizeof_device c)"
      "config_end (dev_archdata (device_buf w ! k)) = Some e" "config_start (dev_archdata (device_buf w ! k)) = Some s"
      "sz = window_size s e"
      using device [OF assms(5)] At by auto
    note shows_k = device_file [OF find k(1) [folded count] k(1,3,4) pos short(2), where pdev = pdev, folded k(2) place_def]
    have "place (At addr') < place d" if f: "Create_file (At addr') sz' \<in> set evs" "addr' < addr" for addr' sz'
    proof -
      obtain j where "addr' = sizeof_device c + j * sizeof_device c" using device [OF f(1)] by auto
      moreover from this have "j < k" using f(2) k(2) At by simp
      ultimately show ?thesis using shows_k(6) by simp
    qed
    then show ?thesis using shows_k(1-5) k(5) At by auto
  qed
qed

lemma example_found:
  "case config_find_devices ref_env (\<lambda>_. True) blank_resource NUL example_text of Inl _ \<Rightarrow> False
    | Inr w \<Rightarrow> map dev_archdata (device_buf w) = [\<lparr>config_start = Some ''interface q;};'', config_end = Some 2\<rparr>]"
  by code_simp

theorem config_files_show_text_witness:
  "\<exists>pdev evs w. config_string_probe ref_env (example_core (example_text @ [NUL])) blank_resource NUL
        (config_string 4096 17) = Inr (0, pdev, evs, Some w)
    \<and> Create_file (At 400) 12 \<in> set evs \<and> file_place (example_core (example_text @ [NUL])) example_text pdev w (At 400) = 2
    \<and> block_start example_text ''interface q;};''
    \<and> config_read (archdata_of (example_core (example_text @ [NUL])) (At 400) pdev w) 0 9
        = Some (''interface'', 9)"
proof -
  let ?c = "example_core (example_text @ [NUL])"
  have fits: "braces example_text < length example_text" by (simp add: braces_def example_text_def)
  obtain w dev where w: "config_find_devices ref_env (\<lambda>_. True) blank_resource NUL example_text = Inr w"
    and dev: "device_buf w = [dev]" "dev_archdata dev = \<lparr>config_start = Some ''interface q;};'', config_end = Some 2\<rparr>"
    using example_found by (auto split: sum.splits)
  have c: "kzalloc_ok ?c = (\<lambda>_. True)" "sizeof_device ?c = 400" by (simp_all add: example_core_def)
  obtain pdev evs where probe: "config_string_probe ref_env ?c blank_resource NUL (config_string 4096 17)
      = Inr (0, pdev, evs, Some w)"
    and "Create_file (At 400) (window_size ''interface q;};'' 2) \<in> set evs"
    using w dev unfolding probe_eq [OF example_ok example_holds] c
    by (simp add: register_device_def enable_config_attribute_def)
  moreover have "window_size ''interface q;};'' 2 = 12" by (simp add: window_size_def)
  ultimately have made: "Create_file (At 400) 12 \<in> set evs" by simp
  have place: "file_place ?c example_text pdev w (At 400) = 2"
    unfolding file_place_def archdata_of_def c dev by (simp add: dev example_text_def)
  note shown = config_files_show_text [OF example_ok example_holds fits probe made, unfolded place]
  have "drop 2 example_text = ''interface q;};''" by (simp add: example_text_def)
  then have "block_start example_text ''interface q;};''" using shown by simp
  moreover have "config_read (archdata_of ?c (At 400) pdev w) 0 9 = Some (take 9 (drop (2 + 0) example_text), 9)"
    using conjunct1 [OF conjunct2 [OF shown], rule_format, of 0 9] by simp
  moreover have "take 9 (drop (2 + 0) example_text) = ''interface''" by (simp add: example_text_def)
  ultimately show ?thesis using probe made place by metis
qed

end
