(* ===== verification/Console.thy ===== *)
theory Console
  imports Prelude "HOL-Library.Sublist"
begin

text \<open>
  What the kernel prints without a driver, and the list of processors: \<^verbatim>\<open>kernel/sbi-con.c\<close>,
  \<^verbatim>\<open>kernel/cpu.c\<close> and \<^verbatim>\<open>kernel/reset.c\<close>.
\<close>

section \<open>Calls of the firmware\<close>

datatype sbi_call = Sbi_console_putchar char | Sbi_shutdown

text \<open>The loop of \<^verbatim>\<open>sbi_console_write\<close>, \<open>None\<close> when it reads behind the buffer.\<close>

fun sbi_console_write :: "string \<Rightarrow> nat \<Rightarrow> sbi_call list \<Rightarrow> sbi_call list option" where
  "sbi_console_write buf 0 h = Some h"
| "sbi_console_write [] (Suc n) h = None"
| "sbi_console_write (c # buf) (Suc n) h =
    (let h = (if c = CHR 0x0A then h @ [Sbi_console_putchar (CHR 0x0D)] else h)
     in sbi_console_write buf n (h @ [Sbi_console_putchar c]))"

definition machine_restart :: "sbi_call list \<Rightarrow> sbi_call list" where
  "machine_restart h = h"

definition machine_halt :: "sbi_call list \<Rightarrow> sbi_call list" where
  "machine_halt h = h"

definition machine_power_off :: "sbi_call list \<Rightarrow> sbi_call list" where
  "machine_power_off h = h @ [Sbi_shutdown]"

section \<open>The list of processors\<close>

text \<open>
  \<^verbatim>\<open>cpumask_next\<close> belongs to the kernel proper: the first set bit behind its argument, or a
  number that is not below \<^verbatim>\<open>nr_cpu_ids\<close>. The iterator is the number of a processor plus 1, with
  the null pointer as \<open>None\<close>.
\<close>

record cpu_env =
  cpumask_next :: "int \<Rightarrow> int"
  nr_cpu_ids :: int

definition c_start :: "cpu_env \<Rightarrow> int \<Rightarrow> int option \<times> int" where
  "c_start e pos =
    (let pos = cpumask_next e (pos - 1)
     in (if pos < nr_cpu_ids e then Some (1 + pos) else None, pos))"

definition c_next :: "cpu_env \<Rightarrow> int \<Rightarrow> int option \<times> int" where
  "c_next e pos = c_start e (pos + 1)"

text \<open>What \<^verbatim>\<open>c_show\<close> prints: the number of the hart and the width of its registers in bits.\<close>

definition c_show :: "nat \<Rightarrow> int \<Rightarrow> int \<times> nat" where
  "c_show pointer_size v = (v - 1, pointer_size * 8)"

text \<open>
  How \<^verbatim>\<open>seq_file\<close> drives these operations: it starts at a position and goes on until the null
  pointer. The recursion ends because the position only grows.
\<close>

fun show_from :: "cpu_env \<Rightarrow> nat \<Rightarrow> nat \<Rightarrow> int option \<times> int \<Rightarrow> (int \<times> nat) list option" where
  "show_from e sz f (None, pos) = Some []"
| "show_from e sz 0 (Some v, pos) = None"
| "show_from e sz (Suc f) (Some v, pos) = map_option (Cons (c_show sz v)) (show_from e sz f (c_next e pos))"

definition cpuinfo :: "cpu_env \<Rightarrow> nat \<Rightarrow> (int \<times> nat) list option" where
  "cpuinfo e sz = show_from e sz (nat (nr_cpu_ids e)) (c_start e 0)"

section \<open>Lemmas\<close>

text \<open>The characters that arrive at the terminal.\<close>

definition with_cr :: "string \<Rightarrow> string" where
  "with_cr s = concat (map (\<lambda>c. if c = CHR 0x0A then [CHR 0x0D, c] else [c]) s)"

lemma console_write_eq:
  "sbi_console_write buf n h =
    (if n \<le> length buf then Some (h @ map Sbi_console_putchar (with_cr (take n buf))) else None)"
  by (induction buf n h rule: sbi_console_write.induct) (auto simp: with_cr_def Let_def)

text \<open>The promise of \<^verbatim>\<open>cpumask_next\<close> for the set of processors that are online.\<close>

definition next_ok :: "cpu_env \<Rightarrow> int set \<Rightarrow> bool" where
  "next_ok e online \<longleftrightarrow> online \<subseteq> {0 ..< nr_cpu_ids e} \<and> 0 \<le> nr_cpu_ids e
    \<and> (\<forall>n \<ge> - 1. n < cpumask_next e n
        \<and> (\<forall>i \<in> online. n < i \<longrightarrow> cpumask_next e n \<le> i)
        \<and> (cpumask_next e n < nr_cpu_ids e \<longrightarrow> cpumask_next e n \<in> online))"

lemma c_start_skips:
  assumes "next_ok e online" and "0 \<le> pos" and "c_start e pos = (r, q)"
  shows "pos \<le> q" and "r = None \<Longrightarrow> {i \<in> online. pos \<le> i} = {}"
    and "r = Some v \<Longrightarrow> v = 1 + q \<and> q < nr_cpu_ids e \<and> {i \<in> online. pos \<le> i} = insert q {i \<in> online. q + 1 \<le> i}"
proof -
  have q: "q = cpumask_next e (pos - 1)" and r: "r = (if q < nr_cpu_ids e then Some (1 + q) else None)"
    using assms(3) by (auto simp: c_start_def Let_def)
  have n: "pos - 1 < q" "\<forall>i \<in> online. pos - 1 < i \<longrightarrow> q \<le> i" "q < nr_cpu_ids e \<longrightarrow> q \<in> online"
    using assms(1,2) unfolding next_ok_def q by auto
  show "pos \<le> q" using n(1) by simp
  show "{i \<in> online. pos \<le> i} = {}" if "r = None"
    using n(2) that assms(1) by (force simp: r next_ok_def split: if_splits)
  show "v = 1 + q \<and> q < nr_cpu_ids e \<and> {i \<in> online. pos \<le> i} = insert q {i \<in> online. q + 1 \<le> i}"
    if "r = Some v"
    using n that by (force simp: r split: if_splits)
qed

lemma show_from_online:
  assumes "next_ok e online" and "0 \<le> pos" and "nr_cpu_ids e \<le> pos + int f"
  shows "show_from e sz f (c_start e pos)
    = Some (map (\<lambda>i. (i, sz * 8)) (sorted_list_of_set {i \<in> online. pos \<le> i}))"
  using assms(2,3)
proof (induction f arbitrary: pos)
  case 0
  obtain r q where c: "c_start e pos = (r, q)" by fastforce
  note step = c_start_skips [OF assms(1) "0.prems"(1) c]
  have r: "r = None" using step "0.prems" by (cases r) auto
  show ?case unfolding c r step(2) [OF r] by simp
next
  case (Suc f)
  obtain r q where c: "c_start e pos = (r, q)" by fastforce
  note step = c_start_skips [OF assms(1) Suc.prems(1) c]
  show ?case
  proof (cases r)
    case None
    show ?thesis unfolding c None step(2) [OF None] by simp
  next
    case (Some v)
    have fin: "finite {i \<in> online. q + 1 \<le> i}"
      using assms(1) unfolding next_ok_def by (blast intro: finite_subset)
    have "show_from e sz f (c_next e q) = Some (map (\<lambda>i. (i, sz * 8)) (sorted_list_of_set {i \<in> online. q + 1 \<le> i}))"
      unfolding c_next_def using step(1) Suc.prems by (intro Suc.IH) auto
    moreover have "sorted_list_of_set (insert q {i \<in> online. q + 1 \<le> i}) = q # sorted_list_of_set {i \<in> online. q + 1 \<le> i}"
      using fin by (simp add: insort_is_Cons)
    ultimately show ?thesis using c Some step(3) by (simp add: c_show_def)
  qed
qed

text \<open>
  The list of processors names every processor that is online once, in ascending order, and
  no other, however the numbers of the online processors are spread; the loop of the reader ends.
\<close>

theorem cpuinfo_lists_online:
  assumes "next_ok e online"
  shows "cpuinfo e sz = Some (map (\<lambda>i. (i, sz * 8)) (sorted_list_of_set online))"
proof -
  have "{i \<in> online. 0 \<le> i} = online" using assms by (auto simp: next_ok_def)
  moreover have "show_from e sz (nat (nr_cpu_ids e)) (c_start e 0)
      = Some (map (\<lambda>i. (i, sz * 8)) (sorted_list_of_set {i \<in> online. 0 \<le> i}))"
    using assms by (intro show_from_online) (auto simp: next_ok_def)
  ultimately show ?thesis by (simp add: cpuinfo_def)
qed

definition example_cpus :: cpu_env where
  "example_cpus = \<lparr>cpumask_next = (\<lambda>n. if n < 0 then 0 else if n < 2 then 2 else n + 4), nr_cpu_ids = 4\<rparr>"

theorem cpuinfo_lists_online_witness:
  "cpuinfo example_cpus 4 = Some [(0, 32), (2, 32)]"
proof -
  have "next_ok example_cpus {0, 2}" by (auto simp: next_ok_def example_cpus_def)
  from cpuinfo_lists_online [OF this, of 4] show ?thesis by simp
qed

text \<open>
  Writing to the early console sends the bytes of the buffer in order, with a carriage
  return before every line feed, and reads no byte behind the length it is given.
\<close>

theorem console_write_sends:
  assumes "n \<le> length buf"
  shows "sbi_console_write buf n h = Some (h @ map Sbi_console_putchar (with_cr (take n buf)))
    \<and> filter (\<lambda>c. c \<noteq> CHR 0x0D) (with_cr (take n buf)) = filter (\<lambda>c. c \<noteq> CHR 0x0D) (take n buf)"
proof -
  have "filter (\<lambda>c. c \<noteq> CHR 0x0D) (with_cr s) = filter (\<lambda>c. c \<noteq> CHR 0x0D) s" for s
    by (induction s) (simp_all add: with_cr_def)
  then show ?thesis using assms by (simp add: console_write_eq)
qed

theorem console_write_sends_witness:
  "sbi_console_write [CHR ''a'', CHR 0x0A] 2 [] = Some (map Sbi_console_putchar [CHR ''a'', CHR 0x0D, CHR 0x0A])"
  using console_write_sends [of 2 "[CHR ''a'', CHR 0x0A]" "[]"] by (simp add: with_cr_def)

end
