(* ===== verification/UserFault.thy ===== *)
theory UserFault
  imports Entry Fault
begin

text \<open>
  A load or store of the kernel at an address of the user, on the machine: the instruction of
  \<^verbatim>\<open>__get_user_asm\<close> and \<^verbatim>\<open>__put_user_asm\<close> in \<^verbatim>\<open>asm/uaccess.h\<close> with its entry of the
  exception table, the path through \<^verbatim>\<open>kernel/entry.S\<close> that a fault takes, the handler of
  \<^verbatim>\<open>mm/fault.c\<close> and the code in the section \<^verbatim>\<open>.fixup\<close>. It composes \<open>Entry\<close> and
  \<open>Fault\<close>: the entry code is the one of \<open>Entry\<close>, and the contract of its C functions says that
  \<^verbatim>\<open>do_page_fault\<close> is the one of \<open>Fault\<close>.
\<close>

section \<open>The instructions\<close>

text \<open>
  The labels 1 and 3 of the code, the register that holds the address, the cause that a fault
  reports, the instruction, the fixup and the register that its jump back to label 2 may use.
\<close>

record user_access =
  insn_at :: u32
  fixup_at :: u32
  ptr_reg :: nat
  fault_cause :: u32
  access :: insn
  fixup :: "insn list"
  tmp_reg :: nat

definition EFAULT :: u32 where "EFAULT = 14"

text \<open>The registers of \<open>x\<close>, \<open>err\<close>, the pointer and \<^verbatim>\<open>__tmp\<close> are chosen by the compiler.\<close>

definition get_user_lw :: "u32 \<Rightarrow> u32 \<Rightarrow> nat \<Rightarrow> nat \<Rightarrow> nat \<Rightarrow> nat \<Rightarrow> user_access" where
  "get_user_lw label1 label3 x err ptr tmp =
    \<lparr>insn_at = label1, fixup_at = label3, ptr_reg = ptr, fault_cause = EXC_LOAD_ACCESS,
      access = Reg_l x 0 ptr, fixup = [Li err (- EFAULT), Li x 0], tmp_reg = tmp\<rparr>"

definition put_user_sw :: "u32 \<Rightarrow> u32 \<Rightarrow> nat \<Rightarrow> nat \<Rightarrow> nat \<Rightarrow> nat \<Rightarrow> user_access" where
  "put_user_sw label1 label3 x err ptr tmp =
    \<lparr>insn_at = label1, fixup_at = label3, ptr_reg = ptr, fault_cause = EXC_STORE_ACCESS,
      access = Reg_s x 0 ptr, fixup = [Li err (- EFAULT)], tmp_reg = tmp\<rparr>"

lemma get_user_lw_at: "insn_at (get_user_lw label1 label3 x err ptr tmp) = label1"
  and put_user_sw_at: "insn_at (put_user_sw label1 label3 x err ptr tmp) = label1"
  by (simp_all add: get_user_lw_def put_user_sw_def)

section \<open>Traps\<close>

text \<open>
  What the processor does to the status register when the kernel traps and at \<^verbatim>\<open>sret\<close>: the
  interrupt flag is kept in \<^verbatim>\<open>SR_PIE\<close>, the mode in \<^verbatim>\<open>SR_PS\<close>.
\<close>

definition trap_status :: "u32 \<Rightarrow> u32" where
  "trap_status s = (s AND NOT (SR_IE OR SR_PIE)) OR SR_PS OR (if s AND SR_IE \<noteq> 0 then SR_PIE else 0)"

definition sret_status :: "u32 \<Rightarrow> u32" where
  "sret_status s = (s AND NOT (SR_PS OR SR_IE)) OR SR_PIE OR (if s AND SR_PIE \<noteq> 0 then SR_IE else 0)"

definition take_trap :: "u32 \<Rightarrow> u32 \<Rightarrow> u32 \<Rightarrow> 'x machine \<Rightarrow> 'x machine" where
  "take_trap pc cause addr m = m\<lparr>csrs := (csrs m)
    (Sepc := pc, Scause := cause, Sbadaddr := addr, Sstatus := trap_status (csrs m Sstatus))\<rparr>"

definition sret :: "'x machine \<Rightarrow> 'x machine" where
  "sret m = m\<lparr>csrs := (csrs m)(Sstatus := sret_status (csrs m Sstatus))\<rparr>"

text \<open>
  A run of the access: \<open>accessible\<close> tells whether the machine can make it at an address. A fault
  goes through the kernel and resumes wherever the entry code returns to; the fixup ends behind the
  access, at label 2.
\<close>

inductive access_step ::
    "user_access \<Rightarrow> 'x kernel \<Rightarrow> ('x machine \<Rightarrow> u32 \<Rightarrow> bool) \<Rightarrow> u32 \<times> 'x machine \<Rightarrow> u32 \<times> 'x machine \<Rightarrow> bool"
  for u k accessible where
  done_at: "accessible m (rd m (ptr_reg u)) \<Longrightarrow>
    access_step u k accessible (insn_at u, m) (insn_at u + 4, exec (access u) m)"
| fault: "\<not> accessible m (rd m (ptr_reg u)) \<Longrightarrow>
    handle_exception k (take_trap (insn_at u) (fault_cause u) (rd m (ptr_reg u)) m) = Some m' \<Longrightarrow>
    access_step u k accessible (insn_at u, m) (csrs m' Sepc, sret m')"
| fixed: "access_step u k accessible (fixup_at u, m) (insn_at u + 4, wr (tmp_reg u) v (run (fixup u) m))"

lemma sret_simps [simp]:
  "rd (sret m) r = rd m r" "csrs (sret m) Sscratch = csrs m Sscratch"
  "csrs (sret m) Sstatus = sret_status (csrs m Sstatus)"
  by (simp_all add: sret_def rd_def)

section \<open>The handler as a C function\<close>

text \<open>
  The handler of page faults is that of \<open>Fault\<close>, in one of the environments of a set: the areas of
  the process may change while it sleeps, the exception table may not. It only comes back when
  \<open>do_page_fault\<close> returns.
\<close>

definition page_fault_effect :: "u32 fault_env set \<Rightarrow> effect" where
  "page_fault_effect envs f args fr fr' v \<longleftrightarrow> (f = C_handler Do_page_fault \<longrightarrow>
    (\<exists>env \<in> envs. \<exists>counter pgd init_pgd. let r = do_page_fault env fr counter pgd init_pgd
       in f_ending r = Returned \<and> fr' = f_regs r))"

definition fixes_at :: "u32 fault_env set \<Rightarrow> u32 \<Rightarrow> u32 \<Rightarrow> bool" where
  "fixes_at envs pc to \<longleftrightarrow> (\<forall>env \<in> envs. search_exception_tables (traps env) pc = Some to)"

section \<open>The handler in the kernel\<close>

text \<open>It leaves the registers alone, or sends the instruction to its fixup.\<close>

definition repaired :: "u32 fault_env \<Rightarrow> u32 pt_regs \<Rightarrow> u32 pt_regs \<Rightarrow> bool" where
  "repaired env regs regs' \<longleftrightarrow>
    regs' = regs \<or> (\<exists>to. search_exception_tables (traps env) (sepc regs) = Some to \<and> regs' = regs\<lparr>sepc := to\<rparr>)"

definition comes_back :: "u32 fault_env \<Rightarrow> u32 pt_regs \<Rightarrow> u32 fault_result \<Rightarrow> bool" where
  "comes_back env regs r \<longleftrightarrow> (f_ending r = Returned \<longrightarrow> repaired env regs (f_regs r))"

lemma comes_back_finish [simp]: "comes_back env regs (finish regs ev counter ending pgd)"
  by (simp add: comes_back_def finish_def repaired_def)

lemma comes_back_no_context: "comes_back env regs (no_context env regs addr counter pgd ev)"
  by (auto simp: comes_back_def no_context_def finish_def fixup_exception_def repaired_def Let_def
      split: option.splits prod.splits)

lemma comes_back_exits:
  "comes_back env regs (bad_area env regs addr counter pgd code ev)"
  "comes_back env regs (out_of_memory env regs addr counter pgd ev)"
  "comes_back env regs (do_sigbus env regs addr counter pgd ev)"
  "comes_back env regs (bug env regs counter pgd ev)"
  by (simp_all add: bad_area_def out_of_memory_def do_sigbus_def bug_def Let_def comes_back_no_context)

lemma page_fault_comes_back: "comes_back env regs (do_page_fault env regs counter pgd init_pgd)"
proof -
  have "comes_back env regs (attempt env regs cause addr counter pgd k flags code ev)"
    for cause addr k flags code ev
    by (rule attempt_rule [where I = "\<lambda>_ _ _ _. True"]) (simp_all add: comes_back_exits)
  then show ?thesis
    by (simp add: do_page_fault_def vmalloc_fault_def Let_def comes_back_no_context comes_back_exits)
qed

lemma page_fault_fixed:
  assumes "f_ending (do_page_fault env regs counter pgd init_pgd) = Returned"
    and "search_exception_tables (traps env) (sepc regs) = Some to"
  shows "f_regs (do_page_fault env regs counter pgd init_pgd) \<in> {regs, regs\<lparr>sepc := to\<rparr>}"
  using page_fault_comes_back [of env regs counter pgd init_pgd] assms
  by (auto simp: comes_back_def repaired_def)

text \<open>Outside every area, in the kernel, the fixup is certain.\<close>

definition no_area :: "u32 fault_env \<Rightarrow> u32 \<Rightarrow> bool" where
  "no_area env a \<longleftrightarrow> (faulthandler_disabled env \<or> \<not> has_mm env \<or> find_vma env 0 a = None)
    \<and> \<not> (VMALLOC_START \<le> a \<and> a \<le> VMALLOC_END)"

lemma page_fault_no_area:
  assumes "\<not> user_mode regs" and "no_area env (sbadaddr regs)"
    and "search_exception_tables (traps env) (sepc regs) = Some to"
  shows "f_regs (do_page_fault env regs counter pgd init_pgd) = regs\<lparr>sepc := to\<rparr>"
  using assms
  by (auto simp: do_page_fault_def no_area_def Let_def attempt_unmapped bad_area_def no_context_def
      fixup_exception_def finish_def)

section \<open>A fault of the kernel\<close>

definition same_context :: "'x machine \<Rightarrow> 'x machine \<Rightarrow> bool" where
  "same_context m n \<longleftrightarrow> (\<forall>r < 32. rd n r = rd m r) \<and> csrs n Sscratch = csrs m Sscratch
    \<and> csrs n Sstatus AND SR_IE = csrs m Sstatus AND SR_IE"

lemma same_context_refl [simp]: "same_context m m"
  by (simp add: same_context_def)

lemma same_context_trans: "same_context m n \<Longrightarrow> same_context n p \<Longrightarrow> same_context m p"
  by (simp add: same_context_def)

lemma same_context_rd: "same_context m n \<Longrightarrow> r < 32 \<Longrightarrow> rd n r = rd m r"
  by (simp add: same_context_def)

lemma interrupted_gpr:
  assumes "interrupted m' = (interrupted m)\<lparr>sepc := p, sstatus := s, sbadaddr := b, scause := c\<rparr>" and "r < 32"
  shows "rd m' r = rd m r"
proof -
  have "r \<in> {0, 1, 2, 3, 4, 5, 6, 7, 8, 9, 10, 11, 12, 13, 14, 15, 16, 17, 18, 19, 20, 21, 22, 23, 24, 25, 26,
      27, 28, 29, 30, 31}"
    using assms(2) by (auto simp: eval_nat_numeral less_Suc_eq)
  then show ?thesis using assms(1) by (elim insertE) (simp_all add: interrupted_def rd_def)
qed

lemma trap_status_bits:
  "trap_status s AND SR_PS \<noteq> 0" "sret_status (trap_status s) AND SR_IE = s AND SR_IE"
proof -
  have bits: "SR_IE = push_bit 1 (1 :: u32)" "SR_PIE = push_bit 5 (1 :: u32)" "SR_PS = push_bit 8 (1 :: u32)"
    by (simp_all add: SR_IE_def SR_PIE_def SR_PS_def)
  have ie: "s AND SR_IE \<noteq> 0 \<longleftrightarrow> bit s 1" and pie: "s AND SR_PIE \<noteq> 0 \<longleftrightarrow> bit s 5" for s :: u32
    using and_exp_eq_0_iff_not_bit [of s 1] and_exp_eq_0_iff_not_bit [of s 5]
    by (simp_all add: SR_IE_def SR_PIE_def)
  have "bit (trap_status s AND SR_PS) 8"
    by (simp add: trap_status_def bits bit_simps)
  then show "trap_status s AND SR_PS \<noteq> 0" by auto
  have "bit (trap_status s) 5 \<longleftrightarrow> bit s 1"
    unfolding trap_status_def ie by (simp add: bits bit_simps)
  then have "bit (sret_status (trap_status s)) 1 \<longleftrightarrow> bit s 1"
    unfolding sret_status_def pie by (simp add: bits bit_simps)
  then show "sret_status (trap_status s) AND SR_IE = s AND SR_IE"
    by (intro bit_word_eqI) (auto simp: bits bit_simps)
qed

lemma kernel_fault:
  assumes "c_contract k (page_fault_effect envs)" and "fixes_at envs pc to"
    and "cause \<in> {EXC_LOAD_ACCESS, EXC_STORE_ACCESS}" and "csrs m Sscratch = 0"
    and "handle_exception k (take_trap pc cause a m) = Some m'"
  shows "csrs m' Sepc \<in> {pc, to}" and "same_context m (sret m')"
    and "\<forall>env \<in> envs. no_area env a \<Longrightarrow> csrs m' Sepc = to"
proof -
  let ?m = "take_trap pc cause a m" and ?e = "page_fault_effect envs"
  define at where "at = frame_top ?m - PT_SIZE"
  have i: "interrupted ?m = (interrupted m)\<lparr>sepc := pc, scause := cause, sbadaddr := a, sstatus := trap_status (csrs m Sstatus)\<rparr>"
    by (simp add: interrupted_def take_trap_def)
  then have kernel: "\<not> user_mode (interrupted ?m)" using trap_status_bits(1) by (simp add: user_mode_def)
  obtain fr fr' where served: "trap_served (NR_syscalls k) ?e at (interrupted ?m) fr" and "(work_step ?e at)\<^sup>*\<^sup>* fr fr'"
    and res: "resumes m' at fr'"
    using trap_path [OF assms(1,5)] unfolding leaves_def at_def by blast
  have cause: "scause (interrupted ?m) = cause" "\<not> sint cause < 0" "cause \<noteq> EXC_SYSCALL" "dispatch cause = Do_page_fault"
    using assms(3) by (auto simp: i EXC_LOAD_ACCESS_def EXC_STORE_ACCESS_def EXC_SYSCALL_def dispatch_def excp_vect_table_def)
  from served cause obtain args v where "?e (C_handler Do_page_fault) args (interrupted ?m) fr v"
    by (cases rule: trap_served.cases) auto
  then obtain env counter pgd init_pgd where env: "env \<in> envs"
    and r: "f_ending (do_page_fault env (interrupted ?m) counter pgd init_pgd) = Returned"
      "fr = f_regs (do_page_fault env (interrupted ?m) counter pgd init_pgd)"
    by (auto simp: page_fault_effect_def Let_def)
  have to: "search_exception_tables (traps env) (sepc (interrupted ?m)) = Some to"
    using assms(2) env by (simp add: fixes_at_def i)
  have fr: "fr \<in> {interrupted ?m, (interrupted ?m)\<lparr>sepc := to\<rparr>}"
    unfolding r(2) by (rule page_fault_fixed [OF r(1) to])
  then have "\<not> user_mode fr" using kernel by (auto simp: user_mode_def)
  then have "fr' = fr" using \<open>(work_step ?e at)\<^sup>*\<^sup>* fr fr'\<close> by (auto elim: converse_rtranclpE simp: work_step.simps)
  then have m': "interrupted m' = fr\<lparr>sbadaddr := csrs m' Sbadaddr, scause := csrs m' Scause\<rparr>" "csrs m' Sscratch = 0"
    using res \<open>\<not> user_mode fr\<close> by (simp_all add: resumes_def)
  have sepc: "csrs m' Sepc = sepc fr" "csrs m' Sstatus = sstatus fr"
    using arg_cong [OF m'(1), of sepc] arg_cong [OF m'(1), of sstatus] by simp_all
  show "csrs m' Sepc \<in> {pc, to}" using fr by (auto simp: sepc i)
  have "csrs m' Sstatus = trap_status (csrs m Sstatus)" using fr by (auto simp: sepc i)
  moreover have "rd m' r = rd m r" if "r < 32" for r
    using fr m'(1) that by (intro interrupted_gpr [where m = m and p = "csrs m' Sepc"]) (auto simp: i sepc)
  ultimately show "same_context m (sret m')"
    using assms(4) m'(2) by (simp add: same_context_def trap_status_bits)
  show "csrs m' Sepc = to" if "\<forall>env \<in> envs. no_area env a"
    using page_fault_no_area [OF kernel _ to, of counter pgd init_pgd] that env by (simp add: sepc r(2) i)
qed

text \<open>If the handler comes back, so does the entry code.\<close>

definition handler_returns :: "'x kernel \<Rightarrow> u32 \<Rightarrow> u32 \<Rightarrow> bool" where
  "handler_returns k pc a \<longleftrightarrow>
    (\<forall>n. let fr = frame_at (mem n) (gpr n 2) in \<not> user_mode fr \<and> sepc fr = pc \<and> sbadaddr fr = a \<longrightarrow>
      (\<exists>n'. c_code k (C_handler Do_page_fault) n = Some n'))"

lemma kernel_fault_returns:
  assumes "c_contract k (page_fault_effect envs)" and "cause \<in> {EXC_LOAD_ACCESS, EXC_STORE_ACCESS}"
    and handler: "handler_returns k pc a"
  shows "\<exists>m'. handle_exception k (take_trap pc cause a m) = Some m'"
proof -
  let ?m = "take_trap pc cause a m"
  have cause: "csrs ?m Scause = cause" "\<not> sint cause < 0" "cause \<noteq> EXC_SYSCALL" "dispatch cause = Do_page_fault"
    using assms(2) by (auto simp: take_trap_def EXC_LOAD_ACCESS_def EXC_STORE_ACCESS_def EXC_SYSCALL_def dispatch_def
        excp_vect_table_def)
  obtain n where n: "inside n (frame_top ?m - PT_SIZE) (gpr (enter_kernel k ?m) 4) (interrupted ?m)"
    and run: "handle_exception k ?m = do { m \<leftarrow> c_code k (C_handler Do_page_fault) n; ret_from_exception k m }"
    using exception_call [of ?m k] cause by auto
  have "\<not> user_mode (interrupted ?m)" "sepc (interrupted ?m) = pc" "sbadaddr (interrupted ?m) = a"
    using trap_status_bits(1) by (simp_all add: user_mode_def interrupted_def take_trap_def)
  then obtain n' where n': "c_code k (C_handler Do_page_fault) n = Some n'"
    using handler n unfolding handler_returns_def inside_def Let_def by metis
  note call = inside_call [OF n assms(1) n']
  let ?fr = "frame_at (mem n') (frame_top ?m - PT_SIZE)"
  obtain env counter pgd init_pgd where "f_ending (do_page_fault env (interrupted ?m) counter pgd init_pgd) = Returned"
      "?fr = f_regs (do_page_fault env (interrupted ?m) counter pgd init_pgd)"
    using call(2) by (auto simp: page_fault_effect_def Let_def)
  then have "sstatus ?fr = sstatus (interrupted ?m)"
    using page_fault_comes_back [of env "interrupted ?m" counter pgd init_pgd]
    by (auto simp: comes_back_def repaired_def)
  then have "sstatus ?fr AND SR_PS \<noteq> 0" using trap_status_bits(1) by (simp add: interrupted_def take_trap_def)
  then have "mem n' (gpr n' 2 + PT PT_SSTATUS) AND SR_PS \<noteq> 0"
    using call(1) by (simp add: inside_def sstatus_frame)
  then have "\<exists>m'. ret_from_exception k n' = Some m'"
    by (subst ret_from_exception.simps) (simp add: csr_ops)
  then show ?thesis using n' run by simp
qed

section \<open>The access\<close>

text \<open>
  What holds at each label: the context is that of the start until the access is made or its fixup
  has run.
\<close>

definition access_inv ::
    "user_access \<Rightarrow> ('x machine \<Rightarrow> u32 \<Rightarrow> bool) \<Rightarrow> 'x machine \<Rightarrow> u32 \<times> 'x machine \<Rightarrow> bool" where
  "access_inv u accessible m s \<longleftrightarrow>
    (if fst s = insn_at u + 4
     then \<exists>n. same_context m n \<and> (accessible n (rd m (ptr_reg u)) \<and> snd s = exec (access u) n
       \<or> (\<exists>v. snd s = wr (tmp_reg u) v (run (fixup u) n)))
     else fst s \<in> {insn_at u, fixup_at u} \<and> same_context m (snd s))"

definition access_fits :: "user_access \<Rightarrow> u32 fault_env set \<Rightarrow> bool" where
  "access_fits u envs \<longleftrightarrow> fault_cause u \<in> {EXC_LOAD_ACCESS, EXC_STORE_ACCESS} \<and> ptr_reg u < 32
    \<and> fixup_at u \<notin> {insn_at u, insn_at u + 4} \<and> fixes_at envs (insn_at u) (fixup_at u)"

lemma behind_insn [simp]: "insn_at u + 4 \<noteq> insn_at u"
  by simp

lemma access_steps:
  assumes k: "c_contract k (page_fault_effect envs)" and u: "access_fits u envs" and m: "csrs m Sscratch = 0"
    and run: "(access_step u k accessible)\<^sup>*\<^sup>* (insn_at u, m) s"
  shows "access_inv u accessible m s"
  using run
proof (induction rule: rtranclp_induct)
  case base
  show ?case by (simp add: access_inv_def)
next
  case (step s t)
  have same: "rd n (ptr_reg u) = rd m (ptr_reg u)" "csrs n Sscratch = 0" if "same_context m n" for n
    using that u m by (simp_all add: same_context_def access_fits_def)
  show ?case
    using step.hyps(2)
  proof cases
    case (done_at n)
    then have c: "same_context m n" using step.IH by (simp add: access_inv_def)
    have "accessible n (rd m (ptr_reg u))" using done_at(3) by (simp only: same(1) [OF c])
    then show ?thesis using c done_at(2) by (auto simp: access_inv_def)
  next
    case (fault n n')
    then have c: "same_context m n" using step.IH by (simp add: access_inv_def)
    have fx: "fixes_at envs (insn_at u) (fixup_at u)" "fault_cause u \<in> {EXC_LOAD_ACCESS, EXC_STORE_ACCESS}"
      "fixup_at u \<noteq> insn_at u + 4"
      using u by (simp_all add: access_fits_def)
    note kf = kernel_fault [OF k fx(1,2) same(2) [OF c] fault(4)]
    have "csrs n' Sepc \<noteq> insn_at u + 4" using kf(1) fx(3) by auto
    then show ?thesis using kf(1) same_context_trans [OF c kf(2)] fault(2) by (simp add: access_inv_def)
  next
    case (fixed n v)
    have "fixup_at u \<noteq> insn_at u + 4" using u by (simp add: access_fits_def)
    then have "same_context m n" using step.IH fixed(1) by (simp add: access_inv_def)
    then show ?thesis using fixed(2) by (auto simp: access_inv_def)
  qed
qed

text \<open>The invariants of the two instances, where no register is used twice.\<close>

definition regs_apart :: "nat \<Rightarrow> nat \<Rightarrow> nat \<Rightarrow> nat \<Rightarrow> bool" where
  "regs_apart x err ptr tmp \<longleftrightarrow> distinct [x, err, ptr, tmp] \<and> {x, err, ptr, tmp} \<subseteq> {1..<32}"

definition rest_kept :: "nat set \<Rightarrow> 'x machine \<Rightarrow> 'x machine \<Rightarrow> bool" where
  "rest_kept rs m m' \<longleftrightarrow> (\<forall>r < 32. r \<notin> rs \<longrightarrow> rd m' r = rd m r) \<and> csrs m' Sscratch = csrs m Sscratch
    \<and> csrs m' Sstatus AND SR_IE = csrs m Sstatus AND SR_IE"

lemma rd_wr: "rd (wr r v m) q = (if q = r \<and> r \<noteq> 0 then v else rd m q)"
  by (simp add: rd_def)

lemma rest_kept_wr: "rest_kept rs m n \<Longrightarrow> r \<in> rs \<Longrightarrow> rest_kept rs m (wr r v n)"
  by (auto simp: rest_kept_def rd_wr)

lemma same_context_kept: "same_context m n \<Longrightarrow> rest_kept rs m n"
  by (simp add: same_context_def rest_kept_def)

lemma access_outcome:
  assumes "c_contract k (page_fault_effect envs)" and "access_fits u envs" and "csrs m Sscratch = 0"
    and "(access_step u k accessible)\<^sup>*\<^sup>* (insn_at u, m) (insn_at u + 4, m')"
  obtains (made) n where "same_context m n" "accessible n (rd m (ptr_reg u))" "m' = exec (access u) n"
    | (fixed) n v where "same_context m n" "m' = wr (tmp_reg u) v (run (fixup u) n)"
  using access_steps [OF assms] by (auto simp: access_inv_def)

text \<open>An access that the machine cannot make, at an address of no area, ends at its fixup.\<close>

definition unmapped :: "u32 fault_env set \<Rightarrow> ('x machine \<Rightarrow> u32 \<Rightarrow> bool) \<Rightarrow> u32 \<Rightarrow> bool" where
  "unmapped envs accessible a \<longleftrightarrow> (\<forall>n. \<not> accessible n a) \<and> (\<forall>env \<in> envs. no_area env a)"

lemma unmapped_access:
  assumes k: "c_contract k (page_fault_effect envs)" and u: "access_fits u envs" and m: "csrs m Sscratch = 0"
    and a: "unmapped envs accessible (rd m (ptr_reg u))"
    and handler: "handler_returns k (insn_at u) (rd m (ptr_reg u))"
  shows "\<exists>m'. (access_step u k accessible)\<^sup>*\<^sup>* (insn_at u, m) (insn_at u + 4, m')"
proof -
  have u': "fault_cause u \<in> {EXC_LOAD_ACCESS, EXC_STORE_ACCESS}" "fixes_at envs (insn_at u) (fixup_at u)"
    using u by (simp_all add: access_fits_def)
  obtain n where n: "handle_exception k (take_trap (insn_at u) (fault_cause u) (rd m (ptr_reg u)) m) = Some n"
    using kernel_fault_returns [OF k u'(1) handler] by blast
  have "csrs n Sepc = fixup_at u"
    using kernel_fault(3) [OF k u'(2,1) m n] a by (simp add: unmapped_def)
  then have "access_step u k accessible (insn_at u, m) (fixup_at u, sret n)"
    using access_step.fault [OF _ n, of accessible] a by (simp add: unmapped_def)
  then show ?thesis using access_step.fixed [of u k accessible "sret n"] by (blast intro: converse_rtranclp_into_rtranclp)
qed

section \<open>An example\<close>

text \<open>
  A kernel whose handler knows one instruction: in the kernel it sends a fault of it to its fixup,
  and does not return from any other.
\<close>

definition no_mm_env :: "u32 fault_env" where
  "no_mm_env = example_fault_env\<lparr>has_mm := False\<rparr>"

definition fault_kernel :: "unit kernel" where
  "fault_kernel = example_kernel\<lparr>c_code := \<lambda>f m.
     if f = C_handler Do_page_fault then
       (let fr = frame_at (mem m) (gpr m 2)
        in if \<not> user_mode fr \<and> sepc fr = 0xc0000100 \<and> no_area no_mm_env (sbadaddr fr)
           then Some (store_word (gpr m 2 + PT PT_SEPC) 0xc0000200 m) else None)
     else c_code example_kernel f m\<rparr>"

definition fault_start :: "unit machine" where
  "fault_start = \<lparr>gpr = (\<lambda>r. of_nat (100 + r))(2 := 0xc0002000, 14 := 0, 15 := 0x10000),
     csrs = (\<lambda>_. 0)(Sstatus := 0x100), mem = \<lambda>_. 0, world = ()\<rparr>"

lemma no_mm_simps [simp]:
  "search_exception_tables (traps no_mm_env) 0xc0000100 = Some 0xc0000200" "traps no_mm_env = Traps.example_env"
  by (simp_all add: no_mm_env_def example_fault_env_def Traps.example_env_def)

lemma fault_handler:
  assumes "\<not> user_mode fr" and "sepc fr = 0xc0000100" and "no_area no_mm_env (sbadaddr fr)"
  shows "f_ending (do_page_fault no_mm_env fr 0 [] []) = Returned"
    and "f_regs (do_page_fault no_mm_env fr 0 [] []) = fr\<lparr>sepc := 0xc0000200\<rparr>"
proof -
  show "f_regs (do_page_fault no_mm_env fr 0 [] []) = fr\<lparr>sepc := 0xc0000200\<rparr>"
    by (rule page_fault_no_area [OF assms(1,3)]) (simp add: assms(2) del: no_mm_simps(2))
  show "f_ending (do_page_fault no_mm_env fr 0 [] []) = Returned"
    using assms by (auto simp: do_page_fault_def no_area_def Let_def attempt_unmapped bad_area_def no_context_def
        fixup_exception_def finish_def Traps.example_env_def)
qed

lemma fault_contract: "c_contract fault_kernel (page_fault_effect {no_mm_env})"
  unfolding c_contract_def
proof (intro allI impI)
  fix f and m m' :: "unit machine"
  assume run: "c_code fault_kernel f m = Some m'"
  show "(\<forall>r \<in> set callee_saved. gpr m' r = gpr m r) \<and> csrs m' Sscratch = csrs m Sscratch
    \<and> page_fault_effect {no_mm_env} f (\<lambda>i. gpr m (10 + i)) (frame_at (mem m) (gpr m 2)) (frame_at (mem m') (gpr m 2)) (gpr m' 10)"
  proof (cases "f = C_handler Do_page_fault")
    case True
    let ?fr = "frame_at (mem m) (gpr m 2)"
    have fr: "\<not> user_mode ?fr" "sepc ?fr = 0xc0000100" "no_area no_mm_env (sbadaddr ?fr)"
      and m': "m' = store_word (gpr m 2 + PT PT_SEPC) 0xc0000200 m"
      using run True by (auto simp: fault_kernel_def Let_def split: if_splits)
    have "page_fault_effect {no_mm_env} f args ?fr (?fr\<lparr>sepc := 0xc0000200\<rparr>) v" for args v
      using fault_handler [OF fr] by (force simp: page_fault_effect_def Let_def)
    then show ?thesis by (simp add: m')
  next
    case False
    then have "c_code example_kernel f m = Some m'" using run by (simp add: fault_kernel_def)
    then show ?thesis
      using example_contract False unfolding c_contract_def by (simp add: page_fault_effect_def)
  qed
qed

lemma fault_fixes: "fixes_at {no_mm_env} 0xc0000100 0xc0000200"
  by (simp add: fixes_at_def del: no_mm_simps(2))

lemma fault_regs: "regs_apart 10 14 15 5"
  by (simp add: regs_apart_def)

section \<open>Properties\<close>

text \<open>
  C5: \<^verbatim>\<open>__get_user\<close> on the machine: whatever faults its load takes on the way, and whatever the
  memory core answers to each, the code behind it finds either no error and in \<open>x\<close> the word that
  memory held at the user's address when the load was made, or \<^verbatim>\<open>-EFAULT\<close> and \<open>x\<close> zero;
  apart from these two and the temporary register no register has changed, nor the interrupt flag.
\<close>

theorem get_user_on_machine:
  fixes k :: "'x kernel" and m m' :: "'x machine"
  assumes "c_contract k (page_fault_effect envs)" and "fixes_at envs label1 label3"
    and "label3 \<notin> {label1, label1 + 4}" and "regs_apart x err ptr tmp"
    and "csrs m Sscratch = 0" and "rd m err = 0"
    and "(access_step (get_user_lw label1 label3 x err ptr tmp) k accessible)\<^sup>*\<^sup>* (label1, m) (label1 + 4, m')"
  shows "(rd m' err = 0 \<and> (\<exists>n. accessible n (rd m ptr) \<and> mem n = mem m' \<and> rd m' x = mem n (rd m ptr))
      \<or> rd m' err = - EFAULT \<and> rd m' x = 0)
    \<and> rest_kept {x, err, tmp} m m'"
proof -
  let ?u = "get_user_lw label1 label3 x err ptr tmp"
  have r: "x \<noteq> err" "x \<noteq> ptr" "x \<noteq> tmp" "err \<noteq> ptr" "err \<noteq> tmp" "x \<noteq> 0" "err \<noteq> 0" "tmp \<noteq> 0" "ptr < 32" "err < 32"
    using assms(4) by (auto simp: regs_apart_def)
  have ok: "access_fits ?u envs" using assms(2,3) r by (simp add: access_fits_def get_user_lw_def)
  have run: "(access_step ?u k accessible)\<^sup>*\<^sup>* (insn_at ?u, m) (insn_at ?u + 4, m')"
    using assms(7) by (simp only: get_user_lw_at)
  show ?thesis using assms(1) ok assms(5) run
  proof (cases rule: access_outcome)
    case (made n)
    then have m': "m' = wr x (mem n (rd n ptr)) n" and acc: "accessible n (rd m ptr)" by (simp_all add: get_user_lw_def)
    have "rd n err = 0" "rd n ptr = rd m ptr"
      using same_context_rd [OF made(1)] r(9,10) assms(6) by metis+
    then have "rd m' x = mem n (rd m ptr)" "rd m' err = 0" "mem n = mem m'"
      using r by (simp_all add: m' rd_wr del: rd_simps(2))
    moreover have "rest_kept {x, err, tmp} m m'"
      unfolding m' using same_context_kept [OF made(1)] by (simp add: rest_kept_wr)
    ultimately show ?thesis using acc by auto
  next
    case (fixed n v)
    then have m': "m' = wr tmp v (wr x 0 (wr err (- EFAULT) n))" by (simp add: get_user_lw_def)
    have "rd m' x = 0" "rd m' err = - EFAULT" using r by (simp_all add: m' rd_wr)
    moreover have "rest_kept {x, err, tmp} m m'"
      unfolding m' using same_context_kept [OF fixed(1)] by (simp add: rest_kept_wr)
    ultimately show ?thesis by blast
  qed
qed

text \<open>
  \<^verbatim>\<open>__put_user\<close> on the machine: the code behind it finds either no error and the word stored
  at the user's address, with no other word of memory changed by the store, or \<^verbatim>\<open>-EFAULT\<close> and
  no store made; no other register than the error and the temporary has changed.
\<close>

theorem put_user_on_machine:
  fixes k :: "'x kernel" and m m' :: "'x machine"
  assumes "c_contract k (page_fault_effect envs)" and "fixes_at envs label1 label3"
    and "label3 \<notin> {label1, label1 + 4}" and "regs_apart x err ptr tmp"
    and "csrs m Sscratch = 0" and "rd m err = 0"
    and "(access_step (put_user_sw label1 label3 x err ptr tmp) k accessible)\<^sup>*\<^sup>* (label1, m) (label1 + 4, m')"
  shows "(rd m' err = 0 \<and> (\<exists>n. accessible n (rd m ptr) \<and> same_context m n \<and> mem m' = (mem n)(rd m ptr := rd m x))
      \<or> rd m' err = - EFAULT \<and> (\<exists>n. same_context m n \<and> mem m' = mem n))
    \<and> rest_kept {err, tmp} m m'"
proof -
  let ?u = "put_user_sw label1 label3 x err ptr tmp"
  have r: "x \<noteq> err" "x \<noteq> ptr" "x \<noteq> tmp" "err \<noteq> ptr" "err \<noteq> tmp" "x \<noteq> 0" "err \<noteq> 0" "tmp \<noteq> 0" "ptr < 32" "err < 32" "x < 32"
    using assms(4) by (auto simp: regs_apart_def)
  have ok: "access_fits ?u envs" using assms(2,3) r by (simp add: access_fits_def put_user_sw_def)
  have run: "(access_step ?u k accessible)\<^sup>*\<^sup>* (insn_at ?u, m) (insn_at ?u + 4, m')"
    using assms(7) by (simp only: put_user_sw_at)
  show ?thesis using assms(1) ok assms(5) run
  proof (cases rule: access_outcome)
    case (made n)
    then have m': "m' = store_word (rd n ptr) (rd n x) n" and acc: "accessible n (rd m ptr)" by (simp_all add: put_user_sw_def)
    have "rd n err = 0" "rd n ptr = rd m ptr" "rd n x = rd m x"
      using same_context_rd [OF made(1)] r(9-11) assms(6) by metis+
    then have "mem m' = (mem n)(rd m ptr := rd m x)" "rd m' err = 0"
      by (simp_all add: m' del: rd_simps(2))
    moreover have "rest_kept {err, tmp} m m'"
      unfolding m' using same_context_kept [OF made(1), of "{err, tmp}"] by (simp add: rest_kept_def)
    ultimately show ?thesis using acc made(1) by auto
  next
    case (fixed n v)
    then have m': "m' = wr tmp v (wr err (- EFAULT) n)" by (simp add: put_user_sw_def)
    have "rd m' err = - EFAULT" "mem m' = mem n" using r by (simp_all add: m' rd_wr)
    moreover have "rest_kept {err, tmp} m m'"
      unfolding m' using same_context_kept [OF fixed(1)] by (simp add: rest_kept_wr)
    ultimately show ?thesis using fixed(1) by auto
  qed
qed

text \<open>
  C22: A load of the kernel from an address outside every area of the process cannot hang: if the
  handler of page faults returns, the code behind the access is reached, and every way there brings
  \<^verbatim>\<open>-EFAULT\<close> and zero.
\<close>

theorem get_user_unmapped:
  fixes k :: "'x kernel" and m :: "'x machine"
  assumes "c_contract k (page_fault_effect envs)" and "fixes_at envs label1 label3"
    and "label3 \<notin> {label1, label1 + 4}" and "regs_apart x err ptr tmp" and "csrs m Sscratch = 0"
    and "unmapped envs accessible (rd m ptr)"
    and "handler_returns k label1 (rd m ptr)"
  defines "arrives \<equiv> \<lambda>m'. (access_step (get_user_lw label1 label3 x err ptr tmp) k accessible)\<^sup>*\<^sup>* (label1, m) (label1 + 4, m')"
  shows "(\<exists>m'. arrives m') \<and> (\<forall>m'. arrives m' \<longrightarrow> rd m' err = - EFAULT \<and> rd m' x = 0)"
proof -
  let ?u = "get_user_lw label1 label3 x err ptr tmp"
  have r: "x \<noteq> err" "x \<noteq> tmp" "err \<noteq> tmp" "x \<noteq> 0" "err \<noteq> 0" "tmp \<noteq> 0" "ptr < 32"
    using assms(4) by (auto simp: regs_apart_def)
  have ok: "access_fits ?u envs" using assms(2,3) r by (simp add: access_fits_def get_user_lw_def)
  have bad: "unmapped envs accessible (rd m (ptr_reg ?u))" using assms(6) by (simp add: get_user_lw_def)
  have arrives: "arrives m' \<longleftrightarrow> (access_step ?u k accessible)\<^sup>*\<^sup>* (insn_at ?u, m) (insn_at ?u + 4, m')" for m'
    by (simp only: arrives_def get_user_lw_at)
  have "rd m' err = - EFAULT \<and> rd m' x = 0" if "arrives m'" for m'
    using assms(1) ok assms(5) that [unfolded arrives]
  proof (cases rule: access_outcome)
    case (made n)
    then show ?thesis using bad by (simp add: unmapped_def)
  next
    case (fixed n v)
    then show ?thesis using r by (simp add: get_user_lw_def rd_wr)
  qed
  then show ?thesis using unmapped_access [OF assms(1) ok assms(5) bad] assms(7)
    unfolding arrives by (simp add: get_user_lw_def)
qed

lemma fault_start_facts:
  "csrs fault_start Sscratch = 0" "rd fault_start 14 = 0" "rd fault_start 15 = 0x10000"
  "unmapped {no_mm_env} (\<lambda>_ _. False) (rd fault_start 15)" "handler_returns fault_kernel 0xc0000100 0x10000"
proof -
  have a: "no_area no_mm_env 0x10000"
    by (simp add: no_area_def no_mm_env_def VMALLOC_START_def PAGE_OFFSET_def)
  show "csrs fault_start Sscratch = 0" "rd fault_start 14 = 0" and p: "rd fault_start 15 = 0x10000"
    by (simp_all add: fault_start_def)
  show "unmapped {no_mm_env} (\<lambda>_ _. False) (rd fault_start 15)" unfolding p by (simp add: unmapped_def a)
  show "handler_returns fault_kernel 0xc0000100 0x10000"
    using a by (simp add: handler_returns_def fault_kernel_def Let_def)
qed

lemma fault_run:
  "\<exists>m'. (access_step (get_user_lw 0xc0000100 0xc0000200 10 14 15 5) fault_kernel (\<lambda>_ _. False))\<^sup>*\<^sup>*
    (0xc0000100, fault_start) (0xc0000104, m')"
proof -
  let ?u = "get_user_lw 0xc0000100 0xc0000200 10 14 15 5"
  have u: "access_fits ?u {no_mm_env}" using fault_fixes by (simp add: access_fits_def get_user_lw_def)
  have "unmapped {no_mm_env} (\<lambda>_ _. False) (rd fault_start (ptr_reg ?u))"
      "handler_returns fault_kernel (insn_at ?u) (rd fault_start (ptr_reg ?u))"
    using fault_start_facts(3-5) by (simp_all add: get_user_lw_def)
  from unmapped_access [OF fault_contract u fault_start_facts(1) this] show ?thesis
    by (simp add: get_user_lw_def)
qed

theorem get_user_on_machine_witness:
  "\<exists>m'. (access_step (get_user_lw 0xc0000100 0xc0000200 10 14 15 5) fault_kernel (\<lambda>_ _. False))\<^sup>*\<^sup>*
      (0xc0000100, fault_start) (0xc0000104, m') \<and> rd m' 14 = - EFAULT \<and> rd m' 2 = 0xc0002000"
proof -
  obtain m' where run: "(access_step (get_user_lw 0xc0000100 0xc0000200 10 14 15 5) fault_kernel (\<lambda>_ _. False))\<^sup>*\<^sup>*
      (0xc0000100, fault_start) (0xc0000100 + 4, m')"
    using fault_run by auto
  from get_user_on_machine [OF fault_contract fault_fixes _ fault_regs fault_start_facts(1,2) run]
  have "rd m' 14 = - EFAULT" "rest_kept {10, 14, 5} fault_start m'" by simp_all
  moreover from this(2) have "rd m' 2 = rd fault_start 2" unfolding rest_kept_def by (simp del: rd_simps(2))
  then have "rd m' 2 = 0xc0002000" by (simp add: fault_start_def)
  ultimately show ?thesis using run by auto
qed

theorem get_user_unmapped_witness:
  "\<exists>m'. (access_step (get_user_lw 0xc0000100 0xc0000200 10 14 15 5) fault_kernel (\<lambda>_ _. False))\<^sup>*\<^sup>*
      (0xc0000100, fault_start) (0xc0000104, m') \<and> rd m' 14 = - EFAULT \<and> rd m' 10 = 0"
  using get_user_unmapped [OF fault_contract fault_fixes _ fault_regs fault_start_facts(1,4)
      fault_start_facts(5) [folded fault_start_facts(3)]] by auto

theorem put_user_on_machine_witness:
  "(access_step (put_user_sw 0xc0000100 0xc0000200 10 14 15 5) fault_kernel (\<lambda>_ a. a = 0x10000))\<^sup>*\<^sup>*
      (0xc0000100, fault_start) (0xc0000104, store_word 0x10000 110 fault_start)
    \<and> (\<exists>n. same_context fault_start n \<and> mem (store_word 0x10000 110 fault_start) = (mem n)(0x10000 := 110))"
proof -
  let ?u = "put_user_sw 0xc0000100 0xc0000200 10 14 15 5" and ?acc = "\<lambda>(_ :: unit machine) a. a = (0x10000 :: u32)"
  have "access_step ?u fault_kernel ?acc (insn_at ?u, fault_start) (insn_at ?u + 4, exec (access ?u) fault_start)"
    by (rule access_step.done_at) (simp add: put_user_sw_def fault_start_def)
  then have "access_step ?u fault_kernel ?acc (0xc0000100, fault_start) (0xc0000100 + 4, store_word 0x10000 110 fault_start)"
    by (simp add: put_user_sw_def fault_start_def)
  then have run: "(access_step ?u fault_kernel ?acc)\<^sup>*\<^sup>* (0xc0000100, fault_start) (0xc0000100 + 4, store_word 0x10000 110 fault_start)"
    by (rule r_into_rtranclp)
  have e: "rd (store_word 0x10000 110 fault_start) 14 = 0" "rd fault_start 10 = 110" by (simp_all add: fault_start_def)
  from put_user_on_machine [OF fault_contract fault_fixes _ fault_regs fault_start_facts(1,2) run]
  obtain n where "same_context fault_start n" "mem (store_word 0x10000 110 fault_start) = (mem n)(0x10000 := 110)"
    using e fault_start_facts(3) by (auto simp: EFAULT_def)
  then show ?thesis using run by auto
qed

end
