(* ===== verification/AddressSpace.thy ===== *)
theory AddressSpace
  imports PageWalk "HOL-Library.Multiset"
begin

text \<open>
  The life of an address space on the 32-bit machine: the functions of \<^verbatim>\<open>asm/pgalloc.h\<close> that get
  pages for tables and give them back, together with the writes of entries, in any order in which the
  memory core may call them. The page allocator is a parameter; its state is part of the model, with
  the free pages as a multiset, so that a page that is lost or freed twice shows.
\<close>

section \<open>State and operations\<close>

text \<open>
  Memory, the free pages by their addresses, and the pages that \<^verbatim>\<open>pgtable_page_ctor\<close> made tables. A
  page that is freed while it is free is there twice.
\<close>

record space =
  contents :: words
  free_pages :: "u32 multiset"
  table_pages :: "u32 set"

text \<open>
  \<^verbatim>\<open>__get_free_page\<close>, with the flag \<^verbatim>\<open>__GFP_ZERO\<close> or without, \<^verbatim>\<open>free_page\<close>, and the
  constructor of a page of tables, which tells whether it succeeded, with its destructor. A
  \<^verbatim>\<open>struct page\<close> is represented by the address of its page.
\<close>

record allocator =
  get_free_page :: "bool \<Rightarrow> space \<Rightarrow> (u32 \<times> space) option"
  free_page :: "u32 \<Rightarrow> space \<Rightarrow> space"
  pgtable_page_ctor :: "u32 \<Rightarrow> space \<Rightarrow> bool \<times> space"
  pgtable_page_dtor :: "u32 \<Rightarrow> space \<Rightarrow> space"

definition pte_alloc_one_kernel :: "allocator \<Rightarrow> space \<Rightarrow> (u32 \<times> space) option" where
  "pte_alloc_one_kernel A s = get_free_page A True s"

text \<open>The result of the constructor is not looked at.\<close>

definition pte_alloc_one :: "allocator \<Rightarrow> space \<Rightarrow> (u32 \<times> space) option" where
  "pte_alloc_one A s =
    (case get_free_page A True s of
       None \<Rightarrow> None
     | Some (pte, s) \<Rightarrow> Some (pte, snd (pgtable_page_ctor A pte s)))"

definition pte_free_kernel :: "allocator \<Rightarrow> u32 \<Rightarrow> space \<Rightarrow> space" where
  "pte_free_kernel A pte s = free_page A pte s"

definition pte_free :: "allocator \<Rightarrow> u32 \<Rightarrow> space \<Rightarrow> space" where
  "pte_free A pte s = free_page A pte (pgtable_page_dtor A pte s)"

definition pgd_free :: "allocator \<Rightarrow> u32 \<Rightarrow> space \<Rightarrow> space" where
  "pgd_free A pgd s = free_page A pgd s"

text \<open>A page as the list of its words, on which \<open>pgd_alloc\<close> works.\<close>

definition read_page :: "words \<Rightarrow> u32 \<Rightarrow> u32 list" where
  "read_page m p = map (\<lambda>i. m (p + 4 * of_nat i)) [0..<1024]"

definition write_page :: "u32 \<Rightarrow> u32 list \<Rightarrow> words \<Rightarrow> words" where
  "write_page p xs m =
    (\<lambda>a. if unat (a - p) < 4096 \<and> unat (a - p) mod 4 = 0 then xs ! (unat (a - p) div 4) else m a)"

definition pgd_alloc_page :: "allocator \<Rightarrow> u32 \<Rightarrow> space \<Rightarrow> (u32 \<times> space) option" where
  "pgd_alloc_page A init_pgd s =
    (case get_free_page A False s of
       None \<Rightarrow> None
     | Some (pgd, s) \<Rightarrow>
         map_option (\<lambda>xs. (pgd, s\<lparr>contents := write_page pgd xs (contents s)\<rparr>))
           (pgd_alloc (read_page (contents s) init_pgd) (Some (read_page (contents s) pgd))))"

section \<open>The uses of the memory core\<close>

text \<open>
  What the memory core does with the tables of a process, at addresses of the user: it gets a table
  for a region that has none, writes and clears entries of a region that has one, and gives a table
  back once it is empty. \<open>None\<close> is a use outside these conditions, or no memory.
\<close>

datatype mm_op = Get_table u32 | Map_page u32 "u32 pte_t" | Unmap_page u32 | Put_table u32

definition empty_table :: "words \<Rightarrow> u32 \<Rightarrow> bool" where
  "empty_table m t = list_all (\<lambda>i. \<not> pte_present (Pte (m (t + 4 * of_nat i)))) [0..<1024]"

definition mm_step :: "allocator \<Rightarrow> u32 mem_layout \<Rightarrow> u32 \<Rightarrow> mm_op \<Rightarrow> space \<Rightarrow> space option" where
  "mm_step A L pgd op s =
    (case op of
       Get_table addr \<Rightarrow>
         if addr < TASK_SIZE \<and> \<not> pmd_present (pmd_at (contents s) pgd addr)
         then map_option (\<lambda>(pte, s). s\<lparr>contents := pmd_populate L (pgd_offset pgd addr) pte (contents s)\<rparr>)
                (pte_alloc_one A s)
         else None
     | Map_page addr v \<Rightarrow>
         let pmd = pmd_at (contents s) pgd addr
         in if addr < TASK_SIZE \<and> pmd_present pmd
            then Some (s\<lparr>contents := set_pte_at (pte_offset_kernel L pmd addr) v (contents s)\<rparr>) else None
     | Unmap_page addr \<Rightarrow>
         let pmd = pmd_at (contents s) pgd addr
         in if addr < TASK_SIZE \<and> pmd_present pmd
            then Some (s\<lparr>contents := pte_clear (pte_offset_kernel L pmd addr) (contents s)\<rparr>) else None
     | Put_table addr \<Rightarrow>
         let pmd = pmd_at (contents s) pgd addr; pte = pmd_page_vaddr L pmd
         in if addr < TASK_SIZE \<and> pmd_present pmd \<and> empty_table (contents s) pte
            then Some (pte_free A pte (s\<lparr>contents := pmd_clear (pgd_offset pgd addr) (contents s)\<rparr>)) else None)"

fun mm_run :: "allocator \<Rightarrow> u32 mem_layout \<Rightarrow> u32 \<Rightarrow> mm_op list \<Rightarrow> space \<Rightarrow> space option" where
  "mm_run A L pgd [] s = Some s"
| "mm_run A L pgd (op # ops) s = (case mm_step A L pgd op s of None \<Rightarrow> None | Some s \<Rightarrow> mm_run A L pgd ops s)"

section \<open>The abstract address space\<close>

text \<open>A partial function from addresses to entries, the same for all addresses of a page.\<close>

fun mm_spec :: "mm_op \<Rightarrow> (u32 \<Rightarrow> u32 pte_t option) \<Rightarrow> u32 \<Rightarrow> u32 pte_t option" where
  "mm_spec (Map_page addr v) w =
    (\<lambda>a. if drop_bit 12 a = drop_bit 12 addr then if pte_present v then Some v else None else w a)"
| "mm_spec (Unmap_page addr) w = (\<lambda>a. if drop_bit 12 a = drop_bit 12 addr then None else w a)"
| "mm_spec _ w = w"

section \<open>The contract of the allocator\<close>

text \<open>
  A page that is got was free and is there once less, it is zero if asked for, and nothing else in
  memory changes; freeing adds the page, whether it is free or not, and changes no memory outside it. Free pages are aligned. A constructor
  that succeeds registers the page, one that fails does nothing, and the destructor takes the page
  out.
\<close>

definition outside :: "u32 \<Rightarrow> u32 \<Rightarrow> bool" where
  "outside p a \<longleftrightarrow> drop_bit 12 a \<noteq> drop_bit 12 p"

definition get_page_ok :: "bool \<Rightarrow> space \<Rightarrow> u32 \<Rightarrow> space \<Rightarrow> bool" where
  "get_page_ok z s p s' \<longleftrightarrow>
    p \<in># free_pages s \<and> p AND NOT PAGE_MASK = 0 \<and> free_pages s' = free_pages s - {#p#} \<and> table_pages s' = table_pages s
    \<and> (\<forall>a. outside p a \<longrightarrow> contents s' a = contents s a)
    \<and> (z \<longrightarrow> (\<forall>i. contents s' (p + 4 * (i AND mask 10)) = 0))"

definition free_page_ok :: "u32 \<Rightarrow> space \<Rightarrow> space \<Rightarrow> bool" where
  "free_page_ok p s s' \<longleftrightarrow>
    free_pages s' = add_mset p (free_pages s) \<and> table_pages s' = table_pages s
    \<and> (\<forall>a. outside p a \<longrightarrow> contents s' a = contents s a)"

definition allocator_ok :: "allocator \<Rightarrow> bool" where
  "allocator_ok A \<longleftrightarrow>
    (\<forall>z s p s'. get_free_page A z s = Some (p, s') \<longrightarrow> get_page_ok z s p s')
    \<and> (\<forall>p s. free_page_ok p s (free_page A p s))
    \<and> (\<forall>p s. snd (pgtable_page_ctor A p s) =
         (if fst (pgtable_page_ctor A p s) then s\<lparr>table_pages := insert p (table_pages s)\<rparr> else s))
    \<and> (\<forall>p s. pgtable_page_dtor A p s = s\<lparr>table_pages := table_pages s - {p}\<rparr>)"

section \<open>Pages and slots\<close>

lemma in_page:
  assumes "p AND NOT PAGE_MASK = (0 :: u32)" "unat x < 4096"
  shows "drop_bit 12 (p + x) = drop_bit 12 p"
proof -
  have p: "take_bit 12 p = 0" using assms(1) by (simp add: page_aligned)
  have s: "p + x = p OR x" and t: "take_bit 12 (p + x) = x"
    using page_and_offset [of 12 p x] p assms(2) by simp_all
  have "drop_bit 12 (take_bit 12 y) = 0" for y :: u32 by (rule bit_word_eqI) (auto simp: bit_simps)
  then have "drop_bit 12 x = 0" using t by metis
  then show ?thesis by (simp add: s)
qed

lemma slot_small: "unat (4 * (i AND mask 10) :: u32) = 4 * unat (i AND mask 10)" "unat (i AND mask 10 :: u32) < 1024"
proof -
  show b: "unat (i AND mask 10 :: u32) < 1024" by (simp add: unat_and_mask_word)
  then show "unat (4 * (i AND mask 10) :: u32) = 4 * unat (i AND mask 10)" by (simp add: unat_mult_word)
qed

lemma aligned_eq:
  assumes "p AND NOT PAGE_MASK = (0 :: u32)" "q AND NOT PAGE_MASK = 0" "drop_bit 12 p = drop_bit 12 q"
  shows "p = q"
proof -
  have "push_bit 12 (drop_bit 12 x) = x" if "x AND NOT PAGE_MASK = 0" for x :: u32
    using that aligned_page [of x] by (simp add: page_aligned)
  then show ?thesis using assms by metis
qed

lemma slot_outside:
  assumes "p AND NOT PAGE_MASK = 0" "q AND NOT PAGE_MASK = (0 :: u32)" "p \<noteq> q"
  shows "outside p (q + 4 * (i AND mask 10))"
proof -
  have "drop_bit 12 (q + 4 * (i AND mask 10)) = drop_bit 12 q"
    using in_page [OF assms(2)] slot_small [of i] by simp
  then show ?thesis using aligned_eq [OF assms(1,2)] assms(3) unfolding outside_def by metis
qed

lemma entry_slots:
  "pgd_offset (pgd :: u32) a = pgd + 4 * (drop_bit 22 a AND mask 10)"
  "pte_offset_kernel L pmd a = pmd_page_vaddr L pmd + 4 * (drop_bit 12 (a :: u32) AND mask 10)"
  by (simp_all add: pgd_offset_def pte_offset_kernel_def index_mask)

lemma walk_same:
  assumes "\<And>b. m' (pgd_offset pgd b) = m (pgd_offset pgd b)"
    and "\<And>b. pmd_present (pmd_at m pgd b) \<Longrightarrow> m' (pte_offset_kernel L (pmd_at m pgd b) b) = m (pte_offset_kernel L (pmd_at m pgd b) b)"
  shows "walk_tables L m' pgd = walk_tables L m pgd" and "pmd_at m' pgd = pmd_at m pgd"
proof -
  show pmd: "pmd_at m' pgd = pmd_at m pgd" by (rule ext) (simp only: pmd_at_def assms(1))
  have "walk_tables L m' pgd b = walk_tables L m pgd b" for b
    unfolding walk_tables_def pmd using assms(2) [of b] by (cases "pmd_present (pmd_at m pgd b)") (simp_all add: pmd_bad_def Let_def)
  then show "walk_tables L m' pgd = walk_tables L m pgd" by (rule ext)
qed

lemma tables_ok_cong: "pmd_at m' pgd = pmd_at m pgd \<Longrightarrow> tables_ok L m' pgd = tables_ok L m pgd"
  by (simp add: tables_ok_def table_at_def)

text \<open>A page that is no part of the tables may change.\<close>

lemma unrelated_page:
  assumes "tables_ok L m pgd" and "p AND NOT PAGE_MASK = 0" "p \<noteq> pgd"
    and "\<And>b. pmd_present (pmd_at m pgd b) \<Longrightarrow> table_at L m pgd b \<noteq> p" and "\<And>a. outside p a \<Longrightarrow> m' a = m a"
  shows "walk_tables L m' pgd = walk_tables L m pgd" and "pmd_at m' pgd = pmd_at m pgd"
proof -
  have al: "pgd AND NOT PAGE_MASK = 0" "va_pa_offset L AND NOT PAGE_MASK = 0" using assms(1) by (simp_all add: tables_ok_def)
  have 1: "m' (pgd_offset pgd b) = m (pgd_offset pgd b)" for b
    unfolding entry_slots using slot_outside [OF assms(2) al(1) assms(3)] assms(5) by blast
  have 2: "m' (pte_offset_kernel L (pmd_at m pgd b) b) = m (pte_offset_kernel L (pmd_at m pgd b) b)"
    if "pmd_present (pmd_at m pgd b)" for b
  proof -
    have "pmd_page_vaddr L (pmd_at m pgd b) AND NOT PAGE_MASK = 0" using table_aligned [OF al(2)] by simp
    moreover have "p \<noteq> pmd_page_vaddr L (pmd_at m pgd b)" using assms(4) [OF that] by (auto simp: table_at_def)
    ultimately show ?thesis unfolding entry_slots using slot_outside [OF assms(2)] assms(5) by blast
  qed
  show "walk_tables L m' pgd = walk_tables L m pgd" "pmd_at m' pgd = pmd_at m pgd"
    using walk_same [OF 1 2] by blast+
qed

text \<open>An entry of the directory that is written.\<close>

lemma set_pmd_at:
  assumes "pgd AND NOT PAGE_MASK = (0 :: u32)"
  shows "pmd_at (set_pmd (pgd_offset pgd addr) e m) pgd b = (if pgd_index b = pgd_index addr then e else pmd_at m pgd b)"
proof -
  have "pgd_offset pgd b = pgd_offset pgd addr \<longleftrightarrow> pgd_index b = pgd_index addr"
    using same_slot [OF assms assms] by (simp add: entry_slots index_mask)
  then show ?thesis by (simp add: pmd_at_def set_pmd_def)
qed

lemmas pmd_clear_at = set_pmd_at [where e = "Pmd 0", folded pmd_clear_def]

lemma pmd_clear_walks:
  fixes addr :: u32
  assumes "tables_ok L m pgd"
  defines "m' \<equiv> pmd_clear (pgd_offset pgd addr) m"
  shows "walk_tables L m' pgd b = (if pgd_index b = pgd_index addr then None else walk_tables L m pgd b)"
    and "tables_ok L m' pgd"
proof -
  have al: "pgd AND NOT PAGE_MASK = 0" "va_pa_offset L AND NOT PAGE_MASK = 0" using assms(1) by (simp_all add: tables_ok_def)
  note pmd = pmd_clear_at [OF al(1), of addr m, folded m'_def]
  have absent: "\<not> pmd_present (Pmd (0 :: u32))" by (simp add: pmd_present_def)
  show "tables_ok L m' pgd" using assms(1) absent unfolding tables_ok_def table_at_def pmd by (simp split: if_splits)
  have "m' (pte_offset_kernel L (pmd_at m pgd b) b) = m (pte_offset_kernel L (pmd_at m pgd b) b)"
    if "pmd_present (pmd_at m pgd b)"
  proof -
    have "table_at L m pgd b \<noteq> pgd" using assms(1) that by (simp add: tables_ok_def)
    moreover have "pmd_page_vaddr L (pmd_at m pgd b) AND NOT PAGE_MASK = 0" using table_aligned [OF al(2)] by simp
    ultimately have "pte_offset_kernel L (pmd_at m pgd b) b \<noteq> pgd_offset pgd addr"
      using same_slot [OF _ al(1)] by (simp add: entry_slots table_at_def)
    then show ?thesis by (simp add: m'_def pmd_clear_def set_pmd_def)
  qed
  then show "walk_tables L m' pgd b = (if pgd_index b = pgd_index addr then None else walk_tables L m pgd b)"
    using absent by (auto simp: walk_tables_def pmd pmd_bad_def Let_def)
qed

section \<open>What a process owns\<close>

text \<open>The free pages as a set, and that each of them is free once.\<close>

abbreviation free_set :: "space \<Rightarrow> u32 set" where
  "free_set s \<equiv> set_mset (free_pages s)"

definition once :: "u32 multiset \<Rightarrow> bool" where
  "once M \<longleftrightarrow> (\<forall>p. count M p \<le> 1)"

lemma once_count:
  assumes "once M"
  shows "count M p = (if p \<in># M then 1 else 0)"
proof -
  have "count M p \<le> 1" using assms by (simp add: once_def)
  then show ?thesis using count_greater_zero_iff [of M p] not_in_iff [of p M] by (cases "p \<in># M") (simp_all add: le_antisym Suc_leI)
qed

lemma once_eqI: "once M \<Longrightarrow> once N \<Longrightarrow> set_mset M = set_mset N \<Longrightarrow> M = N"
  by (rule multiset_eqI) (simp add: once_count)

lemma once_add: "p \<notin># M \<Longrightarrow> once M \<Longrightarrow> once (add_mset p M)"
  unfolding once_def using not_in_iff [of p M] by simp

lemma once_remove:
  assumes "once M"
  shows "once (M - {#p#})" and "set_mset (M - {#p#}) = set_mset M - {p}"
proof -
  have c: "count (M - {#p#}) q = (if q \<in># M \<and> q \<noteq> p then 1 else 0)" for q
    using once_count [OF assms, of q] by simp
  show "once (M - {#p#})" unfolding once_def c by simp
  have "q \<in># M - {#p#} \<longleftrightarrow> q \<in># M \<and> q \<noteq> p" for q
    using c [of q] count_greater_zero_iff [of "M - {#p#}" q] by (simp only: split: if_splits) simp_all
  then show "set_mset (M - {#p#}) = set_mset M - {p}" by blast
qed

definition user_tables :: "u32 mem_layout \<Rightarrow> words \<Rightarrow> u32 \<Rightarrow> u32 set" where
  "user_tables L m pgd = {table_at L m pgd a |a. a < TASK_SIZE \<and> pmd_present (pmd_at m pgd a)}"

text \<open>
  Of the pages that were free before the address space was made, those in use are its directory and
  its tables for the user; the tables of the kernel are none of them.
\<close>

definition owns :: "u32 mem_layout \<Rightarrow> u32 \<Rightarrow> space \<Rightarrow> space \<Rightarrow> bool" where
  "owns L pgd before s \<longleftrightarrow>
    tables_ok L (contents s) pgd \<and> pgd \<in> free_set before
    \<and> user_tables L (contents s) pgd \<subseteq> free_set before
    \<and> (\<forall>a. TASK_SIZE \<le> a \<and> pmd_present (pmd_at (contents s) pgd a) \<longrightarrow> table_at L (contents s) pgd a \<notin> free_set before)
    \<and> free_set s = free_set before - insert pgd (user_tables L (contents s) pgd)
    \<and> table_pages before \<inter> free_set before = {} \<and> table_pages before \<subseteq> table_pages s
    \<and> table_pages s \<subseteq> table_pages before \<union> user_tables L (contents s) pgd
    \<and> once (free_pages before) \<and> once (free_pages s)"

lemma user_tables_cong: "pmd_at m' pgd = pmd_at m pgd \<Longrightarrow> user_tables L m' pgd = user_tables L m pgd"
  by (simp add: user_tables_def table_at_def)

lemma owns_cong:
  assumes "pmd_at (contents s') pgd = pmd_at (contents s) pgd" "free_pages s' = free_pages s" "table_pages s' = table_pages s"
  shows "owns L pgd before s' = owns L pgd before s"
  using assms(2,3) tables_ok_cong [OF assms(1)] user_tables_cong [OF assms(1)]
  by (simp add: owns_def table_at_def assms(1))

lemma owns_pages:
  assumes "owns L pgd before s" "p \<in># free_pages s"
  shows "p \<in> free_set before" "p \<noteq> pgd" "pmd_present (pmd_at (contents s) pgd b) \<Longrightarrow> table_at L (contents s) pgd b \<noteq> p"
proof -
  have "p \<in> free_set before - insert pgd (user_tables L (contents s) pgd)" using assms by (simp add: owns_def)
  then have p: "p \<in> free_set before" "p \<noteq> pgd" and n: "p \<notin> user_tables L (contents s) pgd" by blast+
  from p show "p \<in> free_set before" "p \<noteq> pgd" by blast+
  show "table_at L (contents s) pgd b \<noteq> p" if "pmd_present (pmd_at (contents s) pgd b)"
  proof (cases "b < TASK_SIZE")
    case True
    then show ?thesis using n that unfolding user_tables_def by blast
  next
    case False
    then show ?thesis using p(1) that assms(1) unfolding owns_def by (metis not_less)
  qed
qed

lemma same_side: "pgd_index a = pgd_index b \<Longrightarrow> a < TASK_SIZE \<longleftrightarrow> (b :: u32) < TASK_SIZE"
  using pgd_index_user32 [of a] pgd_index_user32 [of b] by simp

section \<open>The steps\<close>

lemma allocator_laws:
  assumes "allocator_ok A"
  shows "get_free_page A z s = Some (p, s') \<Longrightarrow> get_page_ok z s p s'" and "free_page_ok p s (free_page A p s)"
    and "snd (pgtable_page_ctor A p s) = s\<lparr>table_pages := table_pages s \<union> (if fst (pgtable_page_ctor A p s) then {p} else {})\<rparr>"
    and "pgtable_page_dtor A p s = s\<lparr>table_pages := table_pages s - {p}\<rparr>"
  using assms unfolding allocator_ok_def by simp_all

text \<open>Writes of entries.\<close>

lemma write_entry:
  fixes v :: "u32 pte_t"
  assumes "owns L pgd before s" and "pmd_present (pmd_at (contents s) pgd addr)"
  defines "s' \<equiv> s\<lparr>contents := set_pte_at (pte_offset_kernel L (pmd_at (contents s) pgd addr) addr) v (contents s)\<rparr>"
  shows "owns L pgd before s'"
    and "walk_tables L (contents s') pgd = mm_spec (Map_page addr v) (walk_tables L (contents s) pgd)"
proof -
  let ?m = "contents s"
  have ok: "tables_ok L ?m pgd" using assms(1) by (simp add: owns_def)
  then have al: "pgd AND NOT PAGE_MASK = 0" "va_pa_offset L AND NOT PAGE_MASK = 0" and n: "table_at L ?m pgd addr \<noteq> pgd"
    using assms(2) by (simp_all add: tables_ok_def)
  have "pmd_page_vaddr L (pmd_at ?m pgd addr) AND NOT PAGE_MASK = 0" using table_aligned [OF al(2)] by simp
  then have "pgd_offset pgd b \<noteq> pte_offset_kernel L (pmd_at ?m pgd addr) addr" for b
    using same_slot [OF al(1)] n by (simp add: entry_slots table_at_def)
  then have "pmd_at (contents s') pgd b = pmd_at ?m pgd b" for b
    unfolding s'_def set_pte_at_def set_pte_def by (subst (1 2) pmd_at_def) simp
  then have "pmd_at (contents s') pgd = pmd_at ?m pgd" by (rule ext)
  then show "owns L pgd before s'" using owns_cong [of s' pgd s L before] assms(1) by (simp add: s'_def)
  show "walk_tables L (contents s') pgd = mm_spec (Map_page addr v) (walk_tables L (contents s) pgd)"
    using set_pte_walks(1) [OF ok assms(2)] by (intro ext) (simp add: s'_def)
qed

text \<open>A new table.\<close>

lemma get_table:
  assumes A: "allocator_ok A" and o: "owns L pgd before s" and u: "addr < TASK_SIZE"
    and a: "\<not> pmd_present (pmd_at (contents s) pgd addr)" and g: "pte_alloc_one A s = Some (p, s1)"
  defines "s' \<equiv> s1\<lparr>contents := pmd_populate L (pgd_offset pgd addr) p (contents s1)\<rparr>"
  shows "owns L pgd before s'" and "walk_tables L (contents s') pgd = walk_tables L (contents s) pgd"
proof -
  let ?m = "contents s" and ?m1 = "contents s1" and ?m' = "contents s'"
  obtain s0 where g0: "get_free_page A True s = Some (p, s0)" and s1: "s1 = snd (pgtable_page_ctor A p s0)"
    using g by (auto simp: pte_alloc_one_def split: option.splits)
  have g1: "p \<in># free_pages s" "p AND NOT PAGE_MASK = 0" "free_pages s0 = free_pages s - {#p#}" "table_pages s0 = table_pages s"
      "\<And>a. outside p a \<Longrightarrow> contents s0 a = ?m a" "\<And>i. contents s0 (p + 4 * (i AND mask 10)) = 0"
    using allocator_laws(1) [OF A g0] by (simp_all add: get_page_ok_def)
  have c: "?m1 = contents s0" "free_pages s1 = free_pages s0" "table_pages s1 \<subseteq> insert p (table_pages s0)"
      "table_pages s0 \<subseteq> table_pages s1"
    using allocator_laws(3) [OF A, of p s0] unfolding s1 by auto
  note p = owns_pages [OF o g1(1)]
  have ok: "tables_ok L ?m pgd" and al: "pgd AND NOT PAGE_MASK = 0" using o by (simp_all add: owns_def tables_ok_def)
  have same: "walk_tables L ?m1 pgd = walk_tables L ?m pgd" "pmd_at ?m1 pgd = pmd_at ?m pgd"
    using unrelated_page [OF ok g1(2) p(2,3), of ?m1] g1(5) c(1) by simp_all
  have pop: "walk_tables L ?m' pgd b = walk_tables L ?m1 pgd b \<and> pmd_present (pmd_at ?m' pgd addr) \<and> tables_ok L ?m' pgd" for b
  proof (rule pmd_populate_walks)
    show "tables_ok L ?m1 pgd" using ok tables_ok_cong [OF same(2)] by simp
    show "\<not> pmd_present (pmd_at ?m1 pgd addr)" using a same(2) by simp
    show "table_at L ?m1 pgd b \<noteq> p" if "pmd_present (pmd_at ?m1 pgd b)" for b
      using that p(3) [of b] by (simp add: table_at_def same(2))
  qed (use g1(2,6) p(2) c(1) in \<open>simp_all add: s'_def\<close>)
  show "walk_tables L ?m' pgd = walk_tables L ?m pgd" using pop same(1) by (intro ext) simp
  define e where "e = Pmd (push_bit PAGE_PFN_SHIFT (virt_to_pfn L p) OR PAGE_TABLE)"
  have at: "pmd_at ?m' pgd b = (if pgd_index b = pgd_index addr then e else pmd_at ?m pgd b)" for b
    using set_pmd_at [OF al, of addr e ?m1 b] same(2) by (simp add: s'_def pmd_populate_def e_def Let_def)
  have e: "pmd_page_vaddr L e = p" "pmd_present e"
    using pmd_populate_page [of L p] g1(2) ok pop at [of addr] by (simp_all add: e_def tables_ok_def)
  have tab: "table_at L ?m' pgd b = (if pgd_index b = pgd_index addr then p else table_at L ?m pgd b)" for b
    using e at [of b] by (simp add: table_at_def)
  have ut: "user_tables L ?m' pgd = insert p (user_tables L ?m pgd)"
  proof (intro equalityI subsetI)
    fix x assume "x \<in> user_tables L ?m' pgd"
    then show "x \<in> insert p (user_tables L ?m pgd)" by (auto simp: user_tables_def tab at split: if_splits)
  next
    fix x assume "x \<in> insert p (user_tables L ?m pgd)"
    moreover have "p \<in> user_tables L ?m' pgd"
      using u e by (auto simp: user_tables_def tab at intro: exI [of _ addr])
    moreover have "table_at L ?m pgd b \<in> user_tables L ?m' pgd"
      if "b < TASK_SIZE" "pmd_present (pmd_at ?m pgd b)" for b
    proof -
      have "pgd_index b \<noteq> pgd_index addr" using that(2) a by (auto simp: pmd_at_def pgd_offset_def)
      then show ?thesis using that unfolding user_tables_def by (auto simp: tab at intro: exI [of _ b])
    qed
    ultimately show "x \<in> user_tables L ?m' pgd" unfolding user_tables_def [of L ?m] by auto
  qed
  have kernel: "table_at L ?m' pgd b \<notin> free_set before" if "TASK_SIZE \<le> b" "pmd_present (pmd_at ?m' pgd b)" for b
  proof -
    have "pgd_index b \<noteq> pgd_index addr" using that(1) u same_side [of b addr] by auto
    then show ?thesis using that o by (simp add: owns_def tab at)
  qed
  have fields: "free_set s' = free_set s - {p}" "once (free_pages s')" "table_pages s' = table_pages s1"
    using c(2) g1(3) o once_remove [of "free_pages s" p] by (simp_all add: s'_def owns_def)
  have tp: "table_pages before \<subseteq> table_pages s" "table_pages s \<subseteq> table_pages before \<union> user_tables L ?m pgd"
    using o by (simp_all add: owns_def)
  have "free_set s' = free_set before - insert pgd (user_tables L ?m' pgd)"
    using o unfolding owns_def ut fields by blast
  moreover have "table_pages before \<subseteq> table_pages s'" "table_pages s' \<subseteq> table_pages before \<union> user_tables L ?m' pgd"
    using tp c(3,4) unfolding ut fields g1(4) by blast+
  moreover have "pgd \<in> free_set before" "user_tables L ?m' pgd \<subseteq> free_set before"
      "table_pages before \<inter> free_set before = {}"
    using o p(1) unfolding ut by (simp_all add: owns_def)
  ultimately show "owns L pgd before s'"
    unfolding owns_def using conjunct2 [OF conjunct2 [OF pop]] kernel fields(2) o by (simp add: owns_def)
qed

text \<open>A table that is given back.\<close>

lemma put_table:
  assumes A: "allocator_ok A" and o: "owns L pgd before s" and u: "addr < TASK_SIZE"
    and a: "pmd_present (pmd_at (contents s) pgd addr)" and em: "empty_table (contents s) (table_at L (contents s) pgd addr)"
  defines "s' \<equiv> pte_free A (table_at L (contents s) pgd addr)
      (s\<lparr>contents := pmd_clear (pgd_offset pgd addr) (contents s)\<rparr>)"
  shows "owns L pgd before s'" and "walk_tables L (contents s') pgd = walk_tables L (contents s) pgd"
proof -
  let ?m = "contents s" and ?m' = "contents s'"
  define p where "p = table_at L ?m pgd addr"
  define s1 where "s1 = s\<lparr>contents := pmd_clear (pgd_offset pgd addr) ?m, table_pages := table_pages s - {p}\<rparr>"
  let ?m1 = "contents s1"
  have s': "s' = free_page A p s1"
    using allocator_laws(4) [OF A] by (simp add: s'_def pte_free_def p_def s1_def)
  have f: "free_pages s' = add_mset p (free_pages s)" "table_pages s' = table_pages s - {p}"
      "\<And>a. outside p a \<Longrightarrow> ?m' a = ?m1 a"
    using allocator_laws(2) [OF A, of p s1] unfolding s' free_page_ok_def by (simp_all add: s1_def)
  have ok: "tables_ok L ?m pgd" using o by (simp add: owns_def)
  then have al: "pgd AND NOT PAGE_MASK = 0" "va_pa_offset L AND NOT PAGE_MASK = 0" and n: "p \<noteq> pgd"
    using a by (simp_all add: tables_ok_def p_def)
  have pal: "p AND NOT PAGE_MASK = 0" using table_aligned [OF al(2)] by (simp add: p_def table_at_def)
  have m1: "?m1 = pmd_clear (pgd_offset pgd addr) ?m" by (simp add: s1_def)
  note w1 = pmd_clear_walks [OF ok, of addr, folded m1] and at1 = pmd_clear_at [OF al(1), of addr ?m, folded m1]
  have other: "pgd_index b \<noteq> pgd_index addr \<Longrightarrow> pmd_present (pmd_at ?m pgd b) \<Longrightarrow> table_at L ?m pgd b \<noteq> p" for b
    using ok a unfolding tables_ok_def p_def by metis
  have pres1: "pmd_present (pmd_at ?m1 pgd b) \<longleftrightarrow> pgd_index b \<noteq> pgd_index addr \<and> pmd_present (pmd_at ?m pgd b)" for b
    by (simp add: at1 pmd_present_def)
  have tab1: "pgd_index b \<noteq> pgd_index addr \<Longrightarrow> table_at L ?m1 pgd b = table_at L ?m pgd b" for b
    by (simp add: table_at_def at1)
  have same: "walk_tables L ?m' pgd = walk_tables L ?m1 pgd" "pmd_at ?m' pgd = pmd_at ?m1 pgd"
  proof -
    have "table_at L ?m1 pgd b \<noteq> p" if "pmd_present (pmd_at ?m1 pgd b)" for b
      using that tab1 [of b] other [of b] by (simp add: pres1)
    then show "walk_tables L ?m' pgd = walk_tables L ?m1 pgd" "pmd_at ?m' pgd = pmd_at ?m1 pgd"
      using unrelated_page [OF w1(2) pal n _ f(3)] by blast+
  qed
  have gone: "walk_tables L ?m pgd b = None" if "pgd_index b = pgd_index addr" for b
  proof -
    have "\<not> pte_present (Pte (?m (p + 4 * of_nat (unat (drop_bit 12 b AND mask 10)))))"
    proof -
      have "\<forall>i < 1024. \<not> pte_present (Pte (?m (p + 4 * of_nat i)))"
        using em by (simp add: empty_table_def list_all_iff p_def)
      then show ?thesis using slot_small(2) [of "drop_bit 12 b"] by blast
    qed
    then have "\<not> pte_present (Pte (?m (p + 4 * (drop_bit 12 b AND mask 10))))" 
      by (simp only: of_nat_unat ucast_id not_False_eq_True)
    moreover have "pmd_at ?m pgd b = pmd_at ?m pgd addr" using that by (simp add: pmd_at_def pgd_offset_def)
    ultimately show ?thesis by (simp add: walk_tables_def entry_slots p_def table_at_def Let_def)
  qed
  show "walk_tables L ?m' pgd = walk_tables L ?m pgd" using w1(1) gone by (intro ext) (simp add: same(1))
  have tab: "table_at L ?m' pgd = table_at L ?m1 pgd" by (intro ext) (simp add: table_at_def same(2))
  have ut: "user_tables L ?m' pgd = user_tables L ?m pgd - {p}"
  proof -
    have "x \<in> user_tables L ?m' pgd \<longleftrightarrow>
        (\<exists>b < TASK_SIZE. pgd_index b \<noteq> pgd_index addr \<and> pmd_present (pmd_at ?m pgd b) \<and> x = table_at L ?m pgd b)" for x
      unfolding user_tables_def tab same(2) pres1 using tab1 by simp metis
    moreover have "x \<in> user_tables L ?m pgd - {p} \<longleftrightarrow>
        (\<exists>b < TASK_SIZE. pgd_index b \<noteq> pgd_index addr \<and> pmd_present (pmd_at ?m pgd b) \<and> x = table_at L ?m pgd b)" for x
    proof -
      have "table_at L ?m pgd b = p" if "pgd_index b = pgd_index addr" for b
        using that by (simp add: p_def table_at_def pmd_at_def pgd_offset_def)
      then show ?thesis using other unfolding user_tables_def by blast
    qed
    ultimately show ?thesis by blast
  qed
  have pin: "p \<in> user_tables L ?m pgd" using u a unfolding user_tables_def p_def by blast
  have kernel: "table_at L ?m' pgd b \<notin> free_set before" if "TASK_SIZE \<le> b" "pmd_present (pmd_at ?m' pgd b)" for b
    using that o tab1 [of b] unfolding tab same(2) pres1 by (simp add: owns_def)
  have "free_set s' = free_set before - insert pgd (user_tables L ?m' pgd)"
    using o pin n unfolding owns_def ut f by auto
  moreover have "once (free_pages s')" "once (free_pages before)"
    using o pin by (auto simp: owns_def f once_add)
  moreover have "table_pages before \<subseteq> table_pages s'" "table_pages s' \<subseteq> table_pages before \<union> user_tables L ?m' pgd"
    using o pin unfolding owns_def ut f by blast+
  moreover have "pgd \<in> free_set before" "user_tables L ?m' pgd \<subseteq> free_set before"
      "table_pages before \<inter> free_set before = {}" "tables_ok L ?m' pgd"
    using o w1(2) tables_ok_cong [OF same(2)] unfolding ut by (auto simp: owns_def)
  ultimately show "owns L pgd before s'" unfolding owns_def using kernel by simp
qed

lemma mm_step_spec:
  assumes "allocator_ok A" "owns L pgd before s" "mm_step A L pgd op s = Some s'"
  shows "owns L pgd before s'" and "walk_tables L (contents s') pgd = mm_spec op (walk_tables L (contents s) pgd)"
proof -
  have "owns L pgd before s' \<and> walk_tables L (contents s') pgd = mm_spec op (walk_tables L (contents s) pgd)"
  proof (cases op)
    case (Get_table addr)
    then show ?thesis
      using assms(3) get_table [OF assms(1,2), of addr] by (auto simp: mm_step_def split: if_splits)
  next
    case (Map_page addr v)
    then show ?thesis
      using assms(3) write_entry [OF assms(2), of addr v] by (auto simp: mm_step_def Let_def split: if_splits)
  next
    case (Unmap_page addr)
    have "\<not> pte_present (Pte (0 :: u32))" by (simp add: pte_present_def)
    then show ?thesis
      using assms(3) write_entry [OF assms(2), of addr "Pte 0"] Unmap_page
      by (auto simp: mm_step_def Let_def pte_clear_def split: if_splits)
  next
    case (Put_table addr)
    then show ?thesis
      using assms(3) put_table [OF assms(1,2), of addr] by (auto simp: mm_step_def Let_def table_at_def split: if_splits)
  qed
  then show "owns L pgd before s'" "walk_tables L (contents s') pgd = mm_spec op (walk_tables L (contents s) pgd)" by blast+
qed

lemma mm_run_spec:
  assumes "allocator_ok A" "owns L pgd before s" "mm_run A L pgd ops s = Some s'"
  shows "owns L pgd before s' \<and> walk_tables L (contents s') pgd = fold mm_spec ops (walk_tables L (contents s) pgd)"
  using assms(2,3)
proof (induction ops arbitrary: s)
  case (Cons op ops)
  then obtain s1 where 1: "mm_step A L pgd op s = Some s1" "mm_run A L pgd ops s1 = Some s'"
    by (auto split: option.splits)
  show ?case
    using Cons.IH [OF mm_step_spec(1) [OF assms(1) Cons.prems(1) 1(1)] 1(2)]
      mm_step_spec(2) [OF assms(1) Cons.prems(1) 1(1)] by simp
qed simp

text \<open>Once no table of the user is left, the directory is all that is missing.\<close>

lemma owns_freed:
  assumes "allocator_ok A" "owns L pgd before s" "user_tables L (contents s) pgd = {}"
  shows "free_pages (pgd_free A pgd s) = free_pages before \<and> table_pages (pgd_free A pgd s) = table_pages before"
proof -
  have f: "free_pages (pgd_free A pgd s) = add_mset pgd (free_pages s)" "table_pages (pgd_free A pgd s) = table_pages s"
    using allocator_laws(2) [OF assms(1), of pgd s] by (simp_all add: free_page_ok_def pgd_free_def)
  have o: "free_set s = free_set before - {pgd}" "pgd \<in># free_pages before" "once (free_pages before)" "once (free_pages s)"
      "table_pages s = table_pages before"
    using assms(2,3) by (auto simp: owns_def)
  have "add_mset pgd (free_pages s) = free_pages before"
    by (rule once_eqI) (use o in \<open>auto simp: once_add\<close>)
  then show ?thesis using f o(5) by simp
qed

text \<open>A table for the addresses of the kernel, which is not registered, is given back as it was got.\<close>

lemma kernel_table_returned:
  assumes "allocator_ok A" "pte_alloc_one_kernel A s = Some (p, s1)"
  shows "free_pages (pte_free_kernel A p s1) = free_pages s" and "table_pages (pte_free_kernel A p s1) = table_pages s"
proof -
  have "get_page_ok True s p s1" using allocator_laws(1) [OF assms(1)] assms(2) by (simp add: pte_alloc_one_kernel_def)
  then show "free_pages (pte_free_kernel A p s1) = free_pages s" "table_pages (pte_free_kernel A p s1) = table_pages s"
    using allocator_laws(2) [OF assms(1), of p s1] by (simp_all add: get_page_ok_def free_page_ok_def pte_free_kernel_def)
qed

section \<open>The start\<close>

lemma write_page_at:
  assumes "p AND NOT PAGE_MASK = 0"
  shows "write_page p xs m (p + 4 * (i AND mask 10)) = xs ! unat (i AND mask 10)"
    and "outside p a \<Longrightarrow> write_page p xs m a = m a"
proof -
  show "write_page p xs m (p + 4 * (i AND mask 10)) = xs ! unat (i AND mask 10)"
    using slot_small [of i] by (simp add: write_page_def)
  show "write_page p xs m a = m a" if "outside p a"
  proof -
    have "p + (a - p) = a" by simp
    then have "\<not> unat (a - p) < 4096" using in_page [OF assms, of "a - p"] that by (auto simp: outside_def)
    then show ?thesis by (simp add: write_page_def)
  qed
qed

text \<open>What is asked of the directory of the kernel and of the free pages when the address space is made.\<close>

definition kernel_ok :: "u32 mem_layout \<Rightarrow> u32 \<Rightarrow> space \<Rightarrow> bool" where
  "kernel_ok L init_pgd s \<longleftrightarrow>
    tables_ok L (contents s) init_pgd \<and> init_pgd \<notin># free_pages s
    \<and> (\<forall>a. pmd_present (pmd_at (contents s) init_pgd a) \<longrightarrow> table_at L (contents s) init_pgd a \<notin># free_pages s)
    \<and> table_pages s \<inter> free_set s = {} \<and> once (free_pages s)"

lemma pgd_alloc_owns:
  assumes A: "allocator_ok A" and k: "kernel_ok L init_pgd s" and g: "pgd_alloc_page A init_pgd s = Some (pgd, s')"
  shows "owns L pgd s s'"
    and "walk_tables L (contents s') pgd a = (if a < TASK_SIZE then None else walk_tables L (contents s) init_pgd a)"
proof -
  let ?m = "contents s" and ?m' = "contents s'"
  obtain s1 xs where g0: "get_free_page A False s = Some (pgd, s1)"
    and xs: "pgd_alloc (read_page (contents s1) init_pgd) (Some (read_page (contents s1) pgd)) = Some xs"
    and s': "s' = s1\<lparr>contents := write_page pgd xs (contents s1)\<rparr>"
    using g by (auto simp: pgd_alloc_page_def split: option.splits)
  let ?m1 = "contents s1"
  have g1: "pgd \<in># free_pages s" "pgd AND NOT PAGE_MASK = 0" "free_pages s1 = free_pages s - {#pgd#}" "table_pages s1 = table_pages s"
      "\<And>a. outside pgd a \<Longrightarrow> ?m1 a = ?m a"
    using allocator_laws(1) [OF A g0] by (simp_all add: get_page_ok_def)
  have k1: "tables_ok L ?m init_pgd" "init_pgd \<notin># free_pages s" "table_pages s \<inter> free_set s = {}"
      "\<And>b. pmd_present (pmd_at ?m init_pgd b) \<Longrightarrow> table_at L ?m init_pgd b \<notin># free_pages s"
    using k by (simp_all add: kernel_ok_def)
  have ne: "pgd \<noteq> init_pgd" "\<And>b. pmd_present (pmd_at ?m init_pgd b) \<Longrightarrow> table_at L ?m init_pgd b \<noteq> pgd"
    using k1(2,4) g1(1) by metis+
  note same = unrelated_page [OF k1(1) g1(2) ne g1(5)]
  have at: "pmd_at ?m' pgd b = (if b < TASK_SIZE then Pmd 0 else pmd_at ?m init_pgd b)" for b
  proof -
    have i: "unat (pgd_index b) < 1024" using slot_small(2) by (simp add: index_mask)
    have "pmd_at ?m' pgd b = Pmd (xs ! unat (pgd_index b))"
      using write_page_at(1) [OF g1(2), of xs ?m1 "drop_bit 22 b"] by (simp add: pmd_at_def entry_slots s' index_mask)
    also have "xs ! unat (pgd_index b) = (if b < TASK_SIZE then 0 else read_page ?m1 init_pgd ! unat (pgd_index b))"
      using pgd_alloc_nth(2) [OF xs] i by (simp add: layout32(1,2) read_page_def pgd_index_user32)
    also have "read_page ?m1 init_pgd ! unat (pgd_index b) = ?m1 (pgd_offset init_pgd b)"
      using i by (simp add: read_page_def pgd_offset_def)
    finally show ?thesis using fun_cong [OF same(2), of b] by (simp add: pmd_at_def)
  qed
  have pres: "pmd_present (pmd_at ?m' pgd b) \<longleftrightarrow> \<not> b < TASK_SIZE \<and> pmd_present (pmd_at ?m init_pgd b)" for b
    by (simp add: at pmd_present_def)
  have tab: "\<not> b < TASK_SIZE \<Longrightarrow> table_at L ?m' pgd b = table_at L ?m init_pgd b" for b
    by (simp add: table_at_def at)
  have va: "va_pa_offset L AND NOT PAGE_MASK = 0" using k1(1) by (simp add: tables_ok_def)
  have "tables_ok L ?m' pgd"
    using k1(1) ne(2) unfolding tables_ok_def pres by (simp add: tab g1(2))
  moreover have "user_tables L ?m' pgd = {}" by (simp add: user_tables_def pres)
  moreover have "table_at L ?m' pgd b \<notin># free_pages s" if "TASK_SIZE \<le> b" "pmd_present (pmd_at ?m' pgd b)" for b
    using that k1(4) [of b] pres tab by simp
  ultimately show "owns L pgd s s'" using g1(1,3,4) k1(3) k once_remove [of "free_pages s" pgd] by (simp add: owns_def s' kernel_ok_def)
  show "walk_tables L ?m' pgd a = (if a < TASK_SIZE then None else walk_tables L ?m init_pgd a)"
  proof (cases "pmd_present (pmd_at ?m' pgd a)")
    case True
    then have p: "\<not> a < TASK_SIZE" "pmd_present (pmd_at ?m init_pgd a)" by (simp_all add: pres)
    have "pmd_page_vaddr L (pmd_at ?m init_pgd a) AND NOT PAGE_MASK = 0" using table_aligned [OF va] by simp
    then have o: "outside pgd (pte_offset_kernel L (pmd_at ?m init_pgd a) a)"
      using slot_outside [OF g1(2)] ne(2) [OF p(2)] by (simp add: entry_slots table_at_def)
    show ?thesis
      unfolding walk_tables_def at using p(1) write_page_at(2) [OF g1(2) o] g1(5) [OF o] by (simp add: s' Let_def)
  next
    case False
    then show ?thesis by (auto simp: walk_tables_def pmd_bad_def Let_def pres at split: if_split_asm)
  qed
qed

text \<open>No step reaches the addresses of the kernel.\<close>

lemma mm_step_kernel:
  assumes "mm_step A L pgd op s = Some s'" "TASK_SIZE \<le> a"
  shows "mm_spec op w a = w a"
proof -
  have "drop_bit 12 a \<noteq> drop_bit 12 b" if "b < TASK_SIZE" for b
    using same_page [of a b] same_side [of a b] that assms(2) by auto
  then show ?thesis using assms(1) by (cases op) (auto simp: mm_step_def Let_def split: if_splits)
qed

lemma mm_run_kernel:
  "mm_run A L pgd ops s = Some s' \<Longrightarrow> TASK_SIZE \<le> a \<Longrightarrow> fold mm_spec ops w a = w a"
proof (induction ops arbitrary: s w)
  case (Cons op ops)
  then show ?case using mm_step_kernel [of A L pgd op s] by (auto split: option.splits)
qed simp

section \<open>Property\<close>

text \<open>
  C6: an address space lives within its pages. After \<^verbatim>\<open>pgd_alloc\<close> and any sequence of uses of the
  tables by the memory core, a walk from the new directory finds what the uses have mapped for the
  user and, for the kernel, what a walk from the kernel's own directory found; and once the last
  table of the user is given back, \<^verbatim>\<open>pgd_free\<close> leaves exactly the pages free, each of
  them once, and exactly the pages registered as tables, that were so before: none is lost and none
  is freed twice. The free pages are a multiset, to which every \<^verbatim>\<open>free_page\<close> adds.
\<close>

theorem address_space_lifecycle:
  assumes "allocator_ok A" and "kernel_ok L init_pgd s" and "pgd_alloc_page A init_pgd s = Some (pgd, s1)"
    and "mm_run A L pgd ops s1 = Some s2"
  shows "walk_tables L (contents s2) pgd =
      fold mm_spec ops (\<lambda>a. if a < TASK_SIZE then None else walk_tables L (contents s) init_pgd a)
    \<and> (\<forall>a. TASK_SIZE \<le> a \<longrightarrow> walk_tables L (contents s2) pgd a = walk_tables L (contents s) init_pgd a)
    \<and> (user_tables L (contents s2) pgd = {} \<longrightarrow>
        free_pages (pgd_free A pgd s2) = free_pages s \<and> table_pages (pgd_free A pgd s2) = table_pages s)"
proof -
  note start = pgd_alloc_owns [OF assms(1-3)]
  have w1: "walk_tables L (contents s1) pgd = (\<lambda>a. if a < TASK_SIZE then None else walk_tables L (contents s) init_pgd a)"
    using start(2) by (rule ext)
  note run = mm_run_spec [OF assms(1) start(1) assms(4), unfolded w1] and kernel = mm_run_kernel [OF assms(4)]
  have "free_pages (pgd_free A pgd s2) = free_pages s \<and> table_pages (pgd_free A pgd s2) = table_pages s"
    if "user_tables L (contents s2) pgd = {}"
    using owns_freed [OF assms(1) conjunct1 [OF run] that] .
  then show ?thesis using run kernel by (auto simp: not_less)
qed

text \<open>An allocator of two pages, and a process that maps a page and unmaps it again.\<close>

definition two_pages :: allocator where
  "two_pages = \<lparr>get_free_page = \<lambda>z s.
       (case filter (\<lambda>p. p \<in># free_pages s) [0xC0002000, 0xC0003000] of
          [] \<Rightarrow> None
        | p # _ \<Rightarrow> Some (p, s\<lparr>contents := (\<lambda>a. if outside p a then contents s a else 0), free_pages := free_pages s - {#p#}\<rparr>)),
     free_page = \<lambda>p s. s\<lparr>free_pages := add_mset p (free_pages s)\<rparr>,
     pgtable_page_ctor = \<lambda>p s. (True, s\<lparr>table_pages := insert p (table_pages s)\<rparr>),
     pgtable_page_dtor = \<lambda>p s. s\<lparr>table_pages := table_pages s - {p}\<rparr>\<rparr>"

lemma two_pages_ok: "allocator_ok two_pages"
proof -
  have al: "(0xC0002000 :: u32) AND NOT PAGE_MASK = 0" "(0xC0003000 :: u32) AND NOT PAGE_MASK = 0"
    by (simp_all add: PAGE_MASK_def PAGE_SIZE_def PAGE_SHIFT_def push_bit_eq_mult)
  have "\<not> outside p (p + 4 * (i AND mask 10))" if "p AND NOT PAGE_MASK = 0" for p i
    using in_page [OF that] slot_small [of i] by (simp add: outside_def)
  then show ?thesis
    using al by (auto simp: allocator_ok_def two_pages_def get_page_ok_def free_page_ok_def split: if_splits)
qed

definition zero_space :: "u32 multiset \<Rightarrow> space" where
  "zero_space F = \<lparr>contents = \<lambda>_. 0, free_pages = F, table_pages = {}\<rparr>"

lemma zero_space_fields [simp]:
  "contents (zero_space F) = (\<lambda>_. 0)" "free_pages (zero_space F) = F" "table_pages (zero_space F) = {}"
  by (simp_all add: zero_space_def)

lemma zero_space_get:
  "get_free_page two_pages z (zero_space F) =
    (case filter (\<lambda>p. p \<in># F) [0xC0002000, 0xC0003000] of [] \<Rightarrow> None | p # _ \<Rightarrow> Some (p, zero_space (F - {#p#})))"
  by (simp add: two_pages_def zero_space_def cong: if_cong)

lemma zero_space_kernel: "kernel_ok boot_layout 0xC0001000 (zero_space {#0xC0002000, 0xC0003000#})"
  using empty_tables by (simp add: kernel_ok_def zero_space_def pmd_at_def pmd_present_def once_def)

lemma zero_space_alloc:
  "pgd_alloc_page two_pages 0xC0001000 (zero_space {#0xC0002000, 0xC0003000#}) = Some (0xC0002000, zero_space {#0xC0003000#})"
proof -
  have r: "read_page (\<lambda>_. 0) p = replicate 1024 0" for p by (simp add: read_page_def map_replicate_const)
  have w: "write_page p (replicate 1024 0) (\<lambda>_. 0) = (\<lambda>_. 0)" for p
    by (auto simp: write_page_def fun_eq_iff)
  have "pgd_alloc (replicate 1024 (0 :: u32)) (Some (replicate 1024 0)) = Some (replicate 1024 0)"
    by (simp add: pgd_alloc_def layout32 Let_def replicate_add [symmetric])
  then show ?thesis
    unfolding pgd_alloc_page_def zero_space_get by (simp add: zero_space_def r w insert_Diff_if)
qed

definition one_page :: "mm_op list" where
  "one_page = [Get_table 0x10000, Map_page 0x10000 (Pte 0x20000C0F)]"

definition no_page :: "mm_op list" where
  "no_page = [Unmap_page 0x10000, Put_table 0x10000]"

definition one_space :: space where
  "one_space = \<lparr>contents = (\<lambda>_. 0)(0xC0002000 := 0x20000C01, 0xC0003040 := 0x20000C0F), free_pages = {#}, table_pages = {0xC0003000}\<rparr>"

lemma one_page_slots:
  "pgd_offset (0xC0002000 :: u32) 0x10000 = 0xC0002000"
  "push_bit PAGE_PFN_SHIFT (virt_to_pfn boot_layout 0xC0003000) OR PAGE_TABLE = (0x20000C01 :: u32)"
  "pmd_present (Pmd (0x20000C01 :: u32))" "pmd_page_vaddr boot_layout (Pmd 0x20000C01) = 0xC0003000"
  "pte_offset_kernel boot_layout (Pmd 0x20000C01) 0x10000 = 0xC0003040" "\<not> pmd_present (Pmd (0 :: u32))"
  by (simp_all add: pgd_offset_def pte_offset_kernel_def index_mask boot_layout_def virt_to_pfn_def pa_def phys_to_pfn_def
      pmd_page_vaddr_def pfn_to_virt_def pfn_to_phys_def va_def PAGE_PFN_SHIFT_def PAGE_TABLE_def PAGE_PRESENT_def PAGE_SHIFT_def
      pmd_present_def push_bit_eq_mult drop_bit_eq_div mask_eq_exp_minus_1)

lemma one_page_run: "mm_run two_pages boot_layout 0xC0002000 one_page (zero_space {#0xC0003000#}) = Some one_space"
proof -
  have t: "pgtable_page_ctor two_pages p s = (True, s\<lparr>table_pages := insert p (table_pages s)\<rparr>)" for p s
    by (simp add: two_pages_def)
  show ?thesis
    by (simp add: one_page_def mm_step_def pte_alloc_one_def zero_space_get t Let_def layout32 pmd_at_def
      pmd_populate_def set_pmd_def set_pte_at_def set_pte_def one_page_slots) (simp add: zero_space_def one_space_def)
qed

lemma one_space_empty:
  "empty_table ((\<lambda>_. 0)(0xC0002000 := 0x20000C01, 0xC0003040 := 0)) 0xC0003000"
proof -
  have "(0xC0003000 :: u32) + 4 * of_nat i \<noteq> 0xC0002000" if "i < 1024" for i
  proof -
    have "unat ((0xC0003000 :: u32) + of_nat (4 * i)) = 0xC0003000 + 4 * i"
      using that by (simp only: unat_word_ariths(1) unat_of_nat) simp
    then have "unat ((0xC0003000 :: u32) + 4 * of_nat i) \<noteq> unat (0xC0002000 :: u32)" by simp
    then show ?thesis by metis
  qed
  then show ?thesis by (simp add: empty_table_def list_all_iff pte_present_def)
qed

lemma no_page_run: "mm_run two_pages boot_layout 0xC0002000 no_page one_space = Some (zero_space {#0xC0003000#})"
proof -
  have t: "pgtable_page_dtor two_pages p s = s\<lparr>table_pages := table_pages s - {p}\<rparr>"
    "free_page two_pages p s = s\<lparr>free_pages := add_mset p (free_pages s)\<rparr>" for p s
    by (simp_all add: two_pages_def)
  show ?thesis
    using one_space_empty
    by (simp add: no_page_def mm_step_def pte_free_def t Let_def layout32 pmd_at_def one_space_def zero_space_def
      pmd_clear_def set_pmd_def pte_clear_def set_pte_at_def set_pte_def one_page_slots fun_eq_iff)
qed

theorem address_space_lifecycle_witness:
  "(\<exists>s. mm_run two_pages boot_layout 0xC0002000 one_page (zero_space {#0xC0003000#}) = Some s
      \<and> walk_tables boot_layout (contents s) 0xC0002000 0x10234 = Some (Pte 0x20000C0F))
    \<and> (\<exists>s. mm_run two_pages boot_layout 0xC0002000 (one_page @ no_page) (zero_space {#0xC0003000#}) = Some s
      \<and> free_pages (pgd_free two_pages 0xC0002000 s) = {#0xC0002000, 0xC0003000#} \<and> table_pages s = {})"
proof -
  have free: "user_tables boot_layout (\<lambda>_. 0) 0xC0002000 = {}" by (simp add: user_tables_def pmd_at_def one_page_slots)
  have run: "mm_run A L pgd (ops @ ops') s = (case mm_run A L pgd ops s of None \<Rightarrow> None | Some s \<Rightarrow> mm_run A L pgd ops' s)"
    for A L pgd ops ops' s
    by (induction ops arbitrary: s) (simp_all split: option.splits)
  have whole: "mm_run two_pages boot_layout 0xC0002000 (one_page @ no_page) (zero_space {#0xC0003000#}) = Some (zero_space {#0xC0003000#})"
    by (simp add: run one_page_run no_page_run)
  note life = address_space_lifecycle [OF two_pages_ok zero_space_kernel zero_space_alloc]
  show ?thesis
    using life [OF one_page_run] life [OF whole] one_page_run whole free
    by (simp add: one_page_def layout32 pte_present_def PAGE_PRESENT_def drop_bit_eq_div)
qed

end
