(* ===== verification/Process.thy ===== *)
theory Process
  imports Ipi Regs
begin

text \<open>
  The rest of \<^verbatim>\<open>kernel/process.c\<close> and the senders of \<^verbatim>\<open>kernel/smp.c\<close>: a hart that has
  nothing to do waits in \<^verbatim>\<open>arch_cpu_idle\<close> with its interrupts disabled, until another hart sends
  it a message. The theory composes \<open>Ipi\<close> with the idle loops of the harts. It ends with
  \<^verbatim>\<open>show_regs\<close>.
\<close>

section \<open>Senders\<close>

definition send_ipi_message :: "nat list \<Rightarrow> ipi_message_type \<Rightarrow> sender" where
  "send_ipi_message to_whom operation = S_set operation to_whom to_whom"

definition arch_send_call_function_ipi_mask :: "nat list \<Rightarrow> sender" where
  "arch_send_call_function_ipi_mask msk = send_ipi_message msk IPI_CALL_FUNC"

definition arch_send_call_function_single_ipi :: "nat \<Rightarrow> sender" where
  "arch_send_call_function_single_ipi cpu = send_ipi_message [cpu] IPI_CALL_FUNC"

definition smp_send_reschedule :: "nat \<Rightarrow> sender" where
  "smp_send_reschedule cpu = send_ipi_message [cpu] IPI_RESCHEDULE"

text \<open>The loop of a stopped hart; \<open>wait\<close> is what \<^verbatim>\<open>wfi\<close> does to it.\<close>

partial_function (option) ipi_stop :: "('s \<Rightarrow> 's) \<Rightarrow> 's \<Rightarrow> unit option" where
  "ipi_stop wait s = ipi_stop wait (wait s)"

lemma ipi_stop_stays: "ipi_stop wait s = None"
proof -
  have False if "ipi_stop wait s = Some y" for y
    using that by (induction rule: ipi_stop.raw_induct [rotated, consumes 1, case_names step]) simp
  then show ?thesis by (cases "ipi_stop wait s") simp_all
qed

section \<open>Idle harts\<close>

text \<open>
  A hart runs other code, is at \<^verbatim>\<open>wfi\<close>, or is between it and \<^verbatim>\<open>local_irq_enable\<close>. \<open>status\<close> is
  its \<^verbatim>\<open>sstatus\<close> outside handlers.
\<close>

datatype stage = Running | Waiting | Enabling

record 'f idle_state =
  msgs :: "'f ipi_state"
  stage :: "nat \<Rightarrow> stage"
  status :: "nat \<Rightarrow> u32"

definition SSIE :: u32 where "SSIE = 0x2"

text \<open>A software interrupt is enabled on the hart and pending; the hart takes it if it accepts interrupts.\<close>

definition wakes :: "(nat \<Rightarrow> 'f \<Rightarrow> bool) \<Rightarrow> (nat \<Rightarrow> u32) \<Rightarrow> 'f idle_state \<Rightarrow> nat \<Rightarrow> bool" where
  "wakes pending sie s c \<longleftrightarrow> sie c AND SSIE \<noteq> 0 \<and> pending c (firmware (msgs s))"

definition takes :: "(nat \<Rightarrow> 'f \<Rightarrow> bool) \<Rightarrow> (nat \<Rightarrow> u32) \<Rightarrow> 'f idle_state \<Rightarrow> nat \<Rightarrow> bool" where
  "takes pending sie s c \<longleftrightarrow> wakes pending sie s c \<and> \<not> arch_irqs_disabled_flags (status s c)"

text \<open>
  A step of a hart, or one of a sender, on whatever hart it runs. \<^verbatim>\<open>wfi\<close> may end at any time, for
  another interrupt or for none, but waits on only while no enabled interrupt is pending, whether
  the hart accepts interrupts or not. The idle loop of the kernel proper calls \<^verbatim>\<open>arch_cpu_idle\<close>
  with interrupts disabled.
\<close>

inductive idle_step ::
    "'f sbi \<Rightarrow> (nat \<Rightarrow> 'f \<Rightarrow> bool) \<Rightarrow> (nat \<Rightarrow> u32) \<Rightarrow> nat option \<Rightarrow> 'f idle_state \<Rightarrow> 'f idle_state \<Rightarrow> bool"
  for sbi pending sie where
  sends: "ipi_step sbi (msgs s) m \<Longrightarrow> handlers m = handlers (msgs s) \<Longrightarrow>
    idle_step sbi pending sie None s (s\<lparr>msgs := m\<rparr>)"
| handles: "ipi_step sbi (msgs s) m \<Longrightarrow> handlers (msgs s) c \<noteq> H_out \<Longrightarrow> handlers m c \<noteq> handlers (msgs s) c \<Longrightarrow>
    idle_step sbi pending sie (Some c) s (s\<lparr>msgs := m\<rparr>)"
| enters: "handlers (msgs s) c = H_out \<Longrightarrow> takes pending sie s c \<Longrightarrow>
    idle_step sbi pending sie (Some c) s (s\<lparr>msgs := (msgs s)\<lparr>handlers := (handlers (msgs s))(c := H_clear)\<rparr>\<rparr>)"
| wakes: "handlers (msgs s) c = H_out \<Longrightarrow> \<not> takes pending sie s c \<Longrightarrow> stage s c = Waiting \<Longrightarrow>
    idle_step sbi pending sie (Some c) s (s\<lparr>stage := (stage s)(c := Enabling)\<rparr>)"
| waits: "handlers (msgs s) c = H_out \<Longrightarrow> \<not> wakes pending sie s c \<Longrightarrow> stage s c = Waiting \<Longrightarrow>
    idle_step sbi pending sie (Some c) s s"
| enables: "handlers (msgs s) c = H_out \<Longrightarrow> \<not> takes pending sie s c \<Longrightarrow> stage s c = Enabling \<Longrightarrow>
    idle_step sbi pending sie (Some c) s
      (s\<lparr>stage := (stage s)(c := Running), status := (status s)(c := arch_local_irq_enable (status s c))\<rparr>)"
| works: "handlers (msgs s) c = H_out \<Longrightarrow> \<not> takes pending sie s c \<Longrightarrow> stage s c = Running \<Longrightarrow>
    idle_step sbi pending sie (Some c) s s"
| idles: "handlers (msgs s) c = H_out \<Longrightarrow> \<not> takes pending sie s c \<Longrightarrow> stage s c = Running \<Longrightarrow>
    idle_step sbi pending sie (Some c) s
      (s\<lparr>stage := (stage s)(c := Waiting), status := (status s)(c := arch_local_irq_disable (status s c))\<rparr>)"

text \<open>A run, with the number of moves of one hart in it.\<close>

inductive run_moves ::
    "'f sbi \<Rightarrow> (nat \<Rightarrow> 'f \<Rightarrow> bool) \<Rightarrow> (nat \<Rightarrow> u32) \<Rightarrow> nat \<Rightarrow> 'f idle_state \<Rightarrow> nat \<Rightarrow> 'f idle_state \<Rightarrow> bool"
  for sbi pending sie c s where
  start: "run_moves sbi pending sie c s 0 s"
| own: "run_moves sbi pending sie c s n t \<Longrightarrow> idle_step sbi pending sie (Some c) t u \<Longrightarrow>
    run_moves sbi pending sie c s (Suc n) u"
| other: "run_moves sbi pending sie c s n t \<Longrightarrow> idle_step sbi pending sie l t u \<Longrightarrow> l \<noteq> Some c \<Longrightarrow>
    run_moves sbi pending sie c s n u"

section \<open>What the harts keep\<close>

definition idle_inv :: "(nat \<Rightarrow> 'f \<Rightarrow> bool) \<Rightarrow> 'f idle_state \<Rightarrow> bool" where
  "idle_inv pending s \<longleftrightarrow>
    ipi_inv pending (msgs s) \<and> (\<forall>c. stage s c = Running \<longrightarrow> \<not> arch_irqs_disabled_flags (status s c))"

definition idle_start :: "'f idle_state \<Rightarrow> bool" where
  "idle_start s \<longleftrightarrow> ipi_init (msgs s) \<and> (\<forall>c. stage s c = Running \<and> \<not> arch_irqs_disabled_flags (status s c))"

lemma irqs_enabled: "\<not> arch_irqs_disabled_flags (arch_local_irq_enable x :: u32)"
proof -
  have "bit ((x OR SR_IE) AND SR_IE) 1" by (simp add: bit_simps SR_IE_def)
  then show ?thesis unfolding arch_irqs_disabled_flags_def arch_local_irq_enable_def csr_set_def by (metis bit_0_eq bot_apply bot_bool_def)
qed

text \<open>Every step is one of \<open>Ipi\<close>, or none of the messages.\<close>

lemma idle_step_msgs:
  assumes "idle_step sbi pending sie l s t"
  shows "ipi_step sbi (msgs s) (msgs t) \<or> msgs t = msgs s"
  using assms by cases (auto intro: ipi_step.interrupt)

interpretation idle: stepping idle_start "\<lambda>s t. \<exists>l. idle_step sbi pending sie l s t"
    "\<lambda>s. ipi_contract sbi pending \<longrightarrow> idle_inv pending s" for sbi pending sie
proof unfold_locales
  fix s t :: "'a idle_state"
  show "idle_start s \<Longrightarrow> ipi_contract sbi pending \<longrightarrow> idle_inv pending s"
    using ipi_init_inv by (auto simp: idle_start_def idle_inv_def)
  assume st: "\<exists>l. idle_step sbi pending sie l s t" and inv: "ipi_contract sbi pending \<longrightarrow> idle_inv pending s"
  show "ipi_contract sbi pending \<longrightarrow> idle_inv pending t"
  proof
    assume c: "ipi_contract sbi pending"
    obtain l where l: "idle_step sbi pending sie l s t" using st by blast
    have "ipi_inv pending (msgs t)"
      using idle_step_msgs [OF l] ipi_step_inv [OF c] inv c by (auto simp: idle_inv_def)
    moreover have "\<forall>c. stage t c = Running \<longrightarrow> \<not> arch_irqs_disabled_flags (status t c)"
      using l inv c by cases (auto simp: idle_inv_def irqs_enabled)
    ultimately show "idle_inv pending t" by (simp add: idle_inv_def)
  qed
qed

section \<open>A message on its way\<close>

text \<open>The handler of a hart has taken the message, or will find its bit.\<close>

definition owed_to :: "(nat \<Rightarrow> 'f \<Rightarrow> bool) \<Rightarrow> 'f ipi_state \<Rightarrow> nat \<Rightarrow> ipi_message_type \<Rightarrow> bool" where
  "owed_to pending m c op \<longleftrightarrow>
    (\<exists>ops. handlers m c = H_run ops \<and> bit ops (ipi_number op))
    \<or> bit (ipi_data m c) (ipi_number op) \<and> (in_loop (handlers m c) \<or> pending c (firmware m))"

text \<open>The moves that the hart makes until it serves the message.\<close>

definition moves_left :: "handler \<Rightarrow> stage \<Rightarrow> ipi_message_type \<Rightarrow> nat" where
  "moves_left h g op =
    (case h of
       H_run ops \<Rightarrow> if bit ops (ipi_number op) then 1 else 3
     | H_loop \<Rightarrow> 2
     | H_clear \<Rightarrow> 3
     | H_bug \<Rightarrow> 0
     | H_out \<Rightarrow> (case g of Running \<Rightarrow> 4 | Enabling \<Rightarrow> 5 | Waiting \<Rightarrow> 6))"

abbreviation left_of :: "'f idle_state \<Rightarrow> nat \<Rightarrow> ipi_message_type \<Rightarrow> nat" where
  "left_of s c op \<equiv> moves_left (handlers (msgs s) c) (stage s c) op"

definition serves :: "'f idle_state \<Rightarrow> 'f idle_state \<Rightarrow> nat \<Rightarrow> ipi_message_type \<Rightarrow> bool" where
  "serves s t c op \<longleftrightarrow> (c, op) \<in> set (drop (length (served (msgs s))) (served (msgs t)))"

lemma moves_left_bounds:
  "moves_left h g op \<le> 6" "handler_ok h \<Longrightarrow> 0 < moves_left h g op"
  by (auto simp: moves_left_def split: handler.splits stage.splits)

lemma ipi_step_served: "ipi_step sbi m m' \<Longrightarrow> \<exists>xs. served m' = served m @ xs"
  by (erule ipi_step.cases) auto

lemma idle_step_served:
  assumes "idle_step sbi pending sie l s t"
  shows "\<exists>xs. served (msgs t) = served (msgs s) @ xs"
  using idle_step_msgs [OF assms] ipi_step_served by fastforce

text \<open>Steps that leave the handler of the hart alone take nothing from it.\<close>

lemma ipi_step_keeps:
  assumes "ipi_contract sbi pending" "ipi_step sbi m m'" "handlers m' c = handlers m c" "owed_to pending m c op"
  shows "owed_to pending m' c op"
  using assms(2)
proof cases
  case (clear d was fw)
  then have d: "c \<noteq> d" using assms(3) by (auto split: if_splits)
  then have "pending c (snd (sbi_clear_ipi sbi d (firmware m))) = pending c (firmware m)"
    using assms(1) by (simp add: ipi_contract_def)
  then show ?thesis using clear assms(4) d by (simp add: owed_to_def)
qed (use assms(1,3,4) in \<open>auto simp: owed_to_def ipi_contract_def set_message_bit split: if_splits\<close>)

lemma one_handler:
  assumes "ipi_step sbi m m'" "handlers m' d \<noteq> handlers m d" "c \<noteq> d"
  shows "handlers m' c = handlers m c"
  using assms by cases (auto split: if_splits)

text \<open>A step of the handler.\<close>

lemma handler_moves:
  fixes g :: stage
  assumes con: "ipi_contract sbi pending" and inv: "ipi_inv pending m" and ow: "owed_to pending m c op"
    and st: "ipi_step sbi m m'" "handlers m c \<noteq> H_out" "handlers m' c \<noteq> handlers m c"
  defines "left \<equiv> \<lambda>m. moves_left (handlers m c) g op"
  shows "(c, op) \<in> set (drop (length (served m)) (served m')) \<or> owed_to pending m' c op \<and> left m' < left m"
  using st(1)
proof cases
  case (clear d was fw)
  then have d: "d = c" using st(3) by (auto split: if_splits)
  then have "pending c (firmware m)" "bit (ipi_data m c) (ipi_number op)" using ow clear(2) by (simp_all add: owed_to_def)
  then have "was \<noteq> 0" using con clear(3) d unfolding ipi_contract_def by (metis fst_conv)
  then show ?thesis using clear d \<open>bit (ipi_data m c) (ipi_number op)\<close> by (simp add: owed_to_def left_def moves_left_def)
next
  case (swap d ops bits)
  then have d: "d = c" using st(3) by (auto split: if_splits)
  then have b: "bit (ipi_data m c) (ipi_number op)" using ow swap(2) by (simp add: owed_to_def)
  have "ops = ipi_data m c" using swap(3) d by (simp add: xchg_def amoswap_def)
  then have "bit ops (ipi_number op)" "ops \<noteq> 0" using b by auto
  then show ?thesis using swap d by (simp add: owed_to_def left_def moves_left_def)
next
  case (run d ops xs bug)
  then have d: "d = c" using st(3) by (auto split: if_splits)
  have "drop_bit IPI_MAX ops = 0" using inv run(2) unfolding ipi_inv_def by (metis handler_ok.simps(1))
  then have nb: "\<not> bug" using run(3) by (auto simp: serve_ops_def)
  show ?thesis
  proof (cases "bit ops (ipi_number op)")
    case True
    then have "op \<in> set xs" using serve_ops_bit [of op ops] run(3) by simp
    then show ?thesis using run(1) d by auto
  next
    case False
    then have "bit (ipi_data m c) (ipi_number op)" using ow run(2) d by (simp add: owed_to_def)
    then show ?thesis using run False nb d by (simp add: owed_to_def left_def moves_left_def)
  qed
next
  case (interrupt d)
  then show ?thesis using st(2,3) by (auto split: if_splits)
qed (use st(3) in simp_all)

text \<open>A move of the hart.\<close>

lemma own_move:
  assumes "ipi_contract sbi pending" and inv: "idle_inv pending s" and ie: "sie c AND SSIE \<noteq> 0"
    and ow: "owed_to pending (msgs s) c op" and "idle_step sbi pending sie (Some c) s t"
  shows "serves s t c op \<or> owed_to pending (msgs t) c op \<and> left_of t c op < left_of s c op"
proof -
  have out: "pending c (firmware (msgs s))" "bit (ipi_data (msgs s) c) (ipi_number op)" if "handlers (msgs s) c = H_out"
    using ow that by (simp_all add: owed_to_def)
  show ?thesis using assms(5)
  proof cases
    case (handles m)
    have "ipi_inv pending (msgs s)" using inv by (simp add: idle_inv_def)
    then show ?thesis
      using handler_moves [OF assms(1) _ ow handles(2-4), of "stage s c"] handles(1) by (simp add: serves_def)
  next
    case enters
    then show ?thesis using out by (auto simp: owed_to_def moves_left_def split: stage.splits)
  next
    case wakes
    then show ?thesis using ow by (simp add: owed_to_def moves_left_def)
  next
    case waits
    then show ?thesis using out ie by (simp add: wakes_def)
  next
    case enables
    then show ?thesis using ow by (simp add: owed_to_def moves_left_def)
  next
    case works
    then show ?thesis using out ie inv by (simp add: takes_def wakes_def idle_inv_def)
  next
    case idles
    then show ?thesis using out ie inv by (simp add: takes_def wakes_def idle_inv_def)
  qed
qed

text \<open>A step of any other.\<close>

lemma other_move:
  assumes "ipi_contract sbi pending" and "owed_to pending (msgs s) c op"
    and "idle_step sbi pending sie l s t" and "l \<noteq> Some c"
  shows "owed_to pending (msgs t) c op \<and> left_of t c op = left_of s c op"
  using assms(3)
proof cases
  case (sends m)
  then show ?thesis using ipi_step_keeps [OF assms(1), of "msgs s" m c op] assms(2) by (simp add: moves_left_def)
next
  case (handles m d)
  then have "handlers m c = handlers (msgs s) c" using one_handler [of sbi "msgs s" m d c] assms(4) by simp
  then show ?thesis using handles ipi_step_keeps [OF assms(1), of "msgs s" m c op] assms(2) by simp
qed (use assms(2,4) in \<open>simp_all add: owed_to_def moves_left_def\<close>)

lemma run_serves:
  assumes "ipi_contract sbi pending" and "sie c AND SSIE \<noteq> 0"
    and "run_moves sbi pending sie c s n t" and "idle_inv pending s" and "owed_to pending (msgs s) c op"
  shows "idle_inv pending t \<and> (\<exists>xs. served (msgs t) = served (msgs s) @ xs) \<and>
    (serves s t c op \<or> owed_to pending (msgs t) c op \<and> n + left_of t c op \<le> left_of s c op)"
  using assms(3)
proof induction
  case start
  then show ?case using assms(4,5) by simp
next
  case (own n t u)
  have "idle_inv pending u" using idle.step_inv [of sbi pending sie t u] own assms(1,4) by blast
  moreover obtain xs ys where xs: "served (msgs t) = served (msgs s) @ xs" "served (msgs u) = served (msgs t) @ ys"
    using own.IH idle_step_served [OF own.hyps(2)] by blast
  moreover have "serves s u c op \<or> owed_to pending (msgs u) c op \<and> Suc n + left_of u c op \<le> left_of s c op"
    using own.IH own_move [OF assms(1) _ assms(2) _ own.hyps(2), of op] xs by (auto simp: serves_def)
  ultimately show ?case by simp
next
  case (other n t l u)
  have "idle_inv pending u" using idle.step_inv [of sbi pending sie t u] other assms(1,4) by blast
  moreover obtain xs ys where xs: "served (msgs t) = served (msgs s) @ xs" "served (msgs u) = served (msgs t) @ ys"
    using other.IH idle_step_served [OF other.hyps(2)] by blast
  moreover have "serves s u c op \<or> owed_to pending (msgs u) c op \<and> n + left_of u c op \<le> left_of s c op"
    using other.IH other_move [OF assms(1) _ other.hyps(2,3), of op] xs by (auto simp: serves_def)
  ultimately show ?case by simp
qed

section \<open>Property\<close>

text \<open>
  C10: a message wakes an idle hart. In every state the harts can get to, a hart that has the bit of a
  message set and that no sender still has to interrupt serves the message within six moves of its
  own, wherever it is between its work and its handler, in \<^verbatim>\<open>arch_cpu_idle\<close> included, and
  however the others move. No interrupt is lost between the last look at the work to do and
  \<^verbatim>\<open>wfi\<close>. The software interrupts of the hart must be enabled in \<^verbatim>\<open>sie\<close>, which the
  code does on the boot hart only.
\<close>

theorem message_wakes_idle:
  assumes "ipi_contract sbi pending" and "idle_start r"
    and "(\<lambda>s t. \<exists>l. idle_step sbi pending sie l s t)\<^sup>*\<^sup>* r s" and "sie c AND SSIE \<noteq> 0"
    and "bit (ipi_data (msgs s) c) (ipi_number op)" and "\<forall>i. \<not> will_kick (senders (msgs s) i) c"
    and "run_moves sbi pending sie c s n t" and "6 \<le> n"
  shows "serves s t c op"
proof -
  have inv: "idle_inv pending s" using idle.reachable_inv [OF assms(2,3)] assms(1) by blast
  have "ipi_data (msgs s) c \<noteq> 0" using assms(5) by auto
  then have "owed pending (msgs s) c" using inv by (simp add: idle_inv_def ipi_inv_def)
  then have ow: "owed_to pending (msgs s) c op" using assms(5,6) by (auto simp: owed_def owed_to_def)
  note run = run_serves [OF assms(1,4,7) inv ow]
  then have "handler_ok (handlers (msgs t) c)" by (simp add: idle_inv_def ipi_inv_def)
  then show ?thesis using run moves_left_bounds(1) [of "handlers (msgs s) c" "stage s c" op]
      moves_left_bounds(2) [of "handlers (msgs t) c" "stage t c" op] assms(8) by auto
qed

text \<open>Hart 1 is idle and hart 0 has sent it a message.\<close>

definition one_message :: "u32 \<Rightarrow> bool \<Rightarrow> sender \<Rightarrow> handler \<Rightarrow> (nat \<times> ipi_message_type) list \<Rightarrow> (nat \<Rightarrow> bool) ipi_state" where
  "one_message bits line x h sv = \<lparr>ipi_data = (\<lambda>_. 0)(1 := bits), firmware = (\<lambda>_. False)(1 := line),
     senders = (\<lambda>_. S_idle)(0 := x), handlers = (\<lambda>_. H_out)(1 := h), served = sv\<rparr>"

definition one_idle :: "(nat \<Rightarrow> bool) ipi_state \<Rightarrow> stage \<Rightarrow> u32 \<Rightarrow> (nat \<Rightarrow> bool) idle_state" where
  "one_idle m g st = \<lparr>msgs = m, stage = (\<lambda>_. Running)(1 := g), status = (\<lambda>_. 2)(1 := st)\<rparr>"

lemma one_message_fields [simp]:
  "ipi_data (one_message bits line x h sv) = (\<lambda>_. 0)(1 := bits)" "firmware (one_message bits line x h sv) = (\<lambda>_. False)(1 := line)"
  "senders (one_message bits line x h sv) = (\<lambda>_. S_idle)(0 := x)" "handlers (one_message bits line x h sv) = (\<lambda>_. H_out)(1 := h)"
  "served (one_message bits line x h sv) = sv" "msgs (one_idle m g st) = m" "stage (one_idle m g st) = (\<lambda>_. Running)(1 := g)"
  "status (one_idle m g st) = (\<lambda>_. 2)(1 := st)"
  by (simp_all add: one_message_def one_idle_def)

lemma one_message_sent:
  defines "go \<equiv> \<lambda>s t. \<exists>l. idle_step lines_sbi (\<lambda>c f. f c) (\<lambda>_. 2) l s t"
  shows "go\<^sup>*\<^sup>* (one_idle (one_message 0 False S_idle H_out []) Running 2) (one_idle (one_message 1 True S_idle H_out []) Waiting 0)"
proof -
  let ?M = "\<lambda>bits line x. one_message bits line x H_out []"
  have sends: "go (one_idle m Waiting 0) (one_idle m' Waiting 0)" if "ipi_step lines_sbi m m'" "handlers m' = handlers m" for m m'
    using idle_step.sends [of lines_sbi "one_idle m Waiting 0" m' "\<lambda>c f. f c" "\<lambda>_. 2"] that
    by (auto simp: go_def one_idle_def)
  have "go (one_idle (?M 0 False S_idle) Running 2) (one_idle (?M 0 False S_idle) Waiting 0)"
    using idle_step.idles [of "one_idle (?M 0 False S_idle) Running 2" 1 "\<lambda>c f. f c" "\<lambda>_. 2" lines_sbi]
    by (auto simp: go_def one_idle_def takes_def wakes_def arch_local_irq_disable_def csr_clear_def SR_IE_def)
  moreover have "go (one_idle (?M 0 False S_idle) Waiting 0) (one_idle (?M 0 False (smp_send_reschedule 1)) Waiting 0)"
    by (rule sends) (use send [of "?M 0 False S_idle" 0 lines_sbi IPI_RESCHEDULE "[1]"] in
        \<open>simp_all add: one_message_def smp_send_reschedule_def send_ipi_message_def\<close>)
  moreover have "go (one_idle (?M 0 False (smp_send_reschedule 1)) Waiting 0) (one_idle (?M 1 False (S_set IPI_RESCHEDULE [] [1])) Waiting 0)"
    by (rule sends) (use set [of "?M 0 False (smp_send_reschedule 1)" 0 IPI_RESCHEDULE 1 "[]" "[1]" lines_sbi] in
        \<open>simp_all add: one_message_def smp_send_reschedule_def send_ipi_message_def set_message_or\<close>)
  moreover have "go (one_idle (?M 1 False (S_set IPI_RESCHEDULE [] [1])) Waiting 0) (one_idle (?M 1 False (S_kick [1])) Waiting 0)"
    by (rule sends) (use set_done [of "?M 1 False (S_set IPI_RESCHEDULE [] [1])" 0 IPI_RESCHEDULE "[1]" lines_sbi] in
        \<open>simp_all add: one_message_def\<close>)
  moreover have "go (one_idle (?M 1 False (S_kick [1])) Waiting 0) (one_idle (?M 1 True (S_kick [])) Waiting 0)"
    by (rule sends) (use kick [of "?M 1 False (S_kick [1])" 0 1 "[]" lines_sbi] in \<open>simp_all add: one_message_def lines_sbi_def\<close>)
  moreover have "go (one_idle (?M 1 True (S_kick [])) Waiting 0) (one_idle (?M 1 True S_idle) Waiting 0)"
    by (rule sends) (use kick_done [of "?M 1 True (S_kick [])" 0 lines_sbi] in \<open>simp_all add: one_message_def\<close>)
  ultimately show ?thesis by (meson rtranclp.rtrancl_into_rtrancl rtranclp.rtrancl_refl)
qed

lemma one_message_served:
  "run_moves lines_sbi (\<lambda>c f. f c) (\<lambda>_. 2) 1 (one_idle (one_message 1 True S_idle H_out []) Waiting 0) 6
    (one_idle (one_message 0 False S_idle H_loop [(1, IPI_RESCHEDULE)]) Running 2)"
proof -
  let ?go = "idle_step lines_sbi (\<lambda>c f. f c) (\<lambda>_. 2) (Some 1)"
  let ?M = "\<lambda>bits line h sv. one_message bits line S_idle h sv"
  have handles: "?go (one_idle m Running 2) (one_idle m' Running 2)"
    if "ipi_step lines_sbi m m'" "handlers m 1 \<noteq> H_out" "handlers m' 1 \<noteq> handlers m 1" for m m'
    using idle_step.handles [of lines_sbi "one_idle m Running 2" m' 1 "\<lambda>c f. f c" "\<lambda>_. 2"] that by (simp add: one_idle_def)
  have "?go (one_idle (?M 1 True H_out []) Waiting 0) (one_idle (?M 1 True H_out []) Enabling 0)"
    using idle_step.wakes [of "one_idle (?M 1 True H_out []) Waiting 0" 1 "\<lambda>c f. f c" "\<lambda>_. 2" lines_sbi]
    by (simp add: takes_def one_idle_def arch_irqs_disabled_flags_def)
  moreover have "?go (one_idle (?M 1 True H_out []) Enabling 0) (one_idle (?M 1 True H_out []) Running 2)"
    using idle_step.enables [of "one_idle (?M 1 True H_out []) Enabling 0" 1 "\<lambda>c f. f c" "\<lambda>_. 2" lines_sbi]
    by (simp add: takes_def one_idle_def arch_irqs_disabled_flags_def arch_local_irq_enable_def csr_set_def SR_IE_def)
  moreover have "?go (one_idle (?M 1 True H_out []) Running 2) (one_idle (?M 1 True H_clear []) Running 2)"
    using idle_step.enters [of "one_idle (?M 1 True H_out []) Running 2" 1 "\<lambda>c f. f c" "\<lambda>_. 2" lines_sbi]
    by (simp add: takes_def wakes_def SSIE_def one_idle_def one_message_def arch_irqs_disabled_flags_def SR_IE_def)
  moreover have "?go (one_idle (?M 1 True H_clear []) Running 2) (one_idle (?M 1 False H_loop []) Running 2)"
    by (rule handles) (use clear [of "?M 1 True H_clear []" 1 lines_sbi 1 "(\<lambda>_. False)(1 := False)"] in
        \<open>simp_all add: one_message_def lines_sbi_def\<close>)
  moreover have "?go (one_idle (?M 1 False H_loop []) Running 2) (one_idle (?M 0 False (H_run 1) []) Running 2)"
    by (rule handles) (use swap [of "?M 1 False H_loop []" 1 1 0 lines_sbi] in \<open>simp_all add: one_message_def xchg_def amoswap_def\<close>)
  moreover have "?go (one_idle (?M 0 False (H_run 1) []) Running 2) (one_idle (?M 0 False H_loop [(1, IPI_RESCHEDULE)]) Running 2)"
    by (rule handles) (use run [of "?M 0 False (H_run 1) []" 1 1 "[IPI_RESCHEDULE]" False lines_sbi] in
        \<open>simp_all add: one_message_def serve_ops_def IPI_MAX_def\<close>)
  ultimately have "run_moves lines_sbi (\<lambda>c f. f c) (\<lambda>_. 2) 1 (one_idle (?M 1 True H_out []) Waiting 0) (Suc (Suc (Suc (Suc (Suc (Suc 0))))))
      (one_idle (?M 0 False H_loop [(1, IPI_RESCHEDULE)]) Running 2)"
    by (meson start own)
  then show ?thesis by (simp add: numeral_eq_Suc)
qed

theorem message_wakes_idle_witness:
  "serves (one_idle (one_message 1 True S_idle H_out []) Waiting 0)
    (one_idle (one_message 0 False S_idle H_loop [(1, IPI_RESCHEDULE)]) Running 2) 1 IPI_RESCHEDULE"
  using message_wakes_idle [OF lines_contract _ one_message_sent _ _ _ one_message_served, of IPI_RESCHEDULE]
  by (simp add: idle_start_def ipi_init_def fun_eq_iff SSIE_def arch_irqs_disabled_flags_def SR_IE_def)

section \<open>Printing registers\<close>

text \<open>\<^verbatim>\<open>REG_FMT\<close>: as many hexadecimal digits as a register has.\<close>

definition hex_char :: "nat \<Rightarrow> char" where
  "hex_char n = ''0123456789abcdef'' ! n"

definition reg_fmt :: "'w::len word \<Rightarrow> string" where
  "reg_fmt w = map (\<lambda>i. hex_char (unat (take_bit 4 (drop_bit (4 * i) w)))) (rev [0..<LENGTH('w) div 4])"

definition print_line :: "(string \<times> 'w::len word) list \<Rightarrow> string" where
  "print_line xs = concat (map (\<lambda>(l, v). l @ reg_fmt v) xs) @ [CHR 0x0A]"

text \<open>The calls of \<^verbatim>\<open>printk\<close>, behind \<^verbatim>\<open>show_regs_print_info\<close>.\<close>

definition show_regs :: "string list \<Rightarrow> 'w::len word pt_regs \<Rightarrow> string list" where
  "show_regs info regs = info @
    [print_line [(''sepc: '', sepc regs), ('' ra : '', ra regs), ('' sp : '', sp regs)],
     print_line [('' gp : '', gp regs), ('' tp : '', tp regs), ('' t0 : '', t0 regs)],
     print_line [('' t1 : '', t1 regs), ('' t2 : '', t2 regs), ('' s0 : '', s0 regs)],
     print_line [('' s1 : '', s1 regs), ('' a0 : '', a0 regs), ('' a1 : '', a1 regs)],
     print_line [('' a2 : '', a2 regs), ('' a3 : '', a3 regs), ('' a4 : '', a4 regs)],
     print_line [('' a5 : '', a5 regs), ('' a6 : '', a6 regs), ('' a7 : '', a7 regs)],
     print_line [('' s2 : '', s2 regs), ('' s3 : '', s3 regs), ('' s4 : '', s4 regs)],
     print_line [('' s5 : '', s5 regs), ('' s6 : '', s6 regs), ('' s7 : '', s7 regs)],
     print_line [('' s8 : '', s8 regs), ('' s9 : '', s9 regs), ('' s10: '', s10 regs)],
     print_line [('' s11: '', s11 regs), ('' t3 : '', t3 regs), ('' t4 : '', t4 regs)],
     print_line [('' t5 : '', t5 regs), ('' t6 : '', t6 regs)],
     print_line [(''sstatus: '', sstatus regs), ('' sbadaddr: '', sbadaddr regs), ('' scause: '', scause regs)]]"

lemma hex_char_inj:
  assumes "hex_char m = hex_char n" "m < 16" "n < 16"
  shows "m = n"
proof -
  have "distinct ''0123456789abcdef''" by code_simp
  then show ?thesis using assms by (simp add: hex_char_def nth_eq_iff_index_eq)
qed

lemma reg_fmt_eq [simp]:
  fixes v w :: "'w::len word"
  assumes "4 dvd LENGTH('w)"
  shows "reg_fmt v = reg_fmt w \<longleftrightarrow> v = w"
proof
  assume e: "reg_fmt v = reg_fmt w"
  have nib: "take_bit 4 (drop_bit (4 * i) v) = take_bit 4 (drop_bit (4 * i) w)" if "i < LENGTH('w) div 4" for i
  proof -
    have "unat (take_bit 4 x) < 16" for x :: "'w word" by (simp add: unat_take_bit_word)
    moreover have "hex_char (unat (take_bit 4 (drop_bit (4 * i) v))) = hex_char (unat (take_bit 4 (drop_bit (4 * i) w)))"
      using e that unfolding reg_fmt_def by (subst (asm) map_eq_conv) simp
    ultimately show ?thesis using hex_char_inj by (metis word_unat_eq_iff)
  qed
  show "v = w"
  proof (rule bit_word_eqI)
    fix n assume n: "n < LENGTH('w)"
    then have "n div 4 < LENGTH('w) div 4" using assms by (simp add: less_mult_imp_div_less)
    from nib [OF this] have "bit (take_bit 4 (drop_bit (4 * (n div 4)) v)) (n mod 4) = bit (take_bit 4 (drop_bit (4 * (n div 4)) w)) (n mod 4)"
      by simp
    then show "bit v n = bit w n" by (simp add: bit_take_bit_iff bit_drop_bit_eq)
  qed
qed simp

lemma print_line_eq:
  fixes xs ys :: "(string \<times> 'w::len word) list"
  assumes "4 dvd LENGTH('w)" and "map fst xs = map fst ys"
  shows "print_line xs = print_line ys \<longleftrightarrow> map snd xs = map snd ys"
proof -
  have len: "length (reg_fmt v) = LENGTH('w) div 4" for v :: "'w word" by (simp add: reg_fmt_def)
  have "concat (map (\<lambda>(l, v). l @ reg_fmt v) xs) = concat (map (\<lambda>(l, v). l @ reg_fmt v) ys) \<longleftrightarrow> map snd xs = map snd ys"
    using assms(2)
  proof (induction xs arbitrary: ys)
    case (Cons x xs)
    then obtain y ys' where "ys = y # ys'" "fst x = fst y" "map fst xs = map fst ys'" by (cases ys) auto
    then show ?case using Cons.IH [of ys'] assms(1) by (cases x, cases y) (simp add: len)
  qed simp
  then show ?thesis by (simp add: print_line_def)
qed

text \<open>What is printed tells every register.\<close>

theorem show_regs_tells_all:
  fixes regs regs' :: "'w::len word pt_regs"
  assumes "4 dvd LENGTH('w)"
  shows "show_regs info regs = show_regs info regs' \<longleftrightarrow> regs = regs'"
  by (rule iffI, rule pt_regs.equality) (simp_all add: show_regs_def print_line_eq [OF assms])

theorem show_regs_tells_all_witness:
  "show_regs [] (words_regs (replicate 35 (7 :: u32))) \<noteq> show_regs [] (words_regs (replicate 34 7 @ [8 :: u32]))"
proof -
  have "words_regs (replicate 35 (7 :: u32)) \<noteq> words_regs (replicate 34 7 @ [8])"
    by (simp add: words_regs_def nth_append)
  then show ?thesis
    using show_regs_tells_all [of "[]" "words_regs (replicate 35 (7 :: u32))" "words_regs (replicate 34 7 @ [8])"] by simp
qed

end
