(* ===== verification/Spec2Isabelle.thy ===== *)
theory Spec2Isabelle
  imports Div64 ConfigScan PageTable Regs Traps Fault Spinlock Signal Uart Frenox
    RawIo Ipi Timer Stacktrace SysRiscv WordOps Irq Boot Atomic64 Flash Switch SmpBoot
    PageWalk64 Shootdown SetupArch ConfigDriver Console UserFault AddressSpace Process
begin

text \<open>
  A verification development for the RISC-V port of Linux under \<^verbatim>\<open>src/arch/riscv\<close>: the
  low-level code between the hardware and the kernel proper, and the drivers of the boards it
  was made for. All file names below are relative to that directory.

  \<^bold>\<open>The program and its parts.\<close> All harts start in \<^verbatim>\<open>kernel/head.S\<close>; one boots the kernel
  and lets the others in by \<^verbatim>\<open>kernel/smpboot.c\<close>. At boot \<^verbatim>\<open>kernel/setup.c\<close> learns the
  memory from the firmware and \<^verbatim>\<open>drivers/config.c\<close> parses the configuration string of the platform and makes
  devices of it, which the drivers are then probed with. \<^verbatim>\<open>kernel/entry.S\<close> saves the registers
  of an interrupted context in a \<^verbatim>\<open>pt_regs\<close> and dispatches by cause: interrupts to
  \<^verbatim>\<open>kernel/irq.c\<close> and from there to the timer, to \<^verbatim>\<open>kernel/smp.c\<close> or to \<^verbatim>\<open>drivers/plic.c\<close>;
  exceptions to \<^verbatim>\<open>kernel/traps.c\<close> and \<^verbatim>\<open>mm/fault.c\<close>; system calls to their table; on the way
  back to the user it calls \<^verbatim>\<open>kernel/signal.c\<close>. Tasks are made by \<^verbatim>\<open>kernel/process.c\<close>
  and switched in \<^verbatim>\<open>kernel/entry.S\<close>; harts send each other messages, flush each other's
  translations and wait for interrupts when they have nothing to do. \<^verbatim>\<open>include/asm\<close> and \<^verbatim>\<open>lib\<close> hold what the
  kernel proper uses of the machine: page tables, atomic counters, locks, bit operations, access
  to user memory, time, 64-bit arithmetic on 32-bit machines.

  \<^bold>\<open>Theories and code.\<close>
  \<^item> \<open>Prelude\<close>: machine words, bit lemmas and the contract \<open>stepping\<close> of an invariant of a step
    relation, which \<open>Spinlock\<close>, \<open>Ipi\<close>, \<open>Process\<close>, \<open>RawIo\<close>, \<open>MemMaps\<close>, \<open>Shootdown\<close>,
    \<open>SmpBoot\<close> and \<open>Switch\<close> fulfil.
  \<^item> \<open>Reciprocal\<close>, \<open>Div64\<close>: \<^verbatim>\<open>include/asm/div64.h\<close>; the division by a constant is
    proved equal to 64-bit division, the generic one has the documented contract. \<open>WordOps\<close>: the
    64-bit shifts of \<^verbatim>\<open>lib\<close> and \<^verbatim>\<open>word-at-a-time.h\<close>.
  \<^item> \<open>ConfigLex\<close>: the lexer and the value decoders of \<^verbatim>\<open>drivers/config.c\<close>;
    \<open>ConfigFind\<close>: \<^verbatim>\<open>find_key\<close> and the accessors, against a tree of keys and values;
    \<open>ConfigDevices\<close>: the parser state, \<^verbatim>\<open>parse_config_string\<close> and
    \<^verbatim>\<open>config_find_devices\<close>, with relations that a walk keeps as the locales \<open>walk_blocks\<close>
    and \<open>walk_order\<close>;
    \<open>ConfigPasses\<close>: the relation between two passes over one text, as the locale \<open>pass_pair\<close>;
    \<open>ConfigScan\<close>: the buffers and the block of devices; \<open>ConfigWindows\<close>: the part of the text
    that belongs to a device, where it starts and that devices start in the order of the text, as
    instances of these; \<open>ConfigDriver\<close>:
    \<^verbatim>\<open>kernel/platform.c\<close> and the driver of the string with its files, from probe to removal.
  \<^item> \<open>PageTable\<close>: entries, protections, swap entries and directories of
    \<^verbatim>\<open>include/asm/pgtable*.h\<close>, \<^verbatim>\<open>page.h\<close> and \<^verbatim>\<open>pgalloc.h\<close>; \<open>Radix\<close>: trees of tables
    in memory with any number of levels, as the locale \<open>radix\<close>; \<open>PageWalk\<close>, \<open>PageWalk64\<close>: its
    two instances, the two levels of the 32-bit machine and the three of the 64-bit one, against
    the partial function from pages to entries; \<open>AddressSpace\<close>: the tables of a process from
    \<^verbatim>\<open>pgd_alloc\<close> to \<^verbatim>\<open>pgd_free\<close> with the pages they take, the free ones counted as a multiset;
    \<open>MemMaps\<close>:
    \<^verbatim>\<open>mm/ioremap.c\<close>, \<^verbatim>\<open>kernel/vdso.c\<close>, \<^verbatim>\<open>mmu_context.h\<close> and the local
    flushes of \<^verbatim>\<open>tlbflush.h\<close>; \<open>Shootdown\<close>: the flushes of all harts.
  \<^item> \<open>Boot\<close>: the operations of \<^verbatim>\<open>kernel/setup.c\<close> with parts of \<^verbatim>\<open>mm/init.c\<close> and
    \<^verbatim>\<open>kernel/smpboot.c\<close>; \<open>SetupArch\<close>: their order in \<^verbatim>\<open>setup_arch\<close>; \<open>SmpBoot\<close>:
    \<^verbatim>\<open>kernel/head.S\<close>, \<^verbatim>\<open>__cpu_up\<close> and \<^verbatim>\<open>smp_callin\<close> as steps of the harts;
    \<open>MemOps\<close>: \<^verbatim>\<open>lib/memset.S\<close> and \<^verbatim>\<open>lib/memcpy.S\<close>, whose loops share the locale
    \<open>block_loop\<close>; \<open>Console\<close>: \<^verbatim>\<open>kernel/sbi-con.c\<close>, \<^verbatim>\<open>kernel/cpu.c\<close> and
    \<^verbatim>\<open>kernel/reset.c\<close>.
  \<^item> \<open>Regs\<close>: \<^verbatim>\<open>csr.h\<close>, \<^verbatim>\<open>irqflags.h\<close>, \<^verbatim>\<open>ptrace.h\<close>,
    \<^verbatim>\<open>syscall.h\<close>, \<^verbatim>\<open>switch_to.h\<close>, \<^verbatim>\<open>kernel/process.c\<close> and
    \<^verbatim>\<open>kernel/ptrace.c\<close>, with the two floating-point routines of \<^verbatim>\<open>kernel/entry.S\<close>, whose bodies
    are commented out there.
  \<^item> \<open>Machine\<close>: the instructions and registers that the assembly files use; \<open>Entry\<close>:
    \<^verbatim>\<open>kernel/entry.S\<close> from the trap to \<^verbatim>\<open>sret\<close>, against the effect of the handlers on the
    saved registers, with the tracing of \<^verbatim>\<open>kernel/ptrace.c\<close>; \<open>Switch\<close>: \<^verbatim>\<open>__switch_to\<close>
    and the first steps of the tasks of \<^verbatim>\<open>copy_thread\<close>.
  \<^item> \<open>Traps\<close>: \<^verbatim>\<open>kernel/traps.c\<close>, \<^verbatim>\<open>mm/extable.c\<close>, the dispatch of
    \<^verbatim>\<open>kernel/entry.S\<close> and \<^verbatim>\<open>BUG()\<close> as the trap it is with \<^verbatim>\<open>CONFIG_GENERIC_BUG\<close>; \<open>Fault\<close>:
    \<^verbatim>\<open>mm/fault.c\<close> with its retry and its \<^verbatim>\<open>BUG()\<close>; \<open>Stacktrace\<close>:
    \<^verbatim>\<open>kernel/stacktrace.c\<close> in both builds.
  \<^item> \<open>Irq\<close>: \<^verbatim>\<open>kernel/irq.c\<close> and \<^verbatim>\<open>drivers/plic.c\<close>; \<open>Ipi\<close>: \<^verbatim>\<open>kernel/smp.c\<close> as
    steps of senders and handlers, in which no message is overwritten; \<open>Process\<close>: the rest of \<^verbatim>\<open>kernel/process.c\<close>, above all harts
    that idle until a message comes; \<open>Timer\<close>: \<^verbatim>\<open>timex.h\<close>, \<^verbatim>\<open>kernel/time.c\<close> and
    \<^verbatim>\<open>lib/delay.c\<close>.
  \<^item> \<open>Signal\<close>: \<^verbatim>\<open>kernel/signal.c\<close> and the system call path of \<^verbatim>\<open>entry.S\<close>;
    \<open>Uaccess\<close>: \<^verbatim>\<open>uaccess.h\<close> and \<^verbatim>\<open>lib/uaccess.S\<close>, whose two routines share the locale
    \<open>unit_loop\<close>; \<open>UserFault\<close>: one load and one store of \<^verbatim>\<open>uaccess.h\<close> as instructions, with
    the faults they take through \<open>Entry\<close> and \<open>Fault\<close>; \<open>SysRiscv\<close>: \<^verbatim>\<open>kernel/sys_riscv.c\<close> on top of it.
  \<^item> \<open>Atomics\<close>, \<open>Atomic64\<close>: \<^verbatim>\<open>atomic.h\<close>, \<^verbatim>\<open>atomic64.h\<close>, \<^verbatim>\<open>cmpxchg.h\<close> and
    \<^verbatim>\<open>bitops.h\<close>; \<open>Spinlock\<close>: both locks of \<^verbatim>\<open>spinlock.h\<close> as steps of harts over
    one memory word.
  \<^item> \<open>Driver\<close>: what the memory-mapped drivers share, with the locale \<open>sender\<close>;
    \<open>Uart\<close>: \<^verbatim>\<open>drivers/uart.c\<close>; \<open>Frenox\<close>: \<^verbatim>\<open>drivers/frenox_eth.c\<close>; \<open>Flash\<close>:
    \<^verbatim>\<open>drivers/flash.c\<close>; \<open>RawIo\<close>: \<^verbatim>\<open>drivers/rawio.c\<close> with its linked list in an explicit
    store.

  \<^bold>\<open>How the code is modelled.\<close> Structures are records, machine integers are words of their
  width (\<^typ>\<open>'w::len word\<close> where the width of \<^verbatim>\<open>unsigned long\<close> matters for none of the
  definitions; the theories that need one width take the 32-bit machine of the shipped
  configuration), pointers into a text are the rest of the text, buffers are lists with an error
  value for an access outside them, and other memory is a function from addresses. A function
  returns the new state with its result. Calls to the kernel proper are parameters or, where only
  their order matters, a list of events. A loop of \<^verbatim>\<open>lr\<close> and \<^verbatim>\<open>sc\<close> runs against a list of
  rounds or is a step relation of harts; a loop that waits for a device is a partial function over
  the history of the accesses. Assembly runs on the 32-bit machine of \<open>Machine\<close>: a straight piece
  of code is a list of instructions over the registers and a memory of words, a label is a function
  on the machine, and the C functions it calls are a parameter that keeps the calling convention
  (\<open>c_contract\<close>). The byte routines and the copies from and to the user work on a memory of bytes.
  Harts that share memory are step relations over all of them, with a label for the hart that moves
  where a property counts its moves.

  \<^bold>\<open>What the lemmas show.\<close> Functional correctness of the arithmetic, the decoders, lookups,
  entries and handlers; round trips of strings, swap entries and signal frames; refinement of
  trees, lists and page tables; invariants of the locks, messages, interrupts, lists and
  translations under every interleaving; that a pass over the configuration stays within the
  buffers another pass measured, a walk on its stack and a write of the kernel for a user below
  the user's limit; that the whole path of a trap through the assembly changes exactly what the
  handlers change, that a task resumes with what it had, that no page of an address space is lost or freed twice
  and no stale translation survives a flush; that a hart that is started or sent a message gets
  there in every schedule in which it moves; that the drivers never overrun their device and return if it responds; and
  where the code does not do what it means to, a theorem that shows what it does.

  \<^bold>\<open>Bounds and fuel.\<close> The lexer functions are structurally recursive. \<open>find_key_fuel\<close> and
  \<open>parse_config_string\<close> recurse by fuel; \<^verbatim>\<open>find_key\<close> passes the length of the text and the
  key and \<^verbatim>\<open>config_find_devices\<close> \<open>3 * length + 3\<close>, and the value for exhausted fuel is
  proved unreachable (\<open>find_key_total\<close>, \<open>config_find_devices_fits\<close>). The retry of
  \<^verbatim>\<open>do_page_fault\<close> is bounded by two attempts, which is proved of the model. The recursion over
  the boot page tables is given the two levels they have (\<open>boot_tables_reserved\<close>). The copy loops
  are partial functions, proved to end; the two stores of \<^verbatim>\<open>__put_user_8\<close> are run by \<open>while_option\<close>,
  since they do not end when the second one faults, which is proved of them. The six moves of \<open>message_wakes_idle\<close> are the longest way
  from \<^verbatim>\<open>wfi\<close> to the message.

  \<^bold>\<open>Not modelled.\<close> Memory ordering (barriers are no steps); the calls into the firmware in
  \<^verbatim>\<open>kernel/sbi.S\<close>, whose effects are parameters with a contract, and the vDSO image; messages to
  the log other than those named above; registration tables, operation structures and macros without
  behaviour, such as the table of system calls; the headers that only select a generic
  implementation or declare what other files define; what belongs to the kernel proper (scheduler,
  memory core, driver core, generic interrupt layer), which appears as parameters, events or the
  order of uses it makes of the code here.
\<close>

end
